(* ===== verification/Cflare_Prelude.thy ===== *)
theory Cflare_Prelude
  imports Main "HOL-Library.Word"
begin

unbundle bit_operations_syntax

text \<open>
  What every component shares: the faults a C operation can end in, the result type that
  carries them, null-terminated strings, and the rounding of an integer to the significand
  of a floating-point number.

  A C function of the repository is a HOL function into \<open>fault + 'a\<close>. \<open>Inl\<close> stands for
  every way a call fails to return: a failed \<open>assert\<close>, \<open>cflare_fatal\<close> (which aborts), and
  the undefined behaviours the code can run into (a null or dangling pointer, an access
  outside a block, a division by zero, a conversion that does not fit), and \<open>Blocked\<close> for a call
  that waits for ever. A return value that reports failure (\<open>false\<close>, \<open>NULL\<close>, \<open>0\<close>) is an ordinary value under \<open>Inr\<close>.
\<close>

section \<open>Results\<close>

datatype fault =
    Assert_failed
  | Fatal string
  | Null_deref
  | Dangling
  | Out_of_bounds
  | Div_by_zero
  | Int_overflow
  | Out_of_fuel
  | Blocked

type_synonym 'a res = "fault + 'a"

definition bindE :: "'a res \<Rightarrow> ('a \<Rightarrow> 'b res) \<Rightarrow> 'b res" where
  "bindE m f = (case m of Inl e \<Rightarrow> Inl e | Inr x \<Rightarrow> f x)"

definition assertE :: "bool \<Rightarrow> fault \<Rightarrow> unit res" where
  "assertE b e = (if b then Inr () else Inl e)"

definition derefE :: "'a option \<Rightarrow> fault \<Rightarrow> 'a res" where
  "derefE p e = (case p of None \<Rightarrow> Inl e | Some x \<Rightarrow> Inr x)"

lemma bindE_Inl [simp]: "bindE (Inl e) f = Inl e"
  by (simp add: bindE_def)

lemma bindE_Inr [simp]: "bindE (Inr x) f = f x"
  by (simp add: bindE_def)

lemma bindE_cong [fundef_cong]:
  "m = m' \<Longrightarrow> (\<And>x. m' = Inr x \<Longrightarrow> f x = f' x) \<Longrightarrow> bindE m f = bindE m' f'"
  by (cases m') simp_all

lemma bindE_eq_Inr [simp]: "bindE m f = Inr y \<longleftrightarrow> (\<exists>x. m = Inr x \<and> f x = Inr y)"
  by (cases m) simp_all

lemma bindE_eq_Inl:
  "bindE m f = Inl e \<longleftrightarrow> m = Inl e \<or> (\<exists>x. m = Inr x \<and> f x = Inl e)"
  by (cases m) auto

lemma bindE_assoc: "bindE (bindE m f) g = bindE m (\<lambda>x. bindE (f x) g)"
  by (cases m) simp_all

lemma assertE_eq_Inr [simp]: "assertE b e = Inr u \<longleftrightarrow> b"
  by (simp add: assertE_def)

lemma assertE_True [simp]: "assertE True e = Inr ()"
  by (simp add: assertE_def)

lemma assertE_False [simp]: "assertE False e = Inl e"
  by (simp add: assertE_def)

lemma derefE_Some [simp]: "derefE (Some x) e = Inr x"
  by (simp add: derefE_def)

lemma derefE_None [simp]: "derefE None e = Inl e"
  by (simp add: derefE_def)

lemma derefE_eq_Inr [simp]: "derefE p e = Inr x \<longleftrightarrow> p = Some x"
  by (cases p) simp_all

text \<open>The conversion of a \<open>size_t\<close> or \<open>ssize_t\<close> that is not negative to a 32-bit signed integer.\<close>

definition to_int32 :: "nat \<Rightarrow> int" where
  "to_int32 n = (let m = n mod 2 ^ 32 in if m < 2 ^ 31 then int m else int m - 2 ^ 32)"

lemma to_int32_small: "n < 2 ^ 31 \<Longrightarrow> to_int32 n = int n"
  by (simp add: to_int32_def)

text \<open>Testing a flag.\<close>

lemma and_push_bit: "((w :: 'a :: len word) AND push_bit n 1 \<noteq> 0) = bit w n"
  by (simp add: push_bit_eq_mult and_exp_eq_0_iff_not_bit)

section \<open>Pointers and deleter calls\<close>

text \<open>
  An address names an allocated block; a nullable pointer is an \<open>addr option\<close>. A
  \<open>cflare_deleter\<close> is a function pointer, and every call of one is recorded as the triple of
  the function, its context argument and the data it was given, in the order of the calls.
\<close>

type_synonym addr = nat
type_synonym ptr = "addr option"
type_synonym 'a deleter_call = "addr \<times> ptr \<times> 'a"

definition call_deleter :: "ptr \<Rightarrow> ptr \<Rightarrow> 'a \<Rightarrow> 'a deleter_call list" where
  "call_deleter f ctx x = (case f of None \<Rightarrow> [] | Some g \<Rightarrow> [(g, ctx, x)])"

lemma call_deleter_None [simp]: "call_deleter None ctx x = []"
  by (simp add: call_deleter_def)

lemma call_deleter_Some [simp]: "call_deleter (Some g) ctx x = [(g, ctx, x)]"
  by (simp add: call_deleter_def)

lemma call_deleter_inject:
  "call_deleter f ctx = call_deleter (Some g) ctx' \<longleftrightarrow> f = Some g \<and> ctx = ctx'"
  by (cases f) (auto simp: fun_eq_iff)

lemma concat_call_deleter [simp]:
  "concat (map (call_deleter (Some f) ctx) xs) = map (\<lambda>x. (f, ctx, x)) xs"
  "concat (map (call_deleter None ctx) xs) = []"
  by (induction xs) simp_all

section \<open>Changing one element of a list\<close>

lemma length_filter_update:
  "i < length xs \<Longrightarrow> length (filter P (xs[i := y])) + (if P (xs ! i) then 1 else 0) =
    length (filter P xs) + (if P y then 1 else 0)"
proof (induction xs arbitrary: i)
  case (Cons x xs)
  then show ?case using Cons.IH [of "i - 1"] by (cases i) auto
qed simp

lemma sum_list_map_update:
  "i < length xs \<Longrightarrow> sum_list (map f (xs[i := y])) + f (xs ! i) = sum_list (map f xs) + (f y :: nat)"
proof (induction xs arbitrary: i)
  case (Cons x xs)
  then show ?case using Cons.IH [of "i - 1"] by (cases i) auto
qed simp

lemma all_update: "i < length xs \<Longrightarrow> (\<forall>j < length xs. P j (xs[i := y] ! j)) \<longleftrightarrow> P i y \<and> (\<forall>j < length xs. j \<noteq> i \<longrightarrow> P j (xs ! j))"
  by (auto simp: nth_list_update)

section \<open>Null-terminated strings\<close>

text \<open>
  A \<open>char\<close> is a byte. \<open>cstr\<close> reads the string that starts a block: the characters before the
  first null byte, or an access outside the block where there is none. \<open>strlen\<close>, \<open>strdup\<close> and
  the functions built on them read a block this way.
\<close>

abbreviation NUL :: char where "NUL \<equiv> CHR 0x00"
abbreviation CR :: char where "CR \<equiv> CHR 0x0D"
abbreviation LF :: char where "LF \<equiv> CHR 0x0A"
abbreviation TAB :: char where "TAB \<equiv> CHR 0x09"

definition cstr :: "string \<Rightarrow> string res" where
  "cstr block = (if NUL \<in> set block then Inr (takeWhile (\<lambda>c. c \<noteq> NUL) block)
                 else Inl Out_of_bounds)"

lemma takeWhile_not_NUL: "NUL \<notin> set s \<Longrightarrow> takeWhile (\<lambda>c. c \<noteq> NUL) (s @ NUL # rest) = s"
  by (induction s) auto

lemma cstr_terminated: "NUL \<notin> set s \<Longrightarrow> cstr (s @ NUL # rest) = Inr s"
  by (simp add: cstr_def takeWhile_not_NUL)

lemma cstr_unterminated: "NUL \<notin> set s \<Longrightarrow> cstr s = Inl Out_of_bounds"
  by (simp add: cstr_def)

section \<open>Blocks of bytes\<close>

text \<open>
  A heap block is the list of its bytes. Reading and writing outside it is a fault. The bytes of
  a fresh block are indeterminate: \<open>malloc\<close> takes them from an arbitrary function, so what is proved
  for every function holds whatever the allocator returns.
\<close>

definition read_at :: "string \<Rightarrow> nat \<Rightarrow> char res" where
  "read_at block i = (if i < length block then Inr (block ! i) else Inl Out_of_bounds)"

definition write_at :: "string \<Rightarrow> nat \<Rightarrow> char \<Rightarrow> string res" where
  "write_at block i c = (if i < length block then Inr (block[i := c]) else Inl Out_of_bounds)"

definition memcpy_at :: "string \<Rightarrow> nat \<Rightarrow> string \<Rightarrow> string res" where
  "memcpy_at block i s = (if i + length s \<le> length block
     then Inr (take i block @ s @ drop (i + length s) block) else Inl Out_of_bounds)"

definition malloc :: "(nat \<Rightarrow> char) \<Rightarrow> nat \<Rightarrow> string" where
  "malloc junk n = map junk [0..<n]"

definition realloc :: "(nat \<Rightarrow> char) \<Rightarrow> string \<Rightarrow> nat \<Rightarrow> string" where
  "realloc junk block n = take n block @ map junk [length block..<n]"

lemma length_malloc [simp]: "length (malloc junk n) = n"
  by (simp add: malloc_def)

lemma length_realloc [simp]: "length (realloc junk block n) = n"
  by (simp add: realloc_def)

lemma take_realloc: "n \<le> length block \<Longrightarrow> length block \<le> m \<Longrightarrow> take n (realloc junk block m) = take n block"
  by (simp add: realloc_def)

lemma read_at_less [simp]: "i < length block \<Longrightarrow> read_at block i = Inr (block ! i)"
  by (simp add: read_at_def)

lemma write_at_less [simp]: "i < length block \<Longrightarrow> write_at block i c = Inr (block[i := c])"
  by (simp add: write_at_def)

lemma take_Suc_update: "n < length block \<Longrightarrow> take (Suc n) (block[n := c]) = take n block @ [c]"
  by (simp add: take_Suc_conv_app_nth)

section \<open>Character classes\<close>

text \<open>The character classes of \<open>ctype.h\<close> in the C locale.\<close>

definition isspace :: "char \<Rightarrow> bool" where
  "isspace c = (c \<in> {CHR '' '', TAB, LF, CHR 0x0B, CHR 0x0C, CR})"

definition isdigit :: "char \<Rightarrow> bool" where
  "isdigit c = (48 \<le> (of_char c :: nat) \<and> (of_char c :: nat) \<le> 57)"

definition isupper :: "char \<Rightarrow> bool" where
  "isupper c = (65 \<le> (of_char c :: nat) \<and> (of_char c :: nat) \<le> 90)"

definition islower :: "char \<Rightarrow> bool" where
  "islower c = (97 \<le> (of_char c :: nat) \<and> (of_char c :: nat) \<le> 122)"

definition isalpha :: "char \<Rightarrow> bool" where
  "isalpha c = (isupper c \<or> islower c)"

definition tolower :: "char \<Rightarrow> char" where
  "tolower c = (if isupper c then char_of ((of_char c :: nat) + 32) else c)"

lemma of_char_tolower:
  "(of_char (tolower c) :: nat) = (if isupper c then of_char c + 32 else of_char c)"
  by (auto simp: tolower_def isupper_def)

lemma tolower_idem [simp]: "tolower (tolower c) = tolower c"
  by (auto simp: tolower_def isupper_def)

lemma isalpha_tolower [simp]: "isalpha (tolower c) = isalpha c"
  by (auto simp: isalpha_def isupper_def islower_def of_char_tolower)

lemma tolower_NUL [simp]: "tolower c = NUL \<longleftrightarrow> c = NUL"
proof -
  have "(of_char (tolower c) :: nat) = 0 \<longleftrightarrow> (of_char c :: nat) = 0"
    by (auto simp: of_char_tolower isupper_def)
  then have "(of_char (tolower c) :: nat) = of_char NUL \<longleftrightarrow> (of_char c :: nat) = of_char NUL"
    by simp
  then show ?thesis by (simp only: of_char_eq_iff)
qed

section \<open>Reading lines\<close>

text \<open>\<open>fgets\<close>: up to \<open>n - 1\<close> characters, up to and with a newline, and a terminator after them.\<close>

fun fgets_chars :: "nat \<Rightarrow> string \<Rightarrow> string \<times> string" where
  "fgets_chars 0 file = ([], file)"
| "fgets_chars (Suc n) [] = ([], [])"
| "fgets_chars (Suc n) (c # file) =
     (if c = LF then ([c], file)
      else case fgets_chars n file of (s, rest) \<Rightarrow> (c # s, rest))"

lemma fgets_chars_length: "length (fst (fgets_chars n input)) + length (snd (fgets_chars n input)) = length input"
  by (induction n input rule: fgets_chars.induct) (auto split: prod.split)

lemma fgets_chars_shorter:
  "(s, rest) = fgets_chars n input \<Longrightarrow> s \<noteq> [] \<Longrightarrow> length rest < length input"
  using fgets_chars_length [of n input] by (cases "fgets_chars n input"; cases s) auto

definition max_line_length :: nat where "max_line_length = 1024"

end
