(* ===== verification/Util.thy ===== *)
theory Util
  imports Cflare_Prelude
begin

text \<open>
  The portable helpers of \<open>src/cflare/util.c\<close>: \<open>cflare_tointeger\<close> and
  \<open>cflare_string_concat_n_c\<close>.

  \<open>cflare_tointeger\<close> adds up \<open>pow(base, b) * n\<close> into an \<open>int64_t\<close>, so every step converts the sum
  to a \<open>double\<close>, adds and converts back. The model writes the two roundings out: \<open>round53\<close> rounds a
  natural number to 53 significant bits, ties to even. \<open>pow\<close> and the product by a digit are
  exact wherever they are below \<open>2 ^ 63\<close>, for the bases 2, 10 and 16. A sum that does not fit in an
  \<open>int64_t\<close>, or a power that does not fit in a \<open>double\<close>, makes the conversion undefined.
\<close>

section \<open>Rounding to a double\<close>

fun bit_length :: "nat \<Rightarrow> nat" where
  "bit_length n = (if n = 0 then 0 else Suc (bit_length (n div 2)))"

declare bit_length.simps [simp del]

definition round53 :: "nat \<Rightarrow> nat" where
  "round53 x =
     (if x < 2 ^ 53 then x
      else let e = bit_length x - 53; q = x div 2 ^ e; r = x mod 2 ^ e; h = 2 ^ (e - 1)
           in (if r > h \<or> r = h \<and> odd q then q + 1 else q) * 2 ^ e)"

lemma round53_exact [simp]: "x < 2 ^ 53 \<Longrightarrow> round53 x = x"
  by (simp add: round53_def)

definition double_limit :: nat where
  "double_limit = 2 ^ 1024 - 2 ^ 970"

section \<open>Integers from strings\<close>

definition char_to_number :: "char \<Rightarrow> int" where
  "char_to_number x = (let c = (of_char x :: int) in
     if 48 \<le> c \<and> c \<le> 57 then c - 48
     else if 97 \<le> c \<and> c \<le> 122 then 10 + (c - 97)
     else if 65 \<le> c \<and> c \<le> 90 then 10 + (c - 65)
     else -1)"

text \<open>\<open>ret += pow(base, b) * n\<close>, with \<open>ret\<close> an \<open>int64_t\<close>.\<close>

definition add_digit :: "nat \<Rightarrow> nat \<Rightarrow> nat \<Rightarrow> nat \<Rightarrow> nat res" where
  "add_digit base b n ret =
     (if base ^ b \<ge> double_limit then Inl Int_overflow
      else let sum = round53 (round53 ret + base ^ b * n)
           in if sum < 2 ^ 63 then Inr sum else Inl Int_overflow)"

text \<open>The loop over the remaining digits; \<open>b\<close> is \<open>len - 1 - i\<close>. \<open>None\<close> is the result \<open>false\<close>.\<close>

fun digits_loop :: "nat \<Rightarrow> string \<Rightarrow> nat \<Rightarrow> nat option res" where
  "digits_loop base [] ret = Inr (Some ret)"
| "digits_loop base (c # cs) ret =
     (let n = char_to_number c in
      bindE (assertE (n \<ge> 0) Assert_failed) (\<lambda>_.
        if n \<ge> int base then Inr None
        else bindE (add_digit base (length cs) (nat n) ret) (digits_loop base cs)))"

definition strip_sign :: "string \<Rightarrow> int \<times> string" where
  "strip_sign s = (case s of
       [] \<Rightarrow> (1, [])
     | c # cs \<Rightarrow> if c = CHR ''-'' \<or> c = CHR ''+''
                 then (if c = CHR ''+'' then 1 else -1, cs) else (1, s))"

definition strip_base :: "string \<Rightarrow> nat \<times> string" where
  "strip_base s = (case s of
       z # cb # cs \<Rightarrow>
         if z = CHR ''0''
         then (if cb = CHR ''x'' then (16, cs)
               else if cb = CHR ''b'' then (2, cs)
               else (10, s))
         else (10, s)
     | _ \<Rightarrow> (10, s))"

definition cflare_tointeger :: "string \<Rightarrow> int option res" where
  "cflare_tointeger block =
     bindE (cstr block) (\<lambda>str.
       if length str = 0 then Inr None
       else let (sign, s1) = strip_sign str; (base, s2) = strip_base s1
            in if length s2 = 0 then Inr None
               else bindE (digits_loop base s2 0) (\<lambda>r.
                 Inr (map_option (\<lambda>ret. sign * int ret) r)))"

section \<open>Concatenation\<close>

text \<open>
  The two passes: the lengths of the arguments, then the copies into one block of the summed
  length and a terminator. The result is the block and the length that goes to \<open>*length\<close>.
\<close>

fun strlens :: "string list \<Rightarrow> string list res" where
  "strlens [] = Inr []"
| "strlens (a # as) = bindE (cstr a) (\<lambda>s. bindE (strlens as) (\<lambda>ss. Inr (s # ss)))"

fun copy_all :: "string \<Rightarrow> nat \<Rightarrow> string list \<Rightarrow> (string \<times> nat) res" where
  "copy_all block ptr [] = Inr (block, ptr)"
| "copy_all block ptr (s # ss) =
     bindE (memcpy_at block ptr s) (\<lambda>block'. copy_all block' (ptr + length s) ss)"

definition cflare_string_concat_n_c :: "(nat \<Rightarrow> char) \<Rightarrow> string list \<Rightarrow> (string \<times> nat) res" where
  "cflare_string_concat_n_c junk args =
     bindE (strlens args) (\<lambda>buffs.
       let total_size = sum_list (map length buffs) in
       bindE (copy_all (malloc junk (total_size + 1)) 0 buffs) (\<lambda>(ret, ptr).
       bindE (write_at ret ptr NUL) (\<lambda>ret'. Inr (ret', total_size))))"

section \<open>What the digits denote\<close>

text \<open>
  \<open>prefix_value base cs\<close>: the value of the longest prefix of \<open>cs\<close> that consists of digits of the
  base, every digit with the weight its place in the whole of \<open>cs\<close> gives it.
\<close>

definition is_digit :: "nat \<Rightarrow> char \<Rightarrow> bool" where
  "is_digit base c = (0 \<le> char_to_number c \<and> char_to_number c < int base)"

fun prefix_value :: "nat \<Rightarrow> string \<Rightarrow> nat" where
  "prefix_value base [] = 0"
| "prefix_value base (c # cs) =
     (if is_digit base c then nat (char_to_number c) * base ^ length cs + prefix_value base cs else 0)"

lemma power_below_limit:
  assumes "base \<le> 16" and "n \<le> 255"
  shows "base ^ n < double_limit"
proof -
  have "base ^ n \<le> 16 ^ n" using assms(1) by (rule power_mono) simp
  also have "\<dots> \<le> (16 :: nat) ^ 255" using assms(2) by (intro power_increasing) simp_all
  also have "\<dots> < double_limit" by (simp add: double_limit_def)
  finally show ?thesis .
qed

lemma add_digit_exact:
  assumes "base \<le> 16" and "b \<le> 255" and "ret + base ^ b * n < 2 ^ 53"
  shows "add_digit base b n ret = Inr (ret + base ^ b * n)"
  using power_below_limit [OF assms(1,2)] assms(3) by (simp add: add_digit_def Let_def)

lemma digits_loop_outcome:
  assumes "base \<le> 16" and "length cs \<le> 256" and "ret + prefix_value base cs < 2 ^ 53"
  shows "digits_loop base cs ret = (case dropWhile (is_digit base) cs of
      [] \<Rightarrow> Inr (Some (ret + prefix_value base cs))
    | c # _ \<Rightarrow> if char_to_number c < 0 then Inl Assert_failed else Inr None)"
  using assms
proof (induction cs arbitrary: ret)
  case (Cons c cs)
  show ?case
  proof (cases "is_digit base c")
    case True
    then have "digits_loop base (c # cs) ret =
        bindE (add_digit base (length cs) (nat (char_to_number c)) ret) (digits_loop base cs)"
      by (simp add: is_digit_def Let_def)
    also have "\<dots> = digits_loop base cs (ret + base ^ length cs * nat (char_to_number c))"
      using Cons.prems True by (subst add_digit_exact) (simp_all add: mult.commute)
    also have "\<dots> = (case dropWhile (is_digit base) cs of
        [] \<Rightarrow> Inr (Some (ret + base ^ length cs * nat (char_to_number c) + prefix_value base cs))
      | c # _ \<Rightarrow> if char_to_number c < 0 then Inl Assert_failed else Inr None)"
      using Cons.prems True by (intro Cons.IH) (simp_all add: mult.commute)
    also have "ret + base ^ length cs * nat (char_to_number c) + prefix_value base cs =
        ret + prefix_value base (c # cs)"
      using True by (simp add: mult.commute)
    finally show ?thesis using True by simp
  next
    case False
    then show ?thesis by (auto simp: is_digit_def Let_def assertE_def)
  qed
qed simp

section \<open>Printing integers\<close>

definition digit_char :: "nat \<Rightarrow> char" where
  "digit_char d = char_of (48 + d)"

fun decimal :: "nat \<Rightarrow> string" where
  "decimal n = (if n < 10 then [digit_char n] else decimal (n div 10) @ [digit_char (n mod 10)])"

declare decimal.simps [simp del]

definition print_int :: "int \<Rightarrow> string" where
  "print_int i = (if i < 0 then CHR ''-'' # decimal (nat (- i)) else decimal (nat i))"

lemma char_to_number_digit [simp]: "d < 10 \<Longrightarrow> char_to_number (digit_char d) = int d"
proof -
  assume "d < 10"
  moreover have "(of_char (digit_char d) :: int) = of_nat (of_char (digit_char d))"
    by (simp only: of_nat_of_char)
  ultimately show ?thesis by (simp add: char_to_number_def digit_char_def)
qed

lemma is_digit_char [simp]: "d < 10 \<Longrightarrow> is_digit 10 (digit_char d)"
  by (simp add: is_digit_def)

lemma prefix_value_append:
  assumes "\<forall>c \<in> set s. is_digit base c"
  shows "prefix_value base (s @ t) = prefix_value base s * base ^ length t + prefix_value base t"
  using assms by (induction s) (simp_all add: algebra_simps power_add)

lemma decimal_digits: "\<forall>c \<in> set (decimal n). is_digit 10 c"
proof (induction n rule: decimal.induct)
  case (1 n)
  show ?case by (subst decimal.simps) (use 1 in auto)
qed

lemma decimal_value: "prefix_value 10 (decimal n) = n"
proof (induction n rule: decimal.induct)
  case (1 n)
  show ?case
  proof (cases "n < 10")
    case True
    then show ?thesis by (subst decimal.simps) simp
  next
    case False
    with 1 show ?thesis
      by (subst decimal.simps) (simp add: prefix_value_append [OF decimal_digits])
  qed
qed

lemma decimal_length: "0 < k \<Longrightarrow> n < 10 ^ k \<Longrightarrow> length (decimal n) \<le> k"
proof (induction k arbitrary: n)
  case (Suc k)
  show ?case
  proof (cases "n < 10")
    case True
    then show ?thesis by (subst decimal.simps) simp
  next
    case False
    then have "0 < k" using Suc.prems(2) by (cases k) auto
    moreover have "n div 10 < 10 ^ k" using Suc.prems(2) by (simp add: div_less_iff_less_mult)
    ultimately show ?thesis using False Suc.IH [of "n div 10"] by (subst decimal.simps) simp
  qed
qed simp

lemma decimal_nonempty [simp]: "decimal n \<noteq> []"
  by (subst decimal.simps) simp

lemma char_to_number_sign [simp]:
  "char_to_number (CHR ''-'') = - 1" "char_to_number (CHR ''+'') = - 1"
  "char_to_number (CHR ''x'') = 33" "char_to_number (CHR ''b'') = 11" "char_to_number NUL = - 1"
  by (simp_all add: char_to_number_def)

lemma digits_not_sign:
  "\<forall>c \<in> set s. is_digit base c \<Longrightarrow> NUL \<notin> set s \<and> strip_sign s = (1, s)"
  by (cases s) (auto simp: strip_sign_def is_digit_def)

lemma strip_base_decimal:
  "\<forall>c \<in> set s. is_digit 10 c \<Longrightarrow> strip_base s = (10, s)"
  by (auto simp: strip_base_def is_digit_def split: list.splits)

lemma dropWhile_digits [simp]: "\<forall>c \<in> set s. is_digit base c \<Longrightarrow> dropWhile (is_digit base) s = []"
  by simp

lemma digits_loop_decimal:
  assumes "n < 2 ^ 53"
  shows "digits_loop 10 (decimal n) 0 = Inr (Some n)"
proof -
  have "length (decimal n) \<le> 16" using assms by (intro decimal_length) simp_all
  then show ?thesis
    using digits_loop_outcome [of 10 "decimal n" 0] assms decimal_digits [of n]
    by (simp add: decimal_value)
qed

text \<open>Reading a whole string: its sign, its base, and then the digits.\<close>

lemma tointeger_scan:
  assumes "NUL \<notin> set s" and "strip_sign s = (sign, s1)" and "strip_base s1 = (base, ds)"
    and "length ds \<le> 256" and "prefix_value base ds < 2 ^ 53"
  shows "cflare_tointeger (s @ NUL # rest) =
    (if ds = [] then Inr None
     else case dropWhile (is_digit base) ds of
       [] \<Rightarrow> Inr (Some (sign * int (prefix_value base ds)))
     | c # _ \<Rightarrow> if char_to_number c < 0 then Inl Assert_failed else Inr None)"
proof (cases "s = [] \<or> ds = []")
  case True
  with assms show ?thesis
    by (auto simp: cflare_tointeger_def cstr_terminated strip_sign_def strip_base_def)
next
  case False
  have "base \<le> 16" using assms(3) by (auto simp: strip_base_def split: list.splits if_splits)
  with assms have "digits_loop base ds 0 = (case dropWhile (is_digit base) ds of
      [] \<Rightarrow> Inr (Some (prefix_value base ds))
    | c # _ \<Rightarrow> if char_to_number c < 0 then Inl Assert_failed else Inr None)"
    using digits_loop_outcome [of base ds 0, unfolded add_0] by simp
  then show ?thesis
    using assms(1-3) False
    by (simp add: cflare_tointeger_def cstr_terminated split: list.split)
qed

lemma prefix_value_less: "0 < base \<Longrightarrow> prefix_value base cs < base ^ length cs"
proof (induction cs)
  case (Cons c cs)
  show ?case
  proof (cases "is_digit base c")
    case True
    then have "nat (char_to_number c) + 1 \<le> base"
      by (simp add: is_digit_def nat_less_iff Suc_le_eq)
    then have "(nat (char_to_number c) + 1) * base ^ length cs \<le> base * base ^ length cs"
      by (rule mult_right_mono) simp
    with True Cons show ?thesis by (simp add: algebra_simps)
  qed (use Cons in simp)
qed simp

section \<open>Concatenating\<close>

lemma memcpy_at_append:
  "memcpy_at (a @ b) (length a) s =
     (if length s \<le> length b then Inr (a @ s @ drop (length s) b) else Inl Out_of_bounds)"
  by (simp add: memcpy_at_def)

lemma strlens_terminated:
  "\<forall>s \<in> set ss. NUL \<notin> set s \<Longrightarrow> strlens (map (\<lambda>s. s @ NUL # rest s) ss) = Inr ss"
  by (induction ss) (auto simp: cstr_terminated)

lemma copy_all_concat:
  assumes "length (concat ss) \<le> length b"
  shows "copy_all (a @ b) (length a) ss =
    Inr (a @ concat ss @ drop (length (concat ss)) b, length a + length (concat ss))"
  using assms
proof (induction ss arbitrary: a b)
  case (Cons s ss)
  then show ?case
    using Cons.IH [of "drop (length s) b" "a @ s"] by (simp add: memcpy_at_append add.commute)
qed simp

section \<open>Properties\<close>



text \<open>
  Every integer of magnitude below \<open>2 ^ 53\<close>, printed in decimal with an optional minus sign, is
  read back by \<open>cflare_tointeger\<close>.
\<close>

theorem tointeger_print_int:
  assumes "\<bar>i\<bar> < 2 ^ 53"
  shows "cflare_tointeger (print_int i @ NUL # rest) = Inr (Some i)"
proof (cases "i < 0")
  case True
  then have "digits_loop 10 (decimal (nat (- i))) 0 = Inr (Some (nat (- i)))"
    using assms by (intro digits_loop_decimal) simp
  with True show ?thesis
    using digits_not_sign [OF decimal_digits] strip_base_decimal [OF decimal_digits]
    by (simp add: cflare_tointeger_def print_int_def strip_sign_def cstr_terminated [of "_ # _", simplified])
next
  case False
  then have "digits_loop 10 (decimal (nat i)) 0 = Inr (Some (nat i))"
    using assms by (intro digits_loop_decimal) simp
  with False show ?thesis
    using digits_not_sign [OF decimal_digits, of "nat i"] strip_base_decimal [OF decimal_digits]
    by (simp add: cflare_tointeger_def print_int_def cstr_terminated)
qed

lemma tointeger_print_int_witness:
  "cflare_tointeger (''-9007199254740991'' @ NUL # []) = Inr (Some (- 9007199254740991))"
proof -
  have "print_int (- 9007199254740991) = ''-9007199254740991''"
    by (simp add: print_int_def decimal.simps digit_char_def char_of_def bit_Suc_0_iff)
  then show ?thesis using tointeger_print_int [of "- 9007199254740991" "[]"] by simp
qed

text \<open>
  Beyond \<open>2 ^ 53\<close> the sum goes through a double, and digits are lost without a sign of it: the
  string 9007199254740993 is read as 9007199254740992, and the largest \<open>int64_t\<close> overflows.
\<close>

theorem tointeger_loses_digits:
  "cflare_tointeger (''9007199254740993'' @ [NUL]) = Inr (Some 9007199254740992) \<and>
   cflare_tointeger (''9223372036854775807'' @ [NUL]) = Inl Int_overflow"
  by (simp add: cflare_tointeger_def cstr_def strip_sign_def strip_base_def char_to_number_def
      add_digit_def round53_def bit_length.simps double_limit_def)

lemma string_concat_bytes:
  assumes "\<forall>s \<in> set ss. NUL \<notin> set s"
  shows "cflare_string_concat_n_c junk (map (\<lambda>s. s @ NUL # rest s) ss) =
    Inr (concat ss @ [NUL], length (concat ss))"
proof -
  have n: "sum_list (map length ss) = length (concat ss)" by (simp add: length_concat)
  have "copy_all (malloc junk (length (concat ss) + 1)) 0 ss =
      Inr (concat ss @ drop (length (concat ss)) (malloc junk (length (concat ss) + 1)), length (concat ss))"
    using copy_all_concat [of ss "malloc junk (length (concat ss) + 1)" "[]"] by simp
  then show ?thesis
    by (simp add: cflare_string_concat_n_c_def strlens_terminated [OF assms] n write_at_def malloc_def)
qed

text \<open>
  Concatenating null-terminated strings gives a block that holds exactly the strings one after
  the other and a terminator, whatever the fresh block held, and reports the length; no copy
  leaves the block.
\<close>

theorem string_concat_correct:
  assumes "\<forall>s \<in> set ss. NUL \<notin> set s"
  shows "cflare_string_concat_n_c junk (map (\<lambda>s. s @ NUL # rest s) ss) =
    Inr (concat ss @ [NUL], length (concat ss))"
  by (rule string_concat_bytes [OF assms])

lemma string_concat_correct_witness:
  "cflare_string_concat_n_c (\<lambda>_. CHR ''?'') [''Content'' @ [NUL], ''-Type'' @ [NUL]] =
     Inr (''Content-Type'' @ [NUL], 12)"
  using string_concat_correct [of "[''Content'', ''-Type'']" "\<lambda>_. CHR ''?''" "\<lambda>_. []"] by simp

end
