(* ===== verification/Url.thy ===== *)
theory Url
  imports Util
begin

text \<open>
  The query-string parser of \<open>src/cflare/url.c\<close>. \<open>cflare_unescape_url_mutate\<close> decodes a block in
  place, reading at \<open>i\<close> and writing at \<open>n \<le> i\<close>; \<open>cflare_url_parse_query\<close> copies keys and values
  into two buffers it doubles as they fill up, decodes both and hands them to a callback. The
  model returns the calls of the callback in order: the two buffers as the callback gets them, with
  the two lengths.
\<close>

section \<open>Decoding\<close>

function unescape_loop :: "string \<Rightarrow> nat \<Rightarrow> nat \<Rightarrow> nat \<Rightarrow> (string \<times> nat option) res" where
  "unescape_loop input len i n =
     (if i < len
      then bindE (read_at input i) (\<lambda>c.
        if c = CHR ''%'' then
          if i + 2 \<ge> len then Inr (input, None)
          else bindE (read_at input (i + 1)) (\<lambda>x. bindE (read_at input (i + 2)) (\<lambda>y.
               bindE (cflare_tointeger [CHR ''0'', CHR ''x'', x, y, NUL]) (\<lambda>r. case r of
                 None \<Rightarrow> Inr (input, None)
               | Some ascii \<Rightarrow> bindE (write_at input n (char_of ascii)) (\<lambda>input'.
                   unescape_loop input' len (i + 3) (n + 1)))))
        else if c = CHR ''+'' then
          bindE (write_at input n (CHR '' '')) (\<lambda>input'. unescape_loop input' len (i + 1) (n + 1))
        else bindE (write_at input n c) (\<lambda>input'. unescape_loop input' len (i + 1) (n + 1)))
      else bindE (write_at input n NUL) (\<lambda>input'. Inr (input', Some n)))"
  by pat_completeness auto
termination
  by (relation "measure (\<lambda>(input, len, i, n). len - i)") auto

declare unescape_loop.simps [simp del]

text \<open>The decoded block and, where the whole of it was decoded (\<open>true\<close>), the new length.\<close>

definition cflare_unescape_url_mutate :: "string \<Rightarrow> nat \<Rightarrow> (string \<times> nat option) res" where
  "cflare_unescape_url_mutate input len = unescape_loop input len 0 0"

section \<open>Parsing a query\<close>

text \<open>
  \<open>read_part stops input i len buf\<close>: the loop that copies characters into a buffer until one of
  \<open>stops\<close> or the end of the input, doubling the buffer when it is full. It returns the index it stops at,
  the buffer and the number of characters.
\<close>

function read_part ::
  "(nat \<Rightarrow> char) \<Rightarrow> string \<Rightarrow> string \<Rightarrow> nat \<Rightarrow> nat \<Rightarrow> nat \<Rightarrow> string \<Rightarrow> (nat \<times> string \<times> nat) res" where
  "read_part junk stops input input_len i len buf =
     (if i < input_len
      then bindE (read_at input i) (\<lambda>c.
        if c \<in> set stops then Inr (i, buf, len)
        else bindE (write_at buf len c) (\<lambda>buf'.
          read_part junk stops input input_len (i + 1) (len + 1)
            (if len + 1 = length buf' then realloc junk buf' (length buf' * 2) else buf')))
      else Inr (i, buf, len))"
  by pat_completeness auto
termination
  by (relation "measure (\<lambda>(junk, stops, input, input_len, i, len, buf). input_len - i)") auto

declare read_part.simps [simp del]

lemma read_part_index:
  "read_part junk stops input input_len i len buf = Inr (i', buf', len') \<Longrightarrow> i \<le> i'"
proof (induction junk stops input input_len i len buf rule: read_part.induct)
  case (1 junk stops input input_len i len buf)
  from 1(2) show ?case
    by (subst (asm) read_part.simps) (use 1(1) in \<open>fastforce split: if_splits\<close>)
qed

text \<open>One turn of the outer loop: the index after it, the two buffers and the call it makes.\<close>

type_synonym query_call = "string \<times> nat \<times> string \<times> nat"

definition parse_pair ::
  "(nat \<Rightarrow> char) \<Rightarrow> string \<Rightarrow> nat \<Rightarrow> nat \<Rightarrow> string \<Rightarrow> string
   \<Rightarrow> (nat \<times> string \<times> string \<times> query_call) res" where
  "parse_pair junk input input_len i buffer_key buffer_val =
     bindE (read_part junk ''&='' input input_len i 0 buffer_key) (\<lambda>(i, buffer_key, key_len).
     bindE (write_at buffer_key key_len NUL) (\<lambda>buffer_key.
     bindE (if i < input_len
            then bindE (read_at input i) (\<lambda>c.
              if c = CHR ''='' then read_part junk ''&'' input input_len (i + 1) 0 buffer_val
              else Inr (i, buffer_val, 0))
            else Inr (i, buffer_val, 0)) (\<lambda>(i, buffer_val, val_len).
     bindE (write_at buffer_val val_len NUL) (\<lambda>buffer_val.
     bindE (cflare_unescape_url_mutate buffer_key key_len) (\<lambda>(buffer_key, k).
     bindE (cflare_unescape_url_mutate buffer_val val_len) (\<lambda>(buffer_val, v).
       let key_len = (case k of Some n \<Rightarrow> n | None \<Rightarrow> key_len);
           val_len = (case v of Some n \<Rightarrow> n | None \<Rightarrow> val_len)
       in Inr (i, buffer_key, buffer_val, (buffer_key, key_len, buffer_val, val_len))))))))"

lemma parse_pair_index:
  "parse_pair junk input input_len i bk bv = Inr (i', r) \<Longrightarrow> i \<le> i'"
  by (fastforce simp: parse_pair_def Let_def split: if_splits dest: read_part_index)

function query_loop ::
  "(nat \<Rightarrow> char) \<Rightarrow> string \<Rightarrow> nat \<Rightarrow> nat \<Rightarrow> string \<Rightarrow> string \<Rightarrow> query_call list res" where
  "query_loop junk input input_len i buffer_key buffer_val =
     (if i < input_len
      then bindE (parse_pair junk input input_len i buffer_key buffer_val)
        (\<lambda>(i', buffer_key', buffer_val', call).
         bindE (query_loop junk input input_len (i' + 1) buffer_key' buffer_val') (\<lambda>calls.
           Inr (call # calls)))
      else Inr [])"
  by pat_completeness auto
termination
  by (relation "measure (\<lambda>(junk, input, input_len, i, bk, bv). input_len - i)")
    (auto dest: parse_pair_index)

declare query_loop.simps [simp del]

definition cflare_url_parse_query ::
  "(nat \<Rightarrow> char) \<Rightarrow> string option \<Rightarrow> nat \<Rightarrow> query_call list res" where
  "cflare_url_parse_query junk input input_len = (case input of
       None \<Rightarrow> Inr []
     | Some s \<Rightarrow> query_loop junk s input_len 0 (malloc junk 64) (malloc junk 64))"

section \<open>A reference decoder\<close>

text \<open>Decoding without the block: the decoded characters, or \<open>None\<close> at the first bad escape.\<close>

definition read_escape :: "char \<Rightarrow> char \<Rightarrow> int option res" where
  "read_escape x y = cflare_tointeger [CHR ''0'', CHR ''x'', x, y, NUL]"

fun url_decode :: "string \<Rightarrow> string option res" where
  "url_decode [] = Inr (Some [])"
| "url_decode (c # cs) =
     (if c = CHR ''%'' then case cs of
          x # y # cs' \<Rightarrow> bindE (read_escape x y) (\<lambda>r. case r of
              None \<Rightarrow> Inr None
            | Some ascii \<Rightarrow> bindE (url_decode cs') (\<lambda>d. Inr (map_option ((#) (char_of ascii)) d)))
        | _ \<Rightarrow> Inr None
      else bindE (url_decode cs) (\<lambda>d.
        Inr (map_option ((#) (if c = CHR ''+'' then CHR '' '' else c)) d)))"

text \<open>What a run of the loop from \<open>i\<close> and \<open>n\<close> does, given what decoding the rest gives.\<close>

definition decodes_to ::
  "string \<Rightarrow> nat \<Rightarrow> nat \<Rightarrow> string option res \<Rightarrow> (string \<times> nat option) res \<Rightarrow> bool" where
  "decodes_to block len n dec r = (case dec of
       Inl e \<Rightarrow> r = Inl e
     | Inr None \<Rightarrow> \<exists>b. r = Inr (b, None) \<and> length b = length block \<and> drop len b = drop len block
     | Inr (Some d) \<Rightarrow> \<exists>b. r = Inr (b, Some (n + length d)) \<and> length b = length block \<and>
         take (n + length d + 1) b = take n block @ d @ [NUL])"

lemma decodes_to_step:
  assumes "decodes_to (block[n := c]) len (Suc n) dec r" and "n < len" and "len < length block"
  shows "decodes_to block len n (bindE dec (\<lambda>d. Inr (map_option ((#) c) d))) r"
proof (cases dec)
  case (Inr x)
  with assms show ?thesis
    by (cases x) (auto simp: decodes_to_def take_Suc_update)
qed (use assms(1) in \<open>simp add: decodes_to_def\<close>)

lemma drop_take_Cons:
  assumes "drop i (take len s) = c # cs" and "len \<le> length s"
  shows "i < len" "s ! i = c" "drop (Suc i) (take len s) = cs"
proof -
  from assms(1) have "i < length (take len s)" by (metis drop_eq_Nil list.distinct(1) not_le)
  then show i: "i < len" by simp
  from assms i have "take len s ! i = c"
    by (metis hd_drop_conv_nth \<open>i < length (take len s)\<close> list.sel(1))
  with i show "s ! i = c" by simp
  from assms(1) show "drop (Suc i) (take len s) = cs" by (metis drop_Suc list.sel(3) tl_drop)
qed

lemma drop_take_update: "n < i \<Longrightarrow> drop i (take len (s[n := c])) = drop i (take len s)"
  by (simp add: take_update_swap)

lemma unescape_loop_decodes:
  assumes "n \<le> i" and "i \<le> len" and "len < length input" and "drop i (take len input) = rest"
  shows "decodes_to input len n (url_decode rest) (unescape_loop input len i n)"
  using assms
proof (induction rest arbitrary: input i n rule: url_decode.induct)
  case 1
  then have "i = len" by simp
  with 1 show ?case
    by (subst unescape_loop.simps) (simp add: decodes_to_def take_Suc_update)
next
  case (2 c cs)
  note d = drop_take_Cons [OF 2(6)]
  have i: "i < len" "input ! i = c" "drop (Suc i) (take len input) = cs" using d 2(5) by auto
  have r: "read_at input i = Inr c" using i 2(5) by simp
  show ?case
  proof (cases "c = CHR ''%''")
    case False
    let ?c = "if c = CHR ''+'' then CHR '' '' else c"
    have "decodes_to (input[n := ?c]) len (Suc n) (url_decode cs)
        (unescape_loop (input[n := ?c]) len (Suc i) (Suc n))"
      using 2(3,5) i by (intro 2(2) [OF False]) (simp_all add: drop_take_update)
    moreover have "unescape_loop input len i n = unescape_loop (input[n := ?c]) len (Suc i) (Suc n)"
      using False i(1) r 2(3,5) by (subst unescape_loop.simps) simp
    ultimately show ?thesis
      using False decodes_to_step [of input n ?c len "url_decode cs"] 2(3,5) i(1) by simp
  next
    case True
    show ?thesis
    proof (cases "\<exists>x y cs'. cs = x # y # cs'")
      case False
      then have "length cs < 2" by (cases cs; cases "tl cs") auto
      moreover have "length cs = len - Suc i" using i(3) 2(5) by auto
      ultimately have "len \<le> i + 2" by simp
      then have "unescape_loop input len i n = Inr (input, None)"
        using True i(1) r by (subst unescape_loop.simps) simp
      moreover have "url_decode (c # cs) = Inr None"
        using True False by (auto split: list.split)
      ultimately show ?thesis by (simp add: decodes_to_def)
    next
      case xy: True
      then obtain x y cs' where cs: "cs = x # y # cs'" by blast
      have j: "Suc i < len" "input ! Suc i = x" "drop (Suc (Suc i)) (take len input) = y # cs'"
        using drop_take_Cons [OF i(3) [unfolded cs]] 2(5) by auto
      have k: "Suc (Suc i) < len" "input ! Suc (Suc i) = y" "drop (Suc (Suc (Suc i))) (take len input) = cs'"
        using drop_take_Cons [OF j(3)] 2(5) by auto
      have step: "unescape_loop input len i n = bindE (read_escape x y) (\<lambda>r. case r of
          None \<Rightarrow> Inr (input, None)
        | Some ascii \<Rightarrow> unescape_loop (input[n := char_of ascii]) len (i + 3) (n + 1))"
        using True r j k 2(3,5) unfolding read_escape_def
        by (subst unescape_loop.simps) (simp cong: option.case_cong)
      show ?thesis
      proof (cases "read_escape x y")
        case (Inl e)
        then show ?thesis using step True cs by (simp add: decodes_to_def)
      next
        case (Inr q)
        show ?thesis
        proof (cases q)
          case None
          then show ?thesis using Inr step True cs by (simp add: decodes_to_def)
        next
          case (Some a)
          have "decodes_to (input[n := char_of a]) len (Suc n) (url_decode cs')
              (unescape_loop (input[n := char_of a]) len (Suc (Suc (Suc i))) (Suc n))"
            using 2(3,5) k Some Inr
            by (intro 2(1) [OF True cs refl]) (simp_all add: drop_take_update)
          with decodes_to_step [of input n "char_of a" len "url_decode cs'"] 2(3,5) i(1)
          show ?thesis using Inr Some step True cs by (simp add: numeral_3_eq_3)
        qed
      qed
    qed
  qed
qed

lemma unescape_decodes:
  assumes "len < length block"
  shows "decodes_to block len 0 (url_decode (take len block)) (cflare_unescape_url_mutate block len)"
  using unescape_loop_decodes [of 0 0 len block "take len block"] assms
  by (simp add: cflare_unescape_url_mutate_def)

section \<open>Escapes\<close>

definition harmless :: "'a res \<Rightarrow> bool" where
  "harmless r = (\<forall>e. r = Inl e \<longrightarrow> e = Assert_failed)"

lemma harmless_simps [simp]:
  "harmless (Inr x)" "harmless (Inl e) = (e = Assert_failed)"
  by (auto simp: harmless_def)

lemma harmless_bindE: "harmless m \<Longrightarrow> (\<And>x. m = Inr x \<Longrightarrow> harmless (f x)) \<Longrightarrow> harmless (bindE m f)"
  by (cases m) simp_all

lemma hex_prefix [simp]: "strip_sign (CHR ''0'' # s) = (1, CHR ''0'' # s)"
  "strip_base (CHR ''0'' # CHR ''x'' # s) = (16, s)"
  by (simp_all add: strip_sign_def strip_base_def)

lemma read_hex_harmless:
  assumes "NUL \<notin> set ds" and "length ds \<le> 2"
  shows "harmless (cflare_tointeger (CHR ''0'' # CHR ''x'' # ds @ NUL # rest))"
proof -
  have "prefix_value 16 ds < 16 ^ length ds" by (rule prefix_value_less) simp
  also have "\<dots> \<le> 16 ^ 2" using assms(2) by (intro power_increasing) simp_all
  finally have "cflare_tointeger ((CHR ''0'' # CHR ''x'' # ds) @ NUL # rest) =
    (if ds = [] then Inr None
     else case dropWhile (is_digit 16) ds of
       [] \<Rightarrow> Inr (Some (1 * int (prefix_value 16 ds)))
     | c # _ \<Rightarrow> if char_to_number c < 0 then Inl Assert_failed else Inr None)"
    using assms by (intro tointeger_scan [where ?s1.0 = "CHR ''0'' # CHR ''x'' # ds"]) simp_all
  then show ?thesis by (auto split: list.splits)
qed

lemma read_escape_harmless [simp]: "harmless (read_escape x y)"
proof (cases "x = NUL")
  case True
  then show ?thesis using read_hex_harmless [of "[]"] by (simp add: read_escape_def)
next
  case False
  show ?thesis
  proof (cases "y = NUL")
    case True
    with False show ?thesis using read_hex_harmless [of "[x]"] by (simp add: read_escape_def)
  next
    case False
    with \<open>x \<noteq> NUL\<close> show ?thesis using read_hex_harmless [of "[x, y]"] by (simp add: read_escape_def)
  qed
qed

lemma url_decode_harmless: "harmless (url_decode s)"
proof (induction s rule: url_decode.induct)
  case (2 c cs)
  show ?case
  proof (cases "c = CHR ''%''")
    case True
    have "harmless (bindE (read_escape x y) (\<lambda>r. case r of None \<Rightarrow> Inr None
        | Some ascii \<Rightarrow> bindE (url_decode cs') (\<lambda>d. Inr (map_option ((#) (char_of ascii)) d))))"
      if "cs = x # y # cs'" for x y cs'
      using 2(1) [OF True that] by (intro harmless_bindE) (simp_all add: harmless_bindE split: option.split)
    with True show ?thesis by (simp split: list.split)
  next
    case False
    with 2(2) show ?thesis by (simp add: harmless_bindE)
  qed
qed simp

lemma unescape_harmless:
  assumes "len < length block"
  shows "harmless (cflare_unescape_url_mutate block len)"
  using unescape_decodes [OF assms] url_decode_harmless [of "take len block"]
  by (auto simp: decodes_to_def split: sum.splits option.splits)

section \<open>Encoding\<close>

definition hex_digit :: "nat \<Rightarrow> char" where
  "hex_digit d = (if d < 10 then char_of (48 + d) else char_of (87 + d))"

lemma char_to_number_hex [simp]: "d < 16 \<Longrightarrow> char_to_number (hex_digit d) = int d"
proof -
  assume "d < 16"
  moreover have "(of_char (hex_digit d) :: int) = of_nat (of_char (hex_digit d))"
    by (simp only: of_nat_of_char)
  ultimately show ?thesis by (simp add: char_to_number_def hex_digit_def)
qed

lemma hex_digit_not_NUL [simp]: "d < 16 \<Longrightarrow> hex_digit d \<noteq> NUL"
proof
  assume "d < 16" "hex_digit d = NUL"
  with char_to_number_hex [of d] show False by simp
qed

lemma read_escape_hex:
  assumes "a < 16" and "b < 16"
  shows "read_escape (hex_digit a) (hex_digit b) = Inr (Some (int (16 * a + b)))"
proof -
  have v: "prefix_value 16 [hex_digit a, hex_digit b] = 16 * a + b"
    using assms by (simp add: is_digit_def)
  have "cflare_tointeger ((CHR ''0'' # CHR ''x'' # [hex_digit a, hex_digit b]) @ NUL # []) =
    (if [hex_digit a, hex_digit b] = [] then Inr None
     else case dropWhile (is_digit 16) [hex_digit a, hex_digit b] of
       [] \<Rightarrow> Inr (Some (1 * int (prefix_value 16 [hex_digit a, hex_digit b])))
     | c # _ \<Rightarrow> if char_to_number c < 0 then Inl Assert_failed else Inr None)"
    using assms v
    by (intro tointeger_scan [where ?s1.0 = "CHR ''0'' # CHR ''x'' # [hex_digit a, hex_digit b]"]) (simp_all add: eq_commute [of NUL])
  then show ?thesis using assms by (simp only: v) (simp add: read_escape_def is_digit_def)
qed

definition url_encode_char :: "char \<Rightarrow> string" where
  "url_encode_char c = (if isalpha c \<or> isdigit c then [c]
     else [CHR ''%'', hex_digit (of_char c div 16), hex_digit (of_char c mod 16)])"

definition url_encode :: "string \<Rightarrow> string" where
  "url_encode s = concat (map url_encode_char s)"

lemma url_encode_simps [simp]:
  "url_encode [] = []" "url_encode (c # cs) = url_encode_char c @ url_encode cs"
  by (simp_all add: url_encode_def)

lemma decode_encode_char:
  "url_decode (url_encode_char c @ s) = bindE (url_decode s) (\<lambda>d. Inr (map_option ((#) c) d))"
proof (cases "isalpha c \<or> isdigit c")
  case True
  then have "c \<noteq> CHR ''%''" "c \<noteq> CHR ''+''"
    by (auto simp: isalpha_def isupper_def islower_def isdigit_def)
  with True show ?thesis by (simp add: url_encode_char_def)
next
  case False
  have "(of_char c :: nat) < 256" by (rule nat_of_char_less_256)
  then have "read_escape (hex_digit (of_char c div 16)) (hex_digit (of_char c mod 16)) =
      Inr (Some (int (of_char c)))"
    by (subst read_escape_hex) (simp_all add: less_mult_imp_div_less)
  moreover have "char_of (int (of_char c)) = c"
    by (simp add: of_nat_of_char)
  ultimately show ?thesis using False by (simp add: url_encode_char_def del: of_nat_of_char)
qed

lemma decode_encode: "url_decode (url_encode s) = Inr (Some s)"
  by (induction s) (simp_all add: decode_encode_char)

section \<open>Copying into the buffers\<close>

lemma read_part_copies:
  assumes "len < length buf" and "input_len \<le> length input"
    and "takeWhile (\<lambda>c. c \<notin> set stops) (drop i (take input_len input)) = w"
  shows "\<exists>buf'. read_part junk stops input input_len i len buf = Inr (i + length w, buf', len + length w) \<and>
    len + length w < length buf' \<and> take (len + length w) buf' = take len buf @ w"
  using assms
proof (induction w arbitrary: i len buf)
  case Nil
  have "i \<ge> input_len \<or> i < input_len \<and> input ! i \<in> set stops"
    using Nil.prems(2,3)
    by (cases "i < input_len") (auto simp: takeWhile_eq_Nil_iff hd_drop_conv_nth)
  with Nil.prems show ?case by (subst read_part.simps) auto
next
  case (Cons c w)
  then obtain cs where cs: "drop i (take input_len input) = c # cs" "c \<notin> set stops"
    "takeWhile (\<lambda>c. c \<notin> set stops) cs = w"
    by (cases "drop i (take input_len input)") (auto split: if_splits)
  note d = drop_take_Cons [OF cs(1) Cons.prems(2)]
  let ?b = "buf[len := c]"
  let ?buf = "if len + 1 = length ?b then realloc junk ?b (length ?b * 2) else ?b"
  have b: "len + 1 < length ?buf" "take (Suc len) ?buf = take len buf @ [c]"
    using Cons.prems(1) take_Suc_update [of len buf c] by (auto simp: take_realloc)
  have "read_part junk stops input input_len i len buf =
      read_part junk stops input input_len (i + 1) (len + 1) ?buf"
    using d cs(2) Cons.prems(1,2) by (subst read_part.simps) simp
  with Cons.IH [of "len + 1" ?buf "i + 1"] b d(3) cs(3) Cons.prems(2) show ?case by simp
qed

text \<open>A buffer with its terminator, and the buffer after decoding.\<close>

lemma buffer_decoded:
  assumes "len < length buf" and "url_decode (take len buf) = Inr (Some d)"
  shows "\<exists>buf'. bindE (write_at buf len NUL) (\<lambda>b. cflare_unescape_url_mutate b len) =
      Inr (buf', Some (length d)) \<and> length buf' = length buf \<and> take (length d) buf' = d"
proof -
  from assms unescape_decodes [of len "buf[len := NUL]"] obtain b where
    b: "cflare_unescape_url_mutate (buf[len := NUL]) len = Inr (b, Some (length d))"
      "length b = length buf" "take (length d + 1) b = d @ [NUL]"
    by (auto simp: decodes_to_def)
  have "take (length d) b = take (length d) (take (length d + 1) b)" by simp
  also have "\<dots> = d" unfolding b(3) by simp
  finally have "take (length d) b = d" .
  with b assms(1) show ?thesis by simp
qed

lemma buffer_harmless:
  assumes "len < length buf"
  shows "harmless (cflare_unescape_url_mutate (buf[len := NUL]) len)"
    and "cflare_unescape_url_mutate (buf[len := NUL]) len = Inr (buf', r) \<Longrightarrow> length buf' = length buf"
proof -
  show "harmless (cflare_unescape_url_mutate (buf[len := NUL]) len)"
    using assms by (intro unescape_harmless) simp
  show "cflare_unescape_url_mutate (buf[len := NUL]) len = Inr (buf', r) \<Longrightarrow> length buf' = length buf"
    using unescape_decodes [of len "buf[len := NUL]"] assms
    by (auto simp: decodes_to_def split: sum.splits option.splits)
qed

lemma read_part_buffer:
  assumes "len < length buf" and "input_len \<le> length input"
  obtains i' buf' len' where "read_part junk stops input input_len i len buf = Inr (i', buf', len')"
    "len' < length buf'"
  using read_part_copies [OF assms refl, where stops = stops] by blast

section \<open>Parsing pairs\<close>

lemma parse_pair_harmless:
  assumes "0 < length bk" and "0 < length bv" and "input_len \<le> length input"
  shows "harmless (parse_pair junk input input_len i bk bv)"
    and "parse_pair junk input input_len i bk bv = Inr (i', bk', bv', call) \<Longrightarrow>
      0 < length bk' \<and> 0 < length bv'"
proof -
  obtain i1 bk1 kl where k: "read_part junk ''&='' input input_len i 0 bk = Inr (i1, bk1, kl)"
    "kl < length bk1" by (rule read_part_buffer [OF assms(1,3)])
  obtain i2 bv1 vl where v: "(if i1 < input_len
      then bindE (read_at input i1) (\<lambda>c.
        if c = CHR ''='' then read_part junk ''&'' input input_len (i1 + 1) 0 bv else Inr (i1, bv, 0))
      else Inr (i1, bv, 0)) = Inr (i2, bv1, vl)" "vl < length bv1"
  proof (cases "i1 < input_len \<and> input ! i1 = CHR ''=''")
    case True
    obtain i2 bv1 vl where "read_part junk ''&'' input input_len (i1 + 1) 0 bv = Inr (i2, bv1, vl)"
      "vl < length bv1" by (rule read_part_buffer [OF assms(2,3)])
    with True assms(3) show thesis by (intro that [of i2 bv1 vl]) simp_all
  next
    case False
    then show thesis using that [of i1 bv 0] assms(2,3) by auto
  qed
  have p: "parse_pair junk input input_len i bk bv =
      bindE (cflare_unescape_url_mutate (bk1[kl := NUL]) kl) (\<lambda>(bk2, k).
      bindE (cflare_unescape_url_mutate (bv1[vl := NUL]) vl) (\<lambda>(bv2, v).
        Inr (i2, bk2, bv2, (bk2, case k of Some n \<Rightarrow> n | None \<Rightarrow> kl, bv2, case v of Some n \<Rightarrow> n | None \<Rightarrow> vl))))"
    using k v by (simp add: parse_pair_def Let_def)
  show "harmless (parse_pair junk input input_len i bk bv)"
    unfolding p using buffer_harmless(1) [OF k(2)] buffer_harmless(1) [OF v(2)]
    by (auto intro!: harmless_bindE)
  show "parse_pair junk input input_len i bk bv = Inr (i', bk', bv', call) \<Longrightarrow>
      0 < length bk' \<and> 0 < length bv'"
    unfolding p using buffer_harmless(2) [OF k(2)] buffer_harmless(2) [OF v(2)] k(2) v(2)
    by fastforce
qed

lemma query_loop_harmless:
  assumes "0 < length bk" and "0 < length bv" and "input_len \<le> length input"
  shows "harmless (query_loop junk input input_len i bk bv)"
  using assms
proof (induction junk input input_len i bk bv rule: query_loop.induct)
  case (1 junk input input_len i bk bv)
  show ?case
    using 1 parse_pair_harmless [OF 1(2-4)]
    by (subst query_loop.simps) (auto intro!: harmless_bindE)
qed

text \<open>A well-formed pair at the index: both parts encoded, then the end or the next pair.\<close>

lemma parse_pair_encoded:
  assumes "0 < length bk" and "0 < length bv" and "input_len \<le> length input"
    and rest: "drop i (take input_len input) = ek @ CHR ''='' # ev @ suf"
    and chars: "CHR ''&'' \<notin> set ek \<union> set ev" "CHR ''='' \<notin> set ek"
    and suf: "suf = [] \<or> hd suf = CHR ''&''"
    and dec: "url_decode ek = Inr (Some k)" "url_decode ev = Inr (Some v)"
  shows "\<exists>bk' bv'. parse_pair junk input input_len i bk bv =
      Inr (i + length ek + 1 + length ev, bk', bv', (bk', length k, bv', length v)) \<and>
    take (length k) bk' = k \<and> take (length v) bv' = v \<and> 0 < length bk' \<and> 0 < length bv'"
proof -
  have ne: "\<forall>c \<in> set ek. c \<noteq> CHR ''&'' \<and> c \<noteq> CHR ''=''" "\<forall>c \<in> set ev. c \<noteq> CHR ''&''"
    using chars by auto
  have wk: "takeWhile (\<lambda>c. c \<notin> set ''&='') (drop i (take input_len input)) = ek"
    unfolding rest using ne(1) by (subst takeWhile_append2) auto
  from read_part_copies [OF assms(1,3) wk, of junk] obtain bk1 where
    k1: "read_part junk ''&='' input input_len i 0 bk = Inr (i + length ek, bk1, length ek)"
      "length ek < length bk1" "take (length ek) bk1 = ek" by auto
  let ?i = "i + length ek"
  have eq: "drop ?i (take input_len input) = CHR ''='' # ev @ suf"
    using rest by (metis add.commute append_eq_conv_conj drop_drop)
  note d = drop_take_Cons [OF eq assms(3)]
  have wv: "takeWhile (\<lambda>c. c \<notin> set ''&'') (drop (?i + 1) (take input_len input)) = ev"
    using d(3) ne(2) suf by (subst Suc_eq_plus1 [symmetric], cases suf) (auto simp: takeWhile_append)
  from read_part_copies [OF assms(2,3) wv, of junk] obtain bv1 where
    v1: "read_part junk ''&'' input input_len (?i + 1) 0 bv = Inr (?i + 1 + length ev, bv1, length ev)"
      "length ev < length bv1" "take (length ev) bv1 = ev" by auto
  from buffer_decoded [OF k1(2)] k1(3) dec(1) obtain bk2 where
    k2: "cflare_unescape_url_mutate (bk1[length ek := NUL]) (length ek) = Inr (bk2, Some (length k))"
      "length bk2 = length bk1" "take (length k) bk2 = k" using k1(2) by auto
  from buffer_decoded [OF v1(2)] v1(3) dec(2) obtain bv2 where
    v2: "cflare_unescape_url_mutate (bv1[length ev := NUL]) (length ev) = Inr (bv2, Some (length v))"
      "length bv2 = length bv1" "take (length v) bv2 = v" using v1(2) by auto
  have "parse_pair junk input input_len i bk bv =
      Inr (?i + 1 + length ev, bk2, bv2, (bk2, length k, bv2, length v))"
    using k1 v1 k2(1) v2(1) d(1,2) assms(3) by (simp add: parse_pair_def)
  moreover have "0 < length bk2" "0 < length bv2" using k1(2) k2(2) v1(2) v2(2) by auto
  ultimately show ?thesis using k2(3) v2(3) by blast
qed

text \<open>Writing a query string.\<close>

definition encode_pair :: "string \<times> string \<Rightarrow> string" where
  "encode_pair kv = url_encode (fst kv) @ CHR ''='' # url_encode (snd kv)"

fun encode_query :: "(string \<times> string) list \<Rightarrow> string" where
  "encode_query [] = []"
| "encode_query [kv] = encode_pair kv"
| "encode_query (kv # kvs) = encode_pair kv @ CHR ''&'' # encode_query kvs"

definition call_pair :: "query_call \<Rightarrow> string \<times> string" where
  "call_pair c = (case c of (k, kl, v, vl) \<Rightarrow> (take kl k, take vl v))"

lemma hex_digit_plain: "d < 16 \<Longrightarrow> hex_digit d \<noteq> CHR ''&'' \<and> hex_digit d \<noteq> CHR ''=''"
proof -
  assume "d < 16"
  then have "0 \<le> char_to_number (hex_digit d)" by simp
  moreover have "char_to_number (CHR ''&'') = - 1" "char_to_number (CHR ''='') = - 1"
    by (simp_all add: char_to_number_def)
  ultimately show ?thesis by auto
qed

lemma url_encode_plain: "CHR ''&'' \<notin> set (url_encode s)" "CHR ''='' \<notin> set (url_encode s)"
proof -
  have "CHR ''&'' \<notin> set (url_encode_char c) \<and> CHR ''='' \<notin> set (url_encode_char c)" for c
    using hex_digit_plain [of "of_char c div 16"] hex_digit_plain [of "of_char c mod 16"]
      nat_of_char_less_256 [of c]
    by (auto simp: url_encode_char_def isalpha_def isupper_def islower_def isdigit_def
        less_mult_imp_div_less)
  then show "CHR ''&'' \<notin> set (url_encode s)" "CHR ''='' \<notin> set (url_encode s)"
    by (auto simp: url_encode_def)
qed

lemma query_loop_encoded:
  assumes "0 < length bk" and "0 < length bv" and "input_len \<le> length input"
    and "drop i (take input_len input) = encode_query kvs"
  shows "\<exists>calls. query_loop junk input input_len i bk bv = Inr calls \<and> map call_pair calls = kvs"
  using assms
proof (induction kvs arbitrary: i bk bv rule: encode_query.induct)
  case 1
  then show ?case by (subst query_loop.simps) simp
next
  case (2 kv)
  have rest: "drop i (take input_len input) = url_encode (fst kv) @ CHR ''='' # url_encode (snd kv) @ []"
    using 2(4) by (simp add: encode_pair_def)
  from parse_pair_encoded [where junk = junk, OF 2(1-3) rest _ _ _ decode_encode decode_encode] url_encode_plain
  obtain bk' bv' where p: "parse_pair junk input input_len i bk bv =
      Inr (i + length (url_encode (fst kv)) + 1 + length (url_encode (snd kv)), bk', bv',
        (bk', length (fst kv), bv', length (snd kv)))"
    "take (length (fst kv)) bk' = fst kv" "take (length (snd kv)) bv' = snd kv" by auto
  have n: "i < input_len" "input_len \<le> i + length (url_encode (fst kv)) + 1 + length (url_encode (snd kv)) + 1"
    using arg_cong [OF rest, of length] 2(3) by simp_all
  then have "query_loop junk input input_len
      (i + length (url_encode (fst kv)) + 1 + length (url_encode (snd kv)) + 1) bk' bv' = Inr []"
    by (subst query_loop.simps) simp
  with p n(1) show ?case by (subst query_loop.simps) (simp add: call_pair_def)
next
  case (3 kv kv' kvs)
  let ?rest = "CHR ''&'' # encode_query (kv' # kvs)"
  let ?j = "i + length (url_encode (fst kv)) + 1 + length (url_encode (snd kv))"
  have rest: "drop i (take input_len input) = url_encode (fst kv) @ CHR ''='' # url_encode (snd kv) @ ?rest"
    using 3(5) by (simp add: encode_pair_def)
  from parse_pair_encoded [where junk = junk, OF 3(2-4) rest _ _ _ decode_encode decode_encode] url_encode_plain
  obtain bk' bv' where p: "parse_pair junk input input_len i bk bv =
      Inr (?j, bk', bv', (bk', length (fst kv), bv', length (snd kv)))"
    "take (length (fst kv)) bk' = fst kv" "take (length (snd kv)) bv' = snd kv"
    "0 < length bk'" "0 < length bv'" by auto
  have "drop ?j (take input_len input) =
      drop (length (url_encode (fst kv)) + 1 + length (url_encode (snd kv))) (drop i (take input_len input))"
    by (simp add: ac_simps)
  also have "\<dots> = ?rest" unfolding rest by simp
  finally have "drop ?j (take input_len input) = ?rest" .
  then have "drop (Suc ?j) (take input_len input) = encode_query (kv' # kvs)"
    by (rule drop_take_Cons(3)) (rule 3(4))
  then have "drop (?j + 1) (take input_len input) = encode_query (kv' # kvs)"
    unfolding Suc_eq_plus1 .
  from 3(1) [OF p(4,5) 3(4) this] obtain calls where
    "query_loop junk input input_len (?j + 1) bk' bv' = Inr calls" "map call_pair calls = kv' # kvs"
    by (elim exE conjE)
  moreover have "i < input_len"
  proof (rule ccontr)
    assume "\<not> i < input_len"
    then have "drop i (take input_len input) = []" by simp
    then show False unfolding rest by simp
  qed
  ultimately show ?case
    using p(1-3) by (subst query_loop.simps) (simp add: call_pair_def)
qed

section \<open>Properties\<close>

text \<open>
  C21: Decoding in place agrees with decoding as a function of the escaped characters, for every
  block and every length short of the block's: where an escape is complete and hexadecimal
  throughout, the call returns \<open>true\<close> and the block starts with the decoded characters and a terminator;
  where one is cut off or has a letter beyond f, it returns \<open>false\<close> and leaves the bytes from
  \<open>len\<close> on, among them the terminator, as they were.
\<close>

theorem unescape_refines_decode:
  assumes "len < length block"
  shows "case url_decode (take len block) of
      Inl e \<Rightarrow> cflare_unescape_url_mutate block len = Inl e
    | Inr None \<Rightarrow> \<exists>b. cflare_unescape_url_mutate block len = Inr (b, None) \<and>
        length b = length block \<and> drop len b = drop len block
    | Inr (Some d) \<Rightarrow> \<exists>b. cflare_unescape_url_mutate block len = Inr (b, Some (length d)) \<and>
        length b = length block \<and> take (length d + 1) b = d @ [NUL]"
  using unescape_decodes [OF assms] by (simp add: decodes_to_def split: sum.splits option.splits)

lemma unescape_refines_decode_witness:
  "\<exists>b. cflare_unescape_url_mutate (''a%20b+c'' @ [NUL]) 7 = Inr (b, Some 5) \<and> take 6 b = ''a b c'' @ [NUL]"
proof -
  have "read_escape (CHR ''2'') (CHR ''0'') = Inr (Some 32)"
    by (simp add: read_escape_def cflare_tointeger_def cstr_def char_to_number_def add_digit_def
        double_limit_def)
  then have d: "url_decode ''a%20b+c'' = Inr (Some ''a b c'')" by (simp add: char_of_def)
  have t: "take 7 (''a%20b+c'' @ [NUL]) = ''a%20b+c''" by simp
  from unescape_refines_decode [of 7 "''a%20b+c'' @ [NUL]", unfolded t d] show ?thesis
    by (auto simp: eval_nat_numeral)
qed

text \<open>
  C27: Parsing the query string that encodes a list of pairs, every byte other than a letter or digit
  escaped, calls the callback once for each pair, in order, with the original bytes, however long
  they are and however the buffers had to grow.
\<close>

theorem parse_query_roundtrip:
  "\<exists>calls. cflare_url_parse_query junk (Some (encode_query kvs)) (length (encode_query kvs)) = Inr calls \<and>
    map call_pair calls = kvs"
  using query_loop_encoded [of "malloc junk 64" "malloc junk 64" _ _ 0 kvs]
  by (simp add: cflare_url_parse_query_def)

text \<open>
  On any bytes whatever, parsing a query string returns or fails the assertion on a character of
  an escape; no read or write leaves the input or the two buffers.
\<close>

theorem parse_query_in_bounds:
  assumes "input_len \<le> length input"
  shows "(\<exists>calls. cflare_url_parse_query junk (Some input) input_len = Inr calls) \<or>
    cflare_url_parse_query junk (Some input) input_len = Inl Assert_failed"
  using query_loop_harmless [OF _ _ assms, of "malloc junk 64" "malloc junk 64" junk 0]
  by (cases "cflare_url_parse_query junk (Some input) input_len")
    (simp_all add: cflare_url_parse_query_def)

lemma parse_query_in_bounds_witness:
  "(\<exists>calls. cflare_url_parse_query (\<lambda>_. NUL) (Some ''a=%'') 3 = Inr calls) \<or>
    cflare_url_parse_query (\<lambda>_. NUL) (Some ''a=%'') 3 = Inl Assert_failed"
  using parse_query_in_bounds [of 3 "''a=%''"] by simp

text \<open>
  An escape whose first character is neither a letter nor a digit fails an assertion, wherever in
  the query it stands, so that a request can abort the server.
\<close>

theorem unescape_bad_escape_aborts:
  assumes "c \<noteq> NUL" and "char_to_number c < 0" and "CHR ''%'' \<notin> set s"
  shows "cflare_unescape_url_mutate (s @ [CHR ''%'', c, d] @ t @ [NUL]) (length s + 3 + length t) =
    Inl Assert_failed"
proof -
  have "read_escape c d = Inl Assert_failed"
  proof (cases "d = NUL")
    case True
    with assms tointeger_scan [of "[CHR ''0'', CHR ''x'', c]" 1 "[CHR ''0'', CHR ''x'', c]" 16 "[c]" "[NUL]"]
    show ?thesis by (simp add: read_escape_def is_digit_def)
  next
    case False
    with assms tointeger_scan [of "[CHR ''0'', CHR ''x'', c, d]" 1 "[CHR ''0'', CHR ''x'', c, d]" 16 "[c, d]" "[]"]
    show ?thesis by (simp add: read_escape_def is_digit_def)
  qed
  then have "url_decode (s @ [CHR ''%'', c, d] @ t) = Inl Assert_failed"
    using assms(3) by (induction s) auto
  moreover have "take (length s + 3 + length t) (s @ [CHR ''%'', c, d] @ t @ [NUL]) =
      s @ [CHR ''%'', c, d] @ t"
    by (simp add: numeral_3_eq_3)
  ultimately show ?thesis
    using unescape_decodes [of "length s + 3 + length t" "s @ [CHR ''%'', c, d] @ t @ [NUL]"]
    by (simp only: decodes_to_def) simp
qed

lemma unescape_bad_escape_aborts_witness:
  "cflare_unescape_url_mutate (''q='' @ [CHR ''%'', CHR ''-'', CHR ''1''] @ [] @ [NUL]) (2 + 3 + 0) =
    Inl Assert_failed"
  using unescape_bad_escape_aborts [of "CHR ''-''" "''q=''" "CHR ''1''" "[]"] by simp

end
