(* ===== verification/Buffer.thy ===== *)
theory Buffer
  imports Cflare_Prelude
begin

text \<open>
  The byte buffers of \<open>src/cflare/buffer.c\<close>: parts collected one by one and built into one block.

  The bytes of the parts are in a store of blocks, because a buffer made with
  \<open>CFLARE_BUFFER_NOCOPY\<close> keeps the caller's pointer: it reads whatever the caller's block holds when it
  is built. The array of parts is the list of the parts in use, at most \<open>alloc_count\<close> of them.
\<close>

section \<open>State and operations\<close>

record blocks =
  blk :: "addr \<rightharpoonup> string"
  blk_fresh :: addr

record cflare_buffer_part =
  part_length :: nat
  part_pointer :: addr

record cflare_buffer =
  needs_copy :: bool
  reversed :: bool
  nullchar :: bool
  buf_length :: nat
  buf_count :: nat
  alloc_count :: nat
  parts :: "cflare_buffer_part list"

record cflare_buffer_options =
  opt_nocopy :: bool
  opt_reverse :: bool
  opt_nullchar :: bool

definition cflare_buffer_new :: "cflare_buffer_options \<Rightarrow> cflare_buffer res" where
  "cflare_buffer_new opts =
     (let ret = \<lparr>needs_copy = \<not> opt_nocopy opts, reversed = opt_reverse opts,
                 nullchar = opt_nullchar opts, buf_length = 0, buf_count = 0, alloc_count = 8, parts = []\<rparr>
      in if reversed ret
         then Inl (Fatal ''buffer_new(): buffer reversing not yet implimented.'')
         else Inr ret)"

definition read_block :: "blocks \<Rightarrow> addr \<Rightarrow> nat \<Rightarrow> string res" where
  "read_block h p len =
     bindE (derefE (blk h p) Dangling) (\<lambda>b.
     bindE (assertE (len \<le> length b) Out_of_bounds) (\<lambda>_. Inr (take len b)))"

definition new_block :: "blocks \<Rightarrow> string \<Rightarrow> blocks" where
  "new_block h s = h\<lparr>blk := (blk h)(blk_fresh h \<mapsto> s), blk_fresh := Suc (blk_fresh h)\<rparr>"

definition cflare_buffer_append ::
  "blocks \<Rightarrow> cflare_buffer \<Rightarrow> addr \<Rightarrow> nat \<Rightarrow> (blocks \<times> cflare_buffer) res" where
  "cflare_buffer_append h buff data len =
     bindE (if needs_copy buff
            then bindE (read_block h data len) (\<lambda>s. Inr (new_block h s, blk_fresh h))
            else Inr (h, data)) (\<lambda>(h', data').
       let alloc = (if buf_count buff + 1 \<ge> alloc_count buff then alloc_count buff * 2
                    else alloc_count buff)
       in bindE (assertE (buf_count buff < alloc) Out_of_bounds) (\<lambda>_.
          Inr (h', buff\<lparr>alloc_count := alloc, buf_count := buf_count buff + 1,
                        buf_length := buf_length buff + len,
                        parts := take (buf_count buff) (parts buff) @
                          [\<lparr>part_length = len, part_pointer = data'\<rparr>]\<rparr>)))"

definition cflare_buffer_length :: "cflare_buffer \<Rightarrow> nat" where
  "cflare_buffer_length buff = buf_length buff"

definition cflare_buffer_parts :: "cflare_buffer \<Rightarrow> nat" where
  "cflare_buffer_parts buff = buf_count buff"

fun copy_parts :: "blocks \<Rightarrow> cflare_buffer_part list \<Rightarrow> string \<Rightarrow> nat \<Rightarrow> (string \<times> nat) res" where
  "copy_parts h [] ret position = Inr (ret, position)"
| "copy_parts h (part # ps) ret position =
     bindE (read_block h (part_pointer part) (part_length part)) (\<lambda>s.
     bindE (memcpy_at ret position s) (\<lambda>ret'. copy_parts h ps ret' (position + part_length part)))"

definition cflare_buffer_build :: "(nat \<Rightarrow> char) \<Rightarrow> blocks \<Rightarrow> cflare_buffer \<Rightarrow> string res" where
  "cflare_buffer_build junk h buff =
     (let len = buf_length buff + (if nullchar buff then 1 else 0)
      in bindE (copy_parts h (take (buf_count buff) (parts buff)) (malloc junk len) 0) (\<lambda>(ret, position).
           if nullchar buff then write_at ret position NUL else Inr ret))"

text \<open>Deleting frees the copies; freeing a block twice, or one that was not allocated, is a fault.\<close>

fun free_parts :: "blocks \<Rightarrow> cflare_buffer_part list \<Rightarrow> blocks res" where
  "free_parts h [] = Inr h"
| "free_parts h (part # ps) =
     bindE (derefE (blk h (part_pointer part)) Dangling) (\<lambda>_.
       free_parts (h\<lparr>blk := (blk h)(part_pointer part := None)\<rparr>) ps)"

definition cflare_buffer_delete :: "blocks \<Rightarrow> cflare_buffer \<Rightarrow> blocks res" where
  "cflare_buffer_delete h buff =
     (if needs_copy buff then free_parts h (take (buf_count buff) (parts buff)) else Inr h)"

section \<open>Invariants\<close>

text \<open>
  \<open>buffer_holds h buff ss\<close>: the buffer is well formed and its parts are in the store, with the
  contents \<open>ss\<close>. \<open>owns h0 h buff\<close>: where it copies, its blocks are its own, allocated since \<open>h0\<close> and
  pairwise distinct.
\<close>

definition part_holds :: "blocks \<Rightarrow> cflare_buffer_part \<Rightarrow> string \<Rightarrow> bool" where
  "part_holds h p s = (part_length p = length s \<and>
     (\<exists>b. blk h (part_pointer p) = Some b \<and> take (length s) b = s))"

definition buffer_holds :: "blocks \<Rightarrow> cflare_buffer \<Rightarrow> string list \<Rightarrow> bool" where
  "buffer_holds h buff ss = (buf_count buff = length (parts buff) \<and> buf_count buff < alloc_count buff \<and>
     list_all2 (part_holds h) (parts buff) ss \<and> buf_length buff = length (concat ss))"

definition owns :: "blocks \<Rightarrow> cflare_buffer \<Rightarrow> bool" where
  "owns h buff = (distinct (map part_pointer (parts buff)) \<and>
     (\<forall>p \<in> set (parts buff). part_pointer p < blk_fresh h))"

lemma buffer_new_holds:
  assumes "\<not> opt_reverse opts"
  shows "\<exists>buff. cflare_buffer_new opts = Inr buff \<and> buffer_holds h buff [] \<and> owns h buff \<and>
    needs_copy buff = (\<not> opt_nocopy opts) \<and> nullchar buff = opt_nullchar opts \<and> parts buff = []"
  using assms by (simp add: cflare_buffer_new_def buffer_holds_def owns_def)

lemma part_holds_other: "a \<noteq> part_pointer p \<Longrightarrow> part_holds (h\<lparr>blk := (blk h)(a := b)\<rparr>) p s = part_holds h p s"
  by (simp add: part_holds_def)

lemma append_copy:
  assumes "needs_copy buff" and "buffer_holds h buff ss" and "owns h buff"
    and "blk h data = Some b" and "len \<le> length b"
  shows "\<exists>h' buff'. cflare_buffer_append h buff data len = Inr (h', buff') \<and>
    buffer_holds h' buff' (ss @ [take len b]) \<and> owns h' buff' \<and> needs_copy buff' \<and>
    nullchar buff' = nullchar buff \<and> h' = new_block h (take len b) \<and>
    parts buff' = parts buff @ [\<lparr>part_length = len, part_pointer = blk_fresh h\<rparr>]"
proof -
  have old: "list_all2 (part_holds (new_block h (take len b))) (parts buff) ss"
    using assms(2,3)
    by (auto simp: buffer_holds_def owns_def new_block_def part_holds_def elim!: list.rel_mono_strong)
  have "part_holds (new_block h (take len b)) \<lparr>part_length = len, part_pointer = blk_fresh h\<rparr> (take len b)"
    using assms(5) by (simp add: part_holds_def new_block_def)
  with old assms show ?thesis
    by (auto simp: cflare_buffer_append_def read_block_def buffer_holds_def owns_def Let_def new_block_def
        intro!: list_all2_appendI)
qed

lemma append_nocopy:
  assumes "\<not> needs_copy buff" and "buffer_holds h buff ss" and "blk h data = Some b" and "len \<le> length b"
  shows "\<exists>buff'. cflare_buffer_append h buff data len = Inr (h, buff') \<and>
    buffer_holds h buff' (ss @ [take len b]) \<and> \<not> needs_copy buff' \<and> nullchar buff' = nullchar buff"
proof -
  have "part_holds h \<lparr>part_length = len, part_pointer = data\<rparr> (take len b)"
    using assms(3,4) by (simp add: part_holds_def)
  with assms show ?thesis
    by (auto simp: cflare_buffer_append_def buffer_holds_def Let_def intro!: list_all2_appendI)
qed

lemma copy_parts_concat:
  assumes "list_all2 (part_holds h) ps ss" and "length (concat ss) \<le> length b"
  shows "copy_parts h ps (a @ b) (length a) =
    Inr (a @ concat ss @ drop (length (concat ss)) b, length a + length (concat ss))"
  using assms
proof (induction ps ss arbitrary: a b rule: list_all2_induct)
  case (Cons p ps s ss)
  from Cons(1) obtain b0 where b0: "blk h (part_pointer p) = Some b0" "part_length p = length s"
    "take (length s) b0 = s" by (auto simp: part_holds_def)
  have "length s \<le> length b0" using arg_cong [OF b0(3), of length] by simp
  with b0 have r: "read_block h (part_pointer p) (part_length p) = Inr s" "part_length p = length s"
    by (simp_all add: read_block_def)
  have "memcpy_at (a @ b) (length a) s = Inr ((a @ s) @ drop (length s) b)"
    using Cons.prems by (simp add: memcpy_at_def)
  with Cons.IH [of "drop (length s) b" "a @ s"] Cons.prems r show ?case by (simp add: add.commute)
qed simp

lemma build_holds:
  assumes "buffer_holds h buff ss"
  shows "cflare_buffer_build junk h buff = Inr (concat ss @ (if nullchar buff then [NUL] else []))"
proof -
  let ?n = "buf_length buff + (if nullchar buff then 1 else 0)"
  have "list_all2 (part_holds h) (parts buff) ss" "buf_length buff = length (concat ss)"
    "take (buf_count buff) (parts buff) = parts buff" using assms by (auto simp: buffer_holds_def)
  with copy_parts_concat [of h "parts buff" ss "malloc junk ?n" "[]"] show ?thesis
    by (simp add: cflare_buffer_build_def Let_def write_at_def malloc_def)
qed

fun append_all ::
  "blocks \<Rightarrow> cflare_buffer \<Rightarrow> (addr \<times> nat) list \<Rightarrow> (blocks \<times> cflare_buffer) res" where
  "append_all h buff [] = Inr (h, buff)"
| "append_all h buff ((data, len) # ps) =
     bindE (cflare_buffer_append h buff data len) (\<lambda>(h', buff'). append_all h' buff' ps)"

text \<open>The bytes a pointer and a length describe, and that they are there.\<close>

definition slice :: "blocks \<Rightarrow> addr \<times> nat \<Rightarrow> string" where
  "slice h p = take (snd p) (the (blk h (fst p)))"

definition readable :: "blocks \<Rightarrow> addr \<times> nat \<Rightarrow> bool" where
  "readable h p = (fst p < blk_fresh h \<and> (\<exists>b. blk h (fst p) = Some b \<and> snd p \<le> length b))"

text \<open>The blocks of the buffer are exactly those allocated since \<open>h0\<close>, in order.\<close>

definition grown :: "blocks \<Rightarrow> blocks \<Rightarrow> cflare_buffer \<Rightarrow> bool" where
  "grown h0 h buff = (map part_pointer (parts buff) = [blk_fresh h0..<blk_fresh h] \<and>
     blk_fresh h0 \<le> blk_fresh h \<and> (\<forall>a < blk_fresh h0. blk h a = blk h0 a) \<and>
     (\<forall>a \<ge> blk_fresh h. blk h a = None))"

lemma append_all_copy:
  assumes "needs_copy buff" and "buffer_holds h buff ss" and "owns h buff" and "grown h0 h buff"
    and "\<forall>p \<in> set ps. readable h0 p"
  shows "\<exists>h' buff'. append_all h buff ps = Inr (h', buff') \<and> buffer_holds h' buff' (ss @ map (slice h0) ps) \<and>
    owns h' buff' \<and> grown h0 h' buff' \<and> needs_copy buff' \<and> nullchar buff' = nullchar buff"
  using assms
proof (induction ps arbitrary: h buff ss)
  case (Cons p ps)
  obtain data len where p: "p = (data, len)" by (cases p)
  with Cons.prems(4,5) obtain b where b: "blk h0 data = Some b" "blk h data = Some b" "len \<le> length b"
    by (auto simp: readable_def grown_def)
  from append_copy [OF Cons.prems(1-3) b(2,3)] obtain h1 buff1 where
    a: "cflare_buffer_append h buff data len = Inr (h1, buff1)"
      "buffer_holds h1 buff1 (ss @ [take len b])" "owns h1 buff1" "needs_copy buff1"
      "nullchar buff1 = nullchar buff" "h1 = new_block h (take len b)"
      "parts buff1 = parts buff @ [\<lparr>part_length = len, part_pointer = blk_fresh h\<rparr>]" by blast
  have "grown h0 h1 buff1" using Cons.prems(4) a(6,7) by (auto simp: grown_def new_block_def)
  moreover have "slice h0 p = take len b" by (simp add: slice_def p b(1))
  ultimately show ?case
    using Cons.IH [of buff1 h1 "ss @ [take len b]"] Cons.prems(5) a p by auto
qed auto

lemma free_parts_all:
  assumes "distinct (map part_pointer ps)" and "\<forall>p \<in> set ps. blk h (part_pointer p) \<noteq> None"
  shows "\<exists>h'. free_parts h ps = Inr h' \<and> blk_fresh h' = blk_fresh h \<and>
    blk h' = (\<lambda>a. if a \<in> part_pointer ` set ps then None else blk h a)"
  using assms
proof (induction ps arbitrary: h)
  case (Cons p ps)
  let ?h = "h\<lparr>blk := (blk h)(part_pointer p := None)\<rparr>"
  have "\<forall>q \<in> set ps. blk ?h (part_pointer q) \<noteq> None" using Cons.prems by (auto simp: image_iff)
  from Cons.IH [OF _ this] Cons.prems obtain h' where
    "free_parts ?h ps = Inr h'" "blk_fresh h' = blk_fresh ?h"
    "blk h' = (\<lambda>a. if a \<in> part_pointer ` set ps then None else blk ?h a)" by auto
  with Cons.prems(2) show ?case by (auto simp: fun_eq_iff)
qed auto

section \<open>Properties\<close>

text \<open>
  C28: A buffer that copies builds the concatenation of everything appended to it, in order, with a
  terminator where the options ask for one, whatever has happened meanwhile to the blocks that were
  appended; its length and number of parts are theirs; and deleting it frees exactly the blocks it allocated.
\<close>

theorem buffer_build_concat:
  assumes "\<not> opt_nocopy opts" and "\<not> opt_reverse opts" and "\<forall>p \<in> set ps. readable h p"
    and "\<forall>a \<ge> blk_fresh h. blk h a = None"
  shows "\<exists>buff0 buff h' h''. cflare_buffer_new opts = Inr buff0 \<and> append_all h buff0 ps = Inr (h', buff) \<and>
    cflare_buffer_length buff = length (concat (map (slice h) ps)) \<and> cflare_buffer_parts buff = length ps \<and>
    (\<forall>g. (\<forall>a \<ge> blk_fresh h. blk g a = blk h' a) \<longrightarrow>
       cflare_buffer_build junk g buff =
         Inr (concat (map (slice h) ps) @ (if opt_nullchar opts then [NUL] else []))) \<and>
    cflare_buffer_delete h' buff = Inr h'' \<and> blk h'' = blk h"
proof -
  from buffer_new_holds [OF assms(2), of h] assms(1) obtain buff0 where
    n: "cflare_buffer_new opts = Inr buff0" "buffer_holds h buff0 []" "owns h buff0" "needs_copy buff0"
      "nullchar buff0 = opt_nullchar opts" "parts buff0 = []" by auto
  have "grown h h buff0" using n(6) assms(4) by (simp add: grown_def)
  from append_all_copy [OF n(4,2,3) this assms(3)] n(5) obtain h' buff where
    a: "append_all h buff0 ps = Inr (h', buff)" "buffer_holds h' buff (map (slice h) ps)" "owns h' buff"
      "grown h h' buff" "needs_copy buff" "nullchar buff = opt_nullchar opts" by auto
  have ptr: "part_pointer p \<ge> blk_fresh h" if "p \<in> set (parts buff)" for p
    using a(4) that unfolding grown_def by (metis atLeastLessThan_iff image_eqI list.set_map set_upt)
  have build: "cflare_buffer_build junk g buff =
      Inr (concat (map (slice h) ps) @ (if opt_nullchar opts then [NUL] else []))"
    if "\<forall>a \<ge> blk_fresh h. blk g a = blk h' a" for g
  proof -
    have "buffer_holds g buff (map (slice h) ps)"
      using a(2) that ptr by (auto simp: buffer_holds_def part_holds_def elim!: list.rel_mono_strong)
    from build_holds [OF this] a(6) show ?thesis by simp
  qed
  have "\<forall>p \<in> set (parts buff). blk h' (part_pointer p) \<noteq> None"
    using a(2) by (auto simp: buffer_holds_def part_holds_def list_all2_conv_all_nth in_set_conv_nth) force
  with free_parts_all [of "parts buff" h'] a(2,3,5) obtain h'' where
    f: "cflare_buffer_delete h' buff = Inr h''"
      "blk h'' = (\<lambda>x. if x \<in> part_pointer ` set (parts buff) then None else blk h' x)"
    by (auto simp: cflare_buffer_delete_def buffer_holds_def owns_def)
  have "part_pointer ` set (parts buff) = {blk_fresh h..<blk_fresh h'}"
    using a(4) unfolding grown_def by (metis list.set_map set_upt)
  then have "blk h'' = blk h"
    using f(2) a(4) assms(4) by (auto simp: grown_def fun_eq_iff not_le)
  with n(1) a(1,2) build f(1) show ?thesis
    by (auto simp: cflare_buffer_length_def cflare_buffer_parts_def buffer_holds_def list_all2_lengthD)
qed

definition two_blocks :: blocks where
  "two_blocks = \<lparr>blk = [0 \<mapsto> ''HTTP/1.1'', 1 \<mapsto> '' 200 OK''], blk_fresh = 2\<rparr>"

lemma two_blocks: "readable two_blocks (0, 8)" "readable two_blocks (1, 4)"
  "\<forall>a \<ge> blk_fresh two_blocks. blk two_blocks a = None"
  "slice two_blocks (0, 8) = ''HTTP/1.1''" "slice two_blocks (1, 4) = '' 200''"
  by (simp_all add: readable_def two_blocks_def slice_def)

lemma buffer_build_concat_witness:
  "\<exists>buff0 buff h'. cflare_buffer_new \<lparr>opt_nocopy = False, opt_reverse = False, opt_nullchar = True\<rparr> = Inr buff0 \<and>
    append_all two_blocks buff0 [(0, 8), (1, 4)] = Inr (h', buff) \<and>
    cflare_buffer_build (\<lambda>_. CHR ''?'') h' buff = Inr (''HTTP/1.1 200'' @ [NUL])"
  using buffer_build_concat [of "\<lparr>opt_nocopy = False, opt_reverse = False, opt_nullchar = True\<rparr>"
      "[(0, 8), (1, 4)]" two_blocks "\<lambda>_. CHR ''?''"] two_blocks
  by (fastforce simp del: append_all.simps)

text \<open>
  With \<open>CFLARE_BUFFER_NOCOPY\<close> the buffer keeps the pointer: it builds what the appended block
  holds at that moment, so a caller that reuses the block changes the result; and asking for the
  reversed order, which the options document, aborts.
\<close>

theorem buffer_nocopy_aliases:
  assumes "opt_nocopy opts" and "\<not> opt_reverse opts" and "blk h p = Some b" and "length b' = length b"
  shows "\<exists>buff0 buff. cflare_buffer_new opts = Inr buff0 \<and>
    cflare_buffer_append h buff0 p (length b) = Inr (h, buff) \<and>
    cflare_buffer_build junk (h\<lparr>blk := (blk h)(p \<mapsto> b')\<rparr>) buff =
      Inr (b' @ (if opt_nullchar opts then [NUL] else [])) \<and>
    cflare_buffer_new (opts\<lparr>opt_reverse := True\<rparr>) =
      Inl (Fatal ''buffer_new(): buffer reversing not yet implimented.'')"
proof -
  from buffer_new_holds [OF assms(2), of h] assms(1) obtain buff0 where
    n: "cflare_buffer_new opts = Inr buff0" "buffer_holds h buff0 []" "\<not> needs_copy buff0"
      "nullchar buff0 = opt_nullchar opts" "parts buff0 = []" by auto
  let ?buff = "buff0\<lparr>alloc_count := 8, buf_count := 1, buf_length := length b,
    parts := [\<lparr>part_length = length b, part_pointer = p\<rparr>]\<rparr>"
  have "alloc_count buff0 = 8" "buf_count buff0 = 0" "buf_length buff0 = 0"
    using n(1) by (auto simp: cflare_buffer_new_def Let_def split: if_splits)
  then have "cflare_buffer_append h buff0 p (length b) = Inr (h, ?buff)"
    using n(3,5) by (simp add: cflare_buffer_append_def Let_def)
  moreover have "buffer_holds (h\<lparr>blk := (blk h)(p \<mapsto> b')\<rparr>) ?buff [b']"
    using assms(4) by (simp add: buffer_holds_def part_holds_def)
  from build_holds [OF this, of junk] n(4)
  have "cflare_buffer_build junk (h\<lparr>blk := (blk h)(p \<mapsto> b')\<rparr>) ?buff =
      Inr (b' @ (if opt_nullchar opts then [NUL] else []))" by simp
  moreover have "cflare_buffer_new (opts\<lparr>opt_reverse := True\<rparr>) =
      Inl (Fatal ''buffer_new(): buffer reversing not yet implimented.'')"
    by (simp add: cflare_buffer_new_def)
  ultimately show ?thesis using n(1) by blast
qed

lemma buffer_nocopy_aliases_witness:
  "\<exists>buff0 buff. cflare_buffer_new \<lparr>opt_nocopy = True, opt_reverse = False, opt_nullchar = False\<rparr> = Inr buff0 \<and>
    cflare_buffer_append two_blocks buff0 0 8 = Inr (two_blocks, buff) \<and>
    cflare_buffer_build (\<lambda>_. NUL) (two_blocks\<lparr>blk := (blk two_blocks)(0 \<mapsto> ''changed!'')\<rparr>) buff = Inr ''changed!''"
proof -
  have "blk two_blocks 0 = Some ''HTTP/1.1''" by (simp add: two_blocks_def)
  from buffer_nocopy_aliases [OF _ _ this, of "\<lparr>opt_nocopy = True, opt_reverse = False, opt_nullchar = False\<rparr>"
      "''changed!''" "\<lambda>_. NUL"]
  show ?thesis by (auto simp: eval_nat_numeral)
qed

end
