(* ===== verification/Socket.thy ===== *)
theory Socket
  imports Cflare_Prelude
begin

text \<open>
  The sockets of \<open>src/cflare-posix/socket.c\<close>: reading with a buffer of requeued bytes in front of the
  stream, writing until everything is taken, reading a line, and requeueing.

  The network is an argument: \<open>net\<close> holds what the calls of lthread will answer, in order. A receive
  answers the next chunk of the stream, at most as many bytes as asked for, or the end of the stream,
  or a failure; a send takes some of the bytes or fails; a wait answers a number. Where the answers run
  out the call waits for ever. \<open>net_sent\<close> is what the sends have taken so far, \<open>net_closed\<close> the
  descriptors closed.
\<close>

section \<open>The network\<close>

datatype errno =
    ENOTCONN | ECONNRESET | EAGAIN | ETIMEDOUT | EINPROGRESS | EHOSTUNREACH | EIO | ENXIO | EAFNOSUPPORT
  | ENOMEM | ENODATA | EPROTONOSUPPORT | ESOCKTNOSUPPORT | Errno nat

datatype recv_event = Data string | Closed | Recv_fails nat errno

datatype send_event = Accepts nat | Send_fails errno

record net =
  net_incoming :: "recv_event list"
  net_sends :: "send_event list"
  net_waits :: "int list"
  net_sent :: string
  net_closed :: "int list"
  net_errno :: errno

definition lthread_recv :: "net \<Rightarrow> nat \<Rightarrow> (net \<times> int \<times> string) res" where
  "lthread_recv n len =
     (if len = 0 then Inr (n, 0, [])
      else case net_incoming n of
          [] \<Rightarrow> Inl Blocked
        | Data s # es \<Rightarrow>
            Inr (n\<lparr>net_incoming := (if length s \<le> len then es else Data (drop len s) # es)\<rparr>,
                 int (length (take len s)), take len s)
        | Closed # es \<Rightarrow> Inr (n, 0, [])
        | Recv_fails c e # es \<Rightarrow> Inr (n\<lparr>net_incoming := es, net_errno := e\<rparr>, - int c - 1, []))"

text \<open>The number of bytes a send takes is stored in an \<open>int\<close>.\<close>

definition lthread_send :: "net \<Rightarrow> string \<Rightarrow> (net \<times> int) res" where
  "lthread_send n buf = (case net_sends n of
       [] \<Rightarrow> Inl Blocked
     | Accepts k # es \<Rightarrow>
         Inr (n\<lparr>net_sends := es, net_sent := net_sent n @ take k buf\<rparr>, to_int32 (length (take k buf)))
     | Send_fails e # es \<Rightarrow> Inr (n\<lparr>net_sends := es, net_errno := e\<rparr>, -1))"

definition lthread_wait_write :: "net \<Rightarrow> (net \<times> int) res" where
  "lthread_wait_write n = (case net_waits n of
       [] \<Rightarrow> Inl Blocked
     | w # ws \<Rightarrow> Inr (n\<lparr>net_waits := ws\<rparr>, w))"

section \<open>The socket\<close>

text \<open>
  The requeued bytes are those of the block from \<open>sk_requeue\<close> on; \<open>sk_requeue_buffer\<close> is \<open>None\<close> for
  the null pointer.
\<close>

record cflare_socket =
  sk_fd :: int
  sk_connected :: bool
  sk_ip :: string
  sk_port :: "16 word"
  sk_timeout :: "64 word"
  sk_requeue_buffer :: "string option"
  sk_requeue :: nat
  sk_requeue_length :: nat

text \<open>\<open>is_sock\<close> is what the operating system knows of the descriptors.\<close>

definition cflare_socket_new :: "(int \<Rightarrow> bool) \<Rightarrow> int \<Rightarrow> string \<Rightarrow> 16 word \<Rightarrow> cflare_socket res" where
  "cflare_socket_new is_sock fd ip port =
     bindE (assertE (0 \<le> fd) Assert_failed) (\<lambda>_.
     bindE (assertE (is_sock fd) Assert_failed) (\<lambda>_.
       Inr \<lparr>sk_fd = fd, sk_connected = True, sk_ip = ip, sk_port = port, sk_timeout = - 1,
            sk_requeue_buffer = None, sk_requeue = 0, sk_requeue_length = 0\<rparr>))"

definition cflare_socket_ip :: "cflare_socket \<Rightarrow> string" where
  "cflare_socket_ip sk = sk_ip sk"

definition cflare_socket_port :: "cflare_socket \<Rightarrow> 16 word" where
  "cflare_socket_port sk = sk_port sk"

definition cflare_socket_connected :: "cflare_socket \<Rightarrow> bool" where
  "cflare_socket_connected sk = sk_connected sk"

definition cflare_socket_close :: "cflare_socket \<Rightarrow> net \<Rightarrow> cflare_socket \<times> net" where
  "cflare_socket_close sk n =
     (if sk_fd sk < 0 then (sk, n)
      else (sk\<lparr>sk_fd := -1, sk_connected := False\<rparr>, n\<lparr>net_closed := net_closed n @ [sk_fd sk]\<rparr>))"

text \<open>\<open>requeue_read\<close> gives the bytes it copies to the buffer.\<close>

definition requeue_read :: "cflare_socket \<Rightarrow> nat \<Rightarrow> (cflare_socket \<times> string) res" where
  "requeue_read sk buffer_length = (case sk_requeue_buffer sk of
       None \<Rightarrow> Inr (sk, [])
     | Some block \<Rightarrow>
         let can_read = (if buffer_length < sk_requeue_length sk then buffer_length else sk_requeue_length sk)
         in bindE (assertE (sk_requeue sk + can_read \<le> length block) Out_of_bounds) (\<lambda>_.
              let sk' = sk\<lparr>sk_requeue_length := sk_requeue_length sk - can_read,
                           sk_requeue := sk_requeue sk + can_read\<rparr>
              in Inr (if sk_requeue_length sk' = 0
                      then sk'\<lparr>sk_requeue := 0, sk_requeue_buffer := None\<rparr> else sk',
                      take can_read (drop (sk_requeue sk) block))))"

text \<open>The switch on a result that is not positive; the case 0 falls through to the next.\<close>

definition recv_failed :: "cflare_socket \<Rightarrow> net \<Rightarrow> int \<Rightarrow> cflare_socket \<times> net" where
  "recv_failed sk n r =
     (if r = 0 then (sk\<lparr>sk_connected := False\<rparr>, n\<lparr>net_errno := EAGAIN\<rparr>)
      else if r = -1 then (sk, n\<lparr>net_errno := EAGAIN\<rparr>)
      else if r = -2 then (sk, n\<lparr>net_errno := ETIMEDOUT\<rparr>)
      else (sk\<lparr>sk_connected := False\<rparr>, n))"

text \<open>Reading gives the bytes written to the start of the buffer; their number is \<open>*read\<close>.\<close>

definition cflare_socket_read :: "cflare_socket \<Rightarrow> net \<Rightarrow> nat \<Rightarrow> (cflare_socket \<times> net \<times> bool \<times> string) res" where
  "cflare_socket_read sk n buffer_length =
     (if \<not> sk_connected sk then Inr (sk, n\<lparr>net_errno := ENOTCONN\<rparr>, False, [])
      else bindE (assertE (0 < buffer_length) Assert_failed) (\<lambda>_.
        bindE (if sk_requeue_length sk > 0
               then bindE (requeue_read sk buffer_length) (\<lambda>(sk1, got).
                    bindE (lthread_recv n (buffer_length - length got)) (\<lambda>(n1, r, more).
                      Inr (sk1, n1, int (length got) + (if r > 0 then r else 0), got @ more)))
               else bindE (lthread_recv n buffer_length) (\<lambda>(n1, r, more). Inr (sk, n1, r, more)))
          (\<lambda>(sk1, n1, read_count, bytes).
             if read_count \<le> 0
             then (case recv_failed sk1 n1 read_count of (sk2, n2) \<Rightarrow> Inr (sk2, n2, False, []))
             else Inr (sk1, n1, True, bytes))))"

definition send_failed :: "cflare_socket \<Rightarrow> net \<Rightarrow> cflare_socket \<times> net \<times> bool" where
  "send_failed sk n = (case cflare_socket_close sk n of (sk', n') \<Rightarrow> (sk'\<lparr>sk_connected := False\<rparr>, n', False))"

function write_loop :: "cflare_socket \<Rightarrow> net \<Rightarrow> string \<Rightarrow> (cflare_socket \<times> net \<times> bool) res" where
  "write_loop sk n buffer =
     bindE (lthread_send n buffer) (\<lambda>r.
       if snd r = int (length buffer) then Inr (sk, fst r, True)
       else if snd r \<ge> 0 then write_loop sk (fst r) (drop (nat (snd r)) buffer)
       else if net_errno (fst r) \<noteq> EAGAIN then Inr (send_failed sk (fst r))
       else bindE (lthread_wait_write (fst r)) (\<lambda>w.
              if snd w < 0 then Inr (send_failed sk (fst w)) else write_loop sk (fst w) buffer))"
  by pat_completeness auto
termination
  by (relation "measure (\<lambda>(sk, n, buffer). length (net_sends n))")
    (auto simp: lthread_send_def lthread_wait_write_def split: list.splits send_event.splits)

declare write_loop.simps [simp del]

definition cflare_socket_write :: "cflare_socket \<Rightarrow> net \<Rightarrow> string \<Rightarrow> (cflare_socket \<times> net \<times> bool) res" where
  "cflare_socket_write sk n buffer =
     (if \<not> sk_connected sk then Inr (sk, n\<lparr>net_errno := ENOTCONN\<rparr>, False)
      else write_loop sk n buffer)"

definition cflare_socket_write_line :: "cflare_socket \<Rightarrow> net \<Rightarrow> string \<Rightarrow> (cflare_socket \<times> net \<times> bool) res" where
  "cflare_socket_write_line sk n buffer =
     (if \<not> sk_connected sk then Inr (sk, n\<lparr>net_errno := ENOTCONN\<rparr>, False)
      else bindE (cflare_socket_write sk n buffer) (\<lambda>(sk1, n1, ok).
        if \<not> ok then Inr (sk1, n1, False)
        else bindE (cflare_socket_write sk1 n1 [LF]) (\<lambda>(sk2, n2, ok2).
          if \<not> ok2 then Inr (sk2, n2, False) else Inr (sk2, n2, sk_connected sk2))))"

text \<open>
  Reading a line, one byte at a time into the caller's block, up to the newline or to one byte before
  the end; then the carriage returns are taken out in place.
\<close>

definition recv_byte :: "cflare_socket \<Rightarrow> net \<Rightarrow> (cflare_socket \<times> net \<times> int \<times> string) res" where
  "recv_byte sk n =
     (if sk_requeue_length sk > 0
      then bindE (requeue_read sk 1) (\<lambda>(sk1, got). Inr (sk1, n, int (length got), got))
      else bindE (lthread_recv n 1) (\<lambda>(n1, r, got). Inr (sk, n1, r, got)))"

function line_loop ::
  "cflare_socket \<Rightarrow> net \<Rightarrow> string \<Rightarrow> nat \<Rightarrow> nat \<Rightarrow> (cflare_socket \<times> net \<times> string \<times> nat \<times> bool) res" where
  "line_loop sk n buffer buffer_length len =
     (if len < buffer_length - 1 then
        bindE (recv_byte sk n) (\<lambda>(sk1, n1, r, got).
          if r \<le> 0
          then (case recv_failed sk1 n1 r of (sk2, n2) \<Rightarrow> Inr (sk2, n2, buffer, len, False))
          else bindE (memcpy_at buffer len got) (\<lambda>buffer1.
               bindE (read_at buffer1 len) (\<lambda>c.
                 if c = LF then Inr (sk1, n1, buffer1, len, True)
                 else line_loop sk1 n1 buffer1 buffer_length (len + 1))))
      else Inr (sk, n, buffer, len, False))"
  by pat_completeness auto
termination
  by (relation "measure (\<lambda>(sk, n, buffer, buffer_length, len). buffer_length - len)") auto

declare line_loop.simps [simp del]

function strip_cr :: "string \<Rightarrow> nat \<Rightarrow> nat \<Rightarrow> nat \<Rightarrow> (string \<times> nat) res" where
  "strip_cr buffer len src dst =
     (if src < len then
        bindE (read_at buffer src) (\<lambda>c.
          if c = CR then strip_cr buffer len (src + 1) dst
          else bindE (write_at buffer dst c) (\<lambda>buffer'. strip_cr buffer' len (src + 1) (dst + 1)))
      else bindE (write_at buffer dst NUL) (\<lambda>buffer'. Inr (buffer', dst)))"
  by pat_completeness auto
termination
  by (relation "measure (\<lambda>(buffer, len, src, dst). len - src)") auto

declare strip_cr.simps [simp del]

definition cflare_socket_read_line ::
  "cflare_socket \<Rightarrow> net \<Rightarrow> string \<Rightarrow> nat \<Rightarrow> (cflare_socket \<times> net \<times> string \<times> nat \<times> bool) res" where
  "cflare_socket_read_line sk n buffer buffer_length =
     bindE (assertE (0 < buffer_length) Assert_failed) (\<lambda>_.
       if \<not> sk_connected sk then Inr (sk, n\<lparr>net_errno := ENOTCONN\<rparr>, buffer, 0, False)
       else bindE (line_loop sk n buffer buffer_length 0) (\<lambda>(sk1, n1, buffer1, len, gotnewline).
            bindE (strip_cr buffer1 len 0 0) (\<lambda>(buffer2, dst). Inr (sk1, n1, buffer2, dst, gotnewline))))"

definition cflare_socket_requeue :: "cflare_socket \<Rightarrow> string \<Rightarrow> cflare_socket res" where
  "cflare_socket_requeue sk buffer =
     (let old = (case sk_requeue_buffer sk of None \<Rightarrow> [] | Some block \<Rightarrow> drop (sk_requeue sk) block)
      in bindE (assertE (sk_requeue_length sk \<le> length old) Out_of_bounds) (\<lambda>_.
           Inr (sk\<lparr>sk_requeue_buffer := Some (buffer @ take (sk_requeue_length sk) old), sk_requeue := 0,
                   sk_requeue_length := length buffer + sk_requeue_length sk\<rparr>)))"

text \<open>What \<open>shutdown\<close> answers is only reported; what is received is dropped.\<close>

definition cflare_socket_disconnect :: "cflare_socket \<Rightarrow> net \<Rightarrow> (cflare_socket \<times> net) res" where
  "cflare_socket_disconnect sk n =
     (if \<not> sk_connected sk then Inr (sk, n)
      else bindE (lthread_recv n 1024) (\<lambda>(n1, r, got). Inr (sk\<lparr>sk_connected := False\<rparr>, n1)))"

definition cflare_socket_delete :: "cflare_socket \<Rightarrow> net \<Rightarrow> net" where
  "cflare_socket_delete sk n = snd (cflare_socket_close sk n)"

section \<open>The bytes a socket has still to deliver\<close>

fun stream :: "recv_event list \<Rightarrow> string" where
  "stream [] = []"
| "stream (Data s # es) = s @ stream es"
| "stream (Closed # es) = []"
| "stream (Recv_fails c e # es) = stream es"

definition requeued :: "cflare_socket \<Rightarrow> string" where
  "requeued sk = (case sk_requeue_buffer sk of None \<Rightarrow> []
     | Some block \<Rightarrow> take (sk_requeue_length sk) (drop (sk_requeue sk) block))"

definition sk_ok :: "cflare_socket \<Rightarrow> bool" where
  "sk_ok sk = (case sk_requeue_buffer sk of None \<Rightarrow> sk_requeue_length sk = 0
     | Some block \<Rightarrow> sk_requeue sk + sk_requeue_length sk \<le> length block)"

definition pending :: "cflare_socket \<Rightarrow> net \<Rightarrow> string" where
  "pending sk n = requeued sk @ stream (net_incoming n)"

text \<open>What receiving leaves alone.\<close>

definition same_sends :: "net \<Rightarrow> net \<Rightarrow> bool" where
  "same_sends n n' = (net_sends n' = net_sends n \<and> net_waits n' = net_waits n \<and> net_sent n' = net_sent n \<and>
     net_closed n' = net_closed n)"

definition same_socket :: "cflare_socket \<Rightarrow> cflare_socket \<Rightarrow> bool" where
  "same_socket sk sk' = (sk_fd sk' = sk_fd sk \<and> sk_ip sk' = sk_ip sk \<and> sk_port sk' = sk_port sk)"

lemma same_refl [simp]: "same_sends n n" "same_socket sk sk"
  by (simp_all add: same_sends_def same_socket_def)

lemma requeued_update [simp]:
  "requeued (sk\<lparr>sk_connected := b\<rparr>) = requeued sk" "requeued (sk\<lparr>sk_fd := f\<rparr>) = requeued sk"
  "sk_ok (sk\<lparr>sk_connected := b\<rparr>) = sk_ok sk" "sk_ok (sk\<lparr>sk_fd := f\<rparr>) = sk_ok sk"
  by (cases "sk_requeue_buffer sk"; simp add: requeued_def sk_ok_def)+

lemma length_requeued: "sk_ok sk \<Longrightarrow> length (requeued sk) = sk_requeue_length sk"
  by (auto simp: sk_ok_def requeued_def split: option.splits)

lemma recv_stream:
  assumes "lthread_recv n len = Inr (n', r, got)"
  shows "stream (net_incoming n) = got @ stream (net_incoming n') \<and> length got \<le> len \<and>
    (0 < r \<longrightarrow> r = int (length got)) \<and> (0 < r \<longleftrightarrow> got \<noteq> []) \<and> same_sends n n'"
proof (cases "len = 0")
  case False
  with assms show ?thesis
    by (auto simp: lthread_recv_def same_sends_def split: list.splits recv_event.splits if_splits)
qed (use assms in \<open>auto simp: lthread_recv_def\<close>)

lemma recv_blocks: "lthread_recv n len = Inl e \<Longrightarrow> e = Blocked"
  by (auto simp: lthread_recv_def split: list.splits recv_event.splits if_splits)

lemma requeue_read_ok:
  assumes "sk_ok sk"
  shows "\<exists>sk'. requeue_read sk len = Inr (sk', take len (requeued sk)) \<and> sk_ok sk' \<and>
    requeued sk' = drop len (requeued sk) \<and> sk_connected sk' = sk_connected sk \<and> same_socket sk sk'"
proof (cases "sk_requeue_buffer sk")
  case None
  with assms show ?thesis by (auto simp: requeue_read_def sk_ok_def requeued_def same_socket_def)
next
  case (Some block)
  with assms have b: "sk_requeue sk + sk_requeue_length sk \<le> length block" by (simp add: sk_ok_def)
  show ?thesis
  proof (cases "len < sk_requeue_length sk")
    case True
    with Some b show ?thesis
      by (auto simp: requeue_read_def sk_ok_def requeued_def same_socket_def Let_def drop_take min_def add.commute)
  next
    case False
    with Some b show ?thesis
      by (auto simp: requeue_read_def sk_ok_def requeued_def same_socket_def Let_def)
  qed
qed

lemma recv_failed_ok:
  assumes "recv_failed sk n r = (sk', n')"
  shows "requeued sk' = requeued sk" "sk_ok sk' = sk_ok sk" "net_incoming n' = net_incoming n"
    "same_sends n n'" "same_socket sk sk'"
  using assms by (auto simp: recv_failed_def same_sends_def same_socket_def split: if_splits)

lemma same_trans:
  "same_sends a b \<Longrightarrow> same_sends b c \<Longrightarrow> same_sends a c"
  "same_socket s t \<Longrightarrow> same_socket t u \<Longrightarrow> same_socket s u"
  by (simp_all add: same_sends_def same_socket_def)

lemma socket_read_cases:
  assumes ok: "sk_ok sk" and conn: "sk_connected sk" and len: "0 < buffer_length"
  shows "case cflare_socket_read sk n buffer_length of Inl e \<Rightarrow> e = Blocked
    | Inr (sk', n', ok, got) \<Rightarrow> sk_ok sk' \<and> pending sk n = got @ pending sk' n' \<and>
        length got \<le> buffer_length \<and> (ok \<longleftrightarrow> got \<noteq> []) \<and> (ok \<longrightarrow> sk_connected sk') \<and>
        (requeued sk \<noteq> [] \<longrightarrow> ok) \<and> same_sends n n' \<and> same_socket sk sk' \<and>
        requeued sk' = drop buffer_length (requeued sk)"
proof (cases "sk_requeue_length sk > 0")
  case True
  let ?got = "take buffer_length (requeued sk)"
  from requeue_read_ok [OF ok, of buffer_length] obtain sk1 where
    q: "requeue_read sk buffer_length = Inr (sk1, ?got)" "sk_ok sk1"
      "requeued sk1 = drop buffer_length (requeued sk)" "sk_connected sk1" "same_socket sk sk1"
    using conn by auto
  have g: "?got \<noteq> []" "length ?got \<le> buffer_length" using True len length_requeued [OF ok] by auto
  show ?thesis
  proof (cases "lthread_recv n (buffer_length - length ?got)")
    case (Inl e)
    with recv_blocks [OF Inl] show ?thesis
      using conn len True q(1) by (simp add: cflare_socket_read_def assertE_def)
  next
    case (Inr res)
    obtain n1 r more where res: "res = (n1, r, more)" by (cases res) auto
    from recv_stream [OF Inr [unfolded res]] have r: "stream (net_incoming n) = more @ stream (net_incoming n1)"
      "length more \<le> buffer_length - length ?got" "0 < r \<longrightarrow> r = int (length more)" "0 < r \<longleftrightarrow> more \<noteq> []"
      "same_sends n n1" by auto
    have p: "\<not> int (length ?got) + (if 0 < r then r else 0) \<le> 0" using g(1) by (auto simp: not_le)
    have run: "cflare_socket_read sk n buffer_length = Inr (sk1, n1, True, ?got @ more)"
      using conn len True q(1) Inr res p by (simp add: cflare_socket_read_def assertE_def)
    have "pending sk n = (?got @ more) @ pending sk1 n1"
    proof (cases "more = []")
      case True
      then show ?thesis using r(1) q(3) by (simp add: pending_def flip: append_assoc)
    next
      case False
      then have "length ?got < buffer_length" using r(2) by (cases more) auto
      then have "length (requeued sk) \<le> buffer_length" by simp
      then show ?thesis using r(1) q(3) by (simp add: pending_def)
    qed
    with run g r q show ?thesis by (auto simp del: length_take)
  qed
next
  case False
  then have empty: "requeued sk = []" using length_requeued [OF ok] by simp
  show ?thesis
  proof (cases "lthread_recv n buffer_length")
    case (Inl e)
    with recv_blocks [OF Inl] show ?thesis
      using conn len False by (simp add: cflare_socket_read_def assertE_def)
  next
    case (Inr res)
    obtain n1 r got where res: "res = (n1, r, got)" by (cases res) auto
    from recv_stream [OF Inr [unfolded res]] have r: "stream (net_incoming n) = got @ stream (net_incoming n1)"
      "length got \<le> buffer_length" "0 < r \<longleftrightarrow> got \<noteq> []" "same_sends n n1" by auto
    show ?thesis
    proof (cases "r \<le> 0")
      case True
      obtain sk2 n2 where f: "recv_failed sk n1 r = (sk2, n2)" by fastforce
      with conn len False Inr res True have "cflare_socket_read sk n buffer_length = Inr (sk2, n2, False, [])"
        by (simp add: cflare_socket_read_def assertE_def)
      with True r recv_failed_ok [OF f] ok empty same_trans(1) show ?thesis by (auto simp: pending_def)
    next
      case pos: False
      with conn len False Inr res have "cflare_socket_read sk n buffer_length = Inr (sk, n1, True, got)"
        by (simp add: cflare_socket_read_def assertE_def)
      with pos r ok conn empty show ?thesis by (auto simp: pending_def)
    qed
  qed
qed

text \<open>A network that still has bytes to deliver and never fails before they are.\<close>

definition delivering :: "net \<Rightarrow> bool" where
  "delivering n = (\<forall>ev \<in> set (net_incoming n). \<exists>s. ev = Data s \<and> s \<noteq> [])"

lemma recv_delivering:
  assumes "delivering n" and "len = 0 \<or> net_incoming n \<noteq> []"
  shows "\<exists>n' got. lthread_recv n len = Inr (n', int (length got), got) \<and> delivering n' \<and> (0 < len \<longrightarrow> got \<noteq> [])"
proof (cases "len = 0")
  case True
  with assms show ?thesis by (simp add: lthread_recv_def)
next
  case False
  with assms(2) obtain ev es where i: "net_incoming n = ev # es" by (cases "net_incoming n") auto
  with assms(1) obtain s where s: "ev = Data s" "s \<noteq> []" "\<forall>ev \<in> set es. \<exists>s. ev = Data s \<and> s \<noteq> []"
    by (auto simp: delivering_def)
  with False i show ?thesis by (auto simp: lthread_recv_def delivering_def)
qed

lemma count_positive: "0 < length s \<Longrightarrow> \<not> int (length s) + (if 0 < r then r else 0) \<le> 0"
  by auto

lemma socket_read_delivering:
  assumes "sk_ok sk" and "sk_connected sk" and "0 < buffer_length" and "delivering n" and "net_incoming n \<noteq> []"
  shows "\<exists>sk' n' got. cflare_socket_read sk n buffer_length = Inr (sk', n', True, got) \<and> delivering n'"
proof (cases "sk_requeue_length sk > 0")
  case True
  from requeue_read_ok [OF assms(1), of buffer_length] obtain sk1 where
    q: "requeue_read sk buffer_length = Inr (sk1, take buffer_length (requeued sk))" by blast
  from recv_delivering [OF assms(4), of "buffer_length - length (take buffer_length (requeued sk))"] assms(5)
  obtain n' more where r: "lthread_recv n (buffer_length - length (take buffer_length (requeued sk))) =
      Inr (n', int (length more), more)" "delivering n'" by blast
  have "0 < length (take buffer_length (requeued sk))" using True assms(3) length_requeued [OF assms(1)] by auto
  then have "\<not> int (length (take buffer_length (requeued sk))) +
      (if 0 < int (length more) then int (length more) else 0) \<le> 0"
    by (rule count_positive)
  with True assms(2,3) q r show ?thesis by (simp add: cflare_socket_read_def assertE_def)
next
  case False
  from recv_delivering [OF assms(4), of buffer_length] assms(3,5) obtain n' got where
    "lthread_recv n buffer_length = Inr (n', int (length got), got)" "delivering n'" "got \<noteq> []" by blast
  with False assms(2,3) show ?thesis by (simp add: cflare_socket_read_def assertE_def)
qed

section \<open>Writing\<close>

lemma socket_close_ok:
  assumes "cflare_socket_close sk n = (sk', n')"
  shows "requeued sk' = requeued sk" "sk_ok sk' = sk_ok sk" "net_incoming n' = net_incoming n"
    "net_sent n' = net_sent n" "sk_fd sk' < 0"
  using assms by (auto simp: cflare_socket_close_def split: if_splits)

definition write_result :: "cflare_socket \<Rightarrow> net \<Rightarrow> string \<Rightarrow> (cflare_socket \<times> net \<times> bool) res \<Rightarrow> bool" where
  "write_result sk n buffer r = (case r of Inl e \<Rightarrow> e = Blocked
     | Inr (sk', n', ok) \<Rightarrow> net_incoming n' = net_incoming n \<and>
         (if ok then sk' = sk \<and> net_sent n' = net_sent n @ buffer
          else \<not> sk_connected sk' \<and> sk_fd sk' < 0 \<and> (\<exists>k \<le> length buffer. net_sent n' = net_sent n @ take k buffer)))"

lemma send_failed_result:
  assumes "net_sent n = net_sent n0" "net_incoming n = net_incoming n0"
  shows "write_result sk0 n0 buffer (Inr (send_failed sk n))"
proof -
  obtain sk' n' where c: "cflare_socket_close sk n = (sk', n')" by fastforce
  from socket_close_ok [OF c] assms show ?thesis
    by (auto simp: write_result_def send_failed_def c intro: exI [of _ 0])
qed

lemma write_result_step:
  assumes "write_result sk n1 (drop k buffer) r" and "net_sent n1 = net_sent n @ take k buffer"
    and "net_incoming n1 = net_incoming n" and "k \<le> length buffer"
  shows "write_result sk n buffer r"
proof (cases r)
  case (Inr x)
  obtain sk' n' ok where x: "x = (sk', n', ok)" by (cases x) auto
  show ?thesis
  proof (cases ok)
    case False
    with assms Inr x obtain j where j: "j \<le> length buffer - k"
      "net_sent n' = net_sent n @ take k buffer @ take j (drop k buffer)" by (auto simp: write_result_def)
    then have "k + j \<le> length buffer" "net_sent n' = net_sent n @ take (k + j) buffer"
      using assms(4) by (auto simp: take_add)
    with False assms Inr x show ?thesis by (auto simp: write_result_def)
  qed (use assms Inr x in \<open>auto simp: write_result_def\<close>)
qed (use assms in \<open>auto simp: write_result_def\<close>)

lemma write_loop_result: "length buffer < 2 ^ 31 \<Longrightarrow> write_result sk n buffer (write_loop sk n buffer)"
proof (induction sk n buffer rule: write_loop.induct)
  case (1 sk n buffer)
  show ?case
  proof (cases "net_sends n")
    case Nil
    then show ?thesis by (simp add: write_loop.simps [of sk n] lthread_send_def write_result_def)
  next
    case (Cons ev es)
    show ?thesis
    proof (cases ev)
      case (Accepts k)
      let ?k = "min (length buffer) k"
      let ?n1 = "n\<lparr>net_sends := es, net_sent := net_sent n @ take k buffer\<rparr>"
      have send: "lthread_send n buffer = Inr (?n1, int ?k)"
        using 1(3) Cons Accepts by (simp add: lthread_send_def to_int32_small)
      show ?thesis
      proof (cases "?k = length buffer")
        case True
        with send show ?thesis
          by (simp add: write_loop.simps [of sk n] write_result_def)
      next
        case False
        then have k: "k < length buffer" "?k = k" by auto
        then have "write_loop sk n buffer = write_loop sk ?n1 (drop k buffer)"
          using send by (simp add: write_loop.simps [of sk n])
        moreover have "write_result sk ?n1 (drop k buffer) (write_loop sk ?n1 (drop k buffer))"
          using 1(1) [OF send] 1(3) k by simp
        ultimately show ?thesis using write_result_step [of sk ?n1 k buffer _ n] k(1) by simp
      qed
    next
      case (Send_fails e)
      let ?n1 = "n\<lparr>net_sends := es, net_errno := e\<rparr>"
      have send: "lthread_send n buffer = Inr (?n1, -1)"
        using Cons Send_fails by (simp add: lthread_send_def)
      show ?thesis
      proof (cases "e = EAGAIN")
        case False
        then have "write_loop sk n buffer = Inr (send_failed sk ?n1)"
          using send by (simp add: write_loop.simps [of sk n])
        then show ?thesis using send_failed_result [of ?n1 n] by simp
      next
        case again: True
        show ?thesis
        proof (cases "net_waits n")
          case Nil
          then show ?thesis using send again
            by (simp add: write_loop.simps [of sk n] lthread_wait_write_def write_result_def)
        next
          case waits: (Cons w ws)
          let ?n2 = "?n1\<lparr>net_waits := ws\<rparr>"
          have wait: "lthread_wait_write ?n1 = Inr (?n2, w)"
            using waits by (simp add: lthread_wait_write_def)
          show ?thesis
          proof (cases "w < 0")
            case True
            then have "write_loop sk n buffer = Inr (send_failed sk ?n2)"
              using send wait again by (simp add: write_loop.simps [of sk n])
            then show ?thesis using send_failed_result [of ?n2 n] by simp
          next
            case False
            then have run: "write_loop sk n buffer = write_loop sk ?n2 buffer"
              using send wait again by (simp add: write_loop.simps [of sk n])
            have "write_result sk ?n2 buffer (write_loop sk ?n2 buffer)"
              using 1(2) [OF send, of "(?n2, w)"] wait 1(3) False again by simp
            then show ?thesis unfolding run using write_result_step [of sk ?n2 0 buffer _ n] by simp
          qed
        qed
      qed
    qed
  qed
qed

text \<open>A network whose sends all take something, and often enough for \<open>m\<close> bytes.\<close>

definition accepting :: "net \<Rightarrow> nat \<Rightarrow> bool" where
  "accepting n m = (m \<le> length (net_sends n) \<and> (\<forall>e \<in> set (net_sends n). \<exists>k > 0. e = Accepts k))"

lemma write_loop_accepting:
  assumes "accepting n (m + max 1 (length buffer))" and "length buffer < 2 ^ 31"
  shows "\<exists>n'. write_loop sk n buffer = Inr (sk, n', True) \<and> accepting n' m \<and>
    net_sent n' = net_sent n @ buffer \<and> net_incoming n' = net_incoming n \<and> net_closed n' = net_closed n"
  using assms
proof (induction sk n buffer rule: write_loop.induct)
  case (1 sk n buffer)
  from 1(3) obtain e es where es: "net_sends n = e # es" by (cases "net_sends n") (auto simp: accepting_def)
  with 1(3) obtain k where k: "0 < k" "e = Accepts k" by (auto simp: accepting_def)
  let ?n1 = "n\<lparr>net_sends := es, net_sent := net_sent n @ take k buffer\<rparr>"
  have send: "lthread_send n buffer = Inr (?n1, int (min (length buffer) k))"
    using 1(4) es k by (simp add: lthread_send_def to_int32_small)
  show ?case
  proof (cases "length buffer \<le> k")
    case True
    then have "write_loop sk n buffer = Inr (sk, ?n1, True)"
      using send by (simp add: write_loop.simps [of sk n])
    moreover have "accepting ?n1 m" using 1(3) es by (auto simp: accepting_def)
    ultimately show ?thesis using True by (intro exI [of _ ?n1]) simp
  next
    case False
    then have m: "min (length buffer) k = k" by simp
    have run: "write_loop sk n buffer = write_loop sk ?n1 (drop k buffer)"
      using send False unfolding m by (simp add: write_loop.simps [of sk n])
    have "accepting ?n1 (m + max 1 (length (drop k buffer)))"
      using 1(3) es k False by (auto simp: accepting_def)
    moreover have "length (drop k buffer) < 2 ^ 31" using 1(4) by simp
    ultimately obtain n' where "write_loop sk ?n1 (drop k buffer) = Inr (sk, n', True)"
      "accepting n' m" "net_sent n' = net_sent ?n1 @ drop k buffer" "net_incoming n' = net_incoming ?n1"
      "net_closed n' = net_closed ?n1"
      using 1(1) [OF send] False unfolding m by auto
    with run show ?thesis by simp
  qed
qed

lemma socket_write_accepting:
  assumes "sk_connected sk" and "accepting n (m + max 1 (length buffer))" and "length buffer < 2 ^ 31"
  shows "\<exists>n'. cflare_socket_write sk n buffer = Inr (sk, n', True) \<and> accepting n' m \<and>
    net_sent n' = net_sent n @ buffer \<and> net_incoming n' = net_incoming n \<and> net_closed n' = net_closed n"
  using write_loop_accepting [OF assms(2,3), of sk] assms(1) by (simp add: cflare_socket_write_def)

lemma socket_write_line_accepting:
  assumes "sk_connected sk" and "accepting n (m + 2 + length buffer)" and "length buffer < 2 ^ 31"
  shows "\<exists>n'. cflare_socket_write_line sk n buffer = Inr (sk, n', True) \<and> accepting n' m \<and>
    net_sent n' = net_sent n @ buffer @ [LF] \<and> net_incoming n' = net_incoming n \<and> net_closed n' = net_closed n"
proof -
  have "accepting n (m + 1 + max 1 (length buffer))" using assms(2) by (auto simp: accepting_def)
  from socket_write_accepting [OF assms(1) this assms(3)] obtain n1 where n1:
    "cflare_socket_write sk n buffer = Inr (sk, n1, True)" "accepting n1 (m + 1)"
    "net_sent n1 = net_sent n @ buffer" "net_incoming n1 = net_incoming n" "net_closed n1 = net_closed n" by blast
  have "accepting n1 (m + max 1 (length [LF]))" using n1(2) by simp
  from socket_write_accepting [OF assms(1) this] obtain n2 where
    "cflare_socket_write sk n1 [LF] = Inr (sk, n2, True)" "accepting n2 m"
    "net_sent n2 = net_sent n1 @ [LF]" "net_incoming n2 = net_incoming n1" "net_closed n2 = net_closed n1" by auto
  with n1 assms(1) show ?thesis by (simp add: cflare_socket_write_line_def)
qed

section \<open>Requeueing\<close>

lemma socket_requeue_ok:
  assumes "sk_ok sk"
  shows "\<exists>sk'. cflare_socket_requeue sk buffer = Inr sk' \<and> sk_ok sk' \<and>
    requeued sk' = buffer @ requeued sk \<and> sk_connected sk' = sk_connected sk \<and> same_socket sk sk'"
proof (cases "sk_requeue_buffer sk")
  case None
  with assms show ?thesis
    by (simp add: cflare_socket_requeue_def sk_ok_def requeued_def same_socket_def assertE_def)
next
  case (Some block)
  with assms have "sk_requeue_length sk \<le> length (drop (sk_requeue sk) block)" by (simp add: sk_ok_def)
  with Some show ?thesis
    by (simp add: cflare_socket_requeue_def sk_ok_def requeued_def same_socket_def assertE_def)
qed

section \<open>Reading a line\<close>

lemma recv_byte_cases:
  assumes ok: "sk_ok sk"
  shows "case recv_byte sk n of Inl e \<Rightarrow> e = Blocked
    | Inr (sk', n', r, got) \<Rightarrow> sk_ok sk' \<and> sk_connected sk' = sk_connected sk \<and>
        pending sk n = got @ pending sk' n' \<and> (0 < r \<longrightarrow> length got = 1) \<and> (r \<le> 0 \<longrightarrow> got = []) \<and>
        same_sends n n' \<and> same_socket sk sk'"
proof (cases "sk_requeue_length sk > 0")
  case True
  from requeue_read_ok [OF ok, of 1] obtain sk1 where
    q: "requeue_read sk 1 = Inr (sk1, take 1 (requeued sk))" "sk_ok sk1" "requeued sk1 = drop 1 (requeued sk)"
      "sk_connected sk1 = sk_connected sk" "same_socket sk sk1" by blast
  have "length (take 1 (requeued sk)) = 1" using True length_requeued [OF ok] by simp
  with q True show ?thesis
    by (simp add: recv_byte_def pending_def flip: append_assoc)
next
  case False
  show ?thesis
  proof (cases "lthread_recv n 1")
    case (Inl e)
    with recv_blocks [OF Inl] False show ?thesis by (simp add: recv_byte_def)
  next
    case (Inr res)
    obtain n1 r got where res: "res = (n1, r, got)" by (cases res) auto
    have one: "got \<noteq> [] \<Longrightarrow> length got \<le> 1 \<Longrightarrow> length got = 1" by (cases got) auto
    from recv_stream [OF Inr [unfolded res]] one False Inr res ok length_requeued [OF ok] show ?thesis
      by (auto simp: recv_byte_def pending_def)
  qed
qed

definition line_result ::
  "cflare_socket \<Rightarrow> net \<Rightarrow> string \<Rightarrow> nat \<Rightarrow> nat \<Rightarrow> (cflare_socket \<times> net \<times> string \<times> nat \<times> bool) res \<Rightarrow> bool" where
  "line_result sk n buffer buffer_length len r = (case r of Inl e \<Rightarrow> e = Blocked
     | Inr (sk', n', buffer', len', nl) \<Rightarrow> sk_ok sk' \<and> length buffer' = length buffer \<and>
         (\<exists>d. pending sk n = d @ (if nl then [LF] else []) @ pending sk' n' \<and> LF \<notin> set d \<and>
            len' = len + length d \<and> take len' buffer' = take len buffer @ d \<and> len' \<le> buffer_length - 1))"

lemma line_loop_result:
  assumes "sk_ok sk" and "buffer_length \<le> length buffer" and "len \<le> buffer_length - 1"
  shows "line_result sk n buffer buffer_length len (line_loop sk n buffer buffer_length len)"
  using assms
proof (induction sk n buffer buffer_length len rule: line_loop.induct)
  case (1 sk n buffer buffer_length len)
  show ?case
  proof (cases "len < buffer_length - 1")
    case False
    then show ?thesis using 1(2-4) by (simp add: line_loop.simps [of sk n] line_result_def)
  next
    case True
    note cases = recv_byte_cases [OF 1(2), of n]
    show ?thesis
    proof (cases "recv_byte sk n")
      case (Inl e)
      with cases True show ?thesis by (simp add: line_loop.simps [of sk n] line_result_def)
    next
      case (Inr res)
      obtain sk1 n1 r got where res: "res = (sk1, n1, r, got)" by (cases res) auto
      from cases Inr res have b: "sk_ok sk1" "pending sk n = got @ pending sk1 n1"
        "0 < r \<longrightarrow> length got = 1" "r \<le> 0 \<longrightarrow> got = []" by auto
      show ?thesis
      proof (cases "r \<le> 0")
        case stop: True
        obtain sk2 n2 where f: "recv_failed sk1 n1 r = (sk2, n2)" by fastforce
        have "line_loop sk n buffer buffer_length len = Inr (sk2, n2, buffer, len, False)"
          using True Inr res stop f by (simp add: line_loop.simps [of sk n])
        with b stop recv_failed_ok [OF f] 1(4) show ?thesis by (auto simp: line_result_def pending_def)
      next
        case False
        with b(3) obtain c where c: "got = [c]" by (cases got) auto
        let ?buffer = "take len buffer @ [c] @ drop (len + 1) buffer"
        have w: "memcpy_at buffer len got = Inr ?buffer"
          using True 1(3) c by (simp add: memcpy_at_def)
        have l: "length ?buffer = length buffer" "len < length ?buffer" using True 1(3) by auto
        have "?buffer ! len = c" using True 1(3) by (simp add: nth_append)
        then have r: "read_at ?buffer len = Inr c" using l(2) by (simp del: append.simps)
        show ?thesis
        proof (cases "c = LF")
          case nl: True
          have "line_loop sk n buffer buffer_length len = Inr (sk1, n1, ?buffer, len, True)"
            using True False Inr res w r nl by (simp add: line_loop.simps [of sk n])
          with b c nl l 1(3,4) True show ?thesis by (auto simp: line_result_def)
        next
          case more: False
          have run: "line_loop sk n buffer buffer_length len = line_loop sk1 n1 ?buffer buffer_length (len + 1)"
            using True False Inr res w r more by (simp add: line_loop.simps [of sk n])
          have "line_result sk1 n1 ?buffer buffer_length (len + 1) (line_loop sk1 n1 ?buffer buffer_length (len + 1))"
            using 1(1) [OF True Inr res [symmetric] refl refl False w r more b(1)] l True 1(3) by simp
          moreover have "take (len + 1) ?buffer = take len buffer @ [c]" using True 1(3) by simp
          ultimately show ?thesis
            unfolding run using b(2) c more l(1)
            by (cases "line_loop sk1 n1 ?buffer buffer_length (len + 1)")
              (auto simp: line_result_def intro!: exI [of _ "c # _"])
        qed
      qed
    qed
  qed
qed

lemma strip_cr_result:
  assumes "dst \<le> src" and "src \<le> len" and "len < length buffer"
  shows "\<exists>buffer'. strip_cr buffer len src dst =
      Inr (buffer', dst + length (filter (\<lambda>c. c \<noteq> CR) (drop src (take len buffer)))) \<and>
    length buffer' = length buffer \<and>
    take (Suc (dst + length (filter (\<lambda>c. c \<noteq> CR) (drop src (take len buffer))))) buffer' =
      take dst buffer @ filter (\<lambda>c. c \<noteq> CR) (drop src (take len buffer)) @ [NUL]"
  using assms
proof (induction buffer len src dst rule: strip_cr.induct)
  case (1 buffer len src dst)
  show ?case
  proof (cases "src < len")
    case False
    then have "strip_cr buffer len src dst = Inr (buffer[dst := NUL], dst)"
      using 1(3-5) by (simp add: strip_cr.simps [of buffer])
    with False 1(3-5) show ?thesis by (simp add: take_Suc_conv_app_nth)
  next
    case True
    then have r: "read_at buffer src = Inr (buffer ! src)" using 1(5) by simp
    have d: "drop src (take len buffer) = buffer ! src # drop (src + 1) (take len buffer)"
      using True 1(5) Cons_nth_drop_Suc [of src "take len buffer"] by simp
    show ?thesis
    proof (cases "buffer ! src = CR")
      case cr: True
      have "strip_cr buffer len src dst = strip_cr buffer len (src + 1) dst"
        using True r cr by (simp add: strip_cr.simps [of buffer len src])
      moreover have "dst \<le> src + 1" "src + 1 \<le> len" using True 1(3) by auto
      ultimately show ?thesis using 1(1) [OF True r cr] 1(5) cr unfolding d by simp
    next
      case False
      let ?b = "buffer[dst := buffer ! src]"
      have w: "write_at buffer dst (buffer ! src) = Inr ?b" using True 1(3,5) by simp
      have run: "strip_cr buffer len src dst = strip_cr ?b len (src + 1) (dst + 1)"
        using True r False w by (simp add: strip_cr.simps [of buffer len src])
      have same: "drop (src + 1) (take len ?b) = drop (src + 1) (take len buffer)"
        using 1(3) by (simp add: drop_take)
      have "take (dst + 1) ?b = take dst buffer @ [buffer ! src]"
        using True 1(3,5) by (simp add: take_Suc_conv_app_nth)
      with 1(2) [OF True r False w] True 1(3,5) show ?thesis
        unfolding run d same using False by simp
    qed
  qed
qed

section \<open>Properties\<close>

text \<open>A socket and a network for the witnesses.\<close>

definition sample_socket :: cflare_socket where
  "sample_socket = \<lparr>sk_fd = 3, sk_connected = True, sk_ip = ''::1'', sk_port = 8080, sk_timeout = - 1,
     sk_requeue_buffer = None, sk_requeue = 0, sk_requeue_length = 0\<rparr>"

definition sample_net :: "recv_event list \<Rightarrow> send_event list \<Rightarrow> net" where
  "sample_net es fs = \<lparr>net_incoming = es, net_sends = fs, net_waits = [0], net_sent = [], net_closed = [], net_errno = Errno 0\<rparr>"

lemma sample_socket: "sk_ok sample_socket" "sk_connected sample_socket" "requeued sample_socket = []"
  by (simp_all add: sample_socket_def sk_ok_def requeued_def)

text \<open>
  C6: A socket delivers its bytes in order, each once. Requeued bytes go in front of everything still
  pending; a read answers the next bytes, never more than the buffer holds, and leaves exactly the
  rest pending; it answers false, with nothing read, only when nothing is requeued.
\<close>

theorem socket_delivers_in_order:
  assumes "sk_ok sk" and "sk_connected sk" and "0 < buffer_length"
  shows "\<exists>sk1. cflare_socket_requeue sk front = Inr sk1 \<and> pending sk1 n = front @ pending sk n \<and>
    (case cflare_socket_read sk1 n buffer_length of Inl e \<Rightarrow> e = Blocked
     | Inr (sk2, n2, ok, got) \<Rightarrow> sk_ok sk2 \<and> front @ pending sk n = got @ pending sk2 n2 \<and>
         length got \<le> buffer_length \<and> (ok \<longleftrightarrow> got \<noteq> []) \<and> (front @ requeued sk \<noteq> [] \<longrightarrow> ok))"
proof -
  from socket_requeue_ok [OF assms(1), of front] obtain sk1 where sk1:
    "cflare_socket_requeue sk front = Inr sk1" "sk_ok sk1" "requeued sk1 = front @ requeued sk"
    "sk_connected sk1" using assms(2) by auto
  then have p: "pending sk1 n = front @ pending sk n" by (simp add: pending_def)
  have "case cflare_socket_read sk1 n buffer_length of Inl e \<Rightarrow> e = Blocked
     | Inr (sk2, n2, ok, got) \<Rightarrow> sk_ok sk2 \<and> front @ pending sk n = got @ pending sk2 n2 \<and>
         length got \<le> buffer_length \<and> (ok \<longleftrightarrow> got \<noteq> []) \<and> (front @ requeued sk \<noteq> [] \<longrightarrow> ok)"
    using socket_read_cases [OF sk1(2,4) assms(3), of n] unfolding p sk1(3)
    by (cases "cflare_socket_read sk1 n buffer_length") auto
  with sk1(1) p show ?thesis by blast
qed

lemma socket_delivers_in_order_witness:
  "\<exists>sk1. cflare_socket_requeue sample_socket ''GET '' = Inr sk1 \<and>
    pending sk1 (sample_net [Data ''/''] []) = ''GET /''"
  using socket_delivers_in_order [OF sample_socket(1,2), of 16 "''GET ''" "sample_net [Data ''/''] []"]
    sample_socket(3) by (auto simp: pending_def sample_net_def)

text \<open>
  C17: Writing sends the bytes in order, each once, however few the network takes at a time and however
  often it asks to wait: it answers true with all of them sent and the socket as it was, or false with
  some prefix sent and the socket closed. When the network takes something every time, it answers true.
\<close>

theorem socket_write_all_or_close:
  assumes "sk_connected sk" and "length buffer < 2 ^ 31"
  shows "(case cflare_socket_write sk n buffer of Inl e \<Rightarrow> e = Blocked
     | Inr (sk', n', ok) \<Rightarrow>
         if ok then sk' = sk \<and> net_sent n' = net_sent n @ buffer
         else \<not> sk_connected sk' \<and> sk_fd sk' < 0 \<and>
           (\<exists>k \<le> length buffer. net_sent n' = net_sent n @ take k buffer)) \<and>
    (accepting n (max 1 (length buffer)) \<longrightarrow>
       (\<exists>n'. cflare_socket_write sk n buffer = Inr (sk, n', True)))"
  using write_loop_result [OF assms(2), of sk n] socket_write_accepting [OF assms(1), of n 0 buffer] assms
  by (auto simp: cflare_socket_write_def write_result_def split: sum.splits prod.splits if_splits)

lemma socket_write_all_or_close_witness:
  "\<exists>n'. cflare_socket_write sample_socket (sample_net [] [Accepts 1, Accepts 2]) ''ok'' = Inr (sample_socket, n', True)"
  using socket_write_all_or_close [OF sample_socket(2), of "''ok''" "sample_net [] [Accepts 1, Accepts 2]"]
  by (simp add: accepting_def sample_net_def)



lemma silent_requeue_blocks:
  assumes "sk_ok sk" and "sk_connected sk" and "requeued sk \<noteq> []" and "length (requeued sk) < buffer_length"
    and "net_incoming n = []"
  shows "cflare_socket_read sk n buffer_length = Inl Blocked"
proof -
  from requeue_read_ok [OF assms(1), of buffer_length] obtain sk1 where
    q: "requeue_read sk buffer_length = Inr (sk1, requeued sk)" using assms(4) by auto
  have "lthread_recv n (buffer_length - length (requeued sk)) = Inl Blocked"
    using assms(4,5) by (simp add: lthread_recv_def)
  moreover have "0 < sk_requeue_length sk" using assms(3) length_requeued [OF assms(1)] by (cases "requeued sk") auto
  ultimately show ?thesis
    using q assms(2,4) length_requeued [OF assms(1)] by (simp add: cflare_socket_read_def assertE_def)
qed

text \<open>
  A read waits for the network even when requeued bytes could answer it: with fewer requeued bytes
  than the buffer holds and a peer that stays silent, the read never returns.
\<close>

theorem socket_read_ignores_ready_bytes:
  assumes "sk_ok sk" and "sk_connected sk" and "requeued sk \<noteq> []" and "length (requeued sk) < buffer_length"
    and "net_incoming n = []"
  shows "cflare_socket_read sk n buffer_length = Inl Blocked"
  using assms by (rule silent_requeue_blocks)

lemma socket_read_ignores_ready_bytes_witness:
  "\<exists>sk. cflare_socket_requeue sample_socket ''GET / HTTP/1.0'' = Inr sk \<and>
    cflare_socket_read sk (sample_net [] []) 4096 = Inl Blocked"
proof -
  from socket_requeue_ok [OF sample_socket(1), of "''GET / HTTP/1.0''"] obtain sk where sk:
    "cflare_socket_requeue sample_socket ''GET / HTTP/1.0'' = Inr sk" "sk_ok sk" "sk_connected sk"
    "requeued sk = ''GET / HTTP/1.0''" using sample_socket by auto
  with socket_read_ignores_ready_bytes [OF sk(2,3), of 4096 "sample_net [] []"] show ?thesis
    by (auto simp: sample_net_def)
qed

end
