(* ===== verification/LinkedList.thy ===== *)
theory LinkedList
  imports Cflare_Prelude
begin

text \<open>
  The doubly linked list of \<open>src/cflare/linkedlist.c\<close>, on an explicit store of nodes.

  A list owns the nodes it has allocated: \<open>ll_nodes\<close> maps their addresses to their contents,
  and \<open>ll_fresh\<close> is the address the next \<open>malloc\<close> returns. A node that has been freed is no
  longer in the store, so a read or a write through it is \<open>Dangling\<close>. The block a node's
  \<open>data\<close> points to is the value \<open>nd_data\<close>; an insertion puts the zeroed element there, and the
  caller fills it in through the address it gets back (\<open>ll_write\<close>).
\<close>

section \<open>State\<close>

record 'a cflare_linkedlist_node =
  nd_data :: 'a
  nd_next :: ptr
  nd_prev :: ptr

record 'a cflare_linkedlist =
  ll_count :: nat
  ll_element_size :: nat
  ll_deleter :: ptr
  ll_deleter_context :: ptr
  ll_first :: ptr
  ll_last :: ptr
  ll_nodes :: "addr \<rightharpoonup> 'a cflare_linkedlist_node"
  ll_fresh :: addr

record cflare_linkedlist_iterator =
  it_started :: bool
  it_prev :: ptr
  it_value :: ptr
  it_next :: ptr

section \<open>Operations\<close>

definition cflare_linkedlist_new :: "nat \<Rightarrow> 'a cflare_linkedlist" where
  "cflare_linkedlist_new element_size =
     \<lparr>ll_count = 0, ll_element_size = element_size, ll_deleter = None,
      ll_deleter_context = None, ll_first = None, ll_last = None,
      ll_nodes = Map.empty, ll_fresh = 1\<rparr>"

definition cflare_linkedlist_ondelete ::
  "'a cflare_linkedlist \<Rightarrow> ptr \<Rightarrow> ptr \<Rightarrow> 'a cflare_linkedlist" where
  "cflare_linkedlist_ondelete l func context =
     l\<lparr>ll_deleter := func, ll_deleter_context := context\<rparr>"

text \<open>Access through a node pointer.\<close>

definition node_at :: "'a cflare_linkedlist \<Rightarrow> addr \<Rightarrow> 'a cflare_linkedlist_node res" where
  "node_at l a = derefE (ll_nodes l a) Dangling"

definition update_node ::
  "'a cflare_linkedlist \<Rightarrow> addr \<Rightarrow> ('a cflare_linkedlist_node \<Rightarrow> 'a cflare_linkedlist_node)
   \<Rightarrow> 'a cflare_linkedlist res" where
  "update_node l a f =
     bindE (node_at l a) (\<lambda>nd. Inr (l\<lparr>ll_nodes := (ll_nodes l)(a \<mapsto> f nd)\<rparr>))"

definition ll_write :: "'a cflare_linkedlist \<Rightarrow> addr \<Rightarrow> 'a \<Rightarrow> 'a cflare_linkedlist res" where
  "ll_write l a x = update_node l a (\<lambda>nd. nd\<lparr>nd_data := x\<rparr>)"

text \<open>The two halves of relinking: a neighbour's field where there is one, else the list's end.\<close>

definition link_next ::
  "'a cflare_linkedlist \<Rightarrow> ptr \<Rightarrow> ptr \<Rightarrow> 'a cflare_linkedlist res" where
  "link_next l pre p = (case pre of
       Some a \<Rightarrow> update_node l a (\<lambda>nd. nd\<lparr>nd_next := p\<rparr>)
     | None \<Rightarrow> Inr (l\<lparr>ll_first := p\<rparr>))"

definition link_prev ::
  "'a cflare_linkedlist \<Rightarrow> ptr \<Rightarrow> ptr \<Rightarrow> 'a cflare_linkedlist res" where
  "link_prev l post p = (case post of
       Some a \<Rightarrow> update_node l a (\<lambda>nd. nd\<lparr>nd_prev := p\<rparr>)
     | None \<Rightarrow> Inr (l\<lparr>ll_last := p\<rparr>))"

definition insert_between ::
  "'a cflare_linkedlist \<Rightarrow> ptr \<Rightarrow> ptr \<Rightarrow> 'a \<Rightarrow> ('a cflare_linkedlist \<times> addr) res" where
  "insert_between l pre post zero =
     (let node = ll_fresh l;
          l0 = l\<lparr>ll_nodes := (ll_nodes l)(node \<mapsto>
                   \<lparr>nd_data = zero, nd_next = post, nd_prev = pre\<rparr>),
                 ll_fresh := Suc node\<rparr>
      in bindE (link_next l0 pre (Some node)) (\<lambda>l1.
         bindE (link_prev l1 post (Some node)) (\<lambda>l2.
         Inr (l2\<lparr>ll_count := ll_count l2 + 1\<rparr>, node))))"

definition cflare_linkedlist_insert_before ::
  "'a cflare_linkedlist \<Rightarrow> ptr \<Rightarrow> 'a \<Rightarrow> ('a cflare_linkedlist \<times> addr) res" where
  "cflare_linkedlist_insert_before l node zero = (case node of
       None \<Rightarrow> insert_between l None None zero
     | Some a \<Rightarrow> bindE (node_at l a) (\<lambda>nd. insert_between l (nd_prev nd) node zero))"

definition cflare_linkedlist_insert_after ::
  "'a cflare_linkedlist \<Rightarrow> ptr \<Rightarrow> 'a \<Rightarrow> ('a cflare_linkedlist \<times> addr) res" where
  "cflare_linkedlist_insert_after l node zero = (case node of
       None \<Rightarrow> insert_between l None None zero
     | Some a \<Rightarrow> bindE (node_at l a) (\<lambda>nd. insert_between l node (nd_next nd) zero))"

definition cflare_linkedlist_insert_first ::
  "'a cflare_linkedlist \<Rightarrow> 'a \<Rightarrow> ('a cflare_linkedlist \<times> addr) res" where
  "cflare_linkedlist_insert_first l zero = cflare_linkedlist_insert_before l (ll_first l) zero"

definition cflare_linkedlist_insert_last ::
  "'a cflare_linkedlist \<Rightarrow> 'a \<Rightarrow> ('a cflare_linkedlist \<times> addr) res" where
  "cflare_linkedlist_insert_last l zero = cflare_linkedlist_insert_after l (ll_last l) zero"

text \<open>
  Removing a node returns the call of the deleter it made, if any. The node leaves the store
  (\<open>free\<close>) after the deleter has run.
\<close>

definition cflare_linkedlist_remove ::
  "'a cflare_linkedlist \<Rightarrow> ptr \<Rightarrow> ('a cflare_linkedlist \<times> 'a deleter_call list) res" where
  "cflare_linkedlist_remove l node =
     bindE (derefE node Assert_failed) (\<lambda>a.
     bindE (node_at l a) (\<lambda>nd.
     bindE (link_next l (nd_prev nd) (nd_next nd)) (\<lambda>l1.
     bindE (link_prev l1 (nd_next nd) (nd_prev nd)) (\<lambda>l2.
       Inr (l2\<lparr>ll_nodes := (ll_nodes l2)(a := None), ll_count := ll_count l2 - 1\<rparr>,
            call_deleter (ll_deleter l2) (ll_deleter_context l2) (nd_data nd))))))"

definition cflare_linkedlist_count :: "'a cflare_linkedlist \<Rightarrow> nat" where
  "cflare_linkedlist_count l = ll_count l"

lemma update_node_count:
  "update_node l a f = Inr l' \<Longrightarrow> ll_count l' = ll_count l"
  by (auto simp: update_node_def)

lemma link_next_count: "link_next l pre p = Inr l' \<Longrightarrow> ll_count l' = ll_count l"
  by (auto simp: link_next_def dest: update_node_count split: option.splits)

lemma link_prev_count: "link_prev l post p = Inr l' \<Longrightarrow> ll_count l' = ll_count l"
  by (auto simp: link_prev_def dest: update_node_count split: option.splits)

lemma remove_count:
  "cflare_linkedlist_remove l node = Inr (l', ds) \<Longrightarrow> ll_count l' = ll_count l - 1"
  by (auto simp: cflare_linkedlist_remove_def dest!: link_next_count link_prev_count)

text \<open>\<open>while(list->count) cflare_linkedlist_remove(list, list->first);\<close>\<close>

function cflare_linkedlist_delete ::
  "'a cflare_linkedlist \<Rightarrow> 'a deleter_call list res" where
  "cflare_linkedlist_delete l =
     (if ll_count l = 0 then Inr []
      else bindE (cflare_linkedlist_remove l (ll_first l)) (\<lambda>r.
           bindE (cflare_linkedlist_delete (fst r)) (\<lambda>ds. Inr (snd r @ ds))))"
  by pat_completeness auto
termination
  by (relation "measure ll_count") (auto dest: remove_count)

declare cflare_linkedlist_delete.simps [simp del]

text \<open>Iterators. The iterator's list is an argument; \<open>it_value\<close> is set by the first step.\<close>

definition cflare_linkedlist_get_iterator :: "cflare_linkedlist_iterator" where
  "cflare_linkedlist_get_iterator =
     \<lparr>it_started = False, it_prev = None, it_value = None, it_next = None\<rparr>"

definition cflare_linkedlist_iterator_next ::
  "'a cflare_linkedlist \<Rightarrow> cflare_linkedlist_iterator
   \<Rightarrow> (cflare_linkedlist_iterator \<times> ptr) res" where
  "cflare_linkedlist_iterator_next l it =
     (let it = (if it_started it then it
                else it\<lparr>it_next := ll_first l, it_prev := None, it_started := True,
                        it_value := None\<rparr>)
      in case it_next it of
           None \<Rightarrow> Inr (it\<lparr>it_value := None\<rparr>, None)
         | Some ret \<Rightarrow> bindE (node_at l ret) (\<lambda>nd.
             Inr (it\<lparr>it_next := nd_next nd, it_prev := it_value it, it_value := Some ret\<rparr>,
                  Some ret)))"

definition cflare_linkedlist_iterator_prev ::
  "'a cflare_linkedlist \<Rightarrow> cflare_linkedlist_iterator
   \<Rightarrow> (cflare_linkedlist_iterator \<times> ptr) res" where
  "cflare_linkedlist_iterator_prev l it =
     (let it = (if it_started it then it
                else it\<lparr>it_prev := ll_last l, it_next := None, it_started := True,
                        it_value := None\<rparr>)
      in case it_prev it of
           None \<Rightarrow> Inr (it\<lparr>it_value := None\<rparr>, None)
         | Some ret \<Rightarrow> bindE (node_at l ret) (\<lambda>nd.
             Inr (it\<lparr>it_prev := nd_prev nd, it_next := it_value it, it_value := Some ret\<rparr>,
                  Some ret)))"

text \<open>
  The loop \<open>while(cflare_linkedlist_iterator_next(&iter)) if(P(iter.value->data)) break;\<close>
  of the list's clients; the iterator where it stops. Every turn spends one unit of fuel.
\<close>

fun ll_iterate_until ::
  "nat \<Rightarrow> ('a \<Rightarrow> bool) \<Rightarrow> 'a cflare_linkedlist \<Rightarrow> cflare_linkedlist_iterator
   \<Rightarrow> cflare_linkedlist_iterator res" where
  "ll_iterate_until 0 P l it = Inl Out_of_fuel"
| "ll_iterate_until (Suc fuel) P l it =
     bindE (cflare_linkedlist_iterator_next l it) (\<lambda>r. case r of
         (it', None) \<Rightarrow> Inr it'
       | (it', Some a) \<Rightarrow> bindE (node_at l a) (\<lambda>nd.
           if P (nd_data nd) then Inr it' else ll_iterate_until fuel P l it'))"

definition ll_seek :: "('a \<Rightarrow> bool) \<Rightarrow> 'a cflare_linkedlist \<Rightarrow> cflare_linkedlist_iterator res" where
  "ll_seek P l = ll_iterate_until (Suc (ll_count l)) P l cflare_linkedlist_get_iterator"

text \<open>
  Two more loops of the clients: running an iterator to the end in either direction and
  collecting the data it passes, and removing nodes of the list while iterating over it
  (\<open>while(next(&iter)) if(P(iter.value->data)) cflare_linkedlist_remove(list, iter.value);\<close>).
\<close>

fun ll_collect_next ::
  "nat \<Rightarrow> 'a cflare_linkedlist \<Rightarrow> cflare_linkedlist_iterator \<Rightarrow> 'a list res" where
  "ll_collect_next 0 l it = Inl Out_of_fuel"
| "ll_collect_next (Suc fuel) l it =
     bindE (cflare_linkedlist_iterator_next l it) (\<lambda>r. case r of
         (it', None) \<Rightarrow> Inr []
       | (it', Some a) \<Rightarrow> bindE (node_at l a) (\<lambda>nd.
           bindE (ll_collect_next fuel l it') (\<lambda>xs. Inr (nd_data nd # xs))))"

fun ll_collect_prev ::
  "nat \<Rightarrow> 'a cflare_linkedlist \<Rightarrow> cflare_linkedlist_iterator \<Rightarrow> 'a list res" where
  "ll_collect_prev 0 l it = Inl Out_of_fuel"
| "ll_collect_prev (Suc fuel) l it =
     bindE (cflare_linkedlist_iterator_prev l it) (\<lambda>r. case r of
         (it', None) \<Rightarrow> Inr []
       | (it', Some a) \<Rightarrow> bindE (node_at l a) (\<lambda>nd.
           bindE (ll_collect_prev fuel l it') (\<lambda>xs. Inr (nd_data nd # xs))))"

fun ll_remove_iterating ::
  "nat \<Rightarrow> ('a \<Rightarrow> bool) \<Rightarrow> 'a cflare_linkedlist \<Rightarrow> cflare_linkedlist_iterator
   \<Rightarrow> ('a cflare_linkedlist \<times> 'a deleter_call list) res" where
  "ll_remove_iterating 0 P l it = Inl Out_of_fuel"
| "ll_remove_iterating (Suc fuel) P l it =
     bindE (cflare_linkedlist_iterator_next l it) (\<lambda>r. case r of
         (it', None) \<Rightarrow> Inr (l, [])
       | (it', Some a) \<Rightarrow> bindE (node_at l a) (\<lambda>nd.
           if P (nd_data nd)
           then bindE (cflare_linkedlist_remove l (it_value it')) (\<lambda>s.
                bindE (ll_remove_iterating fuel P (fst s) it') (\<lambda>t.
                  Inr (fst t, snd s @ snd t)))
           else ll_remove_iterating fuel P l it'))"

text \<open>The data of the node an iterator has stopped at.\<close>

definition ll_read :: "'a cflare_linkedlist \<Rightarrow> addr \<Rightarrow> 'a res" where
  "ll_read l a = bindE (node_at l a) (\<lambda>nd. Inr (nd_data nd))"

section \<open>The shape of a list\<close>

text \<open>
  \<open>dll h pre p as post lst\<close>: starting at \<open>p\<close> the store \<open>h\<close> holds the nodes \<open>as\<close>, linked in both
  directions; the node before the first is \<open>pre\<close>, the pointer after the last is \<open>post\<close>, and \<open>lst\<close>
  is the last node (or \<open>pre\<close>, where there is none).
\<close>

fun dll :: "(addr \<rightharpoonup> 'a cflare_linkedlist_node) \<Rightarrow> ptr \<Rightarrow> ptr \<Rightarrow> addr list \<Rightarrow> ptr \<Rightarrow> ptr \<Rightarrow> bool" where
  "dll h pre p [] post lst = (p = post \<and> pre = lst)"
| "dll h pre p (a # as) post lst =
     (p = Some a \<and> (\<exists>nd. h a = Some nd \<and> nd_prev nd = pre \<and>
        dll h (Some a) (nd_next nd) as post lst))"

definition vals :: "(addr \<rightharpoonup> 'a cflare_linkedlist_node) \<Rightarrow> addr list \<Rightarrow> 'a list" where
  "vals h as = map (\<lambda>a. nd_data (the (h a))) as"

text \<open>
  \<open>ll_chain l as\<close>: the nodes reachable from both ends of the list are \<open>as\<close>. \<open>ll_inv l as\<close> says
  moreover that these are all the nodes the list owns, so that the count is their number.
\<close>

definition ll_chain :: "'a cflare_linkedlist \<Rightarrow> addr list \<Rightarrow> bool" where
  "ll_chain l as = (dll (ll_nodes l) None (ll_first l) as None (ll_last l) \<and> distinct as \<and>
     (\<forall>a \<in> dom (ll_nodes l). a < ll_fresh l))"

definition ll_inv :: "'a cflare_linkedlist \<Rightarrow> addr list \<Rightarrow> bool" where
  "ll_inv l as = (ll_chain l as \<and> dom (ll_nodes l) = set as \<and> ll_count l = length as)"

named_theorems ll_defs
lemmas [ll_defs] = node_at_def update_node_def link_next_def link_prev_def Let_def

lemma vals_simps [simp]:
  "vals h [] = []" "vals h (a # as) = nd_data (the (h a)) # vals h as"
  "vals h (as @ bs) = vals h as @ vals h bs"
  by (simp_all add: vals_def)

lemma length_vals [simp]: "length (vals h as) = length as"
  by (simp add: vals_def)

lemma vals_upd_other [simp]: "a \<notin> set as \<Longrightarrow> vals (h(a := v)) as = vals h as"
  by (auto simp: vals_def)

lemma vals_upd_same:
  "h a = Some nd \<Longrightarrow> nd_data nd' = nd_data nd \<Longrightarrow> vals (h(a \<mapsto> nd')) as = vals h as"
  by (auto simp: vals_def)

lemma dll_append:
  "dll h pre p (as @ bs) post lst =
     (\<exists>mid l. dll h pre p as mid l \<and> dll h l mid bs post lst)"
  by (induction as arbitrary: pre p) auto

lemma dll_upd_other [simp]:
  "a \<notin> set as \<Longrightarrow> dll (h(a := v)) pre p as post lst = dll h pre p as post lst"
  by (induction as arbitrary: pre p) auto

lemma dll_dom: "dll h pre p as post lst \<Longrightarrow> set as \<subseteq> dom h"
  by (induction as arbitrary: pre p) auto

lemma dll_last:
  "dll h pre p as post lst \<Longrightarrow> lst = (if as = [] then pre else Some (last as))"
  by (induction as arbitrary: pre p) auto

lemma dll_first:
  "dll h pre p as post lst \<Longrightarrow> p = (if as = [] then post else Some (hd as))"
  by (cases as) auto

text \<open>Changing the link that leaves a segment at its right end, or the one at its left end.\<close>

lemma dll_set_next:
  "dll h pre p (as @ [a]) post lst \<Longrightarrow> a \<notin> set as \<Longrightarrow> h a = Some nd \<Longrightarrow>
   dll (h(a \<mapsto> nd\<lparr>nd_next := q\<rparr>)) pre p (as @ [a]) q (Some a)"
  by (auto simp: dll_append)

lemma dll_set_prev:
  "dll h pre p (a # as) post lst \<Longrightarrow> a \<notin> set as \<Longrightarrow> h a = Some nd \<Longrightarrow>
   dll (h(a \<mapsto> nd\<lparr>nd_prev := q\<rparr>)) q (Some a) (a # as) post lst"
  by auto

lemma dll_cong:
  "(\<And>x. x \<in> set as \<Longrightarrow> h' x = h x) \<Longrightarrow> dll h' pre p as post lst = dll h pre p as post lst"
  by (induction as arbitrary: pre p) auto

text \<open>What no operation but \<open>ondelete\<close> changes.\<close>

definition same_deleter :: "'a cflare_linkedlist \<Rightarrow> 'a cflare_linkedlist \<Rightarrow> bool" where
  "same_deleter l l' = (ll_deleter l' = ll_deleter l \<and>
     ll_deleter_context l' = ll_deleter_context l \<and> ll_element_size l' = ll_element_size l)"

lemma same_deleter_refl [simp]: "same_deleter l l"
  by (simp add: same_deleter_def)

lemma same_deleter_trans: "same_deleter l l' \<Longrightarrow> same_deleter l' l'' \<Longrightarrow> same_deleter l l''"
  by (simp add: same_deleter_def)

lemma link_next_chain:
  assumes "dll (ll_nodes l) None (ll_first l) as post lst" and "distinct as"
  shows "\<exists>l'. link_next l lst q = Inr l' \<and> dll (ll_nodes l') None (ll_first l') as q lst \<and>
    ll_last l' = ll_last l \<and> ll_count l' = ll_count l \<and> ll_fresh l' = ll_fresh l \<and>
    same_deleter l l' \<and>
    dom (ll_nodes l') = dom (ll_nodes l) \<and> (\<forall>cs. vals (ll_nodes l') cs = vals (ll_nodes l) cs) \<and>
    (\<forall>x. x \<notin> set as \<longrightarrow> ll_nodes l' x = ll_nodes l x)"
proof (cases as rule: rev_cases)
  case Nil
  with assms show ?thesis by (auto simp: link_next_def same_deleter_def)
next
  case (snoc as0 x)
  with assms obtain nd where nd: "ll_nodes l x = Some nd" and lst: "lst = Some x"
    by (auto simp: dll_append)
  show ?thesis
    using assms snoc nd lst dll_set_next [of "ll_nodes l" None "ll_first l" as0 x post lst nd q]
    by (auto simp: ll_defs same_deleter_def vals_upd_same)
qed

lemma link_prev_chain:
  assumes "dll (ll_nodes l) pre p bs None (ll_last l)" and "distinct bs"
  shows "\<exists>l'. link_prev l p q = Inr l' \<and> dll (ll_nodes l') q (if bs = [] then None else p) bs None (if bs = [] then q else ll_last l') \<and>
    (bs = [] \<longrightarrow> ll_last l' = q) \<and> (bs \<noteq> [] \<longrightarrow> ll_last l' = ll_last l) \<and>
    ll_first l' = ll_first l \<and> ll_count l' = ll_count l \<and> ll_fresh l' = ll_fresh l \<and>
    same_deleter l l' \<and>
    dom (ll_nodes l') = dom (ll_nodes l) \<and> (\<forall>cs. vals (ll_nodes l') cs = vals (ll_nodes l) cs) \<and>
    (\<forall>x. x \<notin> set bs \<longrightarrow> ll_nodes l' x = ll_nodes l x)"
proof (cases bs)
  case Nil
  with assms show ?thesis by (auto simp: link_prev_def same_deleter_def)
next
  case (Cons y bs0)
  with assms obtain nd where nd: "ll_nodes l y = Some nd" and p: "p = Some y" by auto
  show ?thesis
    using assms Cons nd p dll_set_prev [of "ll_nodes l" pre p y bs0 None "ll_last l" nd q]
    by (auto simp: ll_defs same_deleter_def vals_upd_same)
qed

text \<open>
  Relinking the ends of two parts of the store, \<open>as\<close> from the list's start and \<open>bs\<close> to the list's
  end: an insertion and a removal are both this, with a node between the parts or without.
\<close>

lemma relink_parts:
  assumes A: "dll (ll_nodes l) None (ll_first l) as m lst"
    and B: "dll (ll_nodes l) m' post bs None (ll_last l)" and dist: "distinct (as @ bs)"
    and post: "bs = [] \<Longrightarrow> post = None"
  shows "\<exists>l1 l2. link_next l lst q = Inr l1 \<and> link_prev l1 post r = Inr l2 \<and>
    dll (ll_nodes l2) None (ll_first l2) as q lst \<and>
    dll (ll_nodes l2) r post bs None (ll_last l2) \<and>
    ll_count l2 = ll_count l \<and> ll_fresh l2 = ll_fresh l \<and> same_deleter l l2 \<and>
    dom (ll_nodes l2) = dom (ll_nodes l) \<and>
    (\<forall>cs. vals (ll_nodes l2) cs = vals (ll_nodes l) cs) \<and>
    (\<forall>x. x \<notin> set (as @ bs) \<longrightarrow> ll_nodes l2 x = ll_nodes l x)"
proof -
  from link_next_chain [OF A, of q] dist obtain l1 where
    l1: "link_next l lst q = Inr l1" "dll (ll_nodes l1) None (ll_first l1) as q lst"
      "ll_last l1 = ll_last l" "ll_count l1 = ll_count l" "ll_fresh l1 = ll_fresh l"
      "same_deleter l l1" "dom (ll_nodes l1) = dom (ll_nodes l)"
      "\<forall>cs. vals (ll_nodes l1) cs = vals (ll_nodes l) cs"
      "\<forall>x. x \<notin> set as \<longrightarrow> ll_nodes l1 x = ll_nodes l x"
    by auto
  have "dll (ll_nodes l1) m' post bs None (ll_last l) = dll (ll_nodes l) m' post bs None (ll_last l)"
    using l1(9) dist by (intro dll_cong) auto
  with B l1(3) have "dll (ll_nodes l1) m' post bs None (ll_last l1)" by simp
  from link_prev_chain [OF this, of r] dist obtain l2 where
    l2: "link_prev l1 post r = Inr l2"
      "dll (ll_nodes l2) r (if bs = [] then None else post) bs None (if bs = [] then r else ll_last l2)"
      "bs = [] \<longrightarrow> ll_last l2 = r"
      "ll_first l2 = ll_first l1" "ll_count l2 = ll_count l1" "ll_fresh l2 = ll_fresh l1"
      "same_deleter l1 l2" "dom (ll_nodes l2) = dom (ll_nodes l1)"
      "\<forall>cs. vals (ll_nodes l2) cs = vals (ll_nodes l1) cs"
      "\<forall>x. x \<notin> set bs \<longrightarrow> ll_nodes l2 x = ll_nodes l1 x"
    by auto
  have "dll (ll_nodes l2) None (ll_first l1) as q lst = dll (ll_nodes l1) None (ll_first l1) as q lst"
    using l2(10) dist by (intro dll_cong) auto
  then show ?thesis
    using l1 l2 post by (auto intro: same_deleter_trans split: if_splits)
qed

lemma insert_between_chain:
  assumes chain: "ll_chain l (as @ bs)"
    and pre: "pre = (if as = [] then None else Some (last as))"
    and post: "post = (if bs = [] then None else Some (hd bs))"
  shows "\<exists>l'. insert_between l pre post z = Inr (l', ll_fresh l) \<and>
    ll_chain l' (as @ ll_fresh l # bs) \<and> ll_fresh l \<notin> dom (ll_nodes l) \<and>
    vals (ll_nodes l') (as @ ll_fresh l # bs) = vals (ll_nodes l) as @ z # vals (ll_nodes l) bs \<and>
    dom (ll_nodes l') = insert (ll_fresh l) (dom (ll_nodes l)) \<and>
    ll_count l' = ll_count l + 1 \<and> same_deleter l l'"
proof -
  let ?a = "ll_fresh l"
  let ?nd = "\<lparr>nd_data = z, nd_next = post, nd_prev = pre\<rparr>"
  let ?l0 = "l\<lparr>ll_nodes := (ll_nodes l)(?a \<mapsto> ?nd), ll_fresh := Suc ?a\<rparr>"
  from chain obtain mid lst where
    A: "dll (ll_nodes l) None (ll_first l) as mid lst" and
    B: "dll (ll_nodes l) lst mid bs None (ll_last l)" and
    dist: "distinct (as @ bs)" and fresh: "\<forall>x \<in> dom (ll_nodes l). x < ?a"
    by (auto simp: ll_chain_def dll_append)
  have nin: "?a \<notin> set (as @ bs)" "?a \<notin> dom (ll_nodes l)"
    using dll_dom [OF A] dll_dom [OF B] fresh by auto
  have ends: "lst = pre" "mid = post"
    using dll_last [OF A] dll_first [OF B] pre post by auto
  have "dll (ll_nodes ?l0) None (ll_first ?l0) as post pre"
    "dll (ll_nodes ?l0) pre post bs None (ll_last ?l0)"
    using A B nin ends by auto
  from relink_parts [OF this dist, of "Some ?a" "Some ?a"] post obtain l1 l2 where
    L: "link_next ?l0 pre (Some ?a) = Inr l1" "link_prev l1 post (Some ?a) = Inr l2"
      "dll (ll_nodes l2) None (ll_first l2) as (Some ?a) pre"
      "dll (ll_nodes l2) (Some ?a) post bs None (ll_last l2)"
      "ll_count l2 = ll_count l" "ll_fresh l2 = Suc ?a" "same_deleter ?l0 l2"
      "dom (ll_nodes l2) = insert ?a (dom (ll_nodes l))"
      "\<forall>cs. vals (ll_nodes l2) cs = vals ((ll_nodes l)(?a \<mapsto> ?nd)) cs"
      "\<forall>x. x \<notin> set (as @ bs) \<longrightarrow> ll_nodes l2 x = ((ll_nodes l)(?a \<mapsto> ?nd)) x"
    by auto
  have "ll_nodes l2 ?a = Some ?nd"
    using L(10) nin by simp
  then have "dll (ll_nodes l2) None (ll_first l2) (as @ ?a # bs) None (ll_last l2)"
    using L(3,4) by (auto simp: dll_append)
  moreover have "\<forall>x \<in> dom (ll_nodes l2). x < ll_fresh l2"
    using fresh L(6,8) by (auto intro: less_SucI)
  ultimately have "ll_chain (l2\<lparr>ll_count := ll_count l2 + 1\<rparr>) (as @ ?a # bs)"
    using dist nin by (auto simp: ll_chain_def)
  then show ?thesis
    using L nin by (auto simp: insert_between_def Let_def same_deleter_def)
qed

lemma remove_chain:
  assumes chain: "ll_chain l (as @ a # bs)"
  shows "\<exists>l'. cflare_linkedlist_remove l (Some a) =
      Inr (l', call_deleter (ll_deleter l) (ll_deleter_context l) (nd_data (the (ll_nodes l a)))) \<and>
    ll_chain l' (as @ bs) \<and>
    vals (ll_nodes l') (as @ bs) = vals (ll_nodes l) as @ vals (ll_nodes l) bs \<and>
    dom (ll_nodes l') = dom (ll_nodes l) - {a} \<and>
    ll_count l' = ll_count l - 1 \<and> same_deleter l l'"
proof -
  from chain obtain nd lst where
    A: "dll (ll_nodes l) None (ll_first l) as (Some a) lst" and
    N: "ll_nodes l a = Some nd" "nd_prev nd = lst" and
    B: "dll (ll_nodes l) (Some a) (nd_next nd) bs None (ll_last l)" and
    dist: "distinct (as @ bs)" "a \<notin> set (as @ bs)" and
    fresh: "\<forall>x \<in> dom (ll_nodes l). x < ll_fresh l"
    by (auto simp: ll_chain_def dll_append)
  have "bs = [] \<Longrightarrow> nd_next nd = None" using B by simp
  from relink_parts [OF A B dist(1) this, of "nd_next nd" lst] obtain l1 l2 where
    L: "link_next l lst (nd_next nd) = Inr l1" "link_prev l1 (nd_next nd) lst = Inr l2"
      "dll (ll_nodes l2) None (ll_first l2) as (nd_next nd) lst"
      "dll (ll_nodes l2) lst (nd_next nd) bs None (ll_last l2)"
      "ll_count l2 = ll_count l" "ll_fresh l2 = ll_fresh l" "same_deleter l l2"
      "dom (ll_nodes l2) = dom (ll_nodes l)"
      "\<forall>cs. vals (ll_nodes l2) cs = vals (ll_nodes l) cs"
    by auto
  have "dll ((ll_nodes l2)(a := None)) None (ll_first l2) (as @ bs) None (ll_last l2)"
    using L(3,4) dist by (auto simp: dll_append)
  then have "ll_chain (l2\<lparr>ll_nodes := (ll_nodes l2)(a := None), ll_count := ll_count l2 - 1\<rparr>) (as @ bs)"
    using dist fresh L(6,8) by (auto simp: ll_chain_def)
  then show ?thesis
    using L N dist by (auto simp: cflare_linkedlist_remove_def node_at_def same_deleter_def)
qed

section \<open>What each operation does to a chain\<close>

lemma new_inv [simp]: "ll_inv (cflare_linkedlist_new n) []"
  by (simp add: ll_inv_def ll_chain_def cflare_linkedlist_new_def)

lemma ondelete_chain [simp]:
  "ll_chain (cflare_linkedlist_ondelete l f ctx) as = ll_chain l as"
  "ll_inv (cflare_linkedlist_ondelete l f ctx) as = ll_inv l as"
  "ll_nodes (cflare_linkedlist_ondelete l f ctx) = ll_nodes l"
  "ll_deleter (cflare_linkedlist_ondelete l f ctx) = f"
  "ll_deleter_context (cflare_linkedlist_ondelete l f ctx) = ctx"
  by (simp_all add: ll_inv_def ll_chain_def cflare_linkedlist_ondelete_def)

lemma chain_ends:
  assumes "ll_chain l as"
  shows "ll_first l = (if as = [] then None else Some (hd as))"
    and "ll_last l = (if as = [] then None else Some (last as))"
  using assms dll_first dll_last unfolding ll_chain_def by blast+

lemma chain_node:
  assumes "ll_chain l (as @ a # bs)"
  obtains nd where "ll_nodes l a = Some nd"
    and "nd_prev nd = (if as = [] then None else Some (last as))"
    and "nd_next nd = (if bs = [] then None else Some (hd bs))"
  using assms by (auto simp: ll_chain_def dll_append dest: dll_last dll_first)

lemma chain_node_at:
  "ll_chain l (as @ a # bs) \<Longrightarrow> node_at l a = Inr (the (ll_nodes l a))"
  by (auto elim!: chain_node simp: node_at_def)

lemma insert_before_chain:
  assumes chain: "ll_chain l (as @ b # bs)"
  shows "\<exists>l'. cflare_linkedlist_insert_before l (Some b) z = Inr (l', ll_fresh l) \<and>
    ll_chain l' (as @ ll_fresh l # b # bs) \<and> ll_fresh l \<notin> dom (ll_nodes l) \<and>
    vals (ll_nodes l') (as @ ll_fresh l # b # bs) =
      vals (ll_nodes l) as @ z # vals (ll_nodes l) (b # bs) \<and>
    dom (ll_nodes l') = insert (ll_fresh l) (dom (ll_nodes l)) \<and>
    ll_count l' = ll_count l + 1 \<and> same_deleter l l'"
proof -
  from chain obtain nd where "ll_nodes l b = Some nd"
    "nd_prev nd = (if as = [] then None else Some (last as))"
    by (rule chain_node)
  then show ?thesis
    using insert_between_chain [OF chain, of _ "Some b" z]
    by (simp add: cflare_linkedlist_insert_before_def node_at_def)
qed

lemma insert_after_chain:
  assumes chain: "ll_chain l (as @ a # bs)"
  shows "\<exists>l'. cflare_linkedlist_insert_after l (Some a) z = Inr (l', ll_fresh l) \<and>
    ll_chain l' (as @ a # ll_fresh l # bs) \<and> ll_fresh l \<notin> dom (ll_nodes l) \<and>
    vals (ll_nodes l') (as @ a # ll_fresh l # bs) =
      vals (ll_nodes l) (as @ [a]) @ z # vals (ll_nodes l) bs \<and>
    dom (ll_nodes l') = insert (ll_fresh l) (dom (ll_nodes l)) \<and>
    ll_count l' = ll_count l + 1 \<and> same_deleter l l'"
proof -
  from chain obtain nd where "ll_nodes l a = Some nd"
    "nd_next nd = (if bs = [] then None else Some (hd bs))"
    by (rule chain_node)
  moreover have "ll_chain l ((as @ [a]) @ bs)" using chain by simp
  ultimately show ?thesis
    using insert_between_chain [of l "as @ [a]" bs "Some a" _ z]
    by (simp add: cflare_linkedlist_insert_after_def node_at_def)
qed

lemma insert_last_chain:
  assumes chain: "ll_chain l as"
  shows "\<exists>l'. cflare_linkedlist_insert_last l z = Inr (l', ll_fresh l) \<and>
    ll_chain l' (as @ [ll_fresh l]) \<and> ll_fresh l \<notin> dom (ll_nodes l) \<and>
    vals (ll_nodes l') (as @ [ll_fresh l]) = vals (ll_nodes l) as @ [z] \<and>
    dom (ll_nodes l') = insert (ll_fresh l) (dom (ll_nodes l)) \<and>
    ll_count l' = ll_count l + 1 \<and> same_deleter l l'"
proof (cases as rule: rev_cases)
  case Nil
  with chain show ?thesis
    using insert_between_chain [of l "[]" "[]" None None z] chain_ends [OF chain]
    by (simp add: cflare_linkedlist_insert_last_def cflare_linkedlist_insert_after_def)
next
  case (snoc as0 a)
  with chain show ?thesis
    using insert_after_chain [of l as0 a "[]" z] chain_ends [OF chain]
    by (simp add: cflare_linkedlist_insert_last_def)
qed

lemma insert_first_chain:
  assumes chain: "ll_chain l as"
  shows "\<exists>l'. cflare_linkedlist_insert_first l z = Inr (l', ll_fresh l) \<and>
    ll_chain l' (ll_fresh l # as) \<and> ll_fresh l \<notin> dom (ll_nodes l) \<and>
    vals (ll_nodes l') (ll_fresh l # as) = z # vals (ll_nodes l) as \<and>
    dom (ll_nodes l') = insert (ll_fresh l) (dom (ll_nodes l)) \<and>
    ll_count l' = ll_count l + 1 \<and> same_deleter l l'"
proof (cases as)
  case Nil
  with chain show ?thesis
    using insert_between_chain [of l "[]" "[]" None None z] chain_ends [OF chain]
    by (simp add: cflare_linkedlist_insert_first_def cflare_linkedlist_insert_before_def)
next
  case (Cons b bs)
  with chain show ?thesis
    using insert_before_chain [of l "[]" b bs z] chain_ends [OF chain]
    by (simp add: cflare_linkedlist_insert_first_def)
qed

lemma write_chain:
  assumes chain: "ll_chain l (as @ a # bs)"
  shows "\<exists>l'. ll_write l a x = Inr l' \<and> ll_chain l' (as @ a # bs) \<and>
    vals (ll_nodes l') (as @ a # bs) = vals (ll_nodes l) as @ x # vals (ll_nodes l) bs \<and>
    dom (ll_nodes l') = dom (ll_nodes l) \<and> ll_count l' = ll_count l \<and> same_deleter l l'"
  using chain
  by (auto simp: ll_write_def ll_defs ll_chain_def dll_append same_deleter_def
      dest: bspec [OF _ domI])

subsection \<open>Iterating\<close>

text \<open>
  \<open>it_rest l it bs\<close>: the iterator will visit the nodes \<open>bs\<close>. It only names the next node, so
  removing nodes already visited keeps it.
\<close>

definition it_rest ::
  "'a cflare_linkedlist \<Rightarrow> cflare_linkedlist_iterator \<Rightarrow> addr list \<Rightarrow> bool" where
  "it_rest l it bs =
     ((if it_started it then it_next it else ll_first l) = (if bs = [] then None else Some (hd bs)))"

lemma it_rest_start: "ll_chain l as \<Longrightarrow> it_rest l cflare_linkedlist_get_iterator as"
  by (simp add: it_rest_def cflare_linkedlist_get_iterator_def chain_ends)

lemma iterator_next_end:
  assumes "it_rest l it []"
  shows "\<exists>it'. cflare_linkedlist_iterator_next l it = Inr (it', None) \<and> it_value it' = None"
  using assms
  by (cases "it_started it") (auto simp: it_rest_def cflare_linkedlist_iterator_next_def)

lemma iterator_next_step:
  assumes chain: "ll_chain l (as @ b # bs)" and rest: "it_rest l it (b # bs)"
  shows "\<exists>it'. cflare_linkedlist_iterator_next l it = Inr (it', Some b) \<and>
    it_value it' = Some b \<and> it_started it' \<and>
    it_next it' = (if bs = [] then None else Some (hd bs)) \<and> it_rest l it' bs"
proof -
  from chain obtain nd where "ll_nodes l b = Some nd"
    "nd_next nd = (if bs = [] then None else Some (hd bs))"
    by (rule chain_node)
  with rest show ?thesis
    by (cases "it_started it")
      (auto simp: it_rest_def cflare_linkedlist_iterator_next_def node_at_def)
qed

lemma iterate_until_chain:
  assumes "ll_chain l (as @ bs)" and "it_rest l it bs" and "length bs < fuel"
  shows "\<exists>it'. ll_iterate_until fuel P l it = Inr it' \<and>
    it_value it' = List.find (\<lambda>a. P (nd_data (the (ll_nodes l a)))) bs"
  using assms
proof (induction bs arbitrary: as it fuel)
  case Nil
  then show ?case by (cases fuel) (auto dest!: iterator_next_end)
next
  case (Cons b bs)
  from Cons.prems obtain it' where
    step: "cflare_linkedlist_iterator_next l it = Inr (it', Some b)" "it_value it' = Some b"
      "it_rest l it' bs"
    by (blast dest: iterator_next_step)
  obtain n where n: "fuel = Suc n" using Cons.prems(3) by (cases fuel) auto
  show ?case
    using Cons.IH [of "as @ [b]" it' n] Cons.prems step n
    by (auto simp: chain_node_at)
qed

text \<open>The whole loop over a chain, with one unit of fuel more than the list has nodes.\<close>

lemma iterate_until_start:
  assumes "ll_chain l as" and "length as < fuel"
  obtains it' where
    "ll_iterate_until fuel P l cflare_linkedlist_get_iterator = Inr it'"
    and "it_value it' = List.find (\<lambda>a. P (nd_data (the (ll_nodes l a)))) as"
  using iterate_until_chain [of l "[]" as, OF _ it_rest_start assms(2)] assms(1) by auto

lemma collect_next_chain:
  assumes "ll_chain l (as @ bs)" and "it_rest l it bs" and "length bs < fuel"
  shows "ll_collect_next fuel l it = Inr (vals (ll_nodes l) bs)"
  using assms
proof (induction bs arbitrary: as it fuel)
  case Nil
  then show ?case by (cases fuel) (auto dest!: iterator_next_end)
next
  case (Cons b bs)
  then obtain it' where step: "cflare_linkedlist_iterator_next l it = Inr (it', Some b)"
      "it_rest l it' bs"
    by (blast dest: iterator_next_step)
  obtain n where n: "fuel = Suc n" using Cons.prems(3) by (cases fuel) auto
  show ?case
    using Cons.IH [of "as @ [b]" it' n] Cons.prems step n by (simp add: chain_node_at)
qed

text \<open>The same backwards: \<open>it_back l it bs\<close> says the iterator will visit \<open>bs\<close> from its end.\<close>

definition it_back ::
  "'a cflare_linkedlist \<Rightarrow> cflare_linkedlist_iterator \<Rightarrow> addr list \<Rightarrow> bool" where
  "it_back l it bs =
     ((if it_started it then it_prev it else ll_last l) = (if bs = [] then None else Some (last bs)))"

lemma it_back_start: "ll_chain l as \<Longrightarrow> it_back l cflare_linkedlist_get_iterator as"
  by (simp add: it_back_def cflare_linkedlist_get_iterator_def chain_ends)

lemma iterator_prev_end:
  assumes "it_back l it []"
  shows "\<exists>it'. cflare_linkedlist_iterator_prev l it = Inr (it', None) \<and> it_value it' = None"
  using assms
  by (cases "it_started it") (auto simp: it_back_def cflare_linkedlist_iterator_prev_def)

lemma iterator_prev_step:
  assumes chain: "ll_chain l (bs @ b # as)" and rest: "it_back l it (bs @ [b])"
  shows "\<exists>it'. cflare_linkedlist_iterator_prev l it = Inr (it', Some b) \<and>
    it_value it' = Some b \<and> it_back l it' bs"
proof -
  from chain obtain nd where "ll_nodes l b = Some nd"
    "nd_prev nd = (if bs = [] then None else Some (last bs))"
    by (rule chain_node)
  with rest show ?thesis
    by (cases "it_started it")
      (auto simp: it_back_def cflare_linkedlist_iterator_prev_def node_at_def)
qed

lemma collect_prev_chain:
  assumes "ll_chain l (bs @ as)" and "it_back l it bs" and "length bs < fuel"
  shows "ll_collect_prev fuel l it = Inr (rev (vals (ll_nodes l) bs))"
  using assms
proof (induction bs arbitrary: as it fuel rule: rev_induct)
  case Nil
  then show ?case by (cases fuel) (auto dest!: iterator_prev_end)
next
  case (snoc b bs)
  then obtain it' where step: "cflare_linkedlist_iterator_prev l it = Inr (it', Some b)"
      "it_back l it' bs"
    using iterator_prev_step [of l bs b as it] by auto
  obtain n where n: "fuel = Suc n" using snoc.prems(3) by (cases fuel) auto
  show ?case
    using snoc.IH [of "b # as" it' n] snoc.prems step n by (simp add: chain_node_at)
qed

text \<open>Removing visited nodes does not disturb the rest of the iteration.\<close>

definition ll_owned :: "'a cflare_linkedlist \<Rightarrow> bool" where
  "ll_owned l = (finite (dom (ll_nodes l)) \<and> ll_count l = card (dom (ll_nodes l)))"

lemma inv_owned: "ll_inv l as \<longleftrightarrow> ll_chain l as \<and> dom (ll_nodes l) = set as \<and> ll_owned l"
  by (auto simp: ll_inv_def ll_owned_def ll_chain_def distinct_card)

lemma remove_owned:
  assumes "ll_chain l (as @ a # bs)" and "ll_owned l"
    and "cflare_linkedlist_remove l (Some a) = Inr (l', ds)"
  shows "ll_owned l'"
  using remove_chain [OF assms(1)] assms(2,3) dll_dom [of "ll_nodes l"] assms(1)
  by (force simp: ll_owned_def ll_chain_def)

lemma remove_iterating_chain:
  assumes "ll_chain l (as @ bs)" and "it_rest l it bs" and "length bs < fuel"
  shows "\<exists>l' cs. ll_remove_iterating fuel P l it =
      Inr (l', concat (map (call_deleter (ll_deleter l) (ll_deleter_context l))
                 (filter P (vals (ll_nodes l) bs)))) \<and>
    ll_chain l' (as @ cs) \<and> vals (ll_nodes l') as = vals (ll_nodes l) as \<and>
    vals (ll_nodes l') cs = filter (\<lambda>x. \<not> P x) (vals (ll_nodes l) bs) \<and>
    set cs \<subseteq> set bs \<and> dom (ll_nodes l') = dom (ll_nodes l) - (set bs - set cs) \<and>
    (ll_owned l \<longrightarrow> ll_owned l') \<and> same_deleter l l'"
  using assms
proof (induction bs arbitrary: l as it fuel)
  case Nil
  then obtain n it' where "fuel = Suc n" "cflare_linkedlist_iterator_next l it = Inr (it', None)"
    by (cases fuel) (auto dest!: iterator_next_end)
  with Nil.prems(1) show ?case by (auto intro!: exI [of _ "[]"])
next
  case (Cons b bs)
  then obtain it' n where step: "cflare_linkedlist_iterator_next l it = Inr (it', Some b)"
      "it_value it' = Some b" "it_started it'"
      "it_next it' = (if bs = [] then None else Some (hd bs))" "it_rest l it' bs"
      and n: "fuel = Suc n" "length bs < n"
    by (cases fuel) (auto dest!: iterator_next_step)
  show ?case
  proof (cases "P (nd_data (the (ll_nodes l b)))")
    case False
    obtain l' cs where IH: "ll_remove_iterating n P l it' =
        Inr (l', concat (map (call_deleter (ll_deleter l) (ll_deleter_context l))
                   (filter P (vals (ll_nodes l) bs))))"
      "ll_chain l' ((as @ [b]) @ cs)" "vals (ll_nodes l') (as @ [b]) = vals (ll_nodes l) (as @ [b])"
      "vals (ll_nodes l') cs = filter (\<lambda>x. \<not> P x) (vals (ll_nodes l) bs)" "set cs \<subseteq> set bs"
      "dom (ll_nodes l') = dom (ll_nodes l) - (set bs - set cs)" "ll_owned l \<longrightarrow> ll_owned l'"
      "same_deleter l l'"
      using Cons.IH [of l "as @ [b]" it' n] Cons.prems(1) step(5) n(2) by auto
    moreover have "b \<notin> set bs" using Cons.prems(1) by (simp add: ll_chain_def)
    ultimately show ?thesis
      using False step(1) n(1) Cons.prems(1)
      by (intro exI [of _ l'] exI [of _ "b # cs"]) (auto simp: chain_node_at)
  next
    case True
    from remove_chain [OF Cons.prems(1)] obtain l1 where
      l1: "cflare_linkedlist_remove l (Some b) =
          Inr (l1, call_deleter (ll_deleter l) (ll_deleter_context l) (nd_data (the (ll_nodes l b))))"
        "ll_chain l1 (as @ bs)" "vals (ll_nodes l1) (as @ bs) = vals (ll_nodes l) as @ vals (ll_nodes l) bs"
        "dom (ll_nodes l1) = dom (ll_nodes l) - {b}" "same_deleter l l1"
      by blast
    from l1(3) have v: "vals (ll_nodes l1) as = vals (ll_nodes l) as"
      "vals (ll_nodes l1) bs = vals (ll_nodes l) bs" by simp_all
    have "it_rest l1 it' bs" using step(3,4) by (simp add: it_rest_def)
    then obtain l' cs where IH: "ll_remove_iterating n P l1 it' =
        Inr (l', concat (map (call_deleter (ll_deleter l1) (ll_deleter_context l1))
                   (filter P (vals (ll_nodes l1) bs))))"
      "ll_chain l' (as @ cs)" "vals (ll_nodes l') as = vals (ll_nodes l1) as"
      "vals (ll_nodes l') cs = filter (\<lambda>x. \<not> P x) (vals (ll_nodes l1) bs)" "set cs \<subseteq> set bs"
      "dom (ll_nodes l') = dom (ll_nodes l1) - (set bs - set cs)" "ll_owned l1 \<longrightarrow> ll_owned l'"
      "same_deleter l1 l'"
      using Cons.IH [of l1 as it' n] l1(2) n(2) by auto
    have "b \<notin> set bs" using Cons.prems(1) by (simp add: ll_chain_def)
    with IH l1(4,5) v remove_owned [OF Cons.prems(1) _ l1(1)] True step(1,2) n(1) Cons.prems(1) l1(1)
    show ?thesis
      by (intro exI [of _ l'] exI [of _ cs]) (auto simp: chain_node_at same_deleter_def)
  qed
qed

lemma delete_inv:
  assumes "ll_inv l as"
  shows "cflare_linkedlist_delete l =
    Inr (concat (map (call_deleter (ll_deleter l) (ll_deleter_context l)) (vals (ll_nodes l) as)))"
  using assms
proof (induction as arbitrary: l)
  case Nil
  then show ?case by (simp add: ll_inv_def cflare_linkedlist_delete.simps)
next
  case (Cons a as)
  from Cons.prems have chain: "ll_chain l ([] @ a # as)" and first: "ll_first l = Some a"
    by (auto simp: ll_inv_def ll_chain_def)
  from remove_chain [OF chain] obtain l' where
    l': "cflare_linkedlist_remove l (Some a) =
        Inr (l', call_deleter (ll_deleter l) (ll_deleter_context l) (nd_data (the (ll_nodes l a))))"
      "ll_chain l' as" "vals (ll_nodes l') as = vals (ll_nodes l) as"
      "dom (ll_nodes l') = dom (ll_nodes l) - {a}" "ll_count l' = ll_count l - 1"
      "same_deleter l l'"
    by auto
  have "ll_inv l' as"
    using Cons.prems l' by (auto simp: ll_inv_def ll_chain_def)
  then show ?case
    using Cons.IH [of l'] l' first Cons.prems
    by (subst cflare_linkedlist_delete.simps) (simp add: ll_inv_def same_deleter_def)
qed

section \<open>The interface of the list\<close>

text \<open>
  The nodes of a list in order, read off the store, and the values in them. The store holds
  fewer than \<open>ll_fresh\<close> nodes, so that many steps reach every node of a chain.
\<close>

fun walk :: "nat \<Rightarrow> (addr \<rightharpoonup> 'a cflare_linkedlist_node) \<Rightarrow> ptr \<Rightarrow> addr list" where
  "walk 0 h p = []"
| "walk (Suc n) h None = []"
| "walk (Suc n) h (Some a) = (case h a of None \<Rightarrow> [] | Some nd \<Rightarrow> a # walk n h (nd_next nd))"

definition ll_addrs :: "'a cflare_linkedlist \<Rightarrow> addr list" where
  "ll_addrs l = walk (ll_fresh l) (ll_nodes l) (ll_first l)"

definition ll_contents :: "'a cflare_linkedlist \<Rightarrow> 'a list" where
  "ll_contents l = vals (ll_nodes l) (ll_addrs l)"

definition ll_wf :: "'a cflare_linkedlist \<Rightarrow> bool" where
  "ll_wf l = ll_inv l (ll_addrs l)"

definition ll_cursor ::
  "'a cflare_linkedlist \<Rightarrow> addr \<Rightarrow> 'a list \<Rightarrow> 'a \<Rightarrow> 'a list \<Rightarrow> bool" where
  "ll_cursor l a xs x ys = (\<exists>as bs. ll_inv l (as @ a # bs) \<and> vals (ll_nodes l) as = xs \<and>
     nd_data (the (ll_nodes l a)) = x \<and> vals (ll_nodes l) bs = ys)"

lemma cursorI:
  "ll_inv l (as @ a # bs) \<Longrightarrow> vals (ll_nodes l) (as @ a # bs) = xs @ x # ys \<Longrightarrow>
   length as = length xs \<Longrightarrow> ll_cursor l a xs x ys"
  unfolding ll_cursor_def by (intro exI [of _ as] exI [of _ bs]) simp

lemma walk_dll:
  "dll h pre p as None lst \<Longrightarrow> length as \<le> n \<Longrightarrow> walk n h p = as"
proof (induction as arbitrary: pre p n)
  case Nil
  then show ?case by (cases n) auto
next
  case (Cons a as)
  then show ?case by (cases n) auto
qed

lemma chain_length: "ll_chain l as \<Longrightarrow> length as \<le> ll_fresh l"
proof -
  assume "ll_chain l as"
  then have "set as \<subseteq> {..<ll_fresh l}" and "distinct as"
    using dll_dom [of "ll_nodes l" None "ll_first l" as None "ll_last l"]
    by (auto simp: ll_chain_def)
  then show "length as \<le> ll_fresh l"
    using card_mono [of "{..<ll_fresh l}" "set as"] by (simp add: distinct_card)
qed

lemma chain_addrs: "ll_chain l as \<Longrightarrow> ll_addrs l = as"
  using chain_length by (auto simp: ll_addrs_def ll_chain_def intro: walk_dll)

lemma inv_addrs: "ll_inv l as \<Longrightarrow> ll_addrs l = as"
  by (simp add: ll_inv_def chain_addrs)

lemma wf_inv: "ll_inv l as \<Longrightarrow> ll_wf l"
  by (simp add: ll_wf_def inv_addrs)

lemma inv_contents: "ll_inv l as \<Longrightarrow> ll_contents l = vals (ll_nodes l) as"
  by (simp add: ll_contents_def inv_addrs)

lemma wf_count: "ll_wf l \<Longrightarrow> ll_count l = length (ll_contents l)"
  by (simp add: ll_wf_def ll_contents_def ll_inv_def)

lemma wf_new [simp]: "ll_wf (cflare_linkedlist_new n)"
  and contents_new [simp]: "ll_contents (cflare_linkedlist_new n) = []"
  using new_inv inv_contents by (fastforce intro: wf_inv)+

lemma wf_ondelete [simp]:
  "ll_wf (cflare_linkedlist_ondelete l f ctx) = ll_wf l"
  "ll_contents (cflare_linkedlist_ondelete l f ctx) = ll_contents l"
  by (simp_all add: ll_wf_def ll_contents_def ll_addrs_def ll_inv_def ll_chain_def
      cflare_linkedlist_ondelete_def)

lemma find_split:
  "List.find P as = (case as of [] \<Rightarrow> None | a # as' \<Rightarrow> if P a then Some a else List.find P as')"
  by (cases as) simp_all

lemma seek_inv:
  assumes "ll_inv l as"
  obtains it where "ll_seek P l = Inr it"
    and "it_value it = List.find (\<lambda>a. P (nd_data (the (ll_nodes l a)))) as"
  using iterate_until_start [of l as "Suc (ll_count l)" P] assms
  by (auto simp: ll_inv_def ll_seek_def)

text \<open>
  What the clients of the list rely on: a cursor splits the contents at one element; pushing,
  writing and removing act on the contents at the cursor; a search stops at the first match.
\<close>

locale sequence_store =
  fixes wf :: "'l \<Rightarrow> bool" and contents :: "'l \<Rightarrow> 'a list"
    and cursor :: "'l \<Rightarrow> addr \<Rightarrow> 'a list \<Rightarrow> 'a \<Rightarrow> 'a list \<Rightarrow> bool"
    and conf :: "'l \<Rightarrow> 'd" and calls :: "'d \<Rightarrow> 'a \<Rightarrow> 'a deleter_call list"
    and push :: "'l \<Rightarrow> 'a \<Rightarrow> ('l \<times> addr) res"
    and peek :: "'l \<Rightarrow> addr \<Rightarrow> 'a res"
    and fill :: "'l \<Rightarrow> addr \<Rightarrow> 'a \<Rightarrow> 'l res"
    and remove :: "'l \<Rightarrow> ptr \<Rightarrow> ('l \<times> 'a deleter_call list) res"
    and seek :: "('a \<Rightarrow> bool) \<Rightarrow> 'l \<Rightarrow> cflare_linkedlist_iterator res"
  assumes cursor_wf: "cursor l a xs x ys \<Longrightarrow> wf l"
    and cursor_contents: "cursor l a xs x ys \<Longrightarrow> contents l = xs @ x # ys"
    and cursor_push: "wf l \<Longrightarrow>
      \<exists>l' a. push l z = Inr (l', a) \<and> cursor l' a (contents l) z [] \<and> conf l' = conf l"
    and cursor_read: "cursor l a xs x ys \<Longrightarrow> peek l a = Inr x"
    and cursor_write: "cursor l a xs x ys \<Longrightarrow>
      \<exists>l'. fill l a y = Inr l' \<and> cursor l' a xs y ys \<and> conf l' = conf l"
    and cursor_remove: "cursor l a xs x ys \<Longrightarrow>
      \<exists>l'. remove l (Some a) = Inr (l', calls (conf l) x) \<and> wf l' \<and> contents l' = xs @ ys \<and>
        conf l' = conf l"
    and seek_first: "wf l \<Longrightarrow> \<exists>it. seek P l = Inr it \<and>
      (case it_value it of
         None \<Rightarrow> \<forall>x \<in> set (contents l). \<not> P x
       | Some a \<Rightarrow> \<exists>xs x ys. cursor l a xs x ys \<and> P x \<and> (\<forall>y \<in> set xs. \<not> P y))"
begin

text \<open>Inserting an element and filling it in appends it to the contents.\<close>

lemma push_fill:
  assumes "wf l"
  shows "\<exists>l' a l''. push l z = Inr (l', a) \<and> fill l' a x = Inr l'' \<and> wf l'' \<and>
    contents l'' = contents l @ [x] \<and> conf l'' = conf l"
proof -
  from cursor_push [OF assms, of z] obtain l' a where
    l': "push l z = Inr (l', a)" "cursor l' a (contents l) z []" "conf l' = conf l" by blast
  from cursor_write [OF l'(2), of x] obtain l'' where
    "fill l' a x = Inr l''" "cursor l'' a (contents l) x []" "conf l'' = conf l'" by blast
  with l' show ?thesis
    by (fastforce dest: cursor_wf cursor_contents)
qed

text \<open>Where the key function is injective on the contents, the element found is the only match.\<close>

lemma seek_unique:
  assumes "wf l" and "distinct (map key (contents l))"
  shows "\<exists>it. seek (\<lambda>x. key x = k) l = Inr it \<and>
    (case it_value it of
       None \<Rightarrow> k \<notin> key ` set (contents l)
     | Some a \<Rightarrow> \<exists>xs x ys. cursor l a xs x ys \<and> key x = k \<and> contents l = xs @ x # ys \<and>
         k \<notin> key ` set xs \<and> k \<notin> key ` set ys)"
proof -
  from seek_first [OF assms(1), of "\<lambda>x. key x = k"] obtain it where
    it: "seek (\<lambda>x. key x = k) l = Inr it"
      "case it_value it of None \<Rightarrow> \<forall>x \<in> set (contents l). key x \<noteq> k
       | Some a \<Rightarrow> \<exists>xs x ys. cursor l a xs x ys \<and> key x = k \<and> (\<forall>y \<in> set xs. key y \<noteq> k)"
    by blast
  show ?thesis
  proof (cases "it_value it")
    case None
    with it show ?thesis by auto
  next
    case (Some a)
    with it obtain xs x ys where c: "cursor l a xs x ys" "key x = k" "\<forall>y \<in> set xs. key y \<noteq> k"
      by auto
    with cursor_contents [OF c(1)] assms(2)
    have "cursor l a xs x ys \<and> key x = k \<and> contents l = xs @ x # ys \<and>
      k \<notin> key ` set xs \<and> k \<notin> key ` set ys"
      by auto
    then have "\<exists>xs x ys. cursor l a xs x ys \<and> key x = k \<and> contents l = xs @ x # ys \<and>
      k \<notin> key ` set xs \<and> k \<notin> key ` set ys" by blast
    with it(1) Some show ?thesis by simp
  qed
qed

end

lemma find_cursor:
  assumes inv: "ll_inv l (as0 @ as)"
    and none: "\<forall>y \<in> set (vals (ll_nodes l) as0). \<not> P y"
  shows "case List.find (\<lambda>a. P (nd_data (the (ll_nodes l a)))) as of
      None \<Rightarrow> \<forall>x \<in> set (vals (ll_nodes l) as). \<not> P x
    | Some a \<Rightarrow> \<exists>xs x ys. ll_cursor l a xs x ys \<and> P x \<and> (\<forall>y \<in> set xs. \<not> P y)"
  using assms
proof (induction as arbitrary: as0)
  case Nil
  then show ?case by simp
next
  case (Cons a as)
  show ?case
  proof (cases "P (nd_data (the (ll_nodes l a)))")
    case True
    then have "ll_cursor l a (vals (ll_nodes l) as0) (nd_data (the (ll_nodes l a))) (vals (ll_nodes l) as)"
      using Cons.prems(1) by (auto simp: ll_cursor_def)
    with True Cons.prems(2) show ?thesis by auto
  next
    case False
    with Cons.IH [of "as0 @ [a]"] Cons.prems show ?thesis by (simp split: option.splits)
  qed
qed

lemma ll_seek_first:
  assumes "ll_wf l"
  shows "\<exists>it. ll_seek P l = Inr it \<and>
    (case it_value it of
       None \<Rightarrow> \<forall>x \<in> set (ll_contents l). \<not> P x
     | Some a \<Rightarrow> \<exists>xs x ys. ll_cursor l a xs x ys \<and> P x \<and> (\<forall>y \<in> set xs. \<not> P y))"
proof -
  have inv: "ll_inv l ([] @ ll_addrs l)" using assms by (simp add: ll_wf_def)
  then obtain it where it: "ll_seek P l = Inr it"
    "it_value it = List.find (\<lambda>a. P (nd_data (the (ll_nodes l a)))) (ll_addrs l)"
    by (auto elim: seek_inv)
  with find_cursor [OF inv, of P] show ?thesis
    by (simp add: ll_contents_def split: option.splits)
qed

definition ll_conf :: "'a cflare_linkedlist \<Rightarrow> ptr \<times> ptr" where
  "ll_conf l = (ll_deleter l, ll_deleter_context l)"

lemma ll_conf_same: "same_deleter l l' \<Longrightarrow> ll_conf l' = ll_conf l"
  by (simp add: ll_conf_def same_deleter_def)

interpretation ll: sequence_store ll_wf ll_contents ll_cursor
  ll_conf "\<lambda>d. call_deleter (fst d) (snd d)"
  cflare_linkedlist_insert_last ll_read ll_write cflare_linkedlist_remove ll_seek
proof (unfold_locales, goal_cases)
  case (1 l a xs x ys)
  then show ?case by (auto simp: ll_cursor_def intro: wf_inv)
next
  case (2 l a xs x ys)
  then show ?case by (auto simp: ll_cursor_def inv_contents)
next
  case (3 l z)
  then have inv: "ll_inv l (ll_addrs l)" by (simp add: ll_wf_def)
  then show ?case
    using insert_last_chain [of l "ll_addrs l" z]
    by (fastforce simp: ll_cursor_def ll_inv_def ll_contents_def ll_conf_same)
next
  case (4 l a xs x ys)
  then show ?case
    by (auto simp: ll_cursor_def ll_inv_def ll_read_def chain_node_at)
next
  case (5 l a xs x ys y)
  then obtain as bs where "ll_inv l (as @ a # bs)" "vals (ll_nodes l) as = xs" "vals (ll_nodes l) bs = ys"
    by (auto simp: ll_cursor_def)
  then show ?case
    using write_chain [of l as a bs y]
    by (fastforce simp: ll_cursor_def ll_inv_def ll_conf_same)
next
  case (6 l a xs x ys)
  then obtain as bs where c: "ll_inv l (as @ a # bs)" "vals (ll_nodes l) as = xs"
    "nd_data (the (ll_nodes l a)) = x" "vals (ll_nodes l) bs = ys"
    by (auto simp: ll_cursor_def)
  with remove_chain [of l as a bs] obtain l' where
    l': "cflare_linkedlist_remove l (Some a) = Inr (l', call_deleter (ll_deleter l) (ll_deleter_context l) x)"
      "ll_inv l' (as @ bs)" "vals (ll_nodes l') (as @ bs) = xs @ ys" "same_deleter l l'"
    by (auto simp: ll_inv_def ll_chain_def)
  then show ?case by (auto simp: ll_conf_def same_deleter_def inv_contents intro: wf_inv)
next
  case (7 l P)
  then show ?case by (rule ll_seek_first)
qed

section \<open>Properties\<close>

lemma insert_before_cursor:
  assumes "ll_cursor l b xs y ys"
  shows "\<exists>l' a. cflare_linkedlist_insert_before l (Some b) z = Inr (l', a) \<and>
      ll_cursor l' a xs z (y # ys) \<and> ll_count l' = ll_count l + 1 \<and> same_deleter l l'"
proof -
  from assms obtain as bs where c: "ll_inv l (as @ b # bs)" "vals (ll_nodes l) as = xs"
    "nd_data (the (ll_nodes l b)) = y" "vals (ll_nodes l) bs = ys"
    by (auto simp: ll_cursor_def)
  from c(1) have chain: "ll_chain l (as @ b # bs)" by (simp add: ll_inv_def)
  from insert_before_chain [OF chain, of z] obtain l' where
    l': "cflare_linkedlist_insert_before l (Some b) z = Inr (l', ll_fresh l)"
    "ll_chain l' (as @ ll_fresh l # b # bs)" "ll_count l' = ll_count l + 1" "same_deleter l l'"
    "dom (ll_nodes l') = insert (ll_fresh l) (dom (ll_nodes l))"
    "vals (ll_nodes l') (as @ ll_fresh l # b # bs) =
       vals (ll_nodes l) as @ z # vals (ll_nodes l) (b # bs)"
    by blast
  have "ll_inv l' (as @ ll_fresh l # b # bs)"
    using l'(2,3,5) c(1) by (auto simp: ll_inv_def)
  then have "ll_cursor l' (ll_fresh l) xs z (y # ys)"
    using c(2-4) l'(6) by (intro cursorI) auto
  with l'(1,3,4) show ?thesis by blast
qed

lemma insert_after_cursor:
  assumes "ll_cursor l b xs y ys"
  shows "\<exists>l' a. cflare_linkedlist_insert_after l (Some b) z = Inr (l', a) \<and>
      ll_cursor l' a (xs @ [y]) z ys \<and> ll_count l' = ll_count l + 1 \<and> same_deleter l l'"
proof -
  from assms obtain as bs where c: "ll_inv l (as @ b # bs)" "vals (ll_nodes l) as = xs"
    "nd_data (the (ll_nodes l b)) = y" "vals (ll_nodes l) bs = ys"
    by (auto simp: ll_cursor_def)
  from c(1) have chain: "ll_chain l (as @ b # bs)" by (simp add: ll_inv_def)
  from insert_after_chain [OF chain, of z] obtain l' where
    l': "cflare_linkedlist_insert_after l (Some b) z = Inr (l', ll_fresh l)"
    "ll_chain l' (as @ b # ll_fresh l # bs)" "ll_count l' = ll_count l + 1" "same_deleter l l'"
    "dom (ll_nodes l') = insert (ll_fresh l) (dom (ll_nodes l))"
    "vals (ll_nodes l') (as @ b # ll_fresh l # bs) =
       vals (ll_nodes l) (as @ [b]) @ z # vals (ll_nodes l) bs"
    by blast
  have "ll_inv l' ((as @ [b]) @ ll_fresh l # bs)"
    using l'(2,3,5) c(1) by (auto simp: ll_inv_def)
  moreover have "vals (ll_nodes l') ((as @ [b]) @ ll_fresh l # bs) = (xs @ [y]) @ z # ys"
    using l'(6) c(2-4) by simp
  ultimately have "ll_cursor l' (ll_fresh l) (xs @ [y]) z ys"
    using c(2) cursorI [of l' "as @ [b]"] by fastforce
  with l'(1,3,4) show ?thesis by blast
qed

text \<open>
  C20: inserting before or after a node that is in the list puts the new element at exactly that
  place of the contents, keeps the list well formed and counts one element more.
\<close>

theorem linkedlist_insert_refines:
  assumes "ll_cursor l b xs y ys"
  shows "(\<exists>l' a. cflare_linkedlist_insert_before l (Some b) z = Inr (l', a) \<and>
      ll_cursor l' a xs z (y # ys) \<and> ll_count l' = ll_count l + 1) \<and>
    (\<exists>l' a. cflare_linkedlist_insert_after l (Some b) z = Inr (l', a) \<and>
      ll_cursor l' a (xs @ [y]) z ys \<and> ll_count l' = ll_count l + 1)"
  using insert_before_cursor [OF assms, of z] insert_after_cursor [OF assms, of z] by blast

text \<open>A list of two elements for the witnesses.\<close>

definition two_nodes :: "int cflare_linkedlist" where
  "two_nodes = \<lparr>ll_count = 2, ll_element_size = 4, ll_deleter = Some 9,
     ll_deleter_context = None, ll_first = Some 1, ll_last = Some 2,
     ll_nodes = [1 \<mapsto> \<lparr>nd_data = 5, nd_next = Some 2, nd_prev = None\<rparr>,
                 2 \<mapsto> \<lparr>nd_data = 6, nd_next = None, nd_prev = Some 1\<rparr>],
     ll_fresh = 3\<rparr>"

lemma two_nodes_inv: "ll_inv two_nodes [1, 2]"
  by (auto simp: two_nodes_def ll_inv_def ll_chain_def)

lemma two_nodes_cursor: "ll_cursor two_nodes 1 [] 5 [6]"
  using two_nodes_inv by (intro cursorI [where as = "[]"]) (auto simp: two_nodes_def)

lemma two_nodes_contents: "ll_wf two_nodes" "ll_contents two_nodes = [5, 6]" "ll_count two_nodes = 2"
  "ll_deleter two_nodes = Some 9" "ll_deleter_context two_nodes = None"
  using two_nodes_inv
  by (auto simp: inv_contents intro: wf_inv) (auto simp: two_nodes_def)

theorem linkedlist_insert_refines_witness:
  "\<exists>l' a. cflare_linkedlist_insert_before two_nodes (Some 1) 7 = Inr (l', a) \<and>
     ll_cursor l' a [] 7 [5, 6] \<and> ll_count l' = 3"
  using linkedlist_insert_refines [OF two_nodes_cursor, of 7]
  by (simp add: two_nodes_contents)

text \<open>
  C29: removing nodes of the list while an iterator runs over it is safe, as the documentation of
  \<open>cflare_linkedlist_get_iterator\<close> promises: the loop stops, exactly the matching elements are gone,
  the others keep their order, and the deleter was called once for each removed element in order.
\<close>

theorem linkedlist_remove_while_iterating:
  assumes "ll_wf l" and "ll_count l < fuel"
  shows "\<exists>l'. ll_remove_iterating fuel P l cflare_linkedlist_get_iterator =
      Inr (l', concat (map (call_deleter (ll_deleter l) (ll_deleter_context l))
                 (filter P (ll_contents l)))) \<and>
    ll_wf l' \<and> ll_contents l' = filter (\<lambda>x. \<not> P x) (ll_contents l)"
proof -
  from assms have inv: "ll_inv l ([] @ ll_addrs l)" by (simp add: ll_wf_def)
  then have chain: "ll_chain l ([] @ ll_addrs l)" and own: "ll_owned l"
    by (auto simp: inv_owned)
  with assms inv obtain l' cs where
    l': "ll_remove_iterating fuel P l cflare_linkedlist_get_iterator =
      Inr (l', concat (map (call_deleter (ll_deleter l) (ll_deleter_context l))
                 (filter P (ll_contents l))))"
    "ll_chain l' cs" "vals (ll_nodes l') cs = filter (\<lambda>x. \<not> P x) (ll_contents l)"
    "set cs \<subseteq> set (ll_addrs l)"
    "dom (ll_nodes l') = dom (ll_nodes l) - (set (ll_addrs l) - set cs)" "ll_owned l'"
    using remove_iterating_chain [OF chain it_rest_start, of fuel P]
    by (auto simp: ll_inv_def ll_contents_def)
  then have "ll_inv l' cs" using inv by (auto simp: inv_owned)
  with l' show ?thesis by (auto simp: inv_contents intro: wf_inv)
qed

theorem linkedlist_remove_while_iterating_witness:
  "\<exists>l'. ll_remove_iterating 3 (\<lambda>x. x = 5) two_nodes cflare_linkedlist_get_iterator =
     Inr (l', [(9, None, 5)]) \<and> ll_wf l' \<and> ll_contents l' = [6]"
  using linkedlist_remove_while_iterating [of two_nodes 3 "\<lambda>x. x = 5"]
  by (simp add: two_nodes_contents)

text \<open>
  running an iterator forwards to the end visits the contents in order, running it backwards
  visits them in reverse, and either loop stops after as many steps as the list counts.
\<close>

theorem linkedlist_iteration:
  assumes "ll_wf l" and "ll_count l < fuel"
  shows "ll_collect_next fuel l cflare_linkedlist_get_iterator = Inr (ll_contents l) \<and>
    ll_collect_prev fuel l cflare_linkedlist_get_iterator = Inr (rev (ll_contents l))"
proof -
  let ?as = "ll_addrs l"
  from assms have chain: "ll_chain l ?as" and len: "length ?as < fuel"
    by (auto simp: ll_wf_def ll_inv_def)
  have "ll_collect_next fuel l cflare_linkedlist_get_iterator = Inr (vals (ll_nodes l) ?as)"
    using collect_next_chain [of l "[]" ?as, OF _ it_rest_start len] chain by simp
  moreover have "ll_collect_prev fuel l cflare_linkedlist_get_iterator = Inr (rev (vals (ll_nodes l) ?as))"
    using collect_prev_chain [of l ?as "[]", OF _ it_back_start len] chain by simp
  ultimately show ?thesis by (simp add: ll_contents_def)
qed

theorem linkedlist_iteration_witness:
  "ll_collect_next 3 two_nodes cflare_linkedlist_get_iterator = Inr [5, 6] \<and>
   ll_collect_prev 3 two_nodes cflare_linkedlist_get_iterator = Inr [6, 5]"
  using linkedlist_iteration [of two_nodes 3] by (simp add: two_nodes_contents)

text \<open>
  deleting a list ends and calls the deleter exactly once for each element, in the order of
  the list, with the list's context.
\<close>

theorem linkedlist_delete_calls:
  assumes "ll_wf l" and "ll_deleter l = Some f"
  shows "cflare_linkedlist_delete l = Inr (map (\<lambda>x. (f, ll_deleter_context l, x)) (ll_contents l))"
proof -
  from assms(1) have "ll_inv l (ll_addrs l)" by (simp add: ll_wf_def)
  from delete_inv [OF this] assms(2) show ?thesis by (simp add: ll_contents_def)
qed

theorem linkedlist_delete_calls_witness:
  "cflare_linkedlist_delete two_nodes = Inr [(9, None, 5), (9, None, 6)]"
  using linkedlist_delete_calls [of two_nodes 9] by (simp add: two_nodes_contents)

text \<open>
  inserting before \<open>NULL\<close> in a list that is not empty loses the list: both ends then point at
  the new node alone, while the count still includes the lost nodes, so that deleting the list
  runs into the assertion on a null node. The documentation promises the beginning of the list.
\<close>

theorem linkedlist_insert_before_null_drops:
  assumes "ll_wf l" and "ll_contents l \<noteq> []"
  shows "\<exists>l' a. cflare_linkedlist_insert_before l None z = Inr (l', a) \<and>
    ll_contents l' = [z] \<and> ll_count l' = length (ll_contents l) + 1 \<and>
    cflare_linkedlist_delete l' = Inl Assert_failed"
proof -
  let ?l' = "l\<lparr>ll_nodes := (ll_nodes l)(ll_fresh l \<mapsto> \<lparr>nd_data = z, nd_next = None, nd_prev = None\<rparr>),
     ll_fresh := Suc (ll_fresh l), ll_first := Some (ll_fresh l), ll_last := Some (ll_fresh l),
     ll_count := ll_count l + 1\<rparr>"
  have "cflare_linkedlist_insert_before l None z = Inr (?l', ll_fresh l)"
    by (simp add: cflare_linkedlist_insert_before_def insert_between_def ll_defs)
  moreover have "ll_chain ?l' [ll_fresh l]"
    using assms(1) by (auto simp: ll_wf_def ll_inv_def ll_chain_def intro: less_SucI)
  then have contents: "ll_contents ?l' = [z]"
    by (simp add: ll_contents_def chain_addrs)
  moreover have "cflare_linkedlist_delete ?l' = Inl Assert_failed"
    using assms(2) wf_count [OF assms(1)]
    by (simp add: cflare_linkedlist_delete.simps cflare_linkedlist_remove_def ll_defs)
  ultimately show ?thesis using wf_count [OF assms(1)] by auto
qed

theorem linkedlist_insert_before_null_drops_witness:
  "\<exists>l' a. cflare_linkedlist_insert_before two_nodes None 7 = Inr (l', a) \<and>
     ll_contents l' = [7] \<and> ll_count l' = 3 \<and> cflare_linkedlist_delete l' = Inl Assert_failed"
  using linkedlist_insert_before_null_drops [of two_nodes 7]
  by (simp add: two_nodes_contents eval_nat_numeral)

end
