(* ===== verification/Hash.thy ===== *)
theory Hash
  imports Cflare_Prelude
begin

text \<open>
  The hash of \<open>src/cflare/hash.c\<close>: 32-bit FNV-1a over the bytes of a key. A \<open>cflare_hash\<close> is the
  bytes its pointer and size describe, together with their hash; it owns no memory.
\<close>

record cflare_hash =
  h_key :: string
  h_hash :: "32 word"

text \<open>\<open>for(i = 0; i < len; i++) h = (h ^ p[i]) * 0x01000193;\<close>\<close>

fun fnv_loop :: "32 word \<Rightarrow> string \<Rightarrow> 32 word" where
  "fnv_loop h [] = h"
| "fnv_loop h (p # ps) = fnv_loop ((h XOR of_char p) * 0x01000193) ps"

definition fnv_hash_1a_32 :: "string \<Rightarrow> 32 word" where
  "fnv_hash_1a_32 key = fnv_loop 0x811c9dc5 key"

definition cflare_hash_compute :: "string \<Rightarrow> cflare_hash" where
  "cflare_hash_compute data = \<lparr>h_key = data, h_hash = fnv_hash_1a_32 data\<rparr>"

lemma hash_compute_simps [simp]:
  "h_key (cflare_hash_compute s) = s"
  "h_hash (cflare_hash_compute s) = fnv_hash_1a_32 s"
  by (simp_all add: cflare_hash_compute_def)

lemma hash_compute_inject [simp]: "cflare_hash_compute s = cflare_hash_compute t \<longleftrightarrow> s = t"
  by (metis hash_compute_simps(1))

lemma fnv_loop_append: "fnv_loop h (s @ t) = fnv_loop (fnv_loop h s) t"
  by (induction s arbitrary: h) simp_all

text \<open>The FNV prime is odd, hence invertible: one turn of the loop loses no information.\<close>

lemma fnv_prime_inject:
  assumes "(a :: 32 word) * 0x01000193 = b * 0x01000193"
  shows "a = b"
proof -
  have inverse: "(0x01000193 :: 32 word) * 0x359c449b = 1" by simp
  have "(a * 0x01000193) * 0x359c449b = (b * 0x01000193) * 0x359c449b" using assms by simp
  then show ?thesis by (simp only: mult.assoc inverse mult_1_right)
qed

lemma xor_left_inject: "(h :: 32 word) XOR a = h XOR b \<longleftrightarrow> a = b"
  by (metis xor.left_commute xor.right_neutral xor_self_eq)

lemma fnv_step_inject:
  "((h :: 32 word) XOR a) * 0x01000193 = (h' XOR a) * 0x01000193 \<longleftrightarrow> h = h'"
proof
  assume "(h XOR a) * 0x01000193 = (h' XOR a) * 0x01000193"
  then have "h XOR a = h' XOR a" by (rule fnv_prime_inject)
  then have "a XOR h = a XOR h'" by (simp only: xor.commute)
  then show "h = h'" by (simp only: xor_left_inject)
qed simp

lemma of_char_word_inject [simp]: "(of_char c :: 32 word) = of_char d \<longleftrightarrow> c = d"
proof
  assume "(of_char c :: 32 word) = of_char d"
  then have "unat (word_of_nat (of_char c) :: 32 word) = unat (word_of_nat (of_char d) :: 32 word)"
    by (simp add: of_nat_of_char)
  moreover have "(of_char x :: nat) < 2 ^ LENGTH(32)" for x
    using nat_of_char_less_256 [of x] by (rule order.strict_trans) simp
  ultimately have "(of_char c :: nat) = of_char d"
    by (simp add: of_nat_inverse)
  then show "c = d" by simp
qed simp

lemma fnv_loop_inject: "fnv_loop h s = fnv_loop h' s \<longleftrightarrow> h = h'"
  by (induction s arbitrary: h h') (simp_all only: fnv_loop.simps fnv_step_inject)

section \<open>Properties\<close>

text \<open>
  two keys of the same length that differ in exactly one byte never have the same hash.
\<close>

theorem hash_single_byte_change:
  assumes "c \<noteq> d"
  shows "h_hash (cflare_hash_compute (s @ c # t)) \<noteq> h_hash (cflare_hash_compute (s @ d # t))"
proof
  assume "h_hash (cflare_hash_compute (s @ c # t)) = h_hash (cflare_hash_compute (s @ d # t))"
  then have "(fnv_loop 0x811c9dc5 s XOR of_char c) * 0x01000193 =
    (fnv_loop 0x811c9dc5 s XOR of_char d) * 0x01000193"
    by (simp add: fnv_hash_1a_32_def fnv_loop_append fnv_loop_inject)
  then have "fnv_loop 0x811c9dc5 s XOR of_char c = fnv_loop 0x811c9dc5 s XOR of_char d"
    by (rule fnv_prime_inject)
  with assms show False by (simp add: xor_left_inject)
qed

theorem hash_single_byte_change_witness:
  "h_hash (cflare_hash_compute ''most'') \<noteq> h_hash (cflare_hash_compute ''host'')"
  using hash_single_byte_change [of "CHR ''m''" "CHR ''h''" "[]" "''ost''"] by simp

text \<open>
  the hash agrees with the published FNV-1a test vectors, and the loop starts from the hash of
  the prefix already read (so that a key can be hashed in pieces).
\<close>

theorem hash_reference_vectors:
  "h_hash (cflare_hash_compute '''') = 0x811c9dc5 \<and>
   h_hash (cflare_hash_compute ''a'') = 0xe40c292c \<and>
   h_hash (cflare_hash_compute ''foobar'') = 0xbf9cf968 \<and>
   h_hash (cflare_hash_compute (s @ t)) = fnv_loop (h_hash (cflare_hash_compute s)) t"
  by (simp add: fnv_hash_1a_32_def fnv_loop_append)

end
