(* ===== verification/Hashtable.thy ===== *)
theory Hashtable
  imports LinkedList Hash "HOL-Library.Multiset"
begin

text \<open>
  The hash table of \<open>src/cflare/hashtable.c\<close>: an array of buckets, each a null pointer or a linked
  list of containers.

  A value is the block that \<open>value\<close> and \<open>len\<close> describe; the model keeps the block itself, of any
  type \<open>'v\<close>, so that \<open>data_size == len && memcmp(...) == 0\<close> is equality. The table's own mutexes
  are not part of the state: every operation here is one critical section. \<open>count\<close> and
  \<open>buckets_count\<close> are of type \<open>size_t\<close>: where the code subtracts, the wrap-around is written out.
  A deleter call is recorded with the value it was given.
\<close>

section \<open>State\<close>

record 'v cflare_hashtable_container =
  c_hash :: "32 word"
  c_key :: string
  c_data :: "'v option"

type_synonym 'v cflare_hashtable_bucket =
  "'v cflare_hashtable_container cflare_linkedlist option"

record 'v cflare_hashtable =
  ht_buckets :: "'v cflare_hashtable_bucket list"
  ht_count :: nat
  ht_deleter :: ptr
  ht_deleter_context :: ptr

definition start_size :: nat where "start_size = 32"

definition cflare_hashtable_new :: "'v cflare_hashtable" where
  "cflare_hashtable_new =
     \<lparr>ht_buckets = [], ht_count = 0, ht_deleter = None, ht_deleter_context = None\<rparr>"

definition cflare_hashtable_ondelete ::
  "'v cflare_hashtable \<Rightarrow> ptr \<Rightarrow> ptr \<Rightarrow> 'v cflare_hashtable" where
  "cflare_hashtable_ondelete tbl func context =
     tbl\<lparr>ht_deleter := func, ht_deleter_context := context\<rparr>"

definition cflare_hashtable_count :: "'v cflare_hashtable \<Rightarrow> nat" where
  "cflare_hashtable_count tbl = ht_count tbl"

definition cflare_hashtable_bucketscount :: "'v cflare_hashtable \<Rightarrow> nat" where
  "cflare_hashtable_bucketscount tbl = length (ht_buckets tbl)"

section \<open>Containers and buckets\<close>

text \<open>
  \<open>&free_container\<close> and the table's own address, as the lists of the buckets hold them: a call of
  the list's deleter is a call of \<open>free_container\<close> with the container, which frees the key and hands
  the data to the user's deleter.
\<close>

definition free_container_ptr :: ptr where "free_container_ptr = Some 1"
definition map_ptr :: ptr where "map_ptr = Some 2"

definition free_container ::
  "'v cflare_hashtable \<Rightarrow> 'v cflare_hashtable_container \<Rightarrow> 'v deleter_call list" where
  "free_container tbl cont = (case c_data cont of
       None \<Rightarrow> []
     | Some d \<Rightarrow> call_deleter (ht_deleter tbl) (ht_deleter_context tbl) d)"

definition run_free_container ::
  "'v cflare_hashtable \<Rightarrow> 'v cflare_hashtable_container deleter_call list \<Rightarrow> 'v deleter_call list" where
  "run_free_container tbl calls = concat (map (\<lambda>(f, ctx, cont). free_container tbl cont) calls)"

definition zero_container :: "'v cflare_hashtable_container" where
  "zero_container = \<lparr>c_hash = 0, c_key = [], c_data = None\<rparr>"

definition new_bucket_list :: "'v cflare_hashtable_container cflare_linkedlist" where
  "new_bucket_list =
     cflare_linkedlist_ondelete (cflare_linkedlist_new 40) free_container_ptr map_ptr"

definition bucket_pos :: "32 word \<Rightarrow> nat \<Rightarrow> nat" where
  "bucket_pos hash buckets_count = unat hash mod buckets_count"

fun memory_equals :: "nat \<Rightarrow> string \<Rightarrow> string \<Rightarrow> bool" where
  "memory_equals (Suc len) (a # A) (b # B) = (if a \<noteq> b then False else memory_equals len A B)"
| "memory_equals len A B = True"

definition container_matches :: "cflare_hash \<Rightarrow> 'v cflare_hashtable_container \<Rightarrow> bool" where
  "container_matches hash cont =
     (if length (h_key hash) \<noteq> length (c_key cont) \<or> h_hash hash \<noteq> c_hash cont then False
      else memory_equals (length (h_key hash)) (h_key hash) (c_key cont))"

section \<open>Rebuilding\<close>

definition rebuild_insert ::
  "'v cflare_hashtable_bucket list \<Rightarrow> 'v cflare_hashtable_container
   \<Rightarrow> 'v cflare_hashtable_bucket list res" where
  "rebuild_insert buckets cont =
     (if length buckets = 0 then Inl Div_by_zero
      else let pos = bucket_pos (c_hash cont) (length buckets);
               nb = (case buckets ! pos of None \<Rightarrow> new_bucket_list | Some l \<Rightarrow> l)
           in bindE (cflare_linkedlist_insert_last nb zero_container) (\<lambda>r.
              bindE (ll_write (fst r) (snd r) cont) (\<lambda>l.
              Inr (buckets[pos := Some l]))))"

fun rebuild_bucket ::
  "nat \<Rightarrow> 'v cflare_hashtable_container cflare_linkedlist \<Rightarrow> cflare_linkedlist_iterator
   \<Rightarrow> 'v cflare_hashtable_bucket list
   \<Rightarrow> ('v cflare_hashtable_container cflare_linkedlist \<times> 'v cflare_hashtable_bucket list \<times>
       'v cflare_hashtable_container deleter_call list) res" where
  "rebuild_bucket 0 l it buckets = Inl Out_of_fuel"
| "rebuild_bucket (Suc fuel) l it buckets =
     bindE (cflare_linkedlist_iterator_next l it) (\<lambda>r. case r of
         (it', None) \<Rightarrow> Inr (l, buckets, [])
       | (it', Some a) \<Rightarrow> bindE (ll_read l a) (\<lambda>cont.
           bindE (rebuild_insert buckets cont) (\<lambda>buckets'.
           bindE (cflare_linkedlist_remove l (it_value it')) (\<lambda>s.
           bindE (rebuild_bucket fuel (fst s) it' buckets') (\<lambda>(l', buckets'', calls).
             Inr (l', buckets'', snd s @ calls))))))"

fun rebuild_loop ::
  "'v cflare_hashtable_bucket list \<Rightarrow> 'v cflare_hashtable_bucket list
   \<Rightarrow> ('v cflare_hashtable_bucket list \<times> 'v cflare_hashtable_container deleter_call list) res" where
  "rebuild_loop [] buckets = Inr (buckets, [])"
| "rebuild_loop (None # old) buckets = rebuild_loop old buckets"
| "rebuild_loop (Some l # old) buckets =
     (let l0 = cflare_linkedlist_ondelete l None None
      in bindE (rebuild_bucket (Suc (ll_count l0)) l0 cflare_linkedlist_get_iterator buckets)
           (\<lambda>(l1, buckets1, calls1).
         bindE (cflare_linkedlist_delete l1) (\<lambda>calls2.
         bindE (rebuild_loop old buckets1) (\<lambda>(buckets2, calls3).
           Inr (buckets2, calls1 @ calls2 @ calls3)))))"

definition cflare_hashtable_rebuild ::
  "'v cflare_hashtable \<Rightarrow> nat \<Rightarrow> ('v cflare_hashtable \<times> 'v deleter_call list) res" where
  "cflare_hashtable_rebuild tbl cnt =
     bindE (rebuild_loop (ht_buckets tbl) (replicate cnt None)) (\<lambda>(buckets, calls).
       Inr (tbl\<lparr>ht_buckets := buckets\<rparr>, run_free_container tbl calls))"

section \<open>Setting, getting, deleting\<close>

definition size_dec :: "nat \<Rightarrow> nat" where
  "size_dec n = (if n = 0 then 2 ^ 64 - 1 else n - 1)"

definition resize_for ::
  "'v cflare_hashtable \<Rightarrow> 'v option \<Rightarrow> ('v cflare_hashtable \<times> 'v deleter_call list) res" where
  "resize_for tbl value = (case value of
       Some v \<Rightarrow>
         if ht_count tbl + 1 > length (ht_buckets tbl) * 2
         then cflare_hashtable_rebuild tbl
                (if length (ht_buckets tbl) * 4 < start_size then start_size
                 else length (ht_buckets tbl) * 4)
         else Inr (tbl, [])
     | None \<Rightarrow>
         if size_dec (ht_count tbl) < length (ht_buckets tbl) div 8
            \<and> length (ht_buckets tbl) div 4 > start_size
         then cflare_hashtable_rebuild tbl (length (ht_buckets tbl) div 4)
         else Inr (tbl, []))"

text \<open>
  The work on the bucket's list, between its lock and unlock: the new list, the new count and the
  calls of the user's deleter.
\<close>

definition bucket_set ::
  "'v cflare_hashtable \<Rightarrow> 'v cflare_hashtable_container cflare_linkedlist \<Rightarrow> cflare_hash \<Rightarrow> 'v option
   \<Rightarrow> ('v cflare_hashtable_container cflare_linkedlist \<times> nat \<times> 'v deleter_call list) res" where
  "bucket_set tbl l hash value =
     bindE (ll_seek (container_matches hash) l) (\<lambda>iter. case value of
         None \<Rightarrow> (case it_value iter of
             Some a \<Rightarrow> bindE (cflare_linkedlist_remove l (Some a)) (\<lambda>r.
               Inr (fst r, size_dec (ht_count tbl), run_free_container tbl (snd r)))
           | None \<Rightarrow> Inr (l, ht_count tbl, []))
       | Some v \<Rightarrow> (case it_value iter of
             Some a \<Rightarrow> bindE (ll_read l a) (\<lambda>container.
               if c_data container = Some v then Inr (l, ht_count tbl, [])
               else bindE (ll_write l a (container\<lparr>c_data := Some v\<rparr>)) (\<lambda>l'.
                 Inr (l', ht_count tbl, free_container tbl container)))
           | None \<Rightarrow> bindE (cflare_linkedlist_insert_last l zero_container) (\<lambda>r.
               bindE (ll_write (fst r) (snd r)
                 \<lparr>c_hash = h_hash hash, c_key = h_key hash, c_data = Some v\<rparr>) (\<lambda>l'.
               Inr (l', ht_count tbl + 1, [])))))"

definition cflare_hashtable_set ::
  "'v cflare_hashtable \<Rightarrow> cflare_hash \<Rightarrow> 'v option
   \<Rightarrow> ('v cflare_hashtable \<times> 'v deleter_call list) res" where
  "cflare_hashtable_set tbl0 hash value =
     bindE (resize_for tbl0 value) (\<lambda>(tbl, calls0).
     bindE (assertE (length (ht_buckets tbl) > 0) Assert_failed) (\<lambda>_.
       let pos = bucket_pos (h_hash hash) (length (ht_buckets tbl));
           list = (case ht_buckets tbl ! pos of
                     None \<Rightarrow> (if value = None then None else Some new_bucket_list)
                   | Some l \<Rightarrow> Some l)
       in case list of
            None \<Rightarrow> Inr (tbl, calls0)
          | Some l \<Rightarrow> bindE (bucket_set tbl l hash value) (\<lambda>(l', cnt, calls).
              Inr (tbl\<lparr>ht_buckets := (ht_buckets tbl)[pos := Some l'], ht_count := cnt\<rparr>, calls0 @ calls))))"

definition cflare_hashtable_get :: "'v cflare_hashtable \<Rightarrow> cflare_hash \<Rightarrow> 'v option res" where
  "cflare_hashtable_get tbl hash =
     (if length (ht_buckets tbl) > 0
      then case ht_buckets tbl ! bucket_pos (h_hash hash) (length (ht_buckets tbl)) of
             None \<Rightarrow> Inr None
           | Some l \<Rightarrow>
               if cflare_linkedlist_count l > 0
               then bindE (ll_seek (container_matches hash) l) (\<lambda>iter. case it_value iter of
                      None \<Rightarrow> Inr None
                    | Some a \<Rightarrow> bindE (ll_read l a) (\<lambda>cont.
                        bindE (derefE (c_data cont) Null_deref) (\<lambda>out. Inr (Some out))))
               else Inr None
      else Inr None)"

fun delete_buckets ::
  "'v cflare_hashtable \<Rightarrow> 'v cflare_hashtable_bucket list \<Rightarrow> 'v deleter_call list res" where
  "delete_buckets tbl [] = Inr []"
| "delete_buckets tbl (None # bs) = delete_buckets tbl bs"
| "delete_buckets tbl (Some l # bs) =
     bindE (cflare_linkedlist_delete l) (\<lambda>calls.
     bindE (delete_buckets tbl bs) (\<lambda>rest. Inr (run_free_container tbl calls @ rest)))"

definition cflare_hashtable_delete :: "'v cflare_hashtable \<Rightarrow> 'v deleter_call list res" where
  "cflare_hashtable_delete tbl = delete_buckets tbl (ht_buckets tbl)"

section \<open>The invariant and the map a table stands for\<close>

text \<open>
  A bucket is well formed at position \<open>i\<close> of \<open>n\<close> when its list is, its list's deleter is
  \<open>free_container\<close>, and every container in it holds data and hashes to \<open>i\<close>. The keys of all
  containers of a table are distinct, and the table counts its containers.
\<close>

definition c_id :: "'v cflare_hashtable_container \<Rightarrow> cflare_hash" where
  "c_id c = \<lparr>h_key = c_key c, h_hash = c_hash c\<rparr>"

definition bucket_contents :: "'v cflare_hashtable_bucket \<Rightarrow> 'v cflare_hashtable_container list" where
  "bucket_contents b = (case b of None \<Rightarrow> [] | Some l \<Rightarrow> ll_contents l)"

definition entries :: "'v cflare_hashtable_bucket list \<Rightarrow> 'v cflare_hashtable_container list" where
  "entries bs = concat (map bucket_contents bs)"

definition list_ok ::
  "nat \<Rightarrow> nat \<Rightarrow> 'v cflare_hashtable_container cflare_linkedlist \<Rightarrow> bool" where
  "list_ok n i l = (ll_wf l \<and> ll_deleter l = free_container_ptr \<and> ll_deleter_context l = map_ptr \<and>
     (\<forall>c \<in> set (ll_contents l). bucket_pos (c_hash c) n = i \<and> c_data c \<noteq> None))"

definition buckets_ok :: "'v cflare_hashtable_bucket list \<Rightarrow> bool" where
  "buckets_ok bs = ((\<forall>i < length bs. \<forall>l. bs ! i = Some l \<longrightarrow> list_ok (length bs) i l) \<and>
     distinct (map c_id (entries bs)))"

definition ht_inv :: "'v cflare_hashtable \<Rightarrow> bool" where
  "ht_inv t = (buckets_ok (ht_buckets t) \<and> ht_count t = length (entries (ht_buckets t)))"

definition entries_map :: "'v cflare_hashtable_container list \<Rightarrow> cflare_hash \<rightharpoonup> 'v" where
  "entries_map es = map_of (map (\<lambda>c. (c_id c, the (c_data c))) es)"

definition ht_map :: "'v cflare_hashtable \<Rightarrow> cflare_hash \<rightharpoonup> 'v" where
  "ht_map t = entries_map (entries (ht_buckets t))"

named_theorems ht_defs
lemmas [ht_defs] = bucket_contents_def new_bucket_list_def list_ok_def

lemma bucket_contents_simps [simp]:
  "bucket_contents None = []" "bucket_contents (Some l) = ll_contents l"
  by (simp_all add: bucket_contents_def)

lemma entries_simps [simp]:
  "entries [] = []" "entries (b # bs) = bucket_contents b @ entries bs"
  "entries (bs @ cs) = entries bs @ entries cs"
  by (simp_all add: entries_def)

lemma entries_replicate [simp]: "entries (replicate n None) = []"
  by (induction n) simp_all

lemma entries_split:
  assumes "i < length bs"
  obtains A B where "entries bs = A @ bucket_contents (bs ! i) @ B"
    and "\<And>b. entries (bs[i := b]) = A @ bucket_contents b @ B"
proof
  show "entries bs = entries (take i bs) @ bucket_contents (bs ! i) @ entries (drop (Suc i) bs)"
    using id_take_nth_drop [OF assms] by (metis entries_simps(2,3))
  show "entries (bs[i := b]) = entries (take i bs) @ bucket_contents b @ entries (drop (Suc i) bs)" for b
    using assms by (simp add: upd_conv_take_nth_drop)
qed

text \<open>Only the multiset of the containers matters to the map.\<close>

lemma entries_map_cong:
  assumes "mset es = mset es'" and "distinct (map c_id es)"
  shows "entries_map es = entries_map es'"
proof -
  let ?kv = "\<lambda>c. (c_id c, the (c_data c))"
  have "mset (map c_id es) = mset (map c_id es')" using assms(1) by simp
  then have "distinct (map fst (map ?kv es))" "distinct (map fst (map ?kv es'))"
    using assms(2) mset_eq_imp_distinct_iff by (fastforce simp: comp_def)+
  moreover have "set es = set es'" using assms(1) by (rule mset_eq_setD)
  ultimately show ?thesis
    unfolding entries_map_def by (subst map_of_inject_set) auto
qed

lemma entries_map_Cons: "entries_map (c # es) = (entries_map es)(c_id c \<mapsto> the (c_data c))"
  by (simp add: entries_map_def)

lemma entries_map_None: "entries_map es k = None \<longleftrightarrow> k \<notin> c_id ` set es"
  by (simp add: entries_map_def map_of_eq_None_iff image_image)

lemma distinct_ids_cong: "mset es = mset es' \<Longrightarrow> distinct (map c_id es) = distinct (map c_id es')"
  by (metis mset_eq_imp_distinct_iff mset_map)

lemma memory_equals_iff: "length a = length b \<Longrightarrow> memory_equals (length a) a b \<longleftrightarrow> a = b"
  by (induction a b rule: list_induct2) simp_all

lemma container_matches_iff: "container_matches h c \<longleftrightarrow> c_id c = h"
  using memory_equals_iff [of "h_key h" "c_key c"]
  by (cases h) (auto simp: container_matches_def c_id_def)

lemma container_matches_eq: "container_matches h = (\<lambda>c. c_id c = h)"
  by (simp add: fun_eq_iff container_matches_iff)

lemma c_id_hash [simp]: "h_hash (c_id c) = c_hash c"
  by (simp add: c_id_def)

lemma new_bucket_ok [simp]: "list_ok n i new_bucket_list" "ll_contents new_bucket_list = []"
  by (simp_all add: list_ok_def new_bucket_list_def)

text \<open>Replacing one bucket of a well-formed array.\<close>

lemma buckets_ok_update:
  assumes "buckets_ok bs" and "i < length bs" and "list_ok (length bs) i l"
    and "distinct (map c_id (entries (bs[i := Some l])))"
  shows "buckets_ok (bs[i := Some l])"
  using assms by (auto simp: buckets_ok_def nth_list_update)

lemma buckets_ok_nth:
  "buckets_ok bs \<Longrightarrow> i < length bs \<Longrightarrow> bs ! i = Some l \<Longrightarrow> list_ok (length bs) i l"
  by (simp add: buckets_ok_def)

text \<open>A container can only be in the bucket its hash selects.\<close>

lemma entry_in_bucket:
  assumes "buckets_ok bs" and "c \<in> set (entries bs)"
  shows "c \<in> set (bucket_contents (bs ! bucket_pos (c_hash c) (length bs)))"
proof -
  from assms(2) obtain b where "b \<in> set bs" "c \<in> set (bucket_contents b)"
    by (auto simp: entries_def)
  then obtain i where i: "i < length bs" "c \<in> set (bucket_contents (bs ! i))"
    by (auto simp: in_set_conv_nth [of b])
  then obtain l where "bs ! i = Some l" "c \<in> set (ll_contents l)"
    by (cases "bs ! i") auto
  with assms(1) i(1) have "bucket_pos (c_hash c) (length bs) = i"
    by (auto dest!: buckets_ok_nth simp: list_ok_def)
  with i(2) show ?thesis by simp
qed

lemma bucket_pos_less [simp]: "0 < n \<Longrightarrow> bucket_pos h n < n"
  by (simp add: bucket_pos_def)

section \<open>What the lists of the buckets do\<close>

definition c_ok :: "nat \<Rightarrow> nat \<Rightarrow> 'v cflare_hashtable_container \<Rightarrow> bool" where
  "c_ok n i c = (bucket_pos (c_hash c) n = i \<and> c_data c \<noteq> None)"

lemma list_ok_change:
  assumes "list_ok n i l" and "ll_wf l'" and "set (ll_contents l') \<subseteq> insert c (set (ll_contents l))"
    and "c_ok n i c"
    and "ll_conf l' = ll_conf l"
  shows "list_ok n i l'"
  using assms by (auto simp: list_ok_def c_ok_def ll_conf_def)

lemma list_ok_push:
  assumes "list_ok n i l" and "c_ok n i c"
  shows "\<exists>l1 a l2. cflare_linkedlist_insert_last l zero_container = Inr (l1, a) \<and>
    ll_write l1 a c = Inr l2 \<and> list_ok n i l2 \<and> ll_contents l2 = ll_contents l @ [c]"
proof -
  from assms(1) have "ll_wf l" by (simp add: list_ok_def)
  from ll.push_fill [OF this, of zero_container c] obtain l1 a l2 where
    L: "cflare_linkedlist_insert_last l zero_container = Inr (l1, a)" "ll_write l1 a c = Inr l2"
      "ll_wf l2" "ll_contents l2 = ll_contents l @ [c]" "ll_conf l2 = ll_conf l"
    by blast
  moreover have "list_ok n i l2"
    using list_ok_change [OF assms(1) L(3) _ assms(2) L(5)] L(4) by simp
  ultimately show ?thesis by blast
qed

lemma list_ok_write:
  assumes "list_ok n i l" and "ll_cursor l a xs x ys" and "c_ok n i c"
  shows "\<exists>l'. ll_write l a c = Inr l' \<and> list_ok n i l' \<and> ll_contents l' = xs @ c # ys"
proof -
  from ll.cursor_write [OF assms(2), of c] obtain l' where
    L: "ll_write l a c = Inr l'" "ll_cursor l' a xs c ys"
      "ll_conf l' = ll_conf l" by blast
  have "ll_contents l' = xs @ c # ys" "ll_contents l = xs @ x # ys"
    using ll.cursor_contents [OF L(2)] ll.cursor_contents [OF assms(2)] by simp_all
  moreover from this have "list_ok n i l'"
    using list_ok_change [OF assms(1) ll.cursor_wf [OF L(2)] _ assms(3) L(3)] by auto
  ultimately show ?thesis using L(1) by blast
qed

lemma list_ok_remove:
  assumes "list_ok n i l" and "ll_cursor l a xs x ys"
  shows "\<exists>l'. cflare_linkedlist_remove l (Some a) =
      Inr (l', [(the free_container_ptr, map_ptr, x)]) \<and> list_ok n i l' \<and> ll_contents l' = xs @ ys"
proof -
  from ll.cursor_remove [OF assms(2)] obtain l' where
    L: "cflare_linkedlist_remove l (Some a) =
        Inr (l', call_deleter (fst (ll_conf l)) (snd (ll_conf l)) x)" "ll_wf l'"
      "ll_contents l' = xs @ ys"
      "ll_conf l' = ll_conf l" by blast
  have c: "ll_contents l = xs @ x # ys" using ll.cursor_contents [OF assms(2)] .
  with assms(1) have "c_ok n i x" by (auto simp: list_ok_def c_ok_def)
  then have "list_ok n i l'"
    using list_ok_change [OF assms(1) L(2) _ _ L(4)] c L(3) by auto
  with L(1,3) assms(1) show ?thesis by (auto simp: list_ok_def free_container_ptr_def ll_conf_def)
qed

section \<open>Rebuilding keeps the containers\<close>

text \<open>The list a bucket has, or the one it gets when something is inserted.\<close>

definition bucket_list ::
  "'v cflare_hashtable_bucket \<Rightarrow> 'v cflare_hashtable_container cflare_linkedlist" where
  "bucket_list b = (case b of None \<Rightarrow> new_bucket_list | Some l \<Rightarrow> l)"

lemma bucket_list_ok:
  "buckets_ok bs \<Longrightarrow> i < length bs \<Longrightarrow> list_ok (length bs) i (bucket_list (bs ! i))"
  by (auto simp: bucket_list_def dest: buckets_ok_nth split: option.split)

lemma bucket_list_contents [simp]: "ll_contents (bucket_list b) = bucket_contents b"
  by (simp add: bucket_list_def split: option.split)

lemma rebuild_insert_ok:
  assumes ok: "buckets_ok bs" and len: "0 < length bs" and data: "c_data c \<noteq> None"
    and fresh: "c_id c \<notin> c_id ` set (entries bs)"
  shows "\<exists>bs'. rebuild_insert bs c = Inr bs' \<and> buckets_ok bs' \<and> length bs' = length bs \<and>
    mset (entries bs') = add_mset c (mset (entries bs))"
proof -
  let ?i = "bucket_pos (c_hash c) (length bs)"
  have i: "?i < length bs" using len by simp
  have "c_ok (length bs) ?i c" using data by (simp add: c_ok_def)
  from list_ok_push [OF bucket_list_ok [OF ok i] this] obtain l1 a l2 where
    L: "cflare_linkedlist_insert_last (bucket_list (bs ! ?i)) zero_container = Inr (l1, a)"
      "ll_write l1 a c = Inr l2" "list_ok (length bs) ?i l2"
      "ll_contents l2 = bucket_contents (bs ! ?i) @ [c]" by auto
  from entries_split [OF i] obtain A B where
    AB: "entries bs = A @ bucket_contents (bs ! ?i) @ B"
      "entries (bs[?i := Some l2]) = A @ bucket_contents (Some l2) @ B" by metis
  have mset: "mset (entries (bs[?i := Some l2])) = add_mset c (mset (entries bs))"
    using AB L(4) by simp
  have "distinct (map c_id (c # entries bs))"
    using ok fresh by (auto simp: buckets_ok_def)
  then have "distinct (map c_id (entries (bs[?i := Some l2])))"
    using distinct_ids_cong [of "c # entries bs"] mset by simp
  then have "buckets_ok (bs[?i := Some l2])"
    using L(3) by (intro buckets_ok_update [OF ok i])
  then show ?thesis
    using L(1,2) len mset by (auto simp: rebuild_insert_def Let_def bucket_list_def)
qed

lemma rebuild_bucket_ok:
  assumes "ll_chain l as" and "ll_owned l" and "dom (ll_nodes l) = set as"
    and "it_rest l it as" and "length as < fuel" and "ll_deleter l = None"
    and "buckets_ok bs" and "0 < length bs"
    and "\<forall>c \<in> set (vals (ll_nodes l) as). c_data c \<noteq> None"
    and "distinct (map c_id (vals (ll_nodes l) as @ entries bs))"
  shows "\<exists>l' bs'. rebuild_bucket fuel l it bs = Inr (l', bs', []) \<and>
    ll_count l' = 0 \<and> buckets_ok bs' \<and> length bs' = length bs \<and>
    mset (entries bs') = mset (vals (ll_nodes l) as) + mset (entries bs)"
  using assms
proof (induction as arbitrary: l it fuel bs)
  case Nil
  then obtain n it' where "fuel = Suc n" "cflare_linkedlist_iterator_next l it = Inr (it', None)"
    by (cases fuel) (auto dest!: iterator_next_end)
  with Nil.prems show ?case by (simp add: ll_owned_def)
next
  case (Cons a as)
  let ?c = "nd_data (the (ll_nodes l a))"
  from Cons.prems(1,4,5) obtain it' n where
    step: "cflare_linkedlist_iterator_next l it = Inr (it', Some a)" "it_value it' = Some a"
      "it_started it'" "it_next it' = (if as = [] then None else Some (hd as))"
    and n: "fuel = Suc n" "length as < n"
    by (cases fuel) (auto dest!: iterator_next_step [of l "[]", simplified])
  from rebuild_insert_ok [OF Cons.prems(7,8), of ?c] Cons.prems(9,10) obtain bs1 where
    bs1: "rebuild_insert bs ?c = Inr bs1" "buckets_ok bs1" "length bs1 = length bs"
      "mset (entries bs1) = add_mset ?c (mset (entries bs))" by auto
  from Cons.prems(1) have chain: "ll_chain l ([] @ a # as)" by simp
  from remove_chain [OF chain] obtain l1 where
    l1: "cflare_linkedlist_remove l (Some a) =
        Inr (l1, call_deleter (ll_deleter l) (ll_deleter_context l) ?c)"
      "ll_chain l1 as" "vals (ll_nodes l1) as = vals (ll_nodes l) as"
      "dom (ll_nodes l1) = dom (ll_nodes l) - {a}" "same_deleter l l1"
    by auto
  have d: "distinct (map c_id (vals (ll_nodes l1) as @ entries bs1))"
    using Cons.prems(10) distinct_ids_cong [of "?c # vals (ll_nodes l) as @ entries bs"
        "vals (ll_nodes l1) as @ entries bs1"] bs1(4) l1(3) by simp
  have rest: "it_rest l1 it' as" using step(3,4) by (simp add: it_rest_def)
  have "dom (ll_nodes l1) = set as" "ll_deleter l1 = None"
    using l1(4,5) Cons.prems(1,3,6) by (auto simp: same_deleter_def ll_chain_def)
  with rest obtain l' bs' where "rebuild_bucket n l1 it' bs1 = Inr (l', bs', [])" "ll_count l' = 0"
    "buckets_ok bs'" "length bs' = length bs1"
    "mset (entries bs') = mset (vals (ll_nodes l1) as) + mset (entries bs1)"
    using Cons.IH [OF l1(2) remove_owned [OF chain Cons.prems(2) l1(1)] _ rest n(2) _ bs1(2) _ _ d]
      l1(3) bs1(3) Cons.prems(8,9) by fastforce
  then show ?case
    using step(1,2) n(1) bs1 l1(1,3) Cons.prems(6) chain_node_at [OF chain]
    by (auto simp: ll_read_def)
qed

lemma delete_empty [simp]: "ll_count l = 0 \<Longrightarrow> cflare_linkedlist_delete l = Inr []"
  by (simp add: cflare_linkedlist_delete.simps)

lemma rebuild_loop_ok:
  assumes "\<forall>l. Some l \<in> set old \<longrightarrow> ll_wf l \<and> (\<forall>c \<in> set (ll_contents l). c_data c \<noteq> None)"
    and "buckets_ok bs" and "0 < length bs"
    and "distinct (map c_id (entries old @ entries bs))"
  shows "\<exists>bs'. rebuild_loop old bs = Inr (bs', []) \<and> buckets_ok bs' \<and> length bs' = length bs \<and>
    mset (entries bs') = mset (entries old) + mset (entries bs)"
  using assms
proof (induction old arbitrary: bs)
  case (Cons b old)
  show ?case
  proof (cases b)
    case None
    with Cons show ?thesis by simp
  next
  case (Some l)
  note 3 = Cons.prems [unfolded Some]
  let ?l = "cflare_linkedlist_ondelete l None None"
  from 3(1) have inv: "ll_inv l (ll_addrs l)" by (simp add: ll_wf_def)
  then have inv0: "ll_inv ?l (ll_addrs l)" "ll_nodes ?l = ll_nodes l" "ll_deleter ?l = None"
    by (auto simp: ll_inv_def ll_chain_def cflare_linkedlist_ondelete_def)
  have c: "vals (ll_nodes l) (ll_addrs l) = ll_contents l"
    by (simp add: ll_contents_def)
  from inv0(1) have "ll_chain ?l (ll_addrs l)" "ll_owned ?l" "dom (ll_nodes ?l) = set (ll_addrs l)"
    "length (ll_addrs l) < Suc (ll_count ?l)"
    unfolding inv_owned by (auto simp: ll_owned_def ll_chain_def distinct_card)
  from rebuild_bucket_ok [OF this(1-3) it_rest_start [OF this(1)] this(4) inv0(3) 3(2,3)]
  obtain l1 bs1 where r:
    "rebuild_bucket (Suc (ll_count ?l)) ?l cflare_linkedlist_get_iterator bs = Inr (l1, bs1, [])"
    "ll_count l1 = 0" "buckets_ok bs1" "length bs1 = length bs"
    "mset (entries bs1) = mset (ll_contents l) + mset (entries bs)"
    using 3(1,4) c inv0(2) by (auto simp: Int_Un_distrib)
  have "distinct (map c_id (entries old @ entries bs1))"
    using 3(4) distinct_ids_cong [of "ll_contents l @ entries old @ entries bs" "entries old @ entries bs1"]
      r(5) by simp
  with Cons.IH [OF _ r(3)] r(4) 3(1,3) obtain bs2 where
    "rebuild_loop old bs1 = Inr (bs2, [])" "buckets_ok bs2" "length bs2 = length bs"
    "mset (entries bs2) = mset (entries old) + mset (entries bs1)"
    by auto
  with r Some show ?thesis by (simp add: Let_def del: rebuild_bucket.simps)
  qed
qed auto

lemma buckets_ok_replicate [simp]: "buckets_ok (replicate n None)"
  by (simp add: buckets_ok_def)

lemma run_free_container_Nil [simp]: "run_free_container t [] = []"
  by (simp add: run_free_container_def)

lemma rebuild_ok:
  assumes inv: "ht_inv t" and n: "0 < n"
  shows "\<exists>t'. cflare_hashtable_rebuild t n = Inr (t', []) \<and> ht_inv t' \<and> ht_map t' = ht_map t \<and>
    ht_count t' = ht_count t \<and> length (ht_buckets t') = n \<and>
    ht_deleter t' = ht_deleter t \<and> ht_deleter_context t' = ht_deleter_context t"
proof -
  have "\<forall>l. Some l \<in> set (ht_buckets t) \<longrightarrow>
      ll_wf l \<and> (\<forall>c \<in> set (ll_contents l). c_data c \<noteq> None)"
    using inv by (auto simp: ht_inv_def buckets_ok_def list_ok_def in_set_conv_nth)
  from rebuild_loop_ok [OF this, of "replicate n None"] inv n obtain bs where
    bs: "rebuild_loop (ht_buckets t) (replicate n None) = Inr (bs, [])" "buckets_ok bs"
      "length bs = n" "mset (entries bs) = mset (entries (ht_buckets t))"
    by (auto simp: ht_inv_def buckets_ok_def)
  have "distinct (map c_id (entries bs))" using bs(2) by (simp add: buckets_ok_def)
  from entries_map_cong [OF bs(4) this] bs mset_eq_length [OF bs(4)] inv
  show ?thesis by (simp add: cflare_hashtable_rebuild_def ht_inv_def ht_map_def)
qed

section \<open>Looking a key up in its bucket\<close>

lemma entries_map_mid:
  assumes "distinct (map c_id (A @ c # B))"
  shows "entries_map (A @ c # B) = (entries_map (A @ B))(c_id c \<mapsto> the (c_data c))"
    and "entries_map (A @ B) = (entries_map (A @ c # B))(c_id c := None)"
proof -
  have "entries_map (A @ c # B) = entries_map (c # A @ B)"
    by (rule entries_map_cong) (use assms in auto)
  then show *: "entries_map (A @ c # B) = (entries_map (A @ B))(c_id c \<mapsto> the (c_data c))"
    by (simp add: entries_map_Cons)
  have "entries_map (A @ B) (c_id c) = None"
    using assms by (auto simp: entries_map_None)
  with * show "entries_map (A @ B) = (entries_map (A @ c # B))(c_id c := None)"
    by (auto simp: fun_eq_iff)
qed

lemma buckets_ok_distinct: "buckets_ok bs \<Longrightarrow> distinct (map c_id (entries bs))"
  by (simp add: buckets_ok_def)

text \<open>
  The search for a key in the list its hash selects either finds the only container with that key,
  and then replacing the container in the list replaces it among the entries, or no container of
  the whole table has the key.
\<close>

lemma lookup_bucket:
  assumes ok: "buckets_ok bs" and len: "0 < length bs"
    and i: "i = bucket_pos (h_hash h) (length bs)" and l: "l = bucket_list (bs ! i)"
  obtains (absent) it where "ll_seek (container_matches h) l = Inr it" "it_value it = None"
      "h \<notin> c_id ` set (entries bs)"
  | (present) it a xs c ys A B where "ll_seek (container_matches h) l = Inr it"
      "it_value it = Some a" "ll_cursor l a xs c ys" "c_id c = h" "entries bs = A @ c # B"
      "\<And>l' zs. ll_contents l' = xs @ zs @ ys \<Longrightarrow> entries (bs[i := Some l']) = A @ zs @ B"
proof -
  have il: "i < length bs" using len i by simp
  from bucket_list_ok [OF ok il] have wf: "ll_wf l" by (simp add: l list_ok_def)
  from entries_split [OF il] obtain A B where
    AB: "entries bs = A @ bucket_contents (bs ! i) @ B"
      "\<And>b. entries (bs[i := b]) = A @ bucket_contents b @ B" by metis
  have con: "ll_contents l = bucket_contents (bs ! i)" by (simp add: l)
  have "distinct (map c_id (ll_contents l))"
    using buckets_ok_distinct [OF ok] AB(1) con by simp
  from ll.seek_unique [OF wf this, of h] obtain it where
    it: "ll_seek (container_matches h) l = Inr it"
      "case it_value it of None \<Rightarrow> h \<notin> c_id ` set (ll_contents l)
       | Some a \<Rightarrow> \<exists>xs x ys. ll_cursor l a xs x ys \<and> c_id x = h \<and> ll_contents l = xs @ x # ys \<and>
           h \<notin> c_id ` set xs \<and> h \<notin> c_id ` set ys"
    unfolding container_matches_eq by blast
  show thesis
  proof (cases "it_value it")
    case None
    have "h \<notin> c_id ` set (entries bs)"
    proof
      assume "h \<in> c_id ` set (entries bs)"
      then obtain c where c: "c \<in> set (entries bs)" "c_id c = h" by auto
      then have "h_hash h = c_hash c" by (simp flip: c(2))
      with entry_in_bucket [OF ok c(1)] c(2) con it(2) None i show False by auto
    qed
    with it(1) None show thesis by (rule absent)
  next
    case (Some a)
    with it(2) obtain xs c ys where c: "ll_cursor l a xs c ys" "c_id c = h"
      "ll_contents l = xs @ c # ys" by auto
    with it(1) Some AB con show thesis
      by (intro present [of it a xs c ys "A @ xs" "ys @ B"]) auto
  qed
qed

lemma get_ok:
  assumes "ht_inv t"
  shows "cflare_hashtable_get t h = Inr (ht_map t h)"
proof (cases "length (ht_buckets t) = 0")
  case True
  then show ?thesis
    by (simp add: cflare_hashtable_get_def ht_map_def entries_map_def)
next
  case False
  let ?i = "bucket_pos (h_hash h) (length (ht_buckets t))"
  let ?b = "ht_buckets t ! ?i"
  from assms have ok: "buckets_ok (ht_buckets t)" by (simp add: ht_inv_def)
  from False have len: "0 < length (ht_buckets t)" by simp
  show ?thesis
  proof (rule lookup_bucket [OF ok len refl refl])
    fix it assume "ll_seek (container_matches h) (bucket_list ?b) = Inr it" "it_value it = None"
      "h \<notin> c_id ` set (entries (ht_buckets t))"
    then show ?thesis
      by (cases ?b) (auto simp: cflare_hashtable_get_def ht_map_def bucket_list_def entries_map_None
          [symmetric])
  next
    fix it a xs c ys A B
    assume c: "ll_seek (container_matches h) (bucket_list ?b) = Inr it" "it_value it = Some a"
      "ll_cursor (bucket_list ?b) a xs c ys" "c_id c = h" "entries (ht_buckets t) = A @ c # B"
    have con: "bucket_contents ?b = xs @ c # ys" using ll.cursor_contents [OF c(3)] by simp
    then obtain l where l: "?b = Some l" by (cases ?b) auto
    then have ok_l: "list_ok (length (ht_buckets t)) ?i l"
      using ok len by (intro buckets_ok_nth) auto
    with con l have "c_data c \<noteq> None" by (auto simp: list_ok_def)
    moreover have "cflare_linkedlist_count l > 0"
      using ok_l con l wf_count [of l] by (simp add: list_ok_def cflare_linkedlist_count_def)
    moreover have "entries_map (A @ c # B) h = Some (the (c_data c))"
      using entries_map_mid(1) [of A c B] buckets_ok_distinct [OF ok] c(4,5) by simp
    ultimately show ?thesis
      using c l False ll.cursor_read [OF c(3)]
      by (auto simp: cflare_hashtable_get_def ht_map_def bucket_list_def)
  qed
qed

lemma dom_entries_map: "dom (entries_map es) = set (map c_id es)"
  by (simp add: entries_map_def dom_map_of_conv_image_fst image_image)

lemma count_ok: "ht_inv t \<Longrightarrow> ht_count t = card (dom (ht_map t))"
  using distinct_card [of "map c_id (entries (ht_buckets t))"]
  by (simp only: ht_inv_def buckets_ok_def ht_map_def dom_entries_map length_map)

section \<open>Setting and removing\<close>

definition same_conf :: "'v cflare_hashtable \<Rightarrow> 'v cflare_hashtable \<Rightarrow> bool" where
  "same_conf t t' = (ht_deleter t' = ht_deleter t \<and> ht_deleter_context t' = ht_deleter_context t)"

lemma same_conf_free: "same_conf t t' \<Longrightarrow> free_container t' = free_container t"
  by (simp add: same_conf_def free_container_def fun_eq_iff split: option.split)

text \<open>The call the user's deleter gets for the value a key is bound to, if it is.\<close>

definition release :: "'v cflare_hashtable \<Rightarrow> 'v option \<Rightarrow> 'v deleter_call list" where
  "release t old = (case old of None \<Rightarrow> []
     | Some w \<Rightarrow> call_deleter (ht_deleter t) (ht_deleter_context t) w)"

lemma release_None [simp]: "release t None = []"
  by (simp add: release_def)

lemma free_container_release: "free_container t c = release t (c_data c)"
  by (simp add: free_container_def release_def)

lemma same_conf_release: "same_conf t t' \<Longrightarrow> release t' = release t"
  by (simp add: same_conf_def release_def fun_eq_iff split: option.split)

definition set_bucket ::
  "'v cflare_hashtable \<Rightarrow> nat \<Rightarrow> 'v cflare_hashtable_container cflare_linkedlist \<Rightarrow> nat \<Rightarrow> 'v cflare_hashtable"
  where "set_bucket t i l n = t\<lparr>ht_buckets := (ht_buckets t)[i := Some l], ht_count := n\<rparr>"

text \<open>A table whose bucket is replaced by one that holds the entries \<open>zs\<close> in place of the old ones.\<close>

lemma set_bucket_inv:
  assumes inv: "ht_inv t" and i: "i < length (ht_buckets t)" and l: "list_ok (length (ht_buckets t)) i l"
    and es: "entries ((ht_buckets t)[i := Some l]) = es" and d: "distinct (map c_id es)"
  shows "ht_inv (set_bucket t i l (length es))" and "ht_map (set_bucket t i l (length es)) = entries_map es"
    and "same_conf t (set_bucket t i l (length es))"
    and "length (ht_buckets (set_bucket t i l (length es))) = length (ht_buckets t)"
  using assms buckets_ok_update [of "ht_buckets t" i l]
  by (simp_all add: ht_inv_def ht_map_def set_bucket_def same_conf_def)

lemma c_ok_entry:
  "list_ok n i l \<Longrightarrow> c \<in> set (ll_contents l) \<Longrightarrow> c_ok n i c"
  by (auto simp: list_ok_def c_ok_def)

lemma bucket_set_some:
  assumes inv: "ht_inv t" and len: "0 < length (ht_buckets t)"
    and i: "i = bucket_pos (h_hash h) (length (ht_buckets t))"
  shows "\<exists>l n. bucket_set t (bucket_list (ht_buckets t ! i)) h (Some v) =
      Inr (l, n, if ht_map t h = Some v then [] else release t (ht_map t h)) \<and>
    ht_inv (set_bucket t i l n) \<and> ht_map (set_bucket t i l n) = (ht_map t)(h \<mapsto> v)"
proof -
  let ?l = "bucket_list (ht_buckets t ! i)" and ?n = "length (ht_buckets t)"
  from inv have ok: "buckets_ok (ht_buckets t)" and cnt: "ht_count t = length (entries (ht_buckets t))"
    by (simp_all add: ht_inv_def)
  have il: "i < ?n" using len i by simp
  have lok: "list_ok ?n i ?l" using ok il by (rule bucket_list_ok)
  show ?thesis
  proof (rule lookup_bucket [OF ok len i refl])
    fix it assume it: "ll_seek (container_matches h) ?l = Inr it" "it_value it = None"
      "h \<notin> c_id ` set (entries (ht_buckets t))"
    let ?c = "\<lparr>c_hash = h_hash h, c_key = h_key h, c_data = Some v\<rparr>"
    have id: "c_id ?c = h" by (simp add: c_id_def)
    have cok: "c_ok ?n i ?c" by (simp add: c_ok_def i)
    from list_ok_push [OF lok this] obtain l1 a l2 where
      L: "cflare_linkedlist_insert_last ?l zero_container = Inr (l1, a)"
        "ll_write l1 a ?c = Inr l2" "list_ok ?n i l2" "ll_contents l2 = ll_contents ?l @ [?c]"
      by blast
    from entries_split [OF il] obtain A B where
      AB: "entries (ht_buckets t) = A @ bucket_contents (ht_buckets t ! i) @ B"
        "\<And>b. entries ((ht_buckets t)[i := b]) = A @ bucket_contents b @ B" by metis
    let ?es = "(A @ ll_contents ?l) @ ?c # B"
    have E: "entries (ht_buckets t) = (A @ ll_contents ?l) @ B" using AB(1) by simp
    have d: "distinct (map c_id ?es)"
      using buckets_ok_distinct [OF ok] it(3) id unfolding E by auto
    have E2: "entries ((ht_buckets t)[i := Some l2]) = ?es" using AB(2) L(4) by simp
    note S = set_bucket_inv [OF inv il L(3) E2 d]
    have "length ?es = ht_count t + 1" using cnt E by simp
    moreover have "entries_map ?es = (ht_map t)(h \<mapsto> v)"
      using entries_map_mid(1) [OF d] id E by (simp add: ht_map_def)
    moreover have "ht_map t h = None" using it(3) by (simp add: ht_map_def entries_map_None)
    ultimately show ?thesis
      using S it(1,2) L(1,2) by (simp add: bucket_set_def)
  next
    fix it a xs c ys A B
    assume c: "ll_seek (container_matches h) ?l = Inr it" "it_value it = Some a"
      "ll_cursor ?l a xs c ys" "c_id c = h" "entries (ht_buckets t) = A @ c # B"
      and E: "\<And>l' zs. ll_contents l' = xs @ zs @ ys \<Longrightarrow>
        entries ((ht_buckets t)[i := Some l']) = A @ zs @ B"
    let ?c = "c\<lparr>c_data := Some v\<rparr>"
    have con: "ll_contents ?l = xs @ c # ys" using ll.cursor_contents [OF c(3)] .
    have cok: "c_ok ?n i c" using c_ok_entry [OF lok] con by simp
    then obtain w where w: "c_data c = Some w" by (auto simp: c_ok_def)
    have d: "distinct (map c_id (A @ c # B))" using buckets_ok_distinct [OF ok] c(5) by simp
    have mt: "ht_map t = (entries_map (A @ B))(h \<mapsto> w)"
      using entries_map_mid(1) [OF d] c(4,5) w by (simp add: ht_map_def)
    have n: "ht_count t = length (A @ c # B)" using cnt c(5) by simp
    show ?thesis
    proof (cases "w = v")
      case True
      have "entries ((ht_buckets t)[i := Some ?l]) = A @ c # B" using E [of ?l "[c]"] con by simp
      from set_bucket_inv [OF inv il lok this d] n True c(1,2) w mt ll.cursor_read [OF c(3)] c(5)
      show ?thesis by (auto simp: bucket_set_def ht_map_def)
    next
      case False
      have "c_ok ?n i ?c" using cok by (simp add: c_ok_def)
      from list_ok_write [OF lok c(3) this] obtain l' where
        L: "ll_write ?l a ?c = Inr l'" "list_ok ?n i l'" "ll_contents l' = xs @ ?c # ys" by blast
      have id: "c_id ?c = h" using c(4) by (simp add: c_id_def)
      have E2: "entries ((ht_buckets t)[i := Some l']) = A @ ?c # B" using E [of l' "[?c]"] L(3) by simp
      have d2: "distinct (map c_id (A @ ?c # B))" using d id c(4) by simp
      have "entries_map (A @ ?c # B) = (ht_map t)(h \<mapsto> v)"
        using entries_map_mid(1) [OF d2] id mt by simp
      with set_bucket_inv [OF inv il L(2) E2 d2] n False c(1,2) w mt ll.cursor_read [OF c(3)] L(1)
      show ?thesis by (simp add: bucket_set_def free_container_release)
    qed
  qed
qed

lemma bucket_set_none:
  assumes inv: "ht_inv t" and len: "0 < length (ht_buckets t)"
    and i: "i = bucket_pos (h_hash h) (length (ht_buckets t))"
    and l: "ht_buckets t ! i = Some l0"
  shows "\<exists>l n. bucket_set t l0 h None = Inr (l, n, release t (ht_map t h)) \<and>
    ht_inv (set_bucket t i l n) \<and> ht_map (set_bucket t i l n) = (ht_map t)(h := None)"
proof -
  let ?n = "length (ht_buckets t)"
  from inv have ok: "buckets_ok (ht_buckets t)" and cnt: "ht_count t = length (entries (ht_buckets t))"
    by (simp_all add: ht_inv_def)
  have il: "i < ?n" using len i by simp
  have lok: "list_ok ?n i l0" using ok il l by (rule buckets_ok_nth)
  have l0: "l0 = bucket_list (ht_buckets t ! i)" by (simp add: l bucket_list_def)
  show ?thesis
  proof (rule lookup_bucket [OF ok len i l0])
    fix it assume it: "ll_seek (container_matches h) l0 = Inr it" "it_value it = None"
      "h \<notin> c_id ` set (entries (ht_buckets t))"
    have m: "ht_map t h = None" using it(3) by (simp add: ht_map_def entries_map_None)
    have "(ht_buckets t)[i := Some l0] = ht_buckets t" using l by (simp flip: l)
    then have "set_bucket t i l0 (ht_count t) = t" by (simp add: set_bucket_def)
    with m it(1,2) inv show ?thesis by (auto simp: bucket_set_def fun_upd_idem)
  next
    fix it a xs c ys A B
    assume c: "ll_seek (container_matches h) l0 = Inr it" "it_value it = Some a"
      "ll_cursor l0 a xs c ys" "c_id c = h" "entries (ht_buckets t) = A @ c # B"
      and E: "\<And>l' zs. ll_contents l' = xs @ zs @ ys \<Longrightarrow>
        entries ((ht_buckets t)[i := Some l']) = A @ zs @ B"
    have cok: "c_ok ?n i c" using c_ok_entry [OF lok] ll.cursor_contents [OF c(3)] by simp
    then obtain w where w: "c_data c = Some w" by (auto simp: c_ok_def)
    have d: "distinct (map c_id (A @ c # B))" using buckets_ok_distinct [OF ok] c(5) by simp
    from list_ok_remove [OF lok c(3)] obtain l' where
      L: "cflare_linkedlist_remove l0 (Some a) = Inr (l', [(the free_container_ptr, map_ptr, c)])"
        "list_ok ?n i l'" "ll_contents l' = xs @ ys" by blast
    have E2: "entries ((ht_buckets t)[i := Some l']) = A @ B" using E [of l' "[]"] L(3) by simp
    have d2: "distinct (map c_id (A @ B))" using d by simp
    have m: "ht_map t h = Some w"
      using entries_map_mid(1) [OF d] c(4,5) w by (simp add: ht_map_def)
    have n: "size_dec (ht_count t) = length (A @ B)" using cnt c(5) by (simp add: size_dec_def)
    have "entries_map (A @ B) = (ht_map t)(h := None)"
      using entries_map_mid(2) [OF d] c(4,5) by (simp add: ht_map_def)
    with set_bucket_inv [OF inv il L(2) E2 d2] n c(1,2) L(1) m w
    show ?thesis by (simp add: bucket_set_def free_container_release run_free_container_def)
  qed
qed

definition load_ok :: "'v cflare_hashtable \<Rightarrow> bool" where
  "load_ok t = (ht_count t \<le> 2 * length (ht_buckets t))"

text \<open>The number of buckets \<open>set\<close> settles on before it touches one.\<close>

definition buckets_for :: "'v cflare_hashtable \<Rightarrow> 'v option \<Rightarrow> nat" where
  "buckets_for t value = (let n = length (ht_buckets t) in case value of
       Some v \<Rightarrow> if 2 * n < ht_count t + 1 then max 32 (n * 4) else n
     | None \<Rightarrow> if size_dec (ht_count t) < n div 8 \<and> 32 < n div 4 then n div 4 else n)"

lemma buckets_for_pos:
  "value \<noteq> None \<or> 0 < length (ht_buckets t) \<Longrightarrow> 0 < buckets_for t value"
  by (cases "length (ht_buckets t)") (auto simp: buckets_for_def Let_def split: option.splits)

lemma resize_ok:
  assumes inv: "ht_inv t"
  obtains t' where "resize_for t value = Inr (t', [])" "ht_inv t'" "ht_map t' = ht_map t"
    "ht_count t' = ht_count t" "same_conf t t'" "length (ht_buckets t') = buckets_for t value"
proof -
  show thesis
  proof (cases "length (ht_buckets t) = buckets_for t value \<and> resize_for t value = Inr (t, [])")
    case True
    with inv show thesis by (intro that [of t]) (auto simp: same_conf_def)
  next
    case False
    then have "resize_for t value = cflare_hashtable_rebuild t (buckets_for t value)"
      and "0 < buckets_for t value"
      by (auto simp: resize_for_def buckets_for_def Let_def start_size_def max_def
          split: option.splits if_splits)
    with rebuild_ok [OF inv, of "buckets_for t value"] show thesis
      using that by (auto simp: same_conf_def)
  qed
qed

lemma load_buckets_for:
  assumes "load_ok t" and "same_conf t t'" and "ht_count t' = ht_count t"
    and "length (ht_buckets t') = buckets_for t value"
  shows "load_ok t'" and "value \<noteq> None \<Longrightarrow> ht_count t' + 1 \<le> 2 * length (ht_buckets t')"
proof -
  have "ht_count t \<le> size_dec (ht_count t) + 1" by (simp add: size_dec_def)
  with assms show "load_ok t'"
    by (auto simp: load_ok_def buckets_for_def Let_def split: option.splits if_splits)
  from assms show "value \<noteq> None \<Longrightarrow> ht_count t' + 1 \<le> 2 * length (ht_buckets t')"
    by (auto simp: load_ok_def buckets_for_def Let_def split: option.splits if_splits)
qed

lemma card_dom_upd_le: "card (dom (m(k := v))) \<le> (if v = None then card (dom m) else card (dom m) + 1)"
proof (cases "finite (dom m)")
  case True
  then show ?thesis
    by (cases v) (auto simp: card_insert_if card_Diff1_le split: if_splits)
next
  case False
  then show ?thesis by (cases v) simp_all
qed

lemma set_some_ok:
  assumes inv: "ht_inv t"
  shows "\<exists>t'. cflare_hashtable_set t h (Some v) =
      Inr (t', if ht_map t h = Some v then [] else release t (ht_map t h)) \<and>
    ht_inv t' \<and> ht_map t' = (ht_map t)(h \<mapsto> v) \<and> same_conf t t' \<and> 0 < length (ht_buckets t') \<and>
    length (ht_buckets t') = buckets_for t (Some v) \<and> (load_ok t \<longrightarrow> load_ok t')"
proof -
  from resize_ok [OF inv, of "Some v"] obtain t1 where
    r: "resize_for t (Some v) = Inr (t1, [])" "ht_inv t1" "ht_map t1 = ht_map t"
      "ht_count t1 = ht_count t" "same_conf t t1" "length (ht_buckets t1) = buckets_for t (Some v)"
    by blast
  let ?i = "bucket_pos (h_hash h) (length (ht_buckets t1))"
  have len: "0 < length (ht_buckets t1)" using r(6) buckets_for_pos [of "Some v" t] by simp
  then have ne: "ht_buckets t1 \<noteq> []" by auto
  from bucket_set_some [OF r(2) len refl, of h v] obtain l n where
    b: "bucket_set t1 (bucket_list (ht_buckets t1 ! ?i)) h (Some v) =
        Inr (l, n, if ht_map t1 h = Some v then [] else release t1 (ht_map t1 h))"
      "ht_inv (set_bucket t1 ?i l n)" "ht_map (set_bucket t1 ?i l n) = (ht_map t1)(h \<mapsto> v)"
    by blast
  have "n = card (dom ((ht_map t)(h \<mapsto> v)))"
    using count_ok [OF b(2)] b(3) r(3) by (simp add: set_bucket_def)
  then have "n \<le> ht_count t1 + 1"
    using card_dom_upd_le [of "ht_map t" h "Some v"] count_ok [OF inv] r(4) by simp
  then have load: "load_ok t \<longrightarrow> load_ok (set_bucket t1 ?i l n)"
    using load_buckets_for(2) [OF _ r(5,4,6)] by (auto simp: load_ok_def set_bucket_def)
  have "cflare_hashtable_set t h (Some v) =
      Inr (set_bucket t1 ?i l n, if ht_map t h = Some v then [] else release t (ht_map t h))"
    using r ne b(1) same_conf_release [OF r(5)]
    by (cases "ht_buckets t1 ! ?i")
      (simp_all add: cflare_hashtable_set_def Let_def set_bucket_def bucket_list_def)
  moreover have "same_conf t (set_bucket t1 ?i l n)"
    using r(5) by (simp add: same_conf_def set_bucket_def)
  moreover have "length (ht_buckets (set_bucket t1 ?i l n)) = length (ht_buckets t1)"
    by (simp add: set_bucket_def)
  ultimately show ?thesis
    using b(2,3) r(3,6) load len by (metis gr_zeroI)
qed

lemma set_none_ok:
  assumes inv: "ht_inv t" and pos: "0 < length (ht_buckets t)"
  shows "\<exists>t'. cflare_hashtable_set t h None = Inr (t', release t (ht_map t h)) \<and>
    ht_inv t' \<and> ht_map t' = (ht_map t)(h := None) \<and> same_conf t t' \<and> 0 < length (ht_buckets t') \<and>
    length (ht_buckets t') = buckets_for t None \<and> (load_ok t \<longrightarrow> load_ok t')"
proof -
  from resize_ok [OF inv, of None] obtain t1 where
    r: "resize_for t None = Inr (t1, [])" "ht_inv t1" "ht_map t1 = ht_map t"
      "ht_count t1 = ht_count t" "same_conf t t1" "length (ht_buckets t1) = buckets_for t None"
    by blast
  let ?i = "bucket_pos (h_hash h) (length (ht_buckets t1))"
  have len: "0 < length (ht_buckets t1)" using r(6) buckets_for_pos [of None t] pos by simp
  then have ne: "ht_buckets t1 \<noteq> []" by auto
  have load: "load_ok t \<longrightarrow> load_ok t1" using load_buckets_for(1) [OF _ r(5,4,6)] by simp
  show ?thesis
  proof (cases "ht_buckets t1 ! ?i")
    case None
    have "ht_map t1 h = None"
    proof (rule lookup_bucket [OF _ len refl refl, where h = h])
      show "buckets_ok (ht_buckets t1)" using r(2) by (simp add: ht_inv_def)
    next
      fix it assume "h \<notin> c_id ` set (entries (ht_buckets t1))"
      then show ?thesis by (simp add: ht_map_def entries_map_None)
    next
      fix it a xs c ys A B
      assume "ll_cursor (bucket_list (ht_buckets t1 ! ?i)) a xs c ys"
      then show ?thesis using ll.cursor_contents None by (fastforce simp: bucket_list_def)
    qed
    then show ?thesis
      using r ne len None load by (simp add: cflare_hashtable_set_def Let_def fun_upd_idem)
  next
    case (Some l0)
    from bucket_set_none [OF r(2) len refl Some] obtain l n where
      b: "bucket_set t1 l0 h None = Inr (l, n, release t1 (ht_map t1 h))"
        "ht_inv (set_bucket t1 ?i l n)" "ht_map (set_bucket t1 ?i l n) = (ht_map t1)(h := None)"
      by blast
    have "n = card (dom ((ht_map t)(h := None)))"
      using count_ok [OF b(2)] b(3) r(3) by (simp add: set_bucket_def)
    then have "n \<le> ht_count t1"
      using card_dom_upd_le [of "ht_map t" h None] count_ok [OF inv] r(4) by simp
    with load have "load_ok t \<longrightarrow> load_ok (set_bucket t1 ?i l n)"
      by (auto simp: load_ok_def set_bucket_def)
    moreover have "cflare_hashtable_set t h None =
        Inr (set_bucket t1 ?i l n, release t (ht_map t h))"
      using r ne b(1) Some same_conf_release [OF r(5)]
      by (simp add: cflare_hashtable_set_def Let_def set_bucket_def)
    moreover have "same_conf t (set_bucket t1 ?i l n)"
      using r(5) by (simp add: same_conf_def set_bucket_def)
    moreover have "length (ht_buckets (set_bucket t1 ?i l n)) = length (ht_buckets t1)"
      by (simp add: set_bucket_def)
    ultimately show ?thesis
      using b(2,3) r(3,6) len by (metis gr_zeroI)
  qed
qed

lemma free_containers_release:
  "run_free_container t (map (\<lambda>x. (f, ctx, x)) cs) =
     concat (map (\<lambda>c. release t (c_data c)) cs)"
  by (simp add: run_free_container_def free_container_release comp_def)

lemma delete_buckets_ok:
  assumes "\<forall>l. Some l \<in> set bs \<longrightarrow> ll_wf l \<and> ll_deleter l = free_container_ptr"
  shows "delete_buckets t bs = Inr (concat (map (\<lambda>c. release t (c_data c)) (entries bs)))"
  using assms
proof (induction bs)
  case (Cons b bs)
  show ?case
  proof (cases b)
    case (Some l)
    then have "Some l \<in> set (b # bs)" by simp
    with Cons.prems have l: "ll_wf l" "ll_deleter l = Some 1"
      unfolding free_container_ptr_def by blast+
    from l(1) have "ll_inv l (ll_addrs l)" by (simp only: ll_wf_def)
    note d = delete_inv [OF this]
    with l(2) have "cflare_linkedlist_delete l =
        Inr (map (\<lambda>x. (1, ll_deleter_context l, x)) (ll_contents l))"
      by (simp only: ll_contents_def concat_call_deleter)
    moreover have "delete_buckets t bs = Inr (concat (map (\<lambda>c. release t (c_data c)) (entries bs)))"
      by (rule Cons.IH) (use Cons.prems in simp)
    ultimately show ?thesis using Some by (simp add: free_containers_release)
  next
    case None
    have "delete_buckets t bs = Inr (concat (map (\<lambda>c. release t (c_data c)) (entries bs)))"
      by (rule Cons.IH) (use Cons.prems in simp)
    with None show ?thesis by simp
  qed
qed simp

section \<open>The interface of the table\<close>

text \<open>
  A sequence of bindings and removals, run on a table and on the finite map it stands for. The
  values a sequence replaces or removes are released, except where a key is set to the value it has.
\<close>

fun run_puts ::
  "('t \<Rightarrow> 'k \<Rightarrow> 'v option \<Rightarrow> ('t \<times> 'c list) res) \<Rightarrow> 't \<Rightarrow> ('k \<times> 'v option) list \<Rightarrow> ('t \<times> 'c list) res" where
  "run_puts put t [] = Inr (t, [])"
| "run_puts put t ((k, v) # ops) =
     bindE (put t k v) (\<lambda>(t', cs). bindE (run_puts put t' ops) (\<lambda>(t'', ds). Inr (t'', cs @ ds)))"

fun map_puts :: "('k \<rightharpoonup> 'v) \<Rightarrow> ('k \<times> 'v option) list \<Rightarrow> 'k \<rightharpoonup> 'v" where
  "map_puts m [] = m"
| "map_puts m ((k, v) # ops) = map_puts (m(k := v)) ops"

fun released :: "('v option \<Rightarrow> 'c list) \<Rightarrow> ('k \<rightharpoonup> 'v) \<Rightarrow> ('k \<times> 'v option) list \<Rightarrow> 'c list" where
  "released rel m [] = []"
| "released rel m ((k, v) # ops) =
     (if v \<noteq> None \<and> m k = v then [] else rel (m k)) @ released rel (m(k := v)) ops"

locale key_value_table =
  fixes inv :: "'t \<Rightarrow> bool" and ready :: "'t \<Rightarrow> bool" and view :: "'t \<Rightarrow> 'k \<Rightarrow> 'v option"
    and rel :: "'t \<Rightarrow> 'v option \<Rightarrow> 'c list"
    and put :: "'t \<Rightarrow> 'k \<Rightarrow> 'v option \<Rightarrow> ('t \<times> 'c list) res"
    and get :: "'t \<Rightarrow> 'k \<Rightarrow> 'v option res"
  assumes put_some: "inv t \<Longrightarrow> \<exists>t'. put t k (Some v) =
        Inr (t', if view t k = Some v then [] else rel t (view t k)) \<and>
      inv t' \<and> ready t' \<and> view t' = (view t)(k \<mapsto> v) \<and> rel t' = rel t"
    and put_none: "inv t \<Longrightarrow> ready t \<Longrightarrow> \<exists>t'. put t k None = Inr (t', rel t (view t k)) \<and>
      inv t' \<and> ready t' \<and> view t' = (view t)(k := None) \<and> rel t' = rel t"
    and get_view: "inv t \<Longrightarrow> get t k = Inr (view t k)"
    and rel_none: "rel t None = []"
begin

lemma put_ready:
  assumes "inv t" and "ready t \<or> v \<noteq> None"
  shows "\<exists>t'. put t k v = Inr (t', if v \<noteq> None \<and> view t k = v then [] else rel t (view t k)) \<and>
    inv t' \<and> ready t' \<and> view t' = (view t)(k := v) \<and> rel t' = rel t"
  using assms put_some put_none by (cases v) auto

lemma put_fresh:
  assumes "inv t" and "view t k = None"
  shows "\<exists>t'. put t k (Some v) = Inr (t', []) \<and> inv t' \<and> ready t' \<and>
    view t' = (view t)(k \<mapsto> v) \<and> rel t' = rel t"
  using put_some [OF assms(1), of k v] assms(2) by (simp add: rel_none)

lemma get_put:
  assumes "inv t" and "put t k (Some v) = Inr (t', cs)"
  shows "get t' k' = (if k' = k then Inr (Some v) else get t k')"
  using put_some [OF assms(1), of k v] assms get_view by auto

lemma run_puts_view:
  assumes "inv t" and "ready t \<or> (ops \<noteq> [] \<and> snd (hd ops) \<noteq> None)"
  shows "\<exists>t'. run_puts put t ops = Inr (t', released (rel t) (view t) ops) \<and>
    inv t' \<and> ready t' \<and> view t' = map_puts (view t) ops \<and> rel t' = rel t"
  using assms
proof (induction ops arbitrary: t)
  case Nil
  then show ?case by simp
next
  case (Cons kv ops)
  obtain k v where kv: "kv = (k, v)" by (cases kv)
  with Cons.prems put_ready [of t v k] obtain t1 where
    "put t k v = Inr (t1, if v \<noteq> None \<and> view t k = v then [] else rel t (view t k))"
    "inv t1" "ready t1" and v: "view t1 = (view t)(k := v)" and r: "rel t1 = rel t"
    by auto
  moreover from this Cons.IH [of t1, unfolded v r] obtain t2 where
    "run_puts put t1 ops = Inr (t2, released (rel t) ((view t)(k := v)) ops)" "inv t2" "ready t2"
    "view t2 = map_puts ((view t)(k := v)) ops" "rel t2 = rel t" by blast
  ultimately show ?case by (simp add: kv)
qed

end

definition ht_ready :: "'v cflare_hashtable \<Rightarrow> bool" where
  "ht_ready t = (ht_inv t \<and> load_ok t \<and> 0 < length (ht_buckets t))"

definition ht_ok :: "'v cflare_hashtable \<Rightarrow> bool" where
  "ht_ok t = (ht_inv t \<and> load_ok t)"

interpretation ht: key_value_table ht_ok ht_ready ht_map release cflare_hashtable_set cflare_hashtable_get
proof (unfold_locales, goal_cases)
  case (1 t k v)
  then show ?case
    using set_some_ok [of t k v] by (auto simp: ht_ok_def ht_ready_def same_conf_release)
next
  case (2 t k)
  then show ?case
    using set_none_ok [of t k] by (auto simp: ht_ok_def ht_ready_def same_conf_release)
next
  case (3 t k)
  then show ?case by (simp add: ht_ok_def get_ok)
qed simp

lemma ht_ok_new [simp]: "ht_ok (cflare_hashtable_ondelete cflare_hashtable_new f ctx)"
  by (simp add: ht_ok_def ht_inv_def buckets_ok_def load_ok_def cflare_hashtable_new_def
      cflare_hashtable_ondelete_def)

lemma ht_map_new [simp]: "ht_map (cflare_hashtable_ondelete cflare_hashtable_new f ctx) = Map.empty"
  by (simp add: ht_map_def entries_map_def cflare_hashtable_new_def cflare_hashtable_ondelete_def)

lemma release_new [simp]:
  "release (cflare_hashtable_ondelete cflare_hashtable_new f ctx) =
     (\<lambda>old. case old of None \<Rightarrow> [] | Some w \<Rightarrow> call_deleter f ctx w)"
  by (simp add: release_def cflare_hashtable_ondelete_def fun_eq_iff split: option.split)

section \<open>Properties\<close>


definition sample_key :: cflare_hash where "sample_key = cflare_hash_compute ''key''"


definition one_entry :: "nat cflare_hashtable" where
  "one_entry = (case cflare_hashtable_set
     (cflare_hashtable_ondelete cflare_hashtable_new (Some 9) None) sample_key (Some 7) of
       Inl e \<Rightarrow> cflare_hashtable_new | Inr r \<Rightarrow> fst r)"

lemma one_entry: "ht_inv one_entry" "ht_map one_entry = [sample_key \<mapsto> 7]" "ht_deleter one_entry = Some 9"
proof -
  let ?t0 = "cflare_hashtable_ondelete cflare_hashtable_new (Some 9) None :: nat cflare_hashtable"
  have "ht_inv ?t0" "ht_deleter ?t0 = Some 9"
    using ht_ok_new [of "Some 9" None] by (auto simp: ht_ok_def cflare_hashtable_ondelete_def)
  with set_some_ok [of ?t0 sample_key 7] obtain t where
    "cflare_hashtable_set ?t0 sample_key (Some 7) = Inr (t, [])" "ht_inv t" "ht_map t = [sample_key \<mapsto> 7]"
    "ht_deleter t = Some 9"
    by (auto simp: same_conf_def)
  then show "ht_inv one_entry" "ht_map one_entry = [sample_key \<mapsto> 7]" "ht_deleter one_entry = Some 9"
    by (simp_all add: one_entry_def)
qed

text \<open>
  Rebuilding a table into any positive number of buckets keeps every binding and the count, and
  calls no deleter although it removes every container from the old lists.
\<close>

theorem hashtable_rebuild_preserves:
  assumes "ht_inv t" and "0 < n"
  shows "\<exists>t'. cflare_hashtable_rebuild t n = Inr (t', []) \<and> ht_inv t' \<and> ht_map t' = ht_map t \<and>
    cflare_hashtable_count t' = cflare_hashtable_count t \<and> cflare_hashtable_bucketscount t' = n"
  using rebuild_ok [OF assms]
  by (auto simp: cflare_hashtable_count_def cflare_hashtable_bucketscount_def)

lemma hashtable_rebuild_preserves_witness:
  "\<exists>t'. cflare_hashtable_rebuild one_entry 5 = Inr (t', []) \<and> ht_map t' = [sample_key \<mapsto> 7] \<and>
    cflare_hashtable_bucketscount t' = 5"
  using hashtable_rebuild_preserves [OF one_entry(1), of 5] one_entry(2) by auto

lemma release_all:
  assumes "\<forall>c \<in> set es. c_data c \<noteq> None" and "ht_deleter t = Some f"
  shows "concat (map (\<lambda>c. release t (c_data c)) es) =
    map (\<lambda>(k, v). (f, ht_deleter_context t, v)) (map (\<lambda>c. (c_id c, the (c_data c))) es)"
  using assms by (induction es) (auto simp: release_def)

text \<open>
  Deleting a table calls its deleter exactly once for every binding, with the bound value and
  the context that was registered.
\<close>

theorem hashtable_delete_releases_each:
  assumes "ht_inv t" and "ht_deleter t = Some f"
  shows "\<exists>kvs. cflare_hashtable_delete t = Inr (map (\<lambda>(k, v). (f, ht_deleter_context t, v)) kvs) \<and>
    distinct (map fst kvs) \<and> map_of kvs = ht_map t"
proof (intro exI conjI)
  let ?es = "entries (ht_buckets t)" and ?kv = "\<lambda>c. (c_id c, the (c_data c))"
  from assms(1) have ok: "buckets_ok (ht_buckets t)" by (simp add: ht_inv_def)
  have lists: "\<forall>l. Some l \<in> set (ht_buckets t) \<longrightarrow> ll_wf l \<and> ll_deleter l = free_container_ptr \<and>
      (\<forall>c \<in> set (ll_contents l). c_data c \<noteq> None)"
    using ok by (auto simp: buckets_ok_def list_ok_def in_set_conv_nth)
  have "\<forall>c \<in> set ?es. c_data c \<noteq> None"
    using lists by (fastforce simp: entries_def bucket_contents_def split: option.splits)
  then have "concat (map (\<lambda>c. release t (c_data c)) ?es) =
      map (\<lambda>(k, v). (f, ht_deleter_context t, v)) (map ?kv ?es)"
    using assms(2) by (rule release_all)
  then show "cflare_hashtable_delete t =
      Inr (map (\<lambda>(k, v). (f, ht_deleter_context t, v)) (map ?kv ?es))"
    using delete_buckets_ok [of "ht_buckets t" t] lists by (simp add: cflare_hashtable_delete_def)
  show "distinct (map fst (map ?kv ?es))"
    using buckets_ok_distinct [OF ok] by (simp add: comp_def)
  show "map_of (map ?kv ?es) = ht_map t" by (simp add: ht_map_def entries_map_def)
qed

lemma hashtable_delete_releases_each_witness:
  "\<exists>kvs. cflare_hashtable_delete one_entry =
      Inr (map (\<lambda>(k, v). (9, ht_deleter_context one_entry, v)) kvs) \<and> map_of kvs = [sample_key \<mapsto> 7]"
  using hashtable_delete_releases_each [OF one_entry(1,3)] one_entry(2) by auto

text \<open>The number of buckets is a start size quadrupled some number of times.\<close>

lemma buckets_for_power:
  assumes "length (ht_buckets t) = 0 \<and> v \<noteq> None \<or> length (ht_buckets t) = 32 * 4 ^ k"
  shows "\<exists>k'. buckets_for t v = 32 * 4 ^ k'"
proof (cases "length (ht_buckets t) = 0")
  case True
  with assms show ?thesis
    by (cases v) (auto simp: buckets_for_def intro!: exI [of _ 0])
next
  case False
  with assms have k: "length (ht_buckets t) = 32 * 4 ^ k" by simp
  show ?thesis
  proof (cases k)
    case 0
    with k show ?thesis
      by (auto simp: buckets_for_def Let_def split: option.splits
          intro: exI [of _ 0] exI [of _ "Suc 0"])
  next
    case (Suc j)
    with k have "buckets_for t v \<in> {32 * 4 ^ k, 32 * 4 ^ Suc k, 32 * 4 ^ j}"
      by (auto simp: buckets_for_def Let_def max_def split: option.splits)
    then show ?thesis by blast
  qed
qed

lemma set_buckets:
  assumes "ht_ok t" and "v \<noteq> None \<or> ht_ready t"
  shows "\<exists>t' cs. cflare_hashtable_set t h v = Inr (t', cs) \<and> ht_ready t' \<and>
    length (ht_buckets t') = buckets_for t v"
proof (cases v)
  case None
  with assms set_none_ok [of t h] show ?thesis by (fastforce simp: ht_ok_def ht_ready_def)
next
  case (Some a)
  with assms set_some_ok [of t h a] show ?thesis by (fastforce simp: ht_ok_def ht_ready_def)
qed

lemma run_buckets_power:
  assumes "ht_ok t" and "ops \<noteq> []"
    and "length (ht_buckets t) = 0 \<and> snd (hd ops) \<noteq> None \<or>
      ht_ready t \<and> length (ht_buckets t) = 32 * 4 ^ k"
    and "run_puts cflare_hashtable_set t ops = Inr (t', cs)"
  shows "\<exists>k'. length (ht_buckets t') = 32 * 4 ^ k'"
  using assms
proof (induction ops arbitrary: t k cs)
  case (Cons kv ops)
  obtain h v where kv: "kv = (h, v)" by (cases kv)
  with Cons.prems(1,3) set_buckets [of t v h] obtain t1 cs1 where
    t1: "cflare_hashtable_set t h v = Inr (t1, cs1)" "ht_ready t1"
      "length (ht_buckets t1) = buckets_for t v" by auto
  from Cons.prems(3) kv obtain k1 where k1: "buckets_for t v = 32 * 4 ^ k1"
    using buckets_for_power [of t v k] by auto
  from t1 kv Cons.prems(4) obtain ds where r: "run_puts cflare_hashtable_set t1 ops = Inr (t', ds)"
    by auto
  show ?case
  proof (cases "ops = []")
    case True
    with r t1(3) k1 show ?thesis by auto
  next
    case False
    with Cons.IH [of t1 k1 ds] t1 k1 r show ?thesis by (auto simp: ht_ready_def ht_ok_def)
  qed
qed simp

text \<open>
  Whatever is stored and removed, the number of buckets is 32, 128, 512 and so on: 32 times a
  power of four, and never fewer than 32 once something has been stored.
\<close>

theorem hashtable_bucket_sizes:
  assumes "ops \<noteq> []" and "snd (hd ops) \<noteq> None"
    and "run_puts cflare_hashtable_set (cflare_hashtable_ondelete cflare_hashtable_new f ctx) ops =
      Inr (t, cs)"
  shows "\<exists>k. cflare_hashtable_bucketscount t = 32 * 4 ^ k"
  using run_buckets_power [OF ht_ok_new assms(1) _ assms(3)] assms(2)
  by (simp add: cflare_hashtable_bucketscount_def cflare_hashtable_ondelete_def cflare_hashtable_new_def)

lemma hashtable_bucket_sizes_witness:
  "\<exists>t cs k. run_puts cflare_hashtable_set (cflare_hashtable_ondelete cflare_hashtable_new None None)
      [(sample_key, Some (3::nat)), (sample_key, None)] = Inr (t, cs) \<and> cflare_hashtable_bucketscount t = 32 * 4 ^ k"
proof -
  obtain t cs where t: "run_puts cflare_hashtable_set
      (cflare_hashtable_ondelete cflare_hashtable_new None None)
      [(sample_key, Some (3::nat)), (sample_key, None)] = Inr (t, cs)"
    using ht.run_puts_view [OF ht_ok_new, of None None "[(sample_key, Some (3::nat)), (sample_key, None)]"] by auto
  from hashtable_bucket_sizes [OF _ _ t] t show ?thesis by auto
qed

text \<open>
  The comment on shrinking promises that a table of 128 buckets goes back to 32; it does not.
  Removing any key from a well-formed table with 128 buckets leaves it with 128 buckets, because the
  new size has to be larger than the start size.
\<close>

theorem hashtable_never_shrinks_to_32:
  assumes "ht_inv t" and "cflare_hashtable_bucketscount t = 128"
  shows "\<exists>t' cs. cflare_hashtable_set t h None = Inr (t', cs) \<and> cflare_hashtable_bucketscount t' = 128"
proof -
  have pos: "0 < length (ht_buckets t)" and n: "buckets_for t None = 128"
    using assms(2) by (simp_all add: cflare_hashtable_bucketscount_def buckets_for_def)
  from set_none_ok [OF assms(1) pos, of h] n show ?thesis
    by (auto simp: cflare_hashtable_bucketscount_def)
qed

lemma hashtable_never_shrinks_to_32_witness:
  "\<exists>t t' cs. cflare_hashtable_rebuild one_entry 128 = Inr (t, []) \<and>
    cflare_hashtable_set t sample_key None = Inr (t', cs) \<and> cflare_hashtable_bucketscount t' = 128"
proof -
  obtain t where t: "cflare_hashtable_rebuild one_entry 128 = Inr (t, [])" "ht_inv t"
    "cflare_hashtable_bucketscount t = 128"
    using rebuild_ok [OF one_entry(1), of 128] by (auto simp: cflare_hashtable_bucketscount_def)
  from hashtable_never_shrinks_to_32 [OF t(2,3), of sample_key] t(1) show ?thesis by blast
qed

text \<open>
  Removing a key from a table in which nothing was ever stored fails the assertion that the table
  has buckets, so that the process aborts; looking a key up in it finds nothing.
\<close>

theorem hashtable_remove_from_new_aborts:
  "cflare_hashtable_set (cflare_hashtable_ondelete cflare_hashtable_new f ctx) h None = Inl Assert_failed \<and>
   cflare_hashtable_get (cflare_hashtable_ondelete cflare_hashtable_new f ctx) h = Inr None"
  by (simp add: cflare_hashtable_set_def cflare_hashtable_get_def resize_for_def
      cflare_hashtable_new_def cflare_hashtable_ondelete_def size_dec_def)

end
