(* ===== verification/Headers.thy ===== *)
theory Headers
  imports Hashtable
begin

text \<open>
  The header names of \<open>src/cflare/headers.c\<close>: every header seen gets a number, found again under its
  name in lower case.

  The hash table stores pointers to \<open>loaded_header\<close>s; these live in a store of their own, and the
  table's deleter frees the one a replaced pointer points to. Names are the characters of
  null-terminated strings.
\<close>

section \<open>State\<close>

record loaded_header =
  lh_id :: int
  lh_name :: string
  lh_last_used :: int
  lh_on_disk :: bool

record headers_state =
  canonical_headers :: "addr cflare_hashtable"
  hd_store :: "addr \<rightharpoonup> loaded_header"
  hd_fresh :: addr
  gid :: nat

record cflare_header =
  hdr_id :: int
  hdr_name :: "string option"

definition max_header_length :: nat where "max_header_length = 64"
definition free_header_ptr :: ptr where "free_header_ptr = Some 31"

section \<open>Making headers\<close>

text \<open>In lower case up to the terminator, which is at most \<open>length\<close> characters away.\<close>

fun normalize_header :: "string \<Rightarrow> nat \<Rightarrow> string" where
  "normalize_header [] n = []"
| "normalize_header (c # cs) 0 = (if c = NUL then c # cs else tolower c # cs)"
| "normalize_header (c # cs) (Suc n) = (if c = NUL then c # cs else tolower c # normalize_header cs n)"

fun free_headers :: "addr deleter_call list \<Rightarrow> (addr \<rightharpoonup> loaded_header) \<Rightarrow> (addr \<rightharpoonup> loaded_header) res" where
  "free_headers [] st = Inr st"
| "free_headers ((f, ctx, p) # calls) st =
     bindE (derefE (st p) Dangling) (\<lambda>_. free_headers calls (st(p := None)))"

definition create_header :: "headers_state \<Rightarrow> string \<Rightarrow> (headers_state \<times> addr) res" where
  "create_header st name =
     (let len = length name in
      bindE (assertE (len \<le> max_header_length) Assert_failed) (\<lambda>_.
        let p = hd_fresh st;
            header = \<lparr>lh_id = to_int32 (gid st), lh_name = name, lh_last_used = 0, lh_on_disk = False\<rparr>;
            normal = normalize_header (name @ [NUL]) len;
            hash = cflare_hash_compute (take len normal)
        in bindE (cflare_hashtable_set (canonical_headers st) hash (Some p)) (\<lambda>(tbl, calls).
           bindE (free_headers calls ((hd_store st)(p \<mapsto> header))) (\<lambda>store.
             Inr (\<lparr>canonical_headers = tbl, hd_store = store, hd_fresh = Suc p,
                   gid = (gid st + 1) mod 2 ^ 64\<rparr>, p)))))"

text \<open>
  A line of a headers file: the word before the first white space or \<open>#\<close>. A word of more than 64
  characters is reported and skipped.
\<close>

fun skip_white :: "string \<Rightarrow> string" where
  "skip_white [] = []"
| "skip_white (c # cs) = (if isspace c then skip_white cs else c # cs)"

fun read_word :: "string \<Rightarrow> string \<Rightarrow> string option" where
  "read_word [] buff = Some buff"
| "read_word (c # cs) buff =
     (if isspace c then Some buff
      else if length (buff @ [c]) > max_header_length then None
      else read_word cs (buff @ [c]))"

definition set_on_disk :: "headers_state \<Rightarrow> addr \<Rightarrow> headers_state res" where
  "set_on_disk st p = bindE (derefE (hd_store st p) Dangling) (\<lambda>h.
     Inr (st\<lparr>hd_store := (hd_store st)(p \<mapsto> h\<lparr>lh_on_disk := True, lh_last_used := 0\<rparr>)\<rparr>))"

definition headers_parse_line :: "headers_state \<Rightarrow> string \<Rightarrow> headers_state res" where
  "headers_parse_line st block =
     bindE (cstr block) (\<lambda>line.
       let line = takeWhile (\<lambda>c. c \<noteq> CHR ''#'') line
       in case read_word (skip_white line) [] of
            None \<Rightarrow> Inr st
          | Some buff \<Rightarrow>
              if length buff = 0 then Inr st
              else bindE (create_header st buff) (\<lambda>(st', header). set_on_disk st' header))"

function headers_parse_file :: "headers_state \<Rightarrow> string \<Rightarrow> string \<Rightarrow> headers_state res" where
  "headers_parse_file st buff file = (case fgets_chars (max_line_length - 1) file of (s, rest) \<Rightarrow>
     if s = [] then Inr st
     else let buff = s @ NUL # drop (length s + 1) buff
          in bindE (headers_parse_line st buff) (\<lambda>st'. headers_parse_file st' buff rest))"
  by pat_completeness auto
termination
  by (relation "measure (\<lambda>(st, buff, file). length file)")
    (auto dest: fgets_chars_shorter simp del: fgets_chars.simps)

declare headers_parse_file.simps [simp del]

fun headers_parse_files :: "(nat \<Rightarrow> char) \<Rightarrow> headers_state \<Rightarrow> string option list \<Rightarrow> headers_state res" where
  "headers_parse_files junk st [] = Inr st"
| "headers_parse_files junk st (None # files) = headers_parse_files junk st files"
| "headers_parse_files junk st (Some file # files) =
     bindE (headers_parse_file st (malloc junk max_line_length) file) (\<lambda>st'.
       headers_parse_files junk st' files)"

section \<open>Looking headers up\<close>

definition cflare_headers_get :: "headers_state \<Rightarrow> string \<Rightarrow> cflare_header res" where
  "cflare_headers_get st name =
     (let len = length name; normal = normalize_header (name @ [NUL]) len in
      bindE (cflare_hashtable_get (canonical_headers st) (cflare_hash_compute (take len normal))) (\<lambda>found.
        case found of
          Some p \<Rightarrow> bindE (derefE (hd_store st p) Dangling) (\<lambda>header.
            Inr \<lparr>hdr_id = lh_id header, hdr_name = Some (lh_name header)\<rparr>)
        | None \<Rightarrow> Inr \<lparr>hdr_id = 0, hdr_name = None\<rparr>))"

definition cflare_headers_valid :: "cflare_header \<Rightarrow> bool" where
  "cflare_headers_valid header = (hdr_id header > 0 \<and> hdr_name header \<noteq> None)"

definition cflare_headers_ensure :: "headers_state \<Rightarrow> string \<Rightarrow> (headers_state \<times> cflare_header) res" where
  "cflare_headers_ensure st name =
     bindE (cflare_headers_get st name) (\<lambda>got.
       if cflare_headers_valid got then Inr (st, got)
       else bindE (assertE (length name \<le> max_header_length) Assert_failed) (\<lambda>_.
            bindE (create_header st name) (\<lambda>(st', p).
            bindE (cflare_headers_get st' name) (\<lambda>got'.
            bindE (assertE (cflare_headers_valid got') Assert_failed) (\<lambda>_. Inr (st', got'))))))"

definition cflare_headers_equals :: "cflare_header \<Rightarrow> cflare_header \<Rightarrow> bool res" where
  "cflare_headers_equals a b =
     (if hdr_id a \<noteq> 0 \<and> hdr_id b \<noteq> 0 then Inr (hdr_id a = hdr_id b)
      else bindE (derefE (hdr_name a) Null_deref) (\<lambda>x.
           bindE (derefE (hdr_name b) Null_deref) (\<lambda>y. Inr (x = y))))"

text \<open>Loading: the files, then the seven headers the server asks for by name.\<close>

definition no_headers :: headers_state where
  "no_headers = \<lparr>canonical_headers = cflare_hashtable_ondelete cflare_hashtable_new free_header_ptr None,
     hd_store = Map.empty, hd_fresh = 0, gid = 1\<rparr>"

definition common_headers :: "string list" where
  "common_headers = [''Host'', ''Content-Type'', ''Content-Length'', ''Connection'', ''Upgrade'', ''Server'', ''Date'']"

fun get_all :: "headers_state \<Rightarrow> string list \<Rightarrow> cflare_header list res" where
  "get_all st [] = Inr []"
| "get_all st (n # ns) =
     bindE (cflare_headers_get st n) (\<lambda>h. bindE (get_all st ns) (\<lambda>hs. Inr (h # hs)))"

definition cflare_headers_load ::
  "(nat \<Rightarrow> char) \<Rightarrow> string option list \<Rightarrow> (headers_state \<times> cflare_header list) res" where
  "cflare_headers_load junk files =
     bindE (headers_parse_files junk no_headers files) (\<lambda>st.
     bindE (get_all st common_headers) (\<lambda>hs. Inr (st, hs)))"

definition cflare_headers_unload :: "headers_state \<Rightarrow> (addr \<rightharpoonup> loaded_header) res" where
  "cflare_headers_unload st =
     bindE (cflare_hashtable_delete (canonical_headers st)) (\<lambda>calls. free_headers calls (hd_store st))"

section \<open>The invariant\<close>

text \<open>
  Every pointer in the table points to a header of its own, filed under its name in lower case,
  whose number was handed out and fits an \<open>int32_t\<close>.
\<close>

definition lower :: "string \<Rightarrow> string" where
  "lower s = map tolower s"

definition header_ok :: "headers_state \<Rightarrow> cflare_hash \<Rightarrow> addr \<Rightarrow> bool" where
  "header_ok st k p = (p < hd_fresh st \<and> (\<exists>h. hd_store st p = Some h \<and>
     k = cflare_hash_compute (lower (lh_name h)) \<and> 0 < lh_id h \<and> lh_id h < int (gid st)))"

definition hd_inv :: "headers_state \<Rightarrow> bool" where
  "hd_inv st = (ht_ok (canonical_headers st) \<and>
     release (canonical_headers st) = release (canonical_headers no_headers) \<and>
     0 < gid st \<and> gid st \<le> 2 ^ 31 \<and>
     (\<forall>k p. ht_map (canonical_headers st) k = Some p \<longrightarrow> header_ok st k p) \<and>
     (\<forall>k k' p p' h h'. ht_map (canonical_headers st) k = Some p \<longrightarrow> ht_map (canonical_headers st) k' = Some p' \<longrightarrow>
        hd_store st p = Some h \<longrightarrow> hd_store st p' = Some h' \<longrightarrow> lh_id h = lh_id h' \<longrightarrow> k = k'))"


definition header_map :: "headers_state \<Rightarrow> string \<Rightarrow> loaded_header option" where
  "header_map st n = (case ht_map (canonical_headers st) (cflare_hash_compute n) of
       None \<Rightarrow> None | Some p \<Rightarrow> hd_store st p)"

lemma normalize_lower:
  "NUL \<notin> set s \<Longrightarrow> take (length s) (normalize_header (s @ NUL # r) (length s)) = lower s"
  by (induction s) (auto simp: lower_def)

lemma hd_inv_header:
  assumes "hd_inv st" and "ht_map (canonical_headers st) k = Some p"
  obtains h where "hd_store st p = Some h" "k = cflare_hash_compute (lower (lh_name h))" "0 < lh_id h"
    "lh_id h < int (gid st)" "p < hd_fresh st"
  using assms unfolding hd_inv_def header_ok_def by blast

lemma hd_inv_distinct:
  assumes "hd_inv st" and "ht_map (canonical_headers st) k = Some p" and "ht_map (canonical_headers st) k' = Some p'"
    and "hd_store st p = Some h" and "hd_store st p' = Some h'" and "lh_id h = lh_id h'"
  shows "k = k'"
  using assms unfolding hd_inv_def by blast

lemma hd_inv_pointers:
  assumes "hd_inv st" and "ht_map (canonical_headers st) k = Some p" and "ht_map (canonical_headers st) k' = Some p"
  shows "k = k'"
proof -
  from hd_inv_header [OF assms(1,2)] obtain h where "hd_store st p = Some h" .
  with hd_inv_distinct [OF assms] show ?thesis by blast
qed

lemma get_header:
  assumes "hd_inv st" and "NUL \<notin> set name"
  shows "cflare_headers_get st name = Inr (case header_map st (lower name) of
      None \<Rightarrow> \<lparr>hdr_id = 0, hdr_name = None\<rparr> | Some h \<Rightarrow> \<lparr>hdr_id = lh_id h, hdr_name = Some (lh_name h)\<rparr>)"
proof -
  have g: "cflare_hashtable_get (canonical_headers st) k = Inr (ht_map (canonical_headers st) k)" for k
    using assms(1) by (simp add: hd_inv_def ht.get_view)
  show ?thesis
  proof (cases "ht_map (canonical_headers st) (cflare_hash_compute (lower name))")
    case None
    with g normalize_lower [OF assms(2)] show ?thesis
      by (simp add: cflare_headers_get_def header_map_def Let_def)
  next
    case (Some p)
    from hd_inv_header [OF assms(1) Some] obtain h where "hd_store st p = Some h" .
    with Some g normalize_lower [OF assms(2)] show ?thesis
      by (simp add: cflare_headers_get_def header_map_def Let_def)
  qed
qed

lemma header_map_valid:
  assumes "hd_inv st" and "header_map st n = Some h"
  shows "0 < lh_id h" "lower (lh_name h) = n" "lh_id h < int (gid st)"
proof -
  from assms(2) obtain p where p: "ht_map (canonical_headers st) (cflare_hash_compute n) = Some p"
    "hd_store st p = Some h" by (auto simp: header_map_def split: option.splits)
  from hd_inv_header [OF assms(1) p(1)] p(2)
  show "0 < lh_id h" "lower (lh_name h) = n" "lh_id h < int (gid st)" by auto
qed

lemma header_ids:
  assumes "hd_inv st" and "header_map st a = Some la" and "header_map st b = Some lb"
  shows "lh_id la = lh_id lb \<longleftrightarrow> a = b"
proof
  assume eq: "lh_id la = lh_id lb"
  from assms(2) obtain p where p: "ht_map (canonical_headers st) (cflare_hash_compute a) = Some p"
    "hd_store st p = Some la" by (auto simp: header_map_def split: option.splits)
  from assms(3) obtain q where q: "ht_map (canonical_headers st) (cflare_hash_compute b) = Some q"
    "hd_store st q = Some lb" by (auto simp: header_map_def split: option.splits)
  from hd_inv_distinct [OF assms(1) p(1) q(1) p(2) q(2) eq] show "a = b" by simp
qed (use assms in simp)

lemma free_old:
  assumes "hd_inv st"
  shows "free_headers (release (canonical_headers st) (ht_map (canonical_headers st) k))
      ((hd_store st)(hd_fresh st \<mapsto> h)) =
    Inr (case ht_map (canonical_headers st) k of None \<Rightarrow> (hd_store st)(hd_fresh st \<mapsto> h)
      | Some p \<Rightarrow> ((hd_store st)(hd_fresh st \<mapsto> h))(p := None))"
proof -
  have r: "release (canonical_headers st) = release (canonical_headers no_headers)"
    using assms by (simp add: hd_inv_def)
  show ?thesis
  proof (cases "ht_map (canonical_headers st) k")
    case None
    then show ?thesis by simp
  next
    case (Some p)
    from hd_inv_header [OF assms Some] obtain h' where "hd_store st p = Some h'" "p < hd_fresh st" .
    with Some r show ?thesis by (simp add: no_headers_def free_header_ptr_def)
  qed
qed

lemma create_header_ok:
  assumes inv: "hd_inv st" and name: "NUL \<notin> set name" "length name \<le> 64" and gid: "gid st < 2 ^ 31"
  defines "h \<equiv> \<lparr>lh_id = int (gid st), lh_name = name, lh_last_used = 0, lh_on_disk = False\<rparr>"
  shows "\<exists>st' p. create_header st name = Inr (st', p) \<and> hd_inv st' \<and> gid st' = gid st + 1 \<and>
    header_map st' = (header_map st)(lower name \<mapsto> h) \<and>
    ht_map (canonical_headers st') (cflare_hash_compute (lower name)) = Some p"
proof -
  let ?k = "cflare_hash_compute (lower name)" and ?p = "hd_fresh st"
  have ok: "ht_ok (canonical_headers st)" using inv by (simp add: hd_inv_def)
  have fresh: "ht_map (canonical_headers st) k \<noteq> Some ?p" for k
    using hd_inv_header [OF inv] by (metis less_irrefl_nat)
  from ht.put_some [OF ok, of ?k ?p] fresh [of ?k] obtain t where
    t: "cflare_hashtable_set (canonical_headers st) ?k (Some ?p) =
        Inr (t, release (canonical_headers st) (ht_map (canonical_headers st) ?k))"
      "ht_ok t" "ht_map t = (ht_map (canonical_headers st))(?k \<mapsto> ?p)"
      "release t = release (canonical_headers st)" by auto
  let ?store = "case ht_map (canonical_headers st) ?k of None \<Rightarrow> (hd_store st)(?p \<mapsto> h)
      | Some q \<Rightarrow> ((hd_store st)(?p \<mapsto> h))(q := None)"
  let ?st = "\<lparr>canonical_headers = t, hd_store = ?store, hd_fresh = Suc ?p, gid = gid st + 1\<rparr>"
  have new: "?store ?p = Some h"
    using fresh [of ?k] by (auto split: option.split)
  have other: "?store q = hd_store st q" if "ht_map (canonical_headers st) k = Some q" "k \<noteq> ?k" for k q
  proof -
    have "q \<noteq> ?p" using fresh [of k] that(1) by auto
    moreover have "q' \<noteq> q" if "ht_map (canonical_headers st) ?k = Some q'" for q'
      using hd_inv_pointers [OF inv, of k q ?k] that \<open>ht_map (canonical_headers st) k = Some q\<close> \<open>k \<noteq> ?k\<close>
      by auto
    ultimately show ?thesis by (auto split: option.split)
  qed
  have "to_int32 (gid st) = int (gid st)" using gid by (simp add: to_int32_def)
  moreover have "(gid st + 1) mod 2 ^ 64 = gid st + 1" using gid by simp
  ultimately have c: "create_header st name = Inr (?st, ?p)"
    using t(1) free_old [OF inv, of ?k h] normalize_lower [OF name(1), of "[]"] name(2)
    by (simp add: create_header_def Let_def max_header_length_def h_def)
  have hok: "header_ok ?st k q" if q: "ht_map t k = Some q" for k q
  proof (cases "k = ?k")
    case True
    with q t(3) new inv show ?thesis by (auto simp: header_ok_def h_def hd_inv_def)
  next
    case False
    with q t(3) have o: "ht_map (canonical_headers st) k = Some q" by simp
    from hd_inv_header [OF inv o] obtain h' where
      "hd_store st q = Some h'" "k = cflare_hash_compute (lower (lh_name h'))" "0 < lh_id h'"
      "lh_id h' < int (gid st)" "q < hd_fresh st" .
    with other [OF o False] show ?thesis by (auto simp: header_ok_def)
  qed
  have old_id: "lh_id h' < int (gid st)" if "ht_map (canonical_headers st) k = Some q" "hd_store st q = Some h'" for k q h'
    using hd_inv_header [OF inv that(1)] that(2) by auto
  have dist: "k = k'" if "ht_map t k = Some q" "ht_map t k' = Some q'" "?store q = Some g" "?store q' = Some g'"
    "lh_id g = lh_id g'" for k k' q q' g g'
  proof (cases "k = ?k"; cases "k' = ?k")
    assume "k = ?k" "k' \<noteq> ?k"
    with that t(3) new have g: "g = h" "ht_map (canonical_headers st) k' = Some q'" by auto
    from other [OF g(2) \<open>k' \<noteq> ?k\<close>] that(4) have "hd_store st q' = Some g'" by simp
    from old_id [OF g(2) this] g(1) that(5) show ?thesis by (simp add: h_def)
  next
    assume "k \<noteq> ?k" "k' = ?k"
    with that t(3) new have g: "g' = h" "ht_map (canonical_headers st) k = Some q" by auto
    from other [OF g(2) \<open>k \<noteq> ?k\<close>] that(3) have "hd_store st q = Some g" by simp
    from old_id [OF g(2) this] g(1) that(5) show ?thesis by (simp add: h_def)
  next
    assume n: "k \<noteq> ?k" "k' \<noteq> ?k"
    with that t(3) have o: "ht_map (canonical_headers st) k = Some q" "ht_map (canonical_headers st) k' = Some q'"
      by auto
    have "hd_store st q = Some g" "hd_store st q' = Some g'"
      using other [OF o(1) n(1)] other [OF o(2) n(2)] that(3,4) by simp_all
    with hd_inv_distinct [OF inv o _ _ that(5)] show ?thesis by simp
  qed simp
  have "hd_inv ?st"
    unfolding hd_inv_def using t(2,4) inv gid hok dist by (auto simp: hd_inv_def)
  moreover have "header_map ?st = (header_map st)(lower name \<mapsto> h)"
  proof
    fix n
    show "header_map ?st n = ((header_map st)(lower name \<mapsto> h)) n"
      using t(3) new other [of "cflare_hash_compute n"]
      by (auto simp: header_map_def split: option.split)
  qed
  ultimately show ?thesis using c t(3) by (intro exI [of _ ?st] exI [of _ ?p]) simp
qed

section \<open>Properties\<close>

definition as_header :: "loaded_header option \<Rightarrow> cflare_header" where
  "as_header found = (case found of None \<Rightarrow> \<lparr>hdr_id = 0, hdr_name = None\<rparr>
     | Some h \<Rightarrow> \<lparr>hdr_id = lh_id h, hdr_name = Some (lh_name h)\<rparr>)"

lemma get_as_header:
  "hd_inv st \<Longrightarrow> NUL \<notin> set name \<Longrightarrow> cflare_headers_get st name = Inr (as_header (header_map st (lower name)))"
  by (simp add: get_header as_header_def)

lemma as_header_valid:
  "hd_inv st \<Longrightarrow> cflare_headers_valid (as_header (header_map st n)) \<longleftrightarrow> header_map st n \<noteq> None"
  using header_map_valid [of st n] by (auto simp: as_header_def cflare_headers_valid_def split: option.split)

lemma ensure_ok:
  assumes inv: "hd_inv st" and name: "NUL \<notin> set name" "length name \<le> 64" and gid: "gid st < 2 ^ 31"
  shows "\<exists>st' l. cflare_headers_ensure st name = Inr (st', as_header (Some l)) \<and> hd_inv st' \<and>
    header_map st' = (header_map st)(lower name \<mapsto> l) \<and> (header_map st (lower name) = Some l \<longrightarrow> st' = st) \<and>
    (header_map st (lower name) = None \<longrightarrow> lh_id l = int (gid st) \<and> lh_name l = name)"
proof (cases "header_map st (lower name)")
  case (Some l)
  with inv name have "cflare_headers_ensure st name = Inr (st, as_header (Some l))"
    using as_header_valid [OF inv, of "lower name"] by (simp add: cflare_headers_ensure_def get_as_header)
  with inv Some show ?thesis by (intro exI [of _ st] exI [of _ l]) (auto simp: fun_upd_idem)
next
  case None
  from create_header_ok [OF inv name gid] obtain st' p l where
    c: "create_header st name = Inr (st', p)" "hd_inv st'" "header_map st' = (header_map st)(lower name \<mapsto> l)"
      "lh_id l = int (gid st)" "lh_name l = name" by auto
  have "header_map st' (lower name) = Some l" using c(3) by simp
  then have "cflare_headers_ensure st name = Inr (st', as_header (Some l))"
    using c(1) None name get_as_header [OF inv name(1)] get_as_header [OF c(2) name(1)]
      as_header_valid [OF inv, of "lower name"] as_header_valid [OF c(2), of "lower name"]
    by (simp add: cflare_headers_ensure_def max_header_length_def)
  with c None show ?thesis by auto
qed

text \<open>Two headers of the table compare equal exactly where they are filed under one name.\<close>

lemma equals_as_header:
  assumes "hd_inv st" and "header_map st a = Some la" and "header_map st b = Some lb"
  shows "cflare_headers_equals (as_header (Some la)) (as_header (Some lb)) = Inr (a = b)"
  using header_map_valid(1) [OF assms(1,2)] header_map_valid(1) [OF assms(1,3)] header_ids [OF assms]
  by (simp add: cflare_headers_equals_def as_header_def)

text \<open>
  C33: Ensuring a header of at most 64 characters returns a valid header, the one already known under
  the name in any case or a new one; every spelling of the name then finds it, every other name
  finds what it found before, and ensuring it again changes nothing.
\<close>

theorem headers_ensure_stable:
  assumes "hd_inv st" and "NUL \<notin> set name" and "length name \<le> 64" and "gid st < 2 ^ 31 - 1"
  shows "\<exists>st' h. cflare_headers_ensure st name = Inr (st', h) \<and> hd_inv st' \<and> cflare_headers_valid h \<and>
    map_option lower (hdr_name h) = Some (lower name) \<and>
    (\<forall>n. NUL \<notin> set n \<longrightarrow> cflare_headers_get st' n =
       (if lower n = lower name then Inr h else cflare_headers_get st n)) \<and>
    cflare_headers_ensure st' name = Inr (st', h)"
proof -
  have gid: "gid st < 2 ^ 31" using assms(4) by simp
  from ensure_ok [OF assms(1-3) gid] obtain st' l where
    e: "cflare_headers_ensure st name = Inr (st', as_header (Some l))" "hd_inv st'"
      "header_map st' = (header_map st)(lower name \<mapsto> l)" by auto
  have m: "header_map st' (lower name) = Some l" using e(3) by simp
  have "cflare_headers_valid (as_header (Some l))" using as_header_valid [OF e(2), of "lower name"] m by simp
  moreover from this m have "cflare_headers_ensure st' name = Inr (st', as_header (Some l))"
    by (simp add: cflare_headers_ensure_def get_as_header [OF e(2) assms(2)])
  moreover have "map_option lower (hdr_name (as_header (Some l))) = Some (lower name)"
    using header_map_valid(2) [OF e(2) m] by (simp add: as_header_def)
  moreover have "\<forall>n. NUL \<notin> set n \<longrightarrow> cflare_headers_get st' n =
       (if lower n = lower name then Inr (as_header (Some l)) else cflare_headers_get st n)"
    using assms(1) e(2,3) by (simp add: get_as_header)
  ultimately show ?thesis using e(1,2) by blast
qed

lemma no_headers_inv: "hd_inv no_headers"
  by (simp add: hd_inv_def no_headers_def)

lemma headers_ensure_stable_witness:
  "\<exists>st h. cflare_headers_ensure no_headers ''Host'' = Inr (st, h) \<and> cflare_headers_valid h \<and>
    cflare_headers_get st ''hOST'' = Inr h"
proof -
  have l: "lower ''hOST'' = lower ''Host''"
    by (simp add: lower_def tolower_def isupper_def char_of_def bit_Suc_0_iff)
  have g: "gid no_headers < 2 ^ 31 - 1" by (simp add: no_headers_def)
  from headers_ensure_stable [OF no_headers_inv _ _ g, of "''Host''"] obtain st h where
    e: "cflare_headers_ensure no_headers ''Host'' = Inr (st, h)" "cflare_headers_valid h"
    "\<forall>n. NUL \<notin> set n \<longrightarrow> cflare_headers_get st n =
       (if lower n = lower ''Host'' then Inr h else cflare_headers_get no_headers n)" by auto
  have "NUL \<notin> set ''hOST''" by simp
  with e l show ?thesis by auto
qed

text \<open>
  The numbers identify names: two headers the table knows are equal exactly if their names agree
  up to case. Comparing a known header with the one returned for an unknown name is a null dereference.
\<close>

theorem headers_equals_iff_same_name:
  assumes "hd_inv st" and "NUL \<notin> set a" and "NUL \<notin> set b"
    and "header_map st (lower a) \<noteq> None"
  shows "\<exists>ha hb. cflare_headers_get st a = Inr ha \<and> cflare_headers_get st b = Inr hb \<and>
    cflare_headers_equals ha hb = (if header_map st (lower b) = None then Inl Null_deref
      else Inr (lower a = lower b))"
proof -
  from assms(4) obtain la where la: "header_map st (lower a) = Some la" by blast
  have va: "0 < lh_id la" using header_map_valid [OF assms(1) la] by simp
  show ?thesis
  proof (cases "header_map st (lower b)")
    case None
    with la va assms show ?thesis
      by (simp add: get_as_header as_header_def cflare_headers_equals_def)
  next
    case (Some lb)
    have vb: "0 < lh_id lb" using header_map_valid [OF assms(1) Some] by simp
    have "lh_id la = lh_id lb \<longleftrightarrow> lower a = lower b" by (rule header_ids [OF assms(1) la Some])
    with la Some va vb assms show ?thesis
      by (simp add: get_as_header as_header_def cflare_headers_equals_def)
  qed
qed

lemma headers_equals_iff_same_name_witness:
  "\<exists>st h ha hb. cflare_headers_ensure no_headers ''Date'' = Inr (st, h) \<and>
    cflare_headers_get st ''Date'' = Inr ha \<and> cflare_headers_get st ''Host'' = Inr hb \<and>
    cflare_headers_equals ha hb = Inl Null_deref"
proof -
  have g: "gid no_headers < 2 ^ 31" by (simp add: no_headers_def)
  have empty: "header_map no_headers n = None" for n by (simp add: header_map_def no_headers_def)
  from ensure_ok [OF no_headers_inv _ _ g, of "''Date''"] obtain st l where
    e: "cflare_headers_ensure no_headers ''Date'' = Inr (st, as_header (Some l))" "hd_inv st"
    "header_map st = (header_map no_headers)(lower ''Date'' \<mapsto> l)" by auto
  have "lower ''Host'' \<noteq> lower ''Date''" by (simp add: lower_def tolower_def isupper_def char_of_def bit_Suc_0_iff)
  with e(3) empty have "header_map st (lower ''Date'') \<noteq> None" "header_map st (lower ''Host'') = None" by auto
  with headers_equals_iff_same_name [OF e(2), of "''Date''" "''Host''"] e(1) show ?thesis by auto
qed

end
