(* ===== verification/HttpStatus.thy ===== *)
theory HttpStatus
  imports Hashtable Util
begin

text \<open>
  The HTTP status cache of \<open>src/cflare/httpstatus.c\<close>: lines such as \<open>404 Not Found # comment\<close> fill
  two hash tables, from codes to reasons and from reasons, reduced to their letters, to codes.

  A line is the block the code modifies in place; moving the pointer \<open>line\<close> forward is taking a
  suffix of the block, and running off its end is a fault. A stored status holds the address of
  its copy of the reason, which is fresh every time, so that two statuses never compare equal.
\<close>

section \<open>State\<close>

record known_status =
  ks_code :: "32 word"
  ks_string :: string
  ks_addr :: addr

record status_cache =
  code2string :: "known_status cflare_hashtable"
  string2code :: "known_status cflare_hashtable"
  sc_fresh :: addr

definition free_knownstatus_ptr :: ptr where "free_knownstatus_ptr = Some 21"

text \<open>The four bytes of a \<open>uint32_t\<close>, least significant first.\<close>

definition code_bytes :: "32 word \<Rightarrow> string" where
  "code_bytes code = map (\<lambda>i. char_of (unat (drop_bit (8 * i) code))) [0..<4]"

section \<open>Reading a line\<close>

fun strip_comment :: "nat \<Rightarrow> string \<Rightarrow> string res" where
  "strip_comment 0 line = Inr line"
| "strip_comment (Suc n) [] = Inl Out_of_bounds"
| "strip_comment (Suc n) (c # cs) =
     (if c = CHR ''#'' then Inr (NUL # cs)
      else if c = NUL then Inr (c # cs)
      else bindE (strip_comment n cs) (\<lambda>r. Inr (c # r)))"

fun skip_spaces :: "string \<Rightarrow> string option res" where
  "skip_spaces [] = Inl Out_of_bounds"
| "skip_spaces (x # line) =
     (if x = NUL then Inr None
      else if \<not> isspace x then Inr (Some (x # line))
      else skip_spaces line)"

fun find_digit_end :: "string \<Rightarrow> nat \<Rightarrow> nat option res" where
  "find_digit_end [] digit_end = Inl Out_of_bounds"
| "find_digit_end (x # line) digit_end =
     (if x = NUL then Inr None
      else if isdigit x then find_digit_end line (digit_end + 1)
      else Inr (Some digit_end))"

fun find_lastpos :: "string \<Rightarrow> nat \<Rightarrow> nat \<Rightarrow> nat res" where
  "find_lastpos [] pos lastpos = Inl Out_of_bounds"
| "find_lastpos (x # line) pos lastpos =
     (if x = NUL then Inr lastpos
      else find_lastpos line (pos + 1) (if \<not> isspace x then pos else lastpos))"

text \<open>In place: the letters in lower case, then a terminator; the new length.\<close>

fun normalize_loop :: "string \<Rightarrow> string \<Rightarrow> nat \<Rightarrow> (string \<times> nat) res" where
  "normalize_loop block [] pos = Inl Out_of_bounds"
| "normalize_loop block (x # rest) pos =
     (if x = NUL then bindE (write_at block pos NUL) (\<lambda>block'. Inr (block', pos))
      else if isalpha x
      then bindE (write_at block pos (tolower x)) (\<lambda>block'. normalize_loop block' rest (pos + 1))
      else normalize_loop block rest pos)"

definition normalize_status :: "string \<Rightarrow> (string \<times> nat) res" where
  "normalize_status block = normalize_loop block block 0"

definition strdup :: "string \<Rightarrow> string res" where
  "strdup block = cstr block"

definition add_status :: "status_cache \<Rightarrow> 32 word \<Rightarrow> string \<Rightarrow> status_cache res" where
  "add_status sc code line =
     bindE (strdup line) (\<lambda>str1.
     bindE (cflare_hashtable_set (code2string sc) (cflare_hash_compute (code_bytes code))
              (Some \<lparr>ks_code = code, ks_string = str1, ks_addr = sc_fresh sc\<rparr>)) (\<lambda>(c2s, calls1).
     bindE (strdup line) (\<lambda>str2.
     bindE (normalize_status line) (\<lambda>(line', len).
     bindE (cflare_hashtable_set (string2code sc) (cflare_hash_compute (take len line'))
              (Some \<lparr>ks_code = code, ks_string = str2, ks_addr = sc_fresh sc + 1\<rparr>)) (\<lambda>(s2c, calls2).
       Inr \<lparr>code2string = c2s, string2code = s2c, sc_fresh = sc_fresh sc + 2\<rparr>)))))"

definition status_parse_line :: "status_cache \<Rightarrow> string \<Rightarrow> status_cache res" where
  "status_parse_line sc block =
     bindE (strip_comment max_line_length block) (\<lambda>block.
     bindE (skip_spaces block) (\<lambda>start. case start of
         None \<Rightarrow> Inr sc
       | Some line \<Rightarrow>
     bindE (find_digit_end line 0) (\<lambda>digits. case digits of
         None \<Rightarrow> Inr sc
       | Some digit_end \<Rightarrow>
     if digit_end = 0 then Inr sc else
     bindE (write_at line digit_end NUL) (\<lambda>line.
     bindE (cflare_tointeger line) (\<lambda>r. case r of
         None \<Rightarrow> Inr sc
       | Some tmp \<Rightarrow>
     let line = drop (digit_end + 1) line; code = word_of_int tmp in
     bindE (find_lastpos line 0 0) (\<lambda>lastpos.
     if lastpos = 0 then Inr sc else
     bindE (write_at line (lastpos + 1) NUL) (\<lambda>line.
       add_status sc code line)))))))"

section \<open>Reading the files\<close>

function status_parse_file :: "status_cache \<Rightarrow> string \<Rightarrow> string \<Rightarrow> status_cache res" where
  "status_parse_file sc buff file = (case fgets_chars (max_line_length - 1) file of (s, rest) \<Rightarrow>
     if s = [] then Inr sc
     else let buff = s @ NUL # drop (length s + 1) buff
          in bindE (status_parse_line sc buff) (\<lambda>sc'. status_parse_file sc' buff rest))"
  by pat_completeness auto
termination
  by (relation "measure (\<lambda>(sc, buff, file). length file)") (auto dest: fgets_chars_shorter simp del: fgets_chars.simps)

declare status_parse_file.simps [simp del]

text \<open>Loading: each listed file that can be opened; the others are reported and skipped.\<close>

fun status_parse_files :: "(nat \<Rightarrow> char) \<Rightarrow> status_cache \<Rightarrow> string option list \<Rightarrow> status_cache res" where
  "status_parse_files junk sc [] = Inr sc"
| "status_parse_files junk sc (None # files) = status_parse_files junk sc files"
| "status_parse_files junk sc (Some file # files) =
     bindE (status_parse_file sc (malloc junk max_line_length) file) (\<lambda>sc'.
       status_parse_files junk sc' files)"

definition empty_cache :: status_cache where
  "empty_cache =
     \<lparr>code2string = cflare_hashtable_ondelete cflare_hashtable_new free_knownstatus_ptr None,
      string2code = cflare_hashtable_ondelete cflare_hashtable_new free_knownstatus_ptr None,
      sc_fresh = 0\<rparr>"

definition cflare_httpstatus_load :: "(nat \<Rightarrow> char) \<Rightarrow> string option list \<Rightarrow> status_cache res" where
  "cflare_httpstatus_load junk files = status_parse_files junk empty_cache files"

definition cflare_httpstatus_unload :: "status_cache \<Rightarrow> known_status deleter_call list res" where
  "cflare_httpstatus_unload sc =
     bindE (cflare_hashtable_delete (string2code sc)) (\<lambda>calls1.
     bindE (cflare_hashtable_delete (code2string sc)) (\<lambda>calls2. Inr (calls1 @ calls2)))"

section \<open>Asking\<close>

definition cflare_httpstatus_tostring :: "status_cache \<Rightarrow> 32 word \<Rightarrow> string option res" where
  "cflare_httpstatus_tostring sc code =
     bindE (cflare_hashtable_get (code2string sc) (cflare_hash_compute (code_bytes code))) (\<lambda>status.
       Inr (map_option ks_string status))"

definition cflare_httpstatus_fromstring :: "status_cache \<Rightarrow> string \<Rightarrow> (32 word) res" where
  "cflare_httpstatus_fromstring sc stat =
     bindE (strdup stat) (\<lambda>key.
     bindE (normalize_status (key @ [NUL])) (\<lambda>(key', len).
     bindE (cflare_hashtable_get (string2code sc) (cflare_hash_compute (take len key'))) (\<lambda>status.
       Inr (case status of None \<Rightarrow> 0 | Some s \<Rightarrow> ks_code s))))"

section \<open>What the cache stands for\<close>

definition sc_inv :: "status_cache \<Rightarrow> bool" where
  "sc_inv sc = (ht_ok (code2string sc) \<and> ht_ok (string2code sc))"

text \<open>A reason is known by its letters, in lower case.\<close>

definition letters :: "string \<Rightarrow> string" where
  "letters s = map tolower (filter isalpha s)"

definition reason_of :: "status_cache \<Rightarrow> 32 word \<Rightarrow> string option" where
  "reason_of sc code = map_option ks_string (ht_map (code2string sc) (cflare_hash_compute (code_bytes code)))"

definition code_of :: "status_cache \<Rightarrow> string \<Rightarrow> (32 word) option" where
  "code_of sc key = map_option ks_code (ht_map (string2code sc) (cflare_hash_compute key))"

lemma base256:
  assumes "(x :: nat) < 2 ^ 32"
  shows "x = x mod 256 + 256 * (x div 2 ^ 8 mod 256) + 65536 * (x div 2 ^ 16 mod 256) +
    16777216 * (x div 2 ^ 24 mod 256)"
proof -
  have e: "x div 2 ^ 8 = x div 256" "x div 2 ^ 16 = x div 256 div 256"
    "x div 2 ^ 24 = x div 256 div 256 div 256"
    by (simp_all flip: div_mult2_eq)
  have "x div 256 div 256 div 256 < 256"
    using assms by (simp flip: div_mult2_eq add: div_less_iff_less_mult)
  then have m: "x div 256 div 256 div 256 mod 256 = x div 256 div 256 div 256" by (rule mod_less)
  show ?thesis
    unfolding e m
    using mult_div_mod_eq [of 256 x] mult_div_mod_eq [of 256 "x div 256"]
      mult_div_mod_eq [of 256 "x div 256 div 256"]
    by linarith
qed

lemma code_bytes_inject [simp]: "code_bytes a = code_bytes b \<longleftrightarrow> a = b"
proof
  assume eq: "code_bytes a = code_bytes b"
  have digit: "unat a div 2 ^ (8 * i) mod 256 = unat b div 2 ^ (8 * i) mod 256" if "i < 4" for i
  proof -
    have "code_bytes a ! i = code_bytes b ! i" using eq by simp
    then have "(of_char (char_of (unat (drop_bit (8 * i) a)) :: char) :: nat) =
        of_char (char_of (unat (drop_bit (8 * i) b)) :: char)"
      using that by (simp add: code_bytes_def del: char_of_eq_iff)
    then have "unat (drop_bit (8 * i) a) mod 256 = unat (drop_bit (8 * i) b) mod 256" by simp
    then have "drop_bit (8 * i) (unat a) mod 256 = drop_bit (8 * i) (unat b) mod 256"
      by (simp only: unat_drop_bit_eq)
    then show ?thesis by (simp only: drop_bit_eq_div)
  qed
  have "unat x < 2 ^ 32" for x :: "32 word" 
    by (rule order.strict_trans2 [OF unsigned_less]) simp
  then have "unat a = unat b"
    using base256 [of "unat a"] base256 [of "unat b"] digit [of 0] digit [of 1] digit [of 2] digit [of 3]
    by simp
  then show "a = b" by (simp add: word_eq_iff_unsigned [where 'a = nat])
qed simp

lemma normalize_loop_letters:
  assumes "NUL \<notin> set s" and "pos + length s < length block"
  shows "\<exists>b. normalize_loop block (s @ NUL # r) pos = Inr (b, pos + length (letters s)) \<and>
    take (pos + length (letters s)) b = take pos block @ letters s"
  using assms
proof (induction s arbitrary: block pos)
  case Nil
  then show ?case by (simp add: letters_def)
next
  case (Cons x s)
  show ?case
  proof (cases "isalpha x")
    case True
    with Cons.IH [of "Suc pos" "block[pos := tolower x]"] Cons.prems
    show ?thesis by (auto simp: letters_def take_Suc_update)
  next
    case False
    with Cons.IH [of pos block] Cons.prems show ?thesis by (auto simp: letters_def)
  qed
qed

lemma normalize_letters:
  assumes "NUL \<notin> set s"
  obtains b where "normalize_status (s @ NUL # r) = Inr (b, length (letters s))"
    "take (length (letters s)) b = letters s"
  using normalize_loop_letters [OF assms, of 0 "s @ NUL # r" r] by (auto simp: normalize_status_def)

lemma tostring_reason: "sc_inv sc \<Longrightarrow> cflare_httpstatus_tostring sc code = Inr (reason_of sc code)"
  by (simp add: cflare_httpstatus_tostring_def sc_inv_def ht.get_view reason_of_def)

lemma fromstring_code:
  assumes "sc_inv sc" and "NUL \<notin> set s"
  shows "cflare_httpstatus_fromstring sc (s @ NUL # r) =
    Inr (case code_of sc (letters s) of None \<Rightarrow> 0 | Some c \<Rightarrow> c)"
proof -
  from normalize_letters [OF assms(2), of "[]"] obtain b where
    "normalize_status (s @ [NUL]) = Inr (b, length (letters s))" "take (length (letters s)) b = letters s"
    by auto
  with assms show ?thesis
    by (simp add: cflare_httpstatus_fromstring_def strdup_def cstr_terminated sc_inv_def ht.get_view
        code_of_def split: option.split)
qed

lemma add_status_ok:
  assumes "sc_inv sc" and "NUL \<notin> set reason"
  shows "\<exists>sc'. add_status sc code (reason @ NUL # r) = Inr sc' \<and> sc_inv sc' \<and>
    reason_of sc' = (reason_of sc)(code \<mapsto> reason) \<and> code_of sc' = (code_of sc)(letters reason \<mapsto> code)"
proof -
  let ?k1 = "\<lparr>ks_code = code, ks_string = reason, ks_addr = sc_fresh sc\<rparr>"
    and ?k2 = "\<lparr>ks_code = code, ks_string = reason, ks_addr = sc_fresh sc + 1\<rparr>"
  have ok: "ht_ok (code2string sc)" "ht_ok (string2code sc)" using assms(1) by (simp_all add: sc_inv_def)
  from ht.put_some [OF ok(1), of "cflare_hash_compute (code_bytes code)" ?k1] obtain c2s calls1 where
    c: "cflare_hashtable_set (code2string sc) (cflare_hash_compute (code_bytes code)) (Some ?k1) = Inr (c2s, calls1)"
      "ht_ok c2s" "ht_map c2s = (ht_map (code2string sc))(cflare_hash_compute (code_bytes code) \<mapsto> ?k1)" by blast
  from ht.put_some [OF ok(2), of "cflare_hash_compute (letters reason)" ?k2] obtain s2c calls2 where
    s: "cflare_hashtable_set (string2code sc) (cflare_hash_compute (letters reason)) (Some ?k2) = Inr (s2c, calls2)"
      "ht_ok s2c" "ht_map s2c = (ht_map (string2code sc))(cflare_hash_compute (letters reason) \<mapsto> ?k2)" by blast
  from normalize_letters [OF assms(2), of r] obtain b where
    b: "normalize_status (reason @ NUL # r) = Inr (b, length (letters reason))"
      "take (length (letters reason)) b = letters reason" by auto
  let ?sc = "\<lparr>code2string = c2s, string2code = s2c, sc_fresh = sc_fresh sc + 2\<rparr>"
  have "add_status sc code (reason @ NUL # r) = Inr ?sc"
    using c(1) s(1) b assms(2) by (simp add: add_status_def strdup_def cstr_terminated)
  then show ?thesis
    using c(2,3) s(2,3) by (intro exI [of _ ?sc]) (simp add: sc_inv_def reason_of_def code_of_def fun_eq_iff)
qed

section \<open>Lines\<close>

lemma strip_comment_cut:
  assumes "NUL \<notin> set s" and "CHR ''#'' \<notin> set s" and "length s < n" and "c = NUL \<or> c = CHR ''#''"
  shows "strip_comment n (s @ c # r) = Inr (s @ NUL # r)"
  using assms
proof (induction s arbitrary: n)
  case Nil
  then show ?case by (cases n) auto
next
  case (Cons x s)
  then obtain m where "n = Suc m" by (cases n) auto
  with Cons show ?case by auto
qed

lemma isspace_not_NUL: "isspace c \<Longrightarrow> c \<noteq> NUL"
  by (auto simp: isspace_def)

lemma skip_spaces_all: "\<forall>c \<in> set sp. isspace c \<Longrightarrow> skip_spaces (sp @ s) = skip_spaces s"
  by (induction sp) (auto dest: isspace_not_NUL)

lemma isdigit_is_digit: "isdigit c \<longleftrightarrow> is_digit 10 c"
proof -
  have "(of_char c :: int) = int (of_char c)" by (simp only: of_nat_of_char)
  then show ?thesis by (auto simp: isdigit_def is_digit_def char_to_number_def Let_def)
qed

lemma isdigit_facts: "isdigit c \<Longrightarrow> c \<noteq> NUL \<and> \<not> isspace c \<and> c \<noteq> CHR ''#''"
  by (auto simp: isdigit_def isspace_def)

lemma find_digit_end_digits:
  assumes "\<forall>c \<in> set ds. isdigit c" and "\<not> isdigit c" and "c \<noteq> NUL"
  shows "find_digit_end (ds @ c # s) n = Inr (Some (n + length ds))"
  using assms by (induction ds arbitrary: n) (auto dest: isdigit_facts)

lemma find_lastpos_spaces:
  "\<forall>c \<in> set ws. isspace c \<Longrightarrow> find_lastpos (ws @ NUL # r) pos lastpos = Inr lastpos"
  by (induction ws arbitrary: pos) (auto dest: isspace_not_NUL)

lemma find_lastpos_last:
  assumes "NUL \<notin> set s" and "\<not> isspace x" and "x \<noteq> NUL"
  shows "find_lastpos (s @ x # t) pos lastpos = find_lastpos t (pos + length s + 1) (pos + length s)"
  using assms by (induction s arbitrary: pos lastpos) auto

lemma tointeger_digits:
  assumes "\<forall>c \<in> set ds. isdigit c" and "ds \<noteq> []" and "length ds \<le> 256" and "prefix_value 10 ds < 2 ^ 53"
  shows "cflare_tointeger (ds @ NUL # r) = Inr (Some (int (prefix_value 10 ds)))"
proof -
  have d: "\<forall>c \<in> set ds. is_digit 10 c" using assms(1) by (simp add: isdigit_is_digit)
  from digits_not_sign [OF d] have "NUL \<notin> set ds" "strip_sign ds = (1, ds)" by auto
  from tointeger_scan [OF this strip_base_decimal [OF d] assms(3,4), of r] assms(2) d
  show ?thesis by simp
qed

lemma parse_line_ok:
  assumes inv: "sc_inv sc"
    and sp: "\<forall>c \<in> set sp. isspace c" and ds: "\<forall>c \<in> set ds. isdigit c" "ds \<noteq> []"
    and v: "prefix_value 10 ds < 2 ^ 53" and c: "\<not> isdigit c" "c \<noteq> NUL" "c \<noteq> CHR ''#''"
    and reason: "NUL \<notin> set reason" "CHR ''#'' \<notin> set reason" "1 < length reason" "\<not> isspace (last reason)"
    and ws: "\<forall>c \<in> set ws. isspace c" and e: "e = NUL \<or> e = CHR ''#''"
    and len: "length (sp @ ds @ c # reason @ ws) < 1024" "length ds \<le> 256"
  shows "\<exists>sc' code. status_parse_line sc (sp @ ds @ c # reason @ ws @ e # r) = Inr sc' \<and> sc_inv sc' \<and>
    code = word_of_nat (prefix_value 10 ds) \<and> reason_of sc' = (reason_of sc)(code \<mapsto> reason) \<and>
    code_of sc' = (code_of sc)(letters reason \<mapsto> code)"
proof -
  let ?s = "sp @ ds @ c # reason @ ws" and ?line = "reason @ ws @ NUL # r"
  have hash: "\<forall>x. isspace x \<longrightarrow> x \<noteq> CHR ''#''" by (auto simp: isspace_def)
  have "NUL \<notin> set ?s" "CHR ''#'' \<notin> set ?s"
    using sp ds(1) c(2,3) reason(1,2) ws isspace_not_NUL isdigit_facts hash by (auto, blast+)
  from strip_comment_cut [OF this _ e, of 1024 r] len(1)
  have 1: "strip_comment max_line_length (sp @ ds @ c # reason @ ws @ e # r) = Inr (sp @ ds @ c # ?line)"
    by (simp add: max_line_length_def)
  obtain d ds' where dd: "ds = d # ds'" using ds(2) by (cases ds) auto
  then have 2: "skip_spaces (sp @ ds @ c # ?line) = Inr (Some (ds @ c # ?line))"
    using skip_spaces_all [OF sp] ds(1) isdigit_facts [of d] by simp
  have 3: "find_digit_end (ds @ c # ?line) 0 = Inr (Some (length ds))"
    using find_digit_end_digits [OF ds(1) c(1,2), of ?line 0] by simp
  have 4: "cflare_tointeger (ds @ NUL # ?line) = Inr (Some (int (prefix_value 10 ds)))"
    by (rule tointeger_digits [OF ds len(2) v])
  obtain init x where x: "reason = init @ [x]" using reason(3) by (cases reason rule: rev_cases) auto
  have 5: "find_lastpos ?line 0 0 = Inr (length init)"
    using find_lastpos_last [of init x "ws @ NUL # r" 0 0] find_lastpos_spaces [OF ws] reason(1,4) x by auto
  obtain r' where 6: "?line[length init + 1 := NUL] = reason @ NUL # r'" "length init + 1 < length ?line"
    using x by (cases ws) (auto simp: list_update_append)
  from add_status_ok [OF inv reason(1), of "word_of_nat (prefix_value 10 ds)" r'] obtain sc' where
    7: "add_status sc (word_of_nat (prefix_value 10 ds)) (reason @ NUL # r') = Inr sc'" "sc_inv sc'"
      "reason_of sc' = (reason_of sc)(word_of_nat (prefix_value 10 ds) \<mapsto> reason)"
      "code_of sc' = (code_of sc)(letters reason \<mapsto> word_of_nat (prefix_value 10 ds))" by blast
  have "init \<noteq> []" using reason(3) x by auto
  then have "status_parse_line sc (sp @ ds @ c # reason @ ws @ e # r) = Inr sc'"
    using 1 2 3 4 5 6 7(1) ds(2)
    by (simp add: status_parse_line_def Let_def list_update_append del: append_assoc find_lastpos.simps)
  with 7 show ?thesis by blast
qed

section \<open>Properties\<close>

text \<open>
  C32: A line of spaces, a status code in digits, one separator and a reason of at least two characters,
  with spaces or a comment after it, makes the code translate to exactly that reason and every
  spelling of the reason with the same letters translate to the code; all other codes and reasons
  translate as before.
\<close>

theorem httpstatus_line:
  assumes "sc_inv sc"
    and "\<forall>c \<in> set sp. isspace c" and "\<forall>c \<in> set ds. isdigit c" and "ds \<noteq> []"
    and "prefix_value 10 ds < 2 ^ 32" and "\<not> isdigit c" and "c \<noteq> NUL" and "c \<noteq> CHR ''#''"
    and "NUL \<notin> set reason" and "CHR ''#'' \<notin> set reason" and "1 < length reason"
    and "\<not> isspace (last reason)" and "\<forall>c \<in> set ws. isspace c" and "e = NUL \<or> e = CHR ''#''"
    and "length (sp @ ds @ c # reason @ ws) < 1024" and "length ds \<le> 256"
    and "code = word_of_nat (prefix_value 10 ds)"
  shows "\<exists>sc'. status_parse_line sc (sp @ ds @ c # reason @ ws @ e # r) = Inr sc' \<and> sc_inv sc' \<and>
    cflare_httpstatus_tostring sc' code = Inr (Some reason) \<and>
    (\<forall>s. NUL \<notin> set s \<and> letters s = letters reason \<longrightarrow>
       cflare_httpstatus_fromstring sc' (s @ [NUL]) = Inr code) \<and>
    (\<forall>code'. code' \<noteq> code \<longrightarrow> cflare_httpstatus_tostring sc' code' = cflare_httpstatus_tostring sc code') \<and>
    (\<forall>s. NUL \<notin> set s \<and> letters s \<noteq> letters reason \<longrightarrow>
       cflare_httpstatus_fromstring sc' (s @ [NUL]) = cflare_httpstatus_fromstring sc (s @ [NUL]))"
proof -
  from assms(5) have "prefix_value 10 ds < 2 ^ 53" by (rule order.strict_trans2) simp
  from parse_line_ok [OF assms(1-4) this assms(6-16), of r] assms(17) obtain sc' where
    p: "status_parse_line sc (sp @ ds @ c # reason @ ws @ e # r) = Inr sc'" "sc_inv sc'"
      "reason_of sc' = (reason_of sc)(code \<mapsto> reason)" "code_of sc' = (code_of sc)(letters reason \<mapsto> code)"
    by auto
  then show ?thesis
    using assms(1) by (simp add: tostring_reason fromstring_code)
qed

lemma empty_cache_inv: "sc_inv empty_cache"
  by (simp add: sc_inv_def empty_cache_def)

lemma httpstatus_line_witness:
  "\<exists>sc. status_parse_line empty_cache (''  404 Not Found '' @ CHR ''#'' # ''x'' @ [NUL]) = Inr sc \<and>
    cflare_httpstatus_tostring sc 404 = Inr (Some ''Not Found'') \<and>
    cflare_httpstatus_fromstring sc (''not-found!'' @ [NUL]) = Inr 404"
proof -
  have l: "letters ''not-found!'' = letters ''Not Found''"
    by (simp add: letters_def isalpha_def isupper_def islower_def tolower_def char_of_def bit_Suc_0_iff)
  have v: "prefix_value 10 ''404'' = 404" by (simp add: is_digit_def char_to_number_def)
  from httpstatus_line [OF empty_cache_inv, of "''  ''" "''404''" "CHR '' ''" "''Not Found''" "'' ''" "CHR ''#''" 404
      "''x'' @ [NUL]"] v
  obtain sc where sc: "status_parse_line empty_cache (''  404 Not Found '' @ CHR ''#'' # ''x'' @ [NUL]) = Inr sc"
    "cflare_httpstatus_tostring sc 404 = Inr (Some ''Not Found'')"
    "\<forall>s. NUL \<notin> set s \<and> letters s = letters ''Not Found'' \<longrightarrow> cflare_httpstatus_fromstring sc (s @ [NUL]) = Inr 404"
    by (auto simp: isspace_def isdigit_def)
  have "NUL \<notin> set ''not-found!''" by simp
  with sc l show ?thesis by blast
qed

text \<open>
  A status whose reason is a single character is ignored: the test for an empty reason compares the
  position of the last character with 0.
\<close>

theorem httpstatus_single_character_ignored:
  assumes "\<forall>c \<in> set ds. isdigit c" and "ds \<noteq> []" and "length ds \<le> 256" and "prefix_value 10 ds < 2 ^ 32"
    and "\<not> isspace x" and "x \<noteq> NUL" and "x \<noteq> CHR ''#''"
  shows "status_parse_line sc (ds @ [CHR '' '', x, LF, NUL] @ r) = Inr sc"
proof -
  let ?line = "[x, LF, NUL] @ r"
  have "NUL \<notin> set (ds @ [CHR '' '', x, LF])" "CHR ''#'' \<notin> set (ds @ [CHR '' '', x, LF])"
    using assms(1,6,7) isdigit_facts by fastforce+
  from strip_comment_cut [OF this, of 1024 NUL r] assms(3)
  have 1: "strip_comment max_line_length (ds @ CHR '' '' # ?line) = Inr (ds @ CHR '' '' # ?line)"
    by (simp add: max_line_length_def)
  obtain d ds' where "ds = d # ds'" using assms(2) by (cases ds) auto
  then have 2: "skip_spaces (ds @ CHR '' '' # ?line) = Inr (Some (ds @ CHR '' '' # ?line))"
    using assms(1) isdigit_facts [of d] by simp
  have 3: "find_digit_end (ds @ CHR '' '' # ?line) 0 = Inr (Some (length ds))"
    using find_digit_end_digits [OF assms(1), of "CHR '' ''" ?line 0] by (simp add: isdigit_def)
  have "prefix_value 10 ds < 2 ^ 53" using assms(4) by (rule order.strict_trans2) simp
  from tointeger_digits [OF assms(1-3) this]
  have 4: "cflare_tointeger (ds @ NUL # ?line) = Inr (Some (int (prefix_value 10 ds)))" .
  have 5: "find_lastpos ?line 0 0 = Inr 0"
    using assms(5,6) by (simp add: isspace_def)
  show ?thesis
    using 1 2 3 4 5 assms(2) by (simp add: status_parse_line_def Let_def list_update_append)
qed

lemma httpstatus_single_character_ignored_witness:
  "status_parse_line empty_cache (''299'' @ [CHR '' '', CHR ''X'', LF, NUL] @ []) = Inr empty_cache"
  by (rule httpstatus_single_character_ignored)
    (simp_all add: isdigit_def isspace_def is_digit_def char_to_number_def)

end
