(* ===== verification/Hook.thy ===== *)
theory Hook
  imports Hashtable
begin

text \<open>
  The hook system of \<open>src/cflare/hook.c\<close>: a hash table from event names to lists of hooks, and the
  stacks of arguments and results that are passed to them.

  A \<open>hook_table\<close> in the hash table holds a pointer to its list; the lists live in a store
  \<open>hs_lists\<close>, because the code changes them through that pointer. Names and ids are the characters of
  null-terminated strings. A priority is of any linear order \<open>'p\<close>; storing one rounds it from a
  double to a float, which is the argument \<open>narrow\<close>. A hook function is called by its address: the
  argument \<open>run\<close> says what each function does with the argument stack, the result stack and its
  context, and it does not add or remove hooks.
\<close>

section \<open>Hook tables\<close>

record 'p hook =
  hk_id :: string
  hk_priority :: 'p
  hk_context :: ptr
  hk_func :: addr

record hook_table =
  tbl_name :: string
  tbl_funcs :: addr

record 'p hook_state =
  hs_loaded :: bool
  hs_tables :: "hook_table cflare_hashtable"
  hs_lists :: "addr \<rightharpoonup> 'p hook cflare_linkedlist"
  hs_fresh :: addr

definition free_hook_ptr :: ptr where "free_hook_ptr = Some 11"
definition free_hooktable_ptr :: ptr where "free_hooktable_ptr = Some 12"

definition cflare_hook_load :: "'p hook_state \<Rightarrow> 'p hook_state res" where
  "cflare_hook_load st =
     (if hs_loaded st then Inl (Fatal ''hook_load(): already loaded!'')
      else Inr (st\<lparr>hs_tables := cflare_hashtable_ondelete cflare_hashtable_new free_hooktable_ptr None,
                   hs_loaded := True\<rparr>))"

text \<open>\<open>free_hooktable\<close>: the list is deleted, which frees its hooks.\<close>

definition free_hooktable ::
  "hook_table \<Rightarrow> 'p hook_state \<Rightarrow> ('p hook_state \<times> 'p hook deleter_call list) res" where
  "free_hooktable tbl st =
     bindE (derefE (hs_lists st (tbl_funcs tbl)) Dangling) (\<lambda>l.
     bindE (cflare_linkedlist_delete l) (\<lambda>calls.
       Inr (st\<lparr>hs_lists := (hs_lists st)(tbl_funcs tbl := None)\<rparr>, calls)))"

fun free_hooktables ::
  "hook_table deleter_call list \<Rightarrow> 'p hook_state \<Rightarrow> ('p hook_state \<times> 'p hook deleter_call list) res" where
  "free_hooktables [] st = Inr (st, [])"
| "free_hooktables ((f, ctx, tbl) # calls) st =
     bindE (free_hooktable tbl st) (\<lambda>(st', freed).
     bindE (free_hooktables calls st') (\<lambda>(st'', freed'). Inr (st'', freed @ freed')))"

definition cflare_hook_unload ::
  "'p hook_state \<Rightarrow> ('p hook_state \<times> 'p hook deleter_call list) res" where
  "cflare_hook_unload st =
     (if \<not> hs_loaded st then Inl (Fatal ''hook_unload(): not loaded!'')
      else bindE (cflare_hashtable_delete (hs_tables st)) (\<lambda>calls.
           free_hooktables calls (st\<lparr>hs_loaded := False\<rparr>)))"

definition cflare_hook_remove :: "'p hook_state \<Rightarrow> string \<Rightarrow> string \<Rightarrow> 'p hook_state res" where
  "cflare_hook_remove st name ident =
     (if \<not> hs_loaded st then Inl (Fatal ''hook_remove(): hook system not yet loaded!'')
      else bindE (cflare_hashtable_get (hs_tables st) (cflare_hash_compute name)) (\<lambda>found.
        case found of
          None \<Rightarrow> Inr st
        | Some tbl \<Rightarrow>
            bindE (derefE (hs_lists st (tbl_funcs tbl)) Dangling) (\<lambda>l.
            bindE (ll_remove_iterating (Suc (ll_count l)) (\<lambda>val. hk_id val = ident) l
                     cflare_linkedlist_get_iterator) (\<lambda>r.
              Inr (st\<lparr>hs_lists := (hs_lists st)(tbl_funcs tbl \<mapsto> fst r)\<rparr>)))))"

text \<open>The table of a name, made where there is none.\<close>

definition hook_table_for :: "'p hook_state \<Rightarrow> string \<Rightarrow> ('p hook_state \<times> hook_table) res" where
  "hook_table_for st name =
     (let hash = cflare_hash_compute name in
      bindE (cflare_hashtable_get (hs_tables st) hash) (\<lambda>found. case found of
          Some tbl \<Rightarrow> Inr (st, tbl)
        | None \<Rightarrow>
            let newtbl = \<lparr>tbl_name = name, tbl_funcs = hs_fresh st\<rparr>;
                funcs = cflare_linkedlist_ondelete (cflare_linkedlist_new 32) free_hook_ptr None
            in bindE (cflare_hashtable_set (hs_tables st) hash (Some newtbl)) (\<lambda>(tables, calls).
               bindE (cflare_hashtable_get tables hash) (\<lambda>found'.
               bindE (derefE found' Assert_failed) (\<lambda>tbl.
                 Inr (st\<lparr>hs_tables := tables, hs_lists := (hs_lists st)(hs_fresh st \<mapsto> funcs),
                         hs_fresh := Suc (hs_fresh st)\<rparr>, tbl))))))"

definition cflare_hook_add ::
  "('p :: linorder \<Rightarrow> 'p) \<Rightarrow> 'p hook \<Rightarrow> 'p hook_state \<Rightarrow> string \<Rightarrow> string \<Rightarrow> 'p \<Rightarrow> addr \<Rightarrow> ptr
   \<Rightarrow> 'p hook_state res" where
  "cflare_hook_add narrow junk st0 name ident priority func context =
     (if \<not> hs_loaded st0 then Inl (Fatal ''hook_add(): hook system not yet loaded!'')
      else
      bindE (cflare_hook_remove st0 name ident) (\<lambda>st1.
      bindE (hook_table_for st1 name) (\<lambda>(st, tbl).
      bindE (derefE (hs_lists st (tbl_funcs tbl)) Dangling) (\<lambda>l.
      bindE (ll_seek (\<lambda>val. hk_priority val > priority) l) (\<lambda>iter.
      bindE (cflare_linkedlist_insert_before l (it_value iter) junk) (\<lambda>(l', new_tbl).
      bindE (ll_write l' new_tbl
               \<lparr>hk_id = ident, hk_priority = narrow priority, hk_context = context, hk_func = func\<rparr>) (\<lambda>l''.
        Inr (st\<lparr>hs_lists := (hs_lists st)(tbl_funcs tbl \<mapsto> l'')\<rparr>))))))))"

text \<open>
  Calling the hooks of an event: each in the order of the list, until one returns \<open>true\<close>.
\<close>

fun hook_call_loop ::
  "(addr \<Rightarrow> 'a \<Rightarrow> 's \<Rightarrow> ptr \<Rightarrow> 's \<times> bool) \<Rightarrow> 'a \<Rightarrow> nat \<Rightarrow> 'p hook cflare_linkedlist
   \<Rightarrow> cflare_linkedlist_iterator \<Rightarrow> 's \<Rightarrow> ('s \<times> bool) res" where
  "hook_call_loop run args 0 l it returns = Inl Out_of_fuel"
| "hook_call_loop run args (Suc fuel) l it returns =
     bindE (cflare_linkedlist_iterator_next l it) (\<lambda>r. case r of
         (it', None) \<Rightarrow> Inr (returns, False)
       | (it', Some a) \<Rightarrow> bindE (ll_read l a) (\<lambda>val.
           case run (hk_func val) args returns (hk_context val) of (returns', rets) \<Rightarrow>
             if rets then Inr (returns', rets) else hook_call_loop run args fuel l it' returns'))"

definition cflare_hook_call ::
  "(addr \<Rightarrow> 'a \<Rightarrow> 's \<Rightarrow> ptr \<Rightarrow> 's \<times> bool) \<Rightarrow> 'p hook_state \<Rightarrow> string \<Rightarrow> 'a \<Rightarrow> 's \<Rightarrow> ('s \<times> bool) res" where
  "cflare_hook_call run st name args returns =
     (if \<not> hs_loaded st then Inr (returns, False)
      else bindE (cflare_hashtable_get (hs_tables st) (cflare_hash_compute name)) (\<lambda>found.
        case found of
          None \<Rightarrow> Inr (returns, False)
        | Some tbl \<Rightarrow>
            bindE (derefE (hs_lists st (tbl_funcs tbl)) Dangling) (\<lambda>l.
              hook_call_loop run args (Suc (ll_count l)) l cflare_linkedlist_get_iterator returns)))"

section \<open>What the hooks of an event are\<close>

definition hooks_of :: "'p hook_state \<Rightarrow> string \<Rightarrow> 'p hook list" where
  "hooks_of st name = (case ht_map (hs_tables st) (cflare_hash_compute name) of
       None \<Rightarrow> []
     | Some tbl \<Rightarrow> (case hs_lists st (tbl_funcs tbl) of None \<Rightarrow> [] | Some l \<Rightarrow> ll_contents l))"

text \<open>
  The invariant: every table points to a well-formed list of its own, with \<open>free_hook\<close> as deleter.
\<close>

definition hook_list_ok :: "'p hook_state \<Rightarrow> hook_table \<Rightarrow> bool" where
  "hook_list_ok st tbl = (tbl_funcs tbl < hs_fresh st \<and> (\<exists>l. hs_lists st (tbl_funcs tbl) = Some l \<and>
     ll_wf l \<and> ll_conf l = (free_hook_ptr, None)))"

definition hook_inv :: "'p hook_state \<Rightarrow> bool" where
  "hook_inv st = (hs_loaded st \<and> ht_ok (hs_tables st) \<and>
     (\<forall>k tbl. ht_map (hs_tables st) k = Some tbl \<longrightarrow> hook_list_ok st tbl) \<and>
     (\<forall>k k' tbl tbl'. ht_map (hs_tables st) k = Some tbl \<longrightarrow> ht_map (hs_tables st) k' = Some tbl' \<longrightarrow>
        tbl_funcs tbl = tbl_funcs tbl' \<longrightarrow> k = k'))"

text \<open>The effect of the hooks of an event, as a recursion over their list.\<close>

fun run_hooks ::
  "(addr \<Rightarrow> 'a \<Rightarrow> 's \<Rightarrow> ptr \<Rightarrow> 's \<times> bool) \<Rightarrow> 'a \<Rightarrow> 'p hook list \<Rightarrow> 's \<Rightarrow> 's \<times> bool" where
  "run_hooks run args [] returns = (returns, False)"
| "run_hooks run args (h # hs) returns =
     (case run (hk_func h) args returns (hk_context h) of (returns', rets) \<Rightarrow>
        if rets then (returns', True) else run_hooks run args hs returns')"

lemma hook_inv_table:
  assumes "hook_inv st" and "ht_map (hs_tables st) (cflare_hash_compute name) = Some tbl"
  obtains l where "hs_lists st (tbl_funcs tbl) = Some l" "ll_wf l" "ll_conf l = (free_hook_ptr, None)"
    "hooks_of st name = ll_contents l" "tbl_funcs tbl < hs_fresh st"
proof -
  from assms have "hook_list_ok st tbl" by (auto simp: hook_inv_def)
  then obtain l where l: "hs_lists st (tbl_funcs tbl) = Some l" "ll_wf l"
    "ll_conf l = (free_hook_ptr, None)" "tbl_funcs tbl < hs_fresh st"
    by (auto simp: hook_list_ok_def)
  with assms(2) show thesis by (intro that [OF l(1-3)]) (simp_all add: hooks_of_def)
qed

lemma hook_inv_get:
  "hook_inv st \<Longrightarrow> cflare_hashtable_get (hs_tables st) h = Inr (ht_map (hs_tables st) h)"
  by (simp add: hook_inv_def ht.get_view)

lemma hook_call_chain:
  assumes "ll_chain l (as @ bs)" and "it_rest l it bs" and "length bs < fuel"
  shows "hook_call_loop run args fuel l it returns = Inr (run_hooks run args (vals (ll_nodes l) bs) returns)"
  using assms
proof (induction bs arbitrary: as it fuel returns)
  case Nil
  then show ?case by (cases fuel) (auto dest!: iterator_next_end)
next
  case (Cons b bs)
  then obtain it' where step: "cflare_linkedlist_iterator_next l it = Inr (it', Some b)"
      "it_rest l it' bs"
    by (blast dest: iterator_next_step)
  obtain n where n: "fuel = Suc n" using Cons.prems(3) by (cases fuel) auto
  show ?case
    using Cons.IH [of "as @ [b]" it' n] Cons.prems step n
    by (simp add: chain_node_at ll_read_def split: prod.split)
qed

lemma hook_call_list:
  assumes "ll_wf l"
  shows "hook_call_loop run args (Suc (ll_count l)) l cflare_linkedlist_get_iterator returns =
    Inr (run_hooks run args (ll_contents l) returns)"
proof -
  from assms have "ll_chain l (ll_addrs l)" "length (ll_addrs l) < Suc (ll_count l)"
    by (auto simp: ll_wf_def ll_inv_def)
  then show ?thesis
    using hook_call_chain [of l "[]" "ll_addrs l", OF _ it_rest_start]
    by (simp add: ll_contents_def del: hook_call_loop.simps)
qed

section \<open>Changing one list\<close>

definition set_list ::
  "'p hook_state \<Rightarrow> hook_table \<Rightarrow> 'p hook cflare_linkedlist \<Rightarrow> 'p hook_state" where
  "set_list st tbl l = st\<lparr>hs_lists := (hs_lists st)(tbl_funcs tbl \<mapsto> l)\<rparr>"

lemma set_list_simps [simp]:
  "hs_tables (set_list st tbl l) = hs_tables st" "hs_loaded (set_list st tbl l) = hs_loaded st"
  "hs_fresh (set_list st tbl l) = hs_fresh st"
  "hs_lists (set_list st tbl l) = (hs_lists st)(tbl_funcs tbl \<mapsto> l)"
  by (simp_all add: set_list_def)

lemma set_list_inv:
  assumes "hook_inv st" and "ll_wf l" and "ll_conf l = (free_hook_ptr, None)"
  shows "hook_inv (set_list st tbl l)"
  using assms by (auto simp: hook_inv_def hook_list_ok_def)

lemma set_list_hooks:
  assumes "hook_inv st" and "ht_map (hs_tables st) (cflare_hash_compute name) = Some tbl"
  shows "hooks_of (set_list st tbl l) name' = (if name' = name then ll_contents l else hooks_of st name')"
proof -
  have "tbl_funcs tbl' \<noteq> tbl_funcs tbl"
    if "ht_map (hs_tables st) (cflare_hash_compute name') = Some tbl'" "name' \<noteq> name" for tbl'
    using assms that unfolding hook_inv_def by (metis hash_compute_inject)
  with assms(2) show ?thesis by (auto simp: hooks_of_def split: option.split)
qed

lemma conf_filter_remove:
  assumes "ll_wf l"
  shows "\<exists>l' ds. ll_remove_iterating (Suc (ll_count l)) P l cflare_linkedlist_get_iterator = Inr (l', ds) \<and>
    ll_wf l' \<and> ll_contents l' = filter (\<lambda>x. \<not> P x) (ll_contents l) \<and> ll_conf l' = ll_conf l"
proof -
  from assms have inv: "ll_inv l ([] @ ll_addrs l)" by (simp add: ll_wf_def)
  then have chain: "ll_chain l ([] @ ll_addrs l)" and own: "ll_owned l"
    by (auto simp: inv_owned)
  have len: "length (ll_addrs l) < Suc (ll_count l)" using inv by (simp add: ll_inv_def)
  have "it_rest l cflare_linkedlist_get_iterator (ll_addrs l)" using chain it_rest_start by simp
  from remove_iterating_chain [OF chain this len, of P] own obtain l' ds cs where
    l': "ll_remove_iterating (Suc (ll_count l)) P l cflare_linkedlist_get_iterator = Inr (l', ds)"
    "ll_chain l' cs" "vals (ll_nodes l') cs = filter (\<lambda>x. \<not> P x) (vals (ll_nodes l) (ll_addrs l))"
    "set cs \<subseteq> set (ll_addrs l)"
    "dom (ll_nodes l') = dom (ll_nodes l) - (set (ll_addrs l) - set cs)" "ll_owned l'"
    "same_deleter l l'"
    by auto
  then have "ll_inv l' cs" using inv by (auto simp: inv_owned)
  with l' show ?thesis
    by (auto simp: inv_contents ll_conf_same ll_contents_def [of l] intro: wf_inv)
qed

lemma hook_remove_ok:
  assumes "hook_inv st"
  shows "\<exists>st'. cflare_hook_remove st name ident = Inr st' \<and> hook_inv st' \<and>
    hs_tables st' = hs_tables st \<and> hs_fresh st' = hs_fresh st \<and>
    (\<forall>name'. hooks_of st' name' = (if name' = name then filter (\<lambda>h. hk_id h \<noteq> ident) (hooks_of st name)
       else hooks_of st name'))"
proof (cases "ht_map (hs_tables st) (cflare_hash_compute name)")
  case None
  then have "hooks_of st name = []" by (simp add: hooks_of_def)
  with assms None show ?thesis
    by (auto simp: cflare_hook_remove_def hook_inv_get) (simp add: hook_inv_def)
next
  case (Some tbl)
  from hook_inv_table [OF assms Some] obtain l where
    l: "hs_lists st (tbl_funcs tbl) = Some l" "ll_wf l" "ll_conf l = (free_hook_ptr, None)"
      "hooks_of st name = ll_contents l" by blast
  from conf_filter_remove [OF l(2), of "\<lambda>h. hk_id h = ident"] obtain l' ds where
    l': "ll_remove_iterating (Suc (ll_count l)) (\<lambda>h. hk_id h = ident) l cflare_linkedlist_get_iterator =
        Inr (l', ds)" "ll_wf l'" "ll_contents l' = filter (\<lambda>h. hk_id h \<noteq> ident) (ll_contents l)"
      "ll_conf l' = ll_conf l" by blast
  have loaded: "hs_loaded st" using assms by (simp add: hook_inv_def)
  have "cflare_hook_remove st name ident = Inr (set_list st tbl l')"
    using assms Some l(1) l'(1) loaded
    by (simp add: cflare_hook_remove_def hook_inv_get set_list_def del: ll_remove_iterating.simps)
  moreover have "hook_inv (set_list st tbl l')" using set_list_inv [OF assms l'(2)] l'(4) l(3) by simp
  ultimately show ?thesis using set_list_hooks [OF assms Some, of l'] l'(3) l(4) by simp
qed

text \<open>A table for the name: found, or made with an empty list.\<close>

lemma hook_table_for_ok:
  assumes "hook_inv st"
  obtains st' tbl where "hook_table_for st name = Inr (st', tbl)" "hook_inv st'"
    "ht_map (hs_tables st') (cflare_hash_compute name) = Some tbl"
    "\<And>name'. hooks_of st' name' = hooks_of st name'"
proof (cases "ht_map (hs_tables st) (cflare_hash_compute name)")
  case (Some tbl)
  with assms that [of st tbl] show thesis by (simp add: hook_table_for_def hook_inv_get Let_def)
next
  case None
  let ?tbl = "\<lparr>tbl_name = name, tbl_funcs = hs_fresh st\<rparr>"
  let ?l = "cflare_linkedlist_ondelete (cflare_linkedlist_new 32) free_hook_ptr None :: 'a hook cflare_linkedlist"
  have ok: "ht_ok (hs_tables st)" using assms by (simp add: hook_inv_def)
  from ht.put_fresh [OF ok None, of ?tbl] obtain t where
    t: "cflare_hashtable_set (hs_tables st) (cflare_hash_compute name) (Some ?tbl) = Inr (t, [])"
      "ht_ok t" "ht_map t = (ht_map (hs_tables st))(cflare_hash_compute name \<mapsto> ?tbl)" by blast
  let ?st = "st\<lparr>hs_tables := t, hs_lists := (hs_lists st)(hs_fresh st \<mapsto> ?l), hs_fresh := Suc (hs_fresh st)\<rparr>"
  have conf: "ll_conf ?l = (free_hook_ptr, None)"
    by (simp add: ll_conf_def cflare_linkedlist_ondelete_def)
  have old: "tbl_funcs tbl < hs_fresh st" if "ht_map (hs_tables st) k = Some tbl" for k tbl
    using assms that by (auto simp: hook_inv_def hook_list_ok_def)
  have "hook_list_ok ?st tbl" if "ht_map t k = Some tbl" for k tbl
  proof (cases "k = cflare_hash_compute name")
    case True
    with that t(3) conf show ?thesis by (auto simp: hook_list_ok_def)
  next
    case False
    with that t(3) have "ht_map (hs_tables st) k = Some tbl" by simp
    with assms old [OF this] show ?thesis by (fastforce simp: hook_inv_def hook_list_ok_def)
  qed
  moreover have "k = k'" if "ht_map t k = Some tbl" "ht_map t k' = Some tbl'"
    "tbl_funcs tbl = tbl_funcs tbl'" for k k' tbl tbl'
    using that t(3) assms old [of k tbl] old [of k' tbl']
    by (auto simp: hook_inv_def split: if_splits)
  ultimately have inv: "hook_inv ?st"
    using assms t(2) by (auto simp: hook_inv_def)
  have "hook_table_for st name = Inr (?st, ?tbl)"
    using None t hook_inv_get [OF assms] ht.get_view [OF t(2)]
    by (simp add: hook_table_for_def Let_def)
  moreover have "hooks_of ?st name' = hooks_of st name'" for name'
  proof (cases "name' = name")
    case True
    with None t(3) show ?thesis by (simp add: hooks_of_def)
  next
    case False
    have "tbl_funcs tbl \<noteq> hs_fresh st" if "ht_map (hs_tables st) (cflare_hash_compute name') = Some tbl" for tbl
      using old [OF that] by simp
    with False t(3) show ?thesis by (auto simp: hooks_of_def split: option.split)
  qed
  ultimately show thesis using that [of ?st ?tbl] inv t(3) by simp
qed

section \<open>Adding a hook\<close>

definition insert_hook :: "'p :: linorder \<Rightarrow> 'p hook \<Rightarrow> 'p hook list \<Rightarrow> 'p hook list" where
  "insert_hook priority new hs =
     takeWhile (\<lambda>h. hk_priority h \<le> priority) hs @ new # dropWhile (\<lambda>h. hk_priority h \<le> priority) hs"

lemma insert_before_seek:
  assumes wf: "ll_wf l" and later: "ll_contents l = [] \<or> (\<exists>h \<in> set (ll_contents l). hk_priority h > priority)"
  shows "\<exists>iter l1 a l2. ll_seek (\<lambda>val. hk_priority val > priority) l = Inr iter \<and>
    cflare_linkedlist_insert_before l (it_value iter) junk = Inr (l1, a) \<and> ll_write l1 a new = Inr l2 \<and>
    ll_wf l2 \<and> ll_contents l2 = insert_hook priority new (ll_contents l) \<and> ll_conf l2 = ll_conf l"
proof -
  from ll.seek_first [OF wf, of "\<lambda>val. hk_priority val > priority"] obtain iter where
    it: "ll_seek (\<lambda>val. hk_priority val > priority) l = Inr iter"
      "case it_value iter of None \<Rightarrow> \<forall>x \<in> set (ll_contents l). \<not> hk_priority x > priority
       | Some a \<Rightarrow> \<exists>xs x ys. ll_cursor l a xs x ys \<and> hk_priority x > priority \<and>
           (\<forall>y \<in> set xs. \<not> hk_priority y > priority)" by blast
  have "\<exists>l1 a xs ys. cflare_linkedlist_insert_before l (it_value iter) junk = Inr (l1, a) \<and>
      ll_cursor l1 a xs junk ys \<and> xs @ new # ys = insert_hook priority new (ll_contents l) \<and>
      ll_conf l1 = ll_conf l"
  proof (cases "it_value iter")
    case None
    with it(2) later have e: "ll_contents l = []" by auto
    then have "ll_last l = None" using wf chain_ends [of l "ll_addrs l"]
      by (auto simp: ll_wf_def ll_inv_def ll_contents_def vals_def)
    then have "cflare_linkedlist_insert_last l junk = cflare_linkedlist_insert_before l None junk"
      by (simp add: cflare_linkedlist_insert_last_def cflare_linkedlist_insert_after_def
          cflare_linkedlist_insert_before_def)
    with ll.cursor_push [OF wf, of junk] e None show ?thesis by (auto simp: insert_hook_def)
  next
    case (Some b)
    with it(2) obtain xs x ys where c: "ll_cursor l b xs x ys" "hk_priority x > priority"
      "\<forall>y \<in> set xs. hk_priority y \<le> priority" by (auto simp: not_less)
    have "ll_contents l = xs @ x # ys" using ll.cursor_contents [OF c(1)] .
    moreover have "\<not> hk_priority x \<le> priority" using c(2) by (simp add: not_le)
    ultimately have "insert_hook priority new (ll_contents l) = xs @ new # x # ys"
      using c(3) by (simp add: insert_hook_def)
    moreover from insert_before_cursor [OF c(1), of junk] obtain l1 a where
      "cflare_linkedlist_insert_before l (Some b) junk = Inr (l1, a)" "ll_cursor l1 a xs junk (x # ys)"
      "ll_conf l1 = ll_conf l" by (auto dest: ll_conf_same)
    ultimately show ?thesis using Some by metis
  qed
  then obtain l1 a xs ys where l1: "cflare_linkedlist_insert_before l (it_value iter) junk = Inr (l1, a)"
    "ll_cursor l1 a xs junk ys" "xs @ new # ys = insert_hook priority new (ll_contents l)"
    "ll_conf l1 = ll_conf l" by blast
  from ll.cursor_write [OF l1(2), of new] obtain l2 where
    "ll_write l1 a new = Inr l2" "ll_cursor l2 a xs new ys" "ll_conf l2 = ll_conf l1" by blast
  with it(1) l1 ll.cursor_wf ll.cursor_contents show ?thesis by metis
qed

lemma hook_add_list:
  assumes "hook_inv st"
  obtains st1 tbl l where "hook_inv st1" "ht_map (hs_tables st1) (cflare_hash_compute name) = Some tbl"
    "hs_lists st1 (tbl_funcs tbl) = Some l" "ll_wf l" "ll_conf l = (free_hook_ptr, None)"
    "ll_contents l = filter (\<lambda>h. hk_id h \<noteq> ident) (hooks_of st name)"
    "\<And>name'. name' \<noteq> name \<Longrightarrow> hooks_of st1 name' = hooks_of st name'"
    "\<And>narrow junk priority func context. cflare_hook_add narrow junk st name ident priority func context =
      bindE (ll_seek (\<lambda>val. hk_priority val > priority) l) (\<lambda>iter.
      bindE (cflare_linkedlist_insert_before l (it_value iter) junk) (\<lambda>(l', new_tbl).
      bindE (ll_write l' new_tbl
               \<lparr>hk_id = ident, hk_priority = narrow priority, hk_context = context, hk_func = func\<rparr>) (\<lambda>l''.
        Inr (set_list st1 tbl l''))))"
proof -
  from hook_remove_ok [OF assms, of name ident] obtain st0 where
    st0: "cflare_hook_remove st name ident = Inr st0" "hook_inv st0"
      "\<And>name'. hooks_of st0 name' = (if name' = name then filter (\<lambda>h. hk_id h \<noteq> ident) (hooks_of st name)
         else hooks_of st name')" by blast
  from hook_table_for_ok [OF st0(2), of name] obtain st1 tbl where
    st1: "hook_table_for st0 name = Inr (st1, tbl)" "hook_inv st1"
      "ht_map (hs_tables st1) (cflare_hash_compute name) = Some tbl"
      "\<And>name'. hooks_of st1 name' = hooks_of st0 name'" by blast
  from hook_inv_table [OF st1(2,3)] obtain l where
    l: "hs_lists st1 (tbl_funcs tbl) = Some l" "ll_wf l" "ll_conf l = (free_hook_ptr, None)"
      "hooks_of st1 name = ll_contents l" by blast
  have "hs_loaded st" using assms by (simp add: hook_inv_def)
  then show thesis
    using st0 st1 l
    by (intro that [OF st1(2,3) l(1-3)]) (simp_all add: cflare_hook_add_def set_list_def)
qed

lemma dropWhile_greater:
  "sorted (map f xs) \<Longrightarrow> x \<in> set (dropWhile (\<lambda>x. f x \<le> p) xs) \<Longrightarrow> p < f x"
  for p :: "'p :: linorder"
  by (induction xs) (auto split: if_splits)

lemma insert_hook_sorted:
  assumes "sorted (map hk_priority hs)" and "\<forall>h \<in> set hs. narrow (hk_priority h) = hk_priority h"
    and "mono narrow" and "hk_priority new = narrow priority"
  shows "sorted (map hk_priority (insert_hook priority new hs))"
proof -
  let ?t = "takeWhile (\<lambda>h. hk_priority h \<le> priority) hs"
    and ?d = "dropWhile (\<lambda>h. hk_priority h \<le> priority) hs"
  have "hk_priority h \<le> narrow priority" if "h \<in> set ?t" for h
    using set_takeWhileD [OF that] assms(2,3) by (metis monoD)
  moreover have "narrow priority \<le> hk_priority h" if "h \<in> set ?d" for h
    using dropWhile_greater [OF assms(1) that] set_dropWhileD [OF that] assms(2,3)
    by (metis monoD order_less_imp_le)
  moreover have "sorted (map hk_priority (?t @ ?d))" using assms(1) by simp
  ultimately show ?thesis
    using assms(4) by (fastforce simp: insert_hook_def sorted_append simp del: takeWhile_dropWhile_id)
qed

section \<open>Stacks of arguments and results\<close>

text \<open>
  The elements of a stack. The payload is a union: the tag says which member was written, the
  accessors read a member without looking at the payload.
\<close>

datatype cflare_hookstack_type =
  HOOKSTACK_INTEGER | HOOKSTACK_NUMBER | HOOKSTACK_STRING | HOOKSTACK_POINTER | HOOKSTACK_HANDLE

datatype 'f hookstack_data =
    Data_integer int
  | Data_number 'f
  | Data_string string
  | Data_pointer ptr string

record 'f cflare_hookstack_elm =
  elm_type :: cflare_hookstack_type
  elm_data :: "'f hookstack_data"
  elm_deleter :: ptr
  elm_deleter_context :: ptr

type_synonym 'f cflare_hookstack = "'f cflare_hookstack_elm cflare_linkedlist"

definition free_element_ptr :: ptr where "free_element_ptr = Some 13"
definition free_string_ptr :: ptr where "free_string_ptr = Some 14"

definition cflare_hookstack_new :: "'f cflare_hookstack" where
  "cflare_hookstack_new =
     cflare_linkedlist_ondelete (cflare_linkedlist_new 40) free_element_ptr None"

definition free_element :: "'f cflare_hookstack_elm \<Rightarrow> 'f hookstack_data deleter_call list" where
  "free_element elm = call_deleter (elm_deleter elm) (elm_deleter_context elm) (elm_data elm)"

definition cflare_hookstack_delete ::
  "'f cflare_hookstack option \<Rightarrow> 'f hookstack_data deleter_call list res" where
  "cflare_hookstack_delete stack = (case stack of
       None \<Rightarrow> Inr []
     | Some l \<Rightarrow> bindE (cflare_linkedlist_delete l) (\<lambda>calls.
         Inr (concat (map (\<lambda>(f, ctx, elm). free_element elm) calls))))"

definition cflare_hookstack_type_tostring :: "cflare_hookstack_type \<Rightarrow> string" where
  "cflare_hookstack_type_tostring input = (case input of
       HOOKSTACK_INTEGER \<Rightarrow> ''integer'' | HOOKSTACK_NUMBER \<Rightarrow> ''number''
     | HOOKSTACK_STRING \<Rightarrow> ''string'' | HOOKSTACK_POINTER \<Rightarrow> ''pointer''
     | HOOKSTACK_HANDLE \<Rightarrow> ''handle'')"

text \<open>Every push inserts a blank element at the end and fills in its fields.\<close>

definition push_elm ::
  "'f cflare_hookstack option \<Rightarrow> 'f cflare_hookstack_elm \<Rightarrow> 'f cflare_hookstack_elm
   \<Rightarrow> 'f cflare_hookstack option res" where
  "push_elm stack junk elm = (case stack of
       None \<Rightarrow> Inr None
     | Some l \<Rightarrow> bindE (cflare_linkedlist_insert_last l junk) (\<lambda>(l', a).
         bindE (ll_write l' a elm) (\<lambda>l''. Inr (Some l''))))"

definition cflare_hookstack_push_integer ::
  "'f cflare_hookstack_elm \<Rightarrow> 'f cflare_hookstack option \<Rightarrow> int \<Rightarrow> 'f cflare_hookstack option res" where
  "cflare_hookstack_push_integer junk stack value = push_elm stack junk
     \<lparr>elm_type = HOOKSTACK_INTEGER, elm_data = Data_integer value,
      elm_deleter = None, elm_deleter_context = None\<rparr>"

definition cflare_hookstack_push_number ::
  "'f cflare_hookstack_elm \<Rightarrow> 'f cflare_hookstack option \<Rightarrow> 'f \<Rightarrow> 'f cflare_hookstack option res" where
  "cflare_hookstack_push_number junk stack value = push_elm stack junk
     \<lparr>elm_type = HOOKSTACK_NUMBER, elm_data = Data_number value,
      elm_deleter = None, elm_deleter_context = None\<rparr>"

definition cflare_hookstack_push_string ::
  "'f cflare_hookstack_elm \<Rightarrow> 'f cflare_hookstack option \<Rightarrow> string \<Rightarrow> 'f cflare_hookstack option res" where
  "cflare_hookstack_push_string junk stack value = push_elm stack junk
     \<lparr>elm_type = HOOKSTACK_STRING, elm_data = Data_string value,
      elm_deleter = free_string_ptr, elm_deleter_context = None\<rparr>"

definition cflare_hookstack_push_pointer ::
  "'f cflare_hookstack_elm \<Rightarrow> 'f cflare_hookstack option \<Rightarrow> string \<Rightarrow> ptr \<Rightarrow> ptr \<Rightarrow> ptr
   \<Rightarrow> 'f cflare_hookstack option res" where
  "cflare_hookstack_push_pointer junk stack type p deleter context = push_elm stack junk
     \<lparr>elm_type = HOOKSTACK_POINTER, elm_data = Data_pointer p type,
      elm_deleter = deleter, elm_deleter_context = context\<rparr>"

text \<open>
  \<open>get_elm\<close>: \<open>index + 1\<close> steps forwards for an index that is not negative, \<open>- index + 1\<close> steps
  backwards for a negative one; no element (or one of another type) gives the null pointer.
\<close>

fun step_iterator ::
  "bool \<Rightarrow> nat \<Rightarrow> 'a cflare_linkedlist \<Rightarrow> cflare_linkedlist_iterator
   \<Rightarrow> cflare_linkedlist_iterator option res" where
  "step_iterator fwd 0 l it = Inr (Some it)"
| "step_iterator fwd (Suc n) l it =
     bindE (if fwd then cflare_linkedlist_iterator_next l it else cflare_linkedlist_iterator_prev l it)
       (\<lambda>r. case r of
         (it', None) \<Rightarrow> Inr None
       | (it', Some a) \<Rightarrow> step_iterator fwd n l it')"

definition get_elm ::
  "'f cflare_hookstack option \<Rightarrow> int \<Rightarrow> cflare_hookstack_type \<Rightarrow> 'f cflare_hookstack_elm option res" where
  "get_elm stack index type = (case stack of
       None \<Rightarrow> Inr None
     | Some l \<Rightarrow>
         bindE (if index \<ge> 0 then step_iterator True (nat (index + 1)) l cflare_linkedlist_get_iterator
                else step_iterator False (nat (1 - index)) l cflare_linkedlist_get_iterator) (\<lambda>r.
         case r of
           None \<Rightarrow> Inr None
         | Some iter \<Rightarrow> bindE (derefE (it_value iter) Null_deref) (\<lambda>a.
             bindE (ll_read l a) (\<lambda>ret.
               if elm_type ret \<noteq> type then Inr None else Inr (Some ret)))))"

definition cflare_hookstack_get_integer ::
  "'f cflare_hookstack option \<Rightarrow> int \<Rightarrow> 'f hookstack_data option res" where
  "cflare_hookstack_get_integer stack index =
     bindE (get_elm stack index HOOKSTACK_INTEGER) (\<lambda>elm. Inr (map_option elm_data elm))"

definition cflare_hookstack_get_number ::
  "'f cflare_hookstack option \<Rightarrow> int \<Rightarrow> 'f hookstack_data option res" where
  "cflare_hookstack_get_number stack index =
     bindE (get_elm stack index HOOKSTACK_NUMBER) (\<lambda>elm. Inr (map_option elm_data elm))"

definition cflare_hookstack_get_string ::
  "'f cflare_hookstack option \<Rightarrow> int \<Rightarrow> 'f hookstack_data option res" where
  "cflare_hookstack_get_string stack index =
     bindE (get_elm stack index HOOKSTACK_NUMBER) (\<lambda>elm. Inr (map_option elm_data elm))"

definition cflare_hookstack_get_pointer ::
  "'f cflare_hookstack option \<Rightarrow> int \<Rightarrow> string \<Rightarrow> ptr option res" where
  "cflare_hookstack_get_pointer stack index type =
     bindE (get_elm stack index HOOKSTACK_POINTER) (\<lambda>elm. case elm of
         None \<Rightarrow> Inr None
       | Some e \<Rightarrow> (case elm_data e of
             Data_pointer p t \<Rightarrow> Inr (if type \<noteq> t then None else Some p)
           | _ \<Rightarrow> Inl Dangling))"

section \<open>What the stacks hold\<close>

lemma step_forwards:
  assumes "ll_chain l (as @ bs)" and "it_rest l it bs"
  shows "\<exists>r. step_iterator True (Suc n) l it = Inr r \<and>
    (if n < length bs then \<exists>it'. r = Some it' \<and> it_value it' = Some (bs ! n) else r = None)"
  using assms
proof (induction n arbitrary: as bs it)
  case 0
  then show ?case
    by (cases bs) (auto dest!: iterator_next_end dest: iterator_next_step)
next
  case (Suc n)
  show ?case
  proof (cases bs)
    case Nil
    with Suc.prems show ?thesis by (auto dest!: iterator_next_end)
  next
    case (Cons b cs)
    with Suc.prems obtain it' where step: "cflare_linkedlist_iterator_next l it = Inr (it', Some b)"
        "it_rest l it' cs"
      by (blast dest: iterator_next_step)
    with Suc.IH [of "as @ [b]" cs it'] Suc.prems Cons show ?thesis by auto
  qed
qed

lemma step_backwards:
  assumes "ll_chain l (bs @ as)" and "it_back l it bs"
  shows "\<exists>r. step_iterator False (Suc n) l it = Inr r \<and>
    (if n < length bs then \<exists>it'. r = Some it' \<and> it_value it' = Some (rev bs ! n) else r = None)"
  using assms
proof (induction n arbitrary: as bs it)
  case 0
  then show ?case
    by (cases bs rule: rev_cases) (auto dest!: iterator_prev_end dest: iterator_prev_step)
next
  case (Suc n)
  show ?case
  proof (cases bs rule: rev_cases)
    case Nil
    with Suc.prems show ?thesis by (auto dest!: iterator_prev_end)
  next
    case (snoc cs b)
    with Suc.prems obtain it' where step: "cflare_linkedlist_iterator_prev l it = Inr (it', Some b)"
        "it_back l it' cs"
      using iterator_prev_step [of l cs b as it] by auto
    with Suc.IH [of cs "b # as" it'] Suc.prems snoc show ?thesis by auto
  qed
qed

text \<open>The element an index selects: from the front, or from the back where it is negative.\<close>

definition nth_elm :: "'f cflare_hookstack_elm list \<Rightarrow> int \<Rightarrow> 'f cflare_hookstack_elm option" where
  "nth_elm es index =
     (let xs = (if index \<ge> 0 then es else rev es); i = nat \<bar>index\<bar>
      in if i < length xs then Some (xs ! i) else None)"

lemma get_elm_nth:
  assumes "ll_wf l"
  shows "get_elm (Some l) index type = Inr (case nth_elm (ll_contents l) index of
      None \<Rightarrow> None | Some e \<Rightarrow> if elm_type e = type then Some e else None)"
proof -
  let ?as = "ll_addrs l"
  from assms have chain: "ll_chain l ([] @ ?as)" "ll_chain l (?as @ [])"
    by (auto simp: ll_wf_def ll_inv_def)
  have read: "ll_read l a = Inr (nd_data (the (ll_nodes l a)))" if "a \<in> set ?as" for a
  proof -
    from split_list [OF that] obtain xs ys where "?as = xs @ a # ys" by blast
    with chain(2) chain_node_at [of l xs a ys] show ?thesis by (simp add: ll_read_def)
  qed
  have c: "ll_contents l = map (\<lambda>a. nd_data (the (ll_nodes l a))) ?as"
    by (simp add: ll_contents_def vals_def)
  show ?thesis
  proof (cases "index \<ge> 0")
    case True
    then have n: "nat (index + 1) = Suc (nat index)" by simp
    from step_forwards [OF chain(1) it_rest_start [OF chain(1), simplified], of "nat index"] True n
    show ?thesis by (auto simp: get_elm_def nth_elm_def c read split: if_splits)
  next
    case False
    then have n: "nat (1 - index) = Suc (nat \<bar>index\<bar>)" by simp
    from step_backwards [OF chain(2) it_back_start [OF chain(2), simplified], of "nat \<bar>index\<bar>"] False n
    moreover have "rev ?as ! i \<in> set ?as" if "i < length ?as" for i
      using that by (metis length_rev nth_mem set_rev)
    ultimately show ?thesis by (auto simp: get_elm_def nth_elm_def c read rev_map split: if_splits)
  qed
qed

lemma push_elm_ok:
  assumes "ll_wf l"
  shows "\<exists>l'. push_elm (Some l) junk elm = Inr (Some l') \<and> ll_wf l' \<and>
    ll_contents l' = ll_contents l @ [elm] \<and> ll_conf l' = ll_conf l"
  using ll.push_fill [OF assms, of junk elm] by (auto simp: push_elm_def)

text \<open>Inserting before the null node and filling the new node in: it is all that is left.\<close>

lemma insert_null_write:
  assumes "ll_wf l"
  shows "\<exists>l1 a l2. cflare_linkedlist_insert_before l None junk = Inr (l1, a) \<and> ll_write l1 a new = Inr l2 \<and>
    ll_contents l2 = [new]"
proof -
  let ?f = "ll_fresh l"
  let ?l = "\<lambda>x. l\<lparr>ll_nodes := (ll_nodes l)(?f \<mapsto> \<lparr>nd_data = x, nd_next = None, nd_prev = None\<rparr>),
     ll_fresh := Suc ?f, ll_first := Some ?f, ll_last := Some ?f, ll_count := ll_count l + 1\<rparr>"
  have "cflare_linkedlist_insert_before l None junk = Inr (?l junk, ?f)"
    by (simp add: cflare_linkedlist_insert_before_def insert_between_def ll_defs)
  moreover have "ll_write (?l junk) ?f new = Inr (?l new)" by (simp add: ll_write_def ll_defs)
  moreover have "ll_chain (?l new) [?f]"
    using assms by (auto simp: ll_wf_def ll_inv_def ll_chain_def intro: less_SucI)
  then have "ll_contents (?l new) = [new]" by (simp add: ll_contents_def chain_addrs)
  ultimately show ?thesis by blast
qed

text \<open>The first hook of an event.\<close>

lemma add_first_hook:
  assumes "hook_inv st" and "hooks_of st name = []"
  shows "\<exists>st'. cflare_hook_add narrow junk st name ident priority func context = Inr st' \<and> hook_inv st' \<and>
    hooks_of st' name =
      [\<lparr>hk_id = ident, hk_priority = narrow priority, hk_context = context, hk_func = func\<rparr>]"
proof -
  let ?new = "\<lparr>hk_id = ident, hk_priority = narrow priority, hk_context = context, hk_func = func\<rparr>"
  from hook_add_list [OF assms(1), of name ident] obtain st1 tbl l where
    st1: "hook_inv st1" "ht_map (hs_tables st1) (cflare_hash_compute name) = Some tbl" "ll_wf l"
      "ll_conf l = (free_hook_ptr, None)" "ll_contents l = []"
    and add: "cflare_hook_add narrow junk st name ident priority func context =
      bindE (ll_seek (\<lambda>val. hk_priority val > priority) l) (\<lambda>iter.
      bindE (cflare_linkedlist_insert_before l (it_value iter) junk) (\<lambda>(l', new_tbl).
      bindE (ll_write l' new_tbl ?new) (\<lambda>l''. Inr (set_list st1 tbl l''))))"
    using assms(2) by (metis filter.simps(1))
  from insert_before_seek [OF st1(3), of priority junk ?new] st1(5) obtain l2 where
    l2: "cflare_hook_add narrow junk st name ident priority func context = Inr (set_list st1 tbl l2)"
      "ll_wf l2" "ll_contents l2 = [?new]" "ll_conf l2 = ll_conf l"
    unfolding add by (auto simp: insert_hook_def)
  then show ?thesis
    using set_list_hooks [OF st1(1,2), of l2 name] set_list_inv [OF st1(1) l2(2)] st1(4) by simp
qed

section \<open>Properties\<close>

text \<open>The system without hooks, for the witnesses; a priority is an integer here.\<close>

definition blank_hook :: "int hook" where
  "blank_hook = \<lparr>hk_id = [], hk_priority = 0, hk_context = None, hk_func = 0\<rparr>"

definition no_hooks :: "int hook_state" where
  "no_hooks = \<lparr>hs_loaded = True, hs_tables = cflare_hashtable_ondelete cflare_hashtable_new free_hooktable_ptr None,
     hs_lists = Map.empty, hs_fresh = 0\<rparr>"

lemma no_hooks_inv: "hook_inv no_hooks" "hooks_of no_hooks name = []"
  by (simp_all add: hook_inv_def no_hooks_def hooks_of_def)

text \<open>
  C24: Where some hook of the event comes later, or there is none, adding a hook drops the hooks of the
  event with its id, puts it after all hooks of the same or a lower priority and before those of a
  higher one, leaves the hooks of every other event as they were, and keeps the system well formed;
  if the hooks were in order of priority they still are, however the priority was rounded.
\<close>

theorem hook_add_in_order:
  assumes "hook_inv st"
    and "hs = filter (\<lambda>h. hk_id h \<noteq> ident) (hooks_of st name)"
    and "hs = [] \<or> (\<exists>h \<in> set hs. hk_priority h > priority)"
    and "new = \<lparr>hk_id = ident, hk_priority = narrow priority, hk_context = context, hk_func = func\<rparr>"
  shows "\<exists>st'. cflare_hook_add narrow junk st name ident priority func context = Inr st' \<and>
    hook_inv st' \<and> hooks_of st' name = insert_hook priority new hs \<and>
    (\<forall>name'. name' \<noteq> name \<longrightarrow> hooks_of st' name' = hooks_of st name') \<and>
    (sorted (map hk_priority hs) \<and> mono narrow \<and> (\<forall>h \<in> set hs. narrow (hk_priority h) = hk_priority h)
       \<longrightarrow> sorted (map hk_priority (hooks_of st' name)))"
proof -
  obtain st1 tbl l where st1: "hook_inv st1" "ht_map (hs_tables st1) (cflare_hash_compute name) = Some tbl"
    "ll_wf l" "ll_conf l = (free_hook_ptr, None)" "ll_contents l = hs"
    "\<And>name'. name' \<noteq> name \<Longrightarrow> hooks_of st1 name' = hooks_of st name'"
    and add: "cflare_hook_add narrow junk st name ident priority func context =
      bindE (ll_seek (\<lambda>val. hk_priority val > priority) l) (\<lambda>iter.
      bindE (cflare_linkedlist_insert_before l (it_value iter) junk) (\<lambda>(l', new_tbl).
      bindE (ll_write l' new_tbl new) (\<lambda>l''. Inr (set_list st1 tbl l''))))"
    using hook_add_list [OF assms(1), of name ident] assms(2,4) by metis
  from insert_before_seek [OF st1(3), of priority junk new] assms(3) st1(5) obtain l2 where
    l2: "cflare_hook_add narrow junk st name ident priority func context = Inr (set_list st1 tbl l2)"
      "ll_wf l2" "ll_contents l2 = insert_hook priority new hs" "ll_conf l2 = ll_conf l"
    unfolding add by auto
  have "hook_inv (set_list st1 tbl l2)" using set_list_inv [OF st1(1) l2(2)] l2(4) st1(4) by simp
  then show ?thesis
    using l2 set_list_hooks [OF st1(1,2), of l2] st1(6) assms(4)
    by (auto intro!: insert_hook_sorted [where narrow = narrow])
qed

lemma hook_add_in_order_witness:
  "\<exists>st1 st2. cflare_hook_add (\<lambda>p. p) blank_hook no_hooks ''Log'' ''a'' 10 1 None = Inr st1 \<and>
    cflare_hook_add (\<lambda>p. p) blank_hook st1 ''Log'' ''b'' 5 2 None = Inr st2 \<and>
    map hk_id (hooks_of st2 ''Log'') = [''b'', ''a'']"
proof -
  let ?a = "\<lparr>hk_id = ''a'', hk_priority = 10 :: int, hk_context = None, hk_func = 1\<rparr>"
  from hook_add_in_order [OF no_hooks_inv(1), of "[]" "''a''" "''Log''" 10 ?a "\<lambda>p. p" None 1 blank_hook]
  obtain st1 where st1: "cflare_hook_add (\<lambda>p. p) blank_hook no_hooks ''Log'' ''a'' 10 1 None = Inr st1"
    "hook_inv st1" "hooks_of st1 ''Log'' = [?a]" by (auto simp: no_hooks_inv insert_hook_def)
  from hook_add_in_order [OF st1(2), of "[?a]" "''b''" "''Log''" 5 _ "\<lambda>p. p" None 2 blank_hook] st1(1,3)
  show ?thesis by (auto simp: insert_hook_def)
qed

text \<open>
  Where every hook of the event has the same or a lower priority, adding one loses them all: the
  search ends at no node, the new hook is inserted before the null node, and the event has the new
  hook alone.
\<close>

theorem hook_add_loses_hooks:
  assumes "hook_inv st"
    and "filter (\<lambda>h. hk_id h \<noteq> ident) (hooks_of st name) \<noteq> []"
    and "\<forall>h \<in> set (hooks_of st name). hk_priority h \<le> priority"
  shows "\<exists>st' new. cflare_hook_add narrow junk st name ident priority func context = Inr st' \<and>
    hk_id new = ident \<and> hooks_of st' name = [new]"
proof -
  let ?new = "\<lparr>hk_id = ident, hk_priority = narrow priority, hk_context = context, hk_func = func\<rparr>"
  from hook_add_list [OF assms(1), of name ident] obtain st1 tbl l where
    st1: "hook_inv st1" "ht_map (hs_tables st1) (cflare_hash_compute name) = Some tbl" "ll_wf l"
      "ll_contents l = filter (\<lambda>h. hk_id h \<noteq> ident) (hooks_of st name)"
    and add: "cflare_hook_add narrow junk st name ident priority func context =
      bindE (ll_seek (\<lambda>val. hk_priority val > priority) l) (\<lambda>iter.
      bindE (cflare_linkedlist_insert_before l (it_value iter) junk) (\<lambda>(l', new_tbl).
      bindE (ll_write l' new_tbl ?new) (\<lambda>l''. Inr (set_list st1 tbl l''))))"
    by metis
  from ll.seek_first [OF st1(3), of "\<lambda>val. hk_priority val > priority"] obtain iter where
    it: "ll_seek (\<lambda>val. hk_priority val > priority) l = Inr iter"
      "case it_value iter of None \<Rightarrow> True
       | Some a \<Rightarrow> \<exists>xs x ys. ll_cursor l a xs x ys \<and> hk_priority x > priority"
    by (fastforce split: option.splits)
  have "it_value iter = None"
  proof (rule ccontr)
    assume "it_value iter \<noteq> None"
    then obtain a xs x ys where "ll_cursor l a xs x ys" "hk_priority x > priority"
      using it(2) by auto
    with ll.cursor_contents st1(4) assms(3) show False
      by (metis filter_is_subset in_set_conv_decomp linorder_not_le subsetD)
  qed
  with it(1) insert_null_write [OF st1(3), of junk ?new] obtain l2 where
    "cflare_hook_add narrow junk st name ident priority func context = Inr (set_list st1 tbl l2)"
    "ll_contents l2 = [?new]" unfolding add by auto
  with set_list_hooks [OF st1(1,2), of l2 name] show ?thesis by (intro exI [of _ "set_list st1 tbl l2"]) auto
qed

lemma hook_add_loses_hooks_witness:
  "\<exists>st1 st2 new. cflare_hook_add (\<lambda>p. p) blank_hook no_hooks ''Log'' ''a'' 0 1 None = Inr st1 \<and>
    cflare_hook_add (\<lambda>p. p) blank_hook st1 ''Log'' ''b'' 0 2 None = Inr st2 \<and>
    hk_id new = ''b'' \<and> hooks_of st2 ''Log'' = [new]"
proof -
  let ?a = "\<lparr>hk_id = ''a'', hk_priority = 0 :: int, hk_context = None, hk_func = 1\<rparr>"
  let ?p = "\<lambda>p :: int. p"
  obtain st1 where st1: "cflare_hook_add ?p blank_hook no_hooks ''Log'' ''a'' 0 1 None = Inr st1"
    "hook_inv st1" "hooks_of st1 ''Log'' = [?a]"
    using add_first_hook [OF no_hooks_inv, of ?p blank_hook "''Log''" "''a''" 0 1 None] by auto
  from hook_add_loses_hooks [OF st1(2), of "''b''" "''Log''" 0 ?p blank_hook 2 None] st1(1,3)
  show ?thesis by auto
qed

text \<open>
  Removing a hook from an event removes the hooks with that id and no other, keeps the order of
  the rest, and does not touch other events.
\<close>

theorem hook_remove_exact:
  assumes "hook_inv st"
  shows "\<exists>st'. cflare_hook_remove st name ident = Inr st' \<and> hook_inv st' \<and>
    hooks_of st' name = filter (\<lambda>h. hk_id h \<noteq> ident) (hooks_of st name) \<and>
    (\<forall>name'. name' \<noteq> name \<longrightarrow> hooks_of st' name' = hooks_of st name')"
  using hook_remove_ok [OF assms, of name ident] by auto

lemma hook_remove_exact_witness:
  "\<exists>st. cflare_hook_remove no_hooks ''Log'' ''a'' = Inr st \<and> hook_inv st \<and> hooks_of st ''Log'' = []"
  using hook_remove_exact [OF no_hooks_inv(1), of "''Log''" "''a''"] by (auto simp: no_hooks_inv)

lemma hook_call_ok:
  assumes "hook_inv st \<or> \<not> hs_loaded st"
  shows "cflare_hook_call run st name args returns =
    Inr (run_hooks run args (if hs_loaded st then hooks_of st name else []) returns)"
proof (cases "hs_loaded st")
  case False
  then show ?thesis by (simp add: cflare_hook_call_def)
next
  case True
  with assms have inv: "hook_inv st" by simp
  show ?thesis
  proof (cases "ht_map (hs_tables st) (cflare_hash_compute name)")
    case None
    with True inv show ?thesis by (simp add: cflare_hook_call_def hook_inv_get hooks_of_def)
  next
    case (Some tbl)
    from hook_inv_table [OF inv Some] obtain l where
      "hs_lists st (tbl_funcs tbl) = Some l" "ll_wf l" "hooks_of st name = ll_contents l" by blast
    with True inv Some hook_call_list [of l run args returns] show ?thesis
      by (simp add: cflare_hook_call_def hook_inv_get del: hook_call_loop.simps)
  qed
qed

text \<open>
  Calling an event runs its hooks in the order of the list, hands the result stack from each to the
  next, and stops with \<open>true\<close> after the first that returns \<open>true\<close>; before the system is loaded it
  runs none and returns \<open>false\<close>.
\<close>

theorem hook_call_in_order:
  assumes "hook_inv st \<or> \<not> hs_loaded st"
  shows "cflare_hook_call run st name args returns =
    Inr (run_hooks run args (if hs_loaded st then hooks_of st name else []) returns)"
  using assms by (rule hook_call_ok)

lemma hook_call_in_order_witness:
  "\<exists>st. cflare_hook_add (\<lambda>p. p) blank_hook no_hooks ''Log'' ''a'' 0 1 None = Inr st \<and>
    cflare_hook_call (\<lambda>f args rets ctx. (rets @ [f], True)) st ''Log'' [] [] = Inr ([1], True)"
proof -
  from add_first_hook [OF no_hooks_inv, of "\<lambda>p. p" blank_hook "''Log''" "''a''" 0 1 None] obtain st where
    st: "cflare_hook_add (\<lambda>p. p) blank_hook no_hooks ''Log'' ''a'' 0 1 None = Inr st" "hook_inv st"
    "hooks_of st ''Log'' = [\<lparr>hk_id = ''a'', hk_priority = 0, hk_context = None, hk_func = 1\<rparr>]" by auto
  from hook_call_in_order [OF disjI1 [OF st(2)], of "\<lambda>f args rets ctx. (rets @ [f], True)" "''Log''" "[]" "[]"]
  show ?thesis using st by (auto simp: hook_inv_def)
qed

text \<open>
  What a stack returns. An index of 0 or more selects from the front, a negative one from the
  back, where \<open>-1\<close> is the element before the last; an integer comes back only where one was
  pushed. A pushed string is never returned as one: the accessor asks for the tag of numbers.
\<close>

theorem hookstack_get:
  assumes "ll_wf l"
  shows "cflare_hookstack_get_integer (Some l) index = Inr (case nth_elm (ll_contents l) index of
      None \<Rightarrow> None | Some e \<Rightarrow> if elm_type e = HOOKSTACK_INTEGER then Some (elm_data e) else None) \<and>
    cflare_hookstack_get_string (Some l) index = Inr (case nth_elm (ll_contents l) index of
      None \<Rightarrow> None | Some e \<Rightarrow> if elm_type e = HOOKSTACK_NUMBER then Some (elm_data e) else None) \<and>
    (\<exists>l'. cflare_hookstack_push_string junk (Some l) s = Inr (Some l') \<and> ll_wf l' \<and>
       cflare_hookstack_get_string (Some l') (int (length (ll_contents l))) = Inr None)"
proof (intro conjI)
  show "cflare_hookstack_get_integer (Some l) index = Inr (case nth_elm (ll_contents l) index of
      None \<Rightarrow> None | Some e \<Rightarrow> if elm_type e = HOOKSTACK_INTEGER then Some (elm_data e) else None)"
    by (simp add: cflare_hookstack_get_integer_def get_elm_nth [OF assms] split: option.split)
  show "cflare_hookstack_get_string (Some l) index = Inr (case nth_elm (ll_contents l) index of
      None \<Rightarrow> None | Some e \<Rightarrow> if elm_type e = HOOKSTACK_NUMBER then Some (elm_data e) else None)"
    by (simp add: cflare_hookstack_get_string_def get_elm_nth [OF assms] split: option.split)
  show "\<exists>l'. cflare_hookstack_push_string junk (Some l) s = Inr (Some l') \<and> ll_wf l' \<and>
       cflare_hookstack_get_string (Some l') (int (length (ll_contents l))) = Inr None"
    using push_elm_ok [OF assms, of junk]
    by (fastforce simp: cflare_hookstack_push_string_def cflare_hookstack_get_string_def get_elm_nth
        nth_elm_def)
qed

lemma hookstack_get_witness:
  "\<exists>l'. cflare_hookstack_push_string
      (\<lparr>elm_type = HOOKSTACK_INTEGER, elm_data = Data_integer 0, elm_deleter = None,
        elm_deleter_context = None\<rparr> :: int cflare_hookstack_elm) (Some cflare_hookstack_new) ''x'' =
      Inr (Some l') \<and> cflare_hookstack_get_string (Some l') 0 = Inr None"
  using hookstack_get [of cflare_hookstack_new] by (fastforce simp: cflare_hookstack_new_def)

end
