(* ===== verification/Response.thy ===== *)
theory Response
  imports Socket Headers HttpStatus Hook Util
begin

text \<open>
  The state of a request and its response, and the response half of \<open>src/cflare/request.c\<close>: collecting
  headers in the response's buffer, sending the status line, the headers and the data, and the short
  answers to requests that cannot be parsed.

  A request points into its own buffer of 4096 bytes: such a pointer is an offset, \<open>None\<close> where it is
  null. The response is part of the request, as in the code. What a request needs of the other
  components is a \<open>server\<close>: the header table and the seven headers it knows by name, the status names
  and the hooks; the rest of it is what the surroundings give (the date, the two pointers handed to
  the hooks, the contents of fresh stack elements, the address of the buffer). A hook that handles a
  request is a function of all of this, so the state of the sockets is passed through it.
\<close>

section \<open>State\<close>

definition CFLARE_REQUEST_MAX_LENGTH :: nat where "CFLARE_REQUEST_MAX_LENGTH = 4096"
definition CFLARE_REQUEST_MAX_HEADERS :: nat where "CFLARE_REQUEST_MAX_HEADERS = 32"
definition CFLARE_RESPONSE_MAX_LENGTH :: nat where "CFLARE_RESPONSE_MAX_LENGTH = 4096"

record cflare_response =
  rs_status_code :: "32 word"
  rs_sent :: bool
  rs_keepalive :: bool
  rs_buffer_pos :: nat
  rs_buffer :: string

record cflare_request_header =
  rh_header :: cflare_header
  rh_value :: nat
  rh_value_len :: nat

record cflare_request =
  rq_buffer :: string
  rq_buffer_freespace :: nat
  rq_buffer_position :: nat
  rq_buffer_unread :: nat
  rq_method :: "nat option"
  rq_method_len :: nat
  rq_path :: "nat option"
  rq_path_len :: nat
  rq_query :: "nat option"
  rq_query_len :: nat
  rq_version :: "nat option"
  rq_version_len :: nat
  rq_ip :: "string option"
  rq_port :: "16 word"
  rq_headers :: "cflare_request_header list"
  rq_host :: "nat option"
  rq_host_len :: nat
  rq_content_length_unread :: nat
  rq_content_length :: nat
  rq_content_type :: "nat option"
  rq_keepalive :: bool
  rq_response :: cflare_response

record ('p, 'f) server =
  sv_headers :: headers_state
  sv_common :: "cflare_header list"
  sv_statuses :: status_cache
  sv_hooks :: "'p hook_state"
  sv_date :: string
  sv_request_ptr :: ptr
  sv_response_ptr :: ptr
  sv_junk :: "'f cflare_hookstack_elm"
  sv_base :: nat

text \<open>The members of \<open>struct cflare_headers\<close> in the order they are loaded.\<close>

definition hdr_host :: "('p, 'f) server \<Rightarrow> cflare_header" where "hdr_host sv = sv_common sv ! 0"
definition hdr_content_type :: "('p, 'f) server \<Rightarrow> cflare_header" where "hdr_content_type sv = sv_common sv ! 1"
definition hdr_content_length :: "('p, 'f) server \<Rightarrow> cflare_header" where "hdr_content_length sv = sv_common sv ! 2"
definition hdr_connection :: "('p, 'f) server \<Rightarrow> cflare_header" where "hdr_connection sv = sv_common sv ! 3"
definition hdr_server :: "('p, 'f) server \<Rightarrow> cflare_header" where "hdr_server sv = sv_common sv ! 5"
definition hdr_date :: "('p, 'f) server \<Rightarrow> cflare_header" where "hdr_date sv = sv_common sv ! 6"

text \<open>Subtraction of \<open>size_t\<close>.\<close>

definition sub64 :: "nat \<Rightarrow> nat \<Rightarrow> nat" where
  "sub64 a b = (if b \<le> a then a - b else a + 2 ^ 64 - b)"

lemma sub64_le [simp]: "b \<le> a \<Longrightarrow> sub64 a b = a - b"
  by (simp add: sub64_def)

section \<open>The response\<close>

definition cflare_response_new :: "string \<Rightarrow> bool \<Rightarrow> bool \<Rightarrow> cflare_response" where
  "cflare_response_new junk sent keepalive =
     \<lparr>rs_status_code = 0, rs_sent = sent, rs_keepalive = keepalive, rs_buffer_pos = 0, rs_buffer = junk\<rparr>"

definition cflare_response_init :: "cflare_response \<Rightarrow> cflare_response" where
  "cflare_response_init r = r\<lparr>rs_status_code := 0, rs_buffer_pos := 0, rs_sent := False\<rparr>"

definition cflare_response_status :: "cflare_response \<Rightarrow> 32 word \<Rightarrow> cflare_response" where
  "cflare_response_status res status = res\<lparr>rs_status_code := status\<rparr>"

definition cflare_response_cookie :: "cflare_response \<Rightarrow> cflare_response res" where
  "cflare_response_cookie res = Inl (Fatal ''cflare_response_cookie(): not implemented'')"

definition cflare_response_keepalive :: "cflare_response \<Rightarrow> bool \<Rightarrow> cflare_response" where
  "cflare_response_keepalive res keepalive = res\<lparr>rs_keepalive := keepalive\<rparr>"

text \<open>A header that does not fit is reported and left out.\<close>

definition cflare_response_header :: "cflare_response \<Rightarrow> cflare_header \<Rightarrow> string \<Rightarrow> cflare_response res" where
  "cflare_response_header res hdr val =
     bindE (derefE (hdr_name hdr) Null_deref) (\<lambda>key.
       let req = length key + length val + 3
       in if req > sub64 (sub64 CFLARE_RESPONSE_MAX_LENGTH (rs_buffer_pos res)) 1 then Inr res
          else bindE (memcpy_at (rs_buffer res) (rs_buffer_pos res) (key @ '': '' @ val @ [LF])) (\<lambda>buffer.
            Inr (res\<lparr>rs_buffer := buffer, rs_buffer_pos := rs_buffer_pos res + req\<rparr>)))"

text \<open>
  \<open>snprintf\<close> into the 128 bytes of \<open>status\<close> writes at most 127 characters and a terminator, and
  answers the length the whole line would have; that many bytes of \<open>status\<close> are sent.
\<close>

definition status_line :: "('p, 'f) server \<Rightarrow> 32 word \<Rightarrow> string res" where
  "status_line sv code =
     bindE (cflare_httpstatus_tostring (sv_statuses sv) code) (\<lambda>found.
       let status_string = (case found of None \<Rightarrow> ''Unknown'' | Some s \<Rightarrow> s);
           line = ''HTTP/1.1 '' @ decimal (unat code) @ '' '' @ status_string @ [LF]
       in bindE (assertE (length line \<le> 128) Out_of_bounds) (\<lambda>_.
            Inr (if length line < 128 then line else take 127 line @ [NUL])))"

definition send_headers ::
  "('p, 'f) server \<Rightarrow> cflare_request \<Rightarrow> cflare_socket \<Rightarrow> net
   \<Rightarrow> (cflare_request \<times> cflare_socket \<times> net \<times> bool) res" where
  "send_headers sv req sk n =
     (let res = rq_response req in
      if rs_sent res then Inr (req, sk, n, False)
      else let keepalive = (rq_keepalive req \<and> rs_keepalive res \<and> rq_content_length_unread req = 0) in
        bindE (cflare_response_header (res\<lparr>rs_keepalive := keepalive\<rparr>) (hdr_server sv) ''cflare'') (\<lambda>res1.
        bindE (cflare_response_header res1 (hdr_date sv) (sv_date sv)) (\<lambda>res2.
        bindE (cflare_response_header res2 (hdr_connection sv)
                 (if keepalive then ''keep-alive'' else ''close'')) (\<lambda>res3.
        bindE (status_line sv (rs_status_code res3)) (\<lambda>status.
        bindE (cflare_socket_write sk n status) (\<lambda>(sk1, n1, ok).
          if \<not> ok then Inr (req\<lparr>rq_response := res3\<lparr>rs_sent := True\<rparr>\<rparr>, sk1, n1, False)
          else bindE (write_at (rs_buffer res3) (rs_buffer_pos res3) LF) (\<lambda>buffer.
               bindE (cflare_socket_write sk1 n1 (take (rs_buffer_pos res3 + 1) buffer)) (\<lambda>(sk2, n2, ok2).
                 Inr (req\<lparr>rq_response := res3\<lparr>rs_sent := True, rs_buffer := buffer,
                                               rs_buffer_pos := rs_buffer_pos res3 + 1\<rparr>\<rparr>,
                      sk2, n2, ok2)))))))))"

definition cflare_response_data ::
  "('p, 'f) server \<Rightarrow> cflare_request \<Rightarrow> cflare_socket \<Rightarrow> net \<Rightarrow> string
   \<Rightarrow> (cflare_request \<times> cflare_socket \<times> net \<times> bool) res" where
  "cflare_response_data sv req sk n buffer =
     bindE (cflare_response_header (rq_response req) (hdr_content_length sv) (decimal (length buffer))) (\<lambda>res.
     bindE (send_headers sv (req\<lparr>rq_response := res\<rparr>) sk n) (\<lambda>(req1, sk1, n1, ok).
       if \<not> ok then Inr (req1, sk1, n1, False)
       else bindE (cflare_socket_write sk1 n1 buffer) (\<lambda>(sk2, n2, ok2). Inr (req1, sk2, n2, ok2))))"

definition cflare_response_file :: "cflare_response \<Rightarrow> string \<Rightarrow> bool" where
  "cflare_response_file res path = False"

text \<open>
  The short answers. Printing a status without a name with \<open>%s\<close> would dereference the null pointer.
  The message is followed by a newline, which its length counts.
\<close>

definition quick_headers :: "32 word \<Rightarrow> string \<Rightarrow> nat \<Rightarrow> bool \<Rightarrow> string" where
  "quick_headers status status_string msglen keep_alive =
     ''HTTP/1.1 '' @ decimal (unat status) @ '' '' @ status_string @ [LF] @
     ''Content-Length: '' @ decimal (msglen + 1) @ [LF] @
     ''Content-Type: text/plain'' @ [LF] @
     ''Server: cflare'' @ [LF] @
     ''Connection: '' @ (if keep_alive then ''keep-alive'' else ''close'') @ [LF]"

definition quick_response_socket ::
  "('p, 'f) server \<Rightarrow> cflare_socket \<Rightarrow> net \<Rightarrow> 32 word \<Rightarrow> string \<Rightarrow> bool \<Rightarrow> (cflare_socket \<times> net) res" where
  "quick_response_socket sv sk n status message keep_alive =
     bindE (cflare_httpstatus_tostring (sv_statuses sv) status) (\<lambda>found.
     bindE (derefE found Null_deref) (\<lambda>status_string.
     bindE (cflare_socket_write_line sk n (quick_headers status status_string (length message) keep_alive))
       (\<lambda>(sk1, n1, ok1).
     bindE (cflare_socket_write_line sk1 n1 message) (\<lambda>(sk2, n2, ok2).
       Inr (if \<not> keep_alive then cflare_socket_close sk2 n2 else (sk2, n2))))))"

end
