(* ===== verification/Request.thy ===== *)
theory Request
  imports Response
begin

text \<open>
  The requests of \<open>src/cflare/request.c\<close>: reading the head of a request from a socket, parsing it in
  place, handing it to the hooks, and reading its content.

  A step of the parser either goes on, or stops with the request as far as it is parsed and the status and
  message to answer, or faults. \<open>prev_header\<close> is null from its declaration on, so a continuation line is always refused; the
  code behind that test is dead and left out. The clock readings, which nothing uses, are left out.
\<close>

section \<open>Steps of the parser\<close>

type_synonym 'a step = "((cflare_request \<times> 32 word \<times> string) + 'a) res"

definition respond :: "cflare_request \<Rightarrow> 32 word \<Rightarrow> string \<Rightarrow> 'a step" where
  "respond req status message = Inr (Inl (req, status, message))"

definition continue :: "'a \<Rightarrow> 'a step" where
  "continue x = Inr (Inr x)"

definition bindS :: "'a step \<Rightarrow> ('a \<Rightarrow> 'b step) \<Rightarrow> 'b step" where
  "bindS m f = bindE m (\<lambda>r. case r of Inl e \<Rightarrow> Inr (Inl e) | Inr x \<Rightarrow> f x)"

lemma bindS_simps [simp]:
  "bindS (Inl e) f = Inl e" "bindS (respond req st msg) f = respond req st msg" "bindS (continue x) f = f x"
  by (simp_all add: bindS_def respond_def continue_def)

lemma step_inject [simp]:
  "continue x = continue y \<longleftrightarrow> x = y" "continue x \<noteq> respond req st msg" "respond req st msg \<noteq> continue x"
  "continue x \<noteq> Inl e" "respond req st msg \<noteq> Inl e" "Inl e \<noteq> continue x" "Inl e \<noteq> respond req st msg"
  by (simp_all add: continue_def respond_def)

lemma bindS_cong [fundef_cong]:
  "m = m' \<Longrightarrow> (\<And>x. m' = continue x \<Longrightarrow> f x = f' x) \<Longrightarrow> bindS m f = bindS m' f'"
  by (auto simp: bindS_def bindE_def continue_def split: sum.splits)

lemma bindS_assoc: "bindS (bindS m f) g = bindS m (\<lambda>x. bindS (f x) g)"
  by (auto simp: bindS_def bindE_def split: sum.splits)

section \<open>Bytes and strings in the buffer\<close>

text \<open>The first position of a character among the first \<open>len\<close> bytes.\<close>

fun first_of :: "string \<Rightarrow> nat \<Rightarrow> char \<Rightarrow> nat option res" where
  "first_of ptr 0 val = Inr None"
| "first_of [] (Suc len) val = Inl Out_of_bounds"
| "first_of (c # ptr) (Suc len) val =
     (if c = val then Inr (Some 0)
      else bindE (first_of ptr len val) (\<lambda>r. Inr (map_option Suc r)))"

lemma first_of_less: "first_of ptr len val = Inr (Some p) \<Longrightarrow> p < len"
  by (induction ptr len val arbitrary: p rule: first_of.induct) (auto split: if_splits)

text \<open>The byte before an offset, as \<open>line[pos - 1]\<close> reads it.\<close>

definition read_before :: "string \<Rightarrow> nat \<Rightarrow> char res" where
  "read_before buffer i = (if i = 0 then Inl Out_of_bounds else read_at buffer (i - 1))"

fun is_prefix :: "string \<Rightarrow> string \<Rightarrow> bool" where
  "is_prefix [] s = True"
| "is_prefix (p # ps) [] = False"
| "is_prefix (p # ps) (c # cs) = (p = c \<and> is_prefix ps cs)"

fun find_str :: "string \<Rightarrow> string \<Rightarrow> nat option" where
  "find_str [] pat = (if pat = [] then Some 0 else None)"
| "find_str (c # cs) pat = (if is_prefix pat (c # cs) then Some 0 else map_option Suc (find_str cs pat))"

definition strstr :: "string \<Rightarrow> string \<Rightarrow> nat option res" where
  "strstr block pat = bindE (cstr block) (\<lambda>s. Inr (find_str s pat))"

definition memmove_at :: "string \<Rightarrow> nat \<Rightarrow> nat \<Rightarrow> nat \<Rightarrow> string res" where
  "memmove_at buffer dst src len =
     (if src + len \<le> length buffer then memcpy_at buffer dst (take len (drop src buffer))
      else Inl Out_of_bounds)"

section \<open>Reading the head\<close>

text \<open>
  The scan of a fragment for the second newline in a row, carriage returns aside; the count of
  newlines goes on from one fragment to the next.
\<close>

fun scan_newlines :: "string \<Rightarrow> nat \<Rightarrow> nat \<times> bool" where
  "scan_newlines [] newlines = (newlines, False)"
| "scan_newlines (c # cs) newlines =
     (if c = CR then scan_newlines cs newlines
      else if c = LF then (if newlines + 1 = 2 then (2, True) else scan_newlines cs (newlines + 1))
      else scan_newlines cs 0)"

lemma socket_read_nonempty:
  "cflare_socket_read sk n len = Inr (sk', n', True, got) \<Longrightarrow> 1 \<le> length got \<and> 0 < len"
  by (auto simp: cflare_socket_read_def Suc_le_eq dest: recv_stream split: if_splits prod.splits)

function read_head ::
  "cflare_socket \<Rightarrow> net \<Rightarrow> string \<Rightarrow> nat \<Rightarrow> nat \<Rightarrow> nat
   \<Rightarrow> (cflare_socket \<times> net \<times> string \<times> ((32 word \<times> string) + nat)) res" where
  "read_head sk n buffer freespace nbytes newlines =
     bindE (cflare_socket_read sk n (freespace - nbytes)) (\<lambda>(sk1, n1, ok, frag).
       if \<not> ok then Inr (sk1, n1, buffer, Inl (400, ''recv error''))
       else bindE (memcpy_at buffer nbytes frag) (\<lambda>buffer1.
         if nbytes + length frag = freespace then Inr (sk1, n1, buffer1, Inl (413, ''request too long''))
         else (case scan_newlines frag newlines of (newlines1, got_part) \<Rightarrow>
                if got_part then Inr (sk1, n1, buffer1, Inr (nbytes + length frag))
                else read_head sk1 n1 buffer1 freespace (nbytes + length frag) newlines1)))"
  by pat_completeness auto
termination
  by (relation "measure (\<lambda>(sk, n, buffer, freespace, nbytes, newlines). freespace - nbytes)")
    (auto dest!: socket_read_nonempty simp del: length_greater_0_conv)

declare read_head.simps [simp del]

section \<open>The request line\<close>

definition parse_method :: "cflare_request \<Rightarrow> nat \<Rightarrow> (cflare_request \<times> nat) step" where
  "parse_method req nbytes =
     (let method = rq_buffer_position req in
      bindE (first_of (drop method (rq_buffer req)) nbytes (CHR '' '')) (\<lambda>found. case found of
          None \<Rightarrow> respond (req\<lparr>rq_method := Some method\<rparr>) 400 ''invalid request''
        | Some pos \<Rightarrow>
            if pos = nbytes then respond (req\<lparr>rq_method := Some method\<rparr>) 400 ''invalid request''
            else bindE (write_at (rq_buffer req) (method + pos) NUL) (\<lambda>buffer.
              continue (req\<lparr>rq_buffer := buffer, rq_method := Some method, rq_method_len := pos,
                            rq_buffer_position := method + (pos + 1)\<rparr>, nbytes - (pos + 1)))))"

definition parse_path :: "cflare_request \<Rightarrow> nat \<Rightarrow> (cflare_request \<times> nat) step" where
  "parse_path req nbytes =
     (let path = rq_buffer_position req in
      bindE (first_of (drop path (rq_buffer req)) nbytes (CHR '' '')) (\<lambda>found. case found of
          None \<Rightarrow> respond (req\<lparr>rq_path := Some path\<rparr>) 414 ''request URI too long''
        | Some pos \<Rightarrow>
            if pos = nbytes then respond (req\<lparr>rq_path := Some path\<rparr>) 414 ''request URI too long''
            else bindE (write_at (rq_buffer req) (path + pos) NUL) (\<lambda>buffer.
                 bindE (first_of (drop path buffer) pos (CHR ''?'')) (\<lambda>query. case query of
                     None \<Rightarrow>
                       continue (req\<lparr>rq_buffer := buffer, rq_path := Some path, rq_path_len := pos,
                                     rq_query := None, rq_query_len := 0,
                                     rq_buffer_position := path + (pos + 1)\<rparr>, nbytes - (pos + 1))
                   | Some query_pos \<Rightarrow>
                       bindE (write_at buffer (path + query_pos) NUL) (\<lambda>buffer2.
                         continue (req\<lparr>rq_buffer := buffer2, rq_path := Some path, rq_path_len := query_pos,
                                       rq_query := Some (path + query_pos + 1),
                                       rq_query_len := pos - query_pos - 1,
                                       rq_buffer_position := path + (pos + 1)\<rparr>, nbytes - (pos + 1)))))))"

text \<open>
  The end of a line: a carriage return before the newline is cut off with it. The result is the buffer
  and the length of the line.
\<close>

definition cut_line :: "string \<Rightarrow> nat \<Rightarrow> nat \<Rightarrow> (string \<times> nat) res" where
  "cut_line buffer line pos =
     bindE (read_before buffer (line + pos)) (\<lambda>c.
       if c = CR
       then bindE (write_at buffer (line + pos - 1) NUL) (\<lambda>buffer'. Inr (buffer', sub64 pos 1))
       else bindE (write_at buffer (line + pos) NUL) (\<lambda>buffer'. Inr (buffer', pos)))"

definition parse_version :: "cflare_request \<Rightarrow> nat \<Rightarrow> (cflare_request \<times> nat) step" where
  "parse_version req nbytes =
     (let version = rq_buffer_position req in
      bindE (first_of (drop version (rq_buffer req)) nbytes LF) (\<lambda>found. case found of
          None \<Rightarrow> respond (req\<lparr>rq_version := Some version\<rparr>) 400 ''invalid version''
        | Some pos \<Rightarrow>
            if pos = nbytes then respond (req\<lparr>rq_version := Some version\<rparr>) 400 ''invalid version''
            else bindE (cut_line (rq_buffer req) version pos) (\<lambda>(buffer, len).
              continue (req\<lparr>rq_buffer := buffer, rq_version := Some version, rq_version_len := len,
                            rq_buffer_position := version + (pos + 1)\<rparr>, nbytes - (pos + 1)))))"

section \<open>The headers\<close>

text \<open>The local variables of the loop that outlive it, beside the request.\<close>

record head_locals =
  hl_host :: "nat option"
  hl_host_len :: nat
  hl_content_length :: int

text \<open>A header the table knows is recorded; four of them are looked at.\<close>

definition note_header ::
  "('p, 'f) server \<Rightarrow> cflare_request \<Rightarrow> head_locals \<Rightarrow> cflare_header \<Rightarrow> nat \<Rightarrow> nat
   \<Rightarrow> (cflare_request \<times> head_locals) step" where
  "note_header sv req hl hdr val value_len =
     bindE (cflare_headers_equals hdr (hdr_host sv)) (\<lambda>is_host.
       if is_host then continue (req, hl\<lparr>hl_host := Some val, hl_host_len := value_len\<rparr>)
       else bindE (cflare_headers_equals hdr (hdr_connection sv)) (\<lambda>is_connection.
         if is_connection
         then bindE (strstr (drop val (rq_buffer req)) ''keep-alive'') (\<lambda>found.
                continue (req\<lparr>rq_keepalive := (found \<noteq> None)\<rparr>, hl))
         else bindE (cflare_headers_equals hdr (hdr_content_type sv)) (\<lambda>is_type.
           if is_type then continue (req, hl)
           else bindE (cflare_headers_equals hdr (hdr_content_length sv)) (\<lambda>is_length.
             if is_length
             then bindE (cflare_tointeger (drop val (rq_buffer req))) (\<lambda>number. case number of
                      None \<Rightarrow> respond req 400 ''bad content-length''
                    | Some i \<Rightarrow> continue (req, hl\<lparr>hl_content_length := i\<rparr>))
             else continue (req, hl)))))"

text \<open>
  A line with a name and a value. The value starts two bytes after the colon and its length is what is
  left of the line: where the line ends at the colon that wraps around, and so does the address that is
  terminated.
\<close>

definition header_line ::
  "('p, 'f) server \<Rightarrow> cflare_request \<Rightarrow> head_locals \<Rightarrow> nat \<Rightarrow> nat \<Rightarrow> (cflare_request \<times> head_locals) step" where
  "header_line sv req hl line line_len =
     bindE (first_of (drop line (rq_buffer req)) line_len (CHR '':'')) (\<lambda>found. case found of
         None \<Rightarrow> respond req 400 ''invalid header 2''
       | Some pos_col \<Rightarrow>
           bindE (write_at (rq_buffer req) (line + pos_col) NUL) (\<lambda>buffer.
             let val = line + pos_col + 1 + 1; value_len = sub64 line_len (pos_col + 1 + 1)
             in bindE (write_at buffer ((val + value_len) mod 2 ^ 64) NUL) (\<lambda>buffer2.
                bindE (cstr (drop line buffer2)) (\<lambda>key.
                bindE (cflare_headers_get (sv_headers sv) key) (\<lambda>hdr.
                  let req2 = req\<lparr>rq_buffer := buffer2\<rparr>
                  in if \<not> cflare_headers_valid hdr then continue (req2, hl)
                     else if length (rq_headers req2) \<ge> CFLARE_REQUEST_MAX_HEADERS
                     then respond req2 413 ''reached max number of headers''
                     else note_header sv
                       (req2\<lparr>rq_headers := rq_headers req2 @
                          [\<lparr>rh_header = hdr, rh_value = val, rh_value_len = value_len\<rparr>]\<rparr>)
                       hl hdr val value_len)))))"

function header_loop ::
  "('p, 'f) server \<Rightarrow> cflare_request \<Rightarrow> head_locals \<Rightarrow> nat \<Rightarrow> (cflare_request \<times> head_locals \<times> nat) step" where
  "header_loop sv req hl nbytes =
     (let line = rq_buffer_position req in
      bindE (first_of (drop line (rq_buffer req)) nbytes LF) (\<lambda>found. case found of
          None \<Rightarrow> respond req 400 ''invalid header 1''
        | Some pos \<Rightarrow>
            bindE (cut_line (rq_buffer req) line pos) (\<lambda>(buffer, line_len).
              let req1 = req\<lparr>rq_buffer := buffer, rq_buffer_position := line + (pos + 1)\<rparr>;
                  nbytes1 = nbytes - (pos + 1)
              in if line_len = 0 then continue (req1, hl, nbytes1)
                 else bindE (read_at buffer line) (\<lambda>c.
                   if c = CHR '' '' \<or> c = TAB
                   then respond req1 400 ''request header invalid: nothing to continue''
                   else bindS (header_line sv req1 hl line line_len) (\<lambda>(req2, hl2).
                          header_loop sv req2 hl2 nbytes1)))))"
  by pat_completeness auto
termination
  by (relation "measure (\<lambda>(sv, req, hl, nbytes). nbytes)") (auto dest: first_of_less)

declare header_loop.simps [simp del]

section \<open>The version and what depends on it\<close>

text \<open>
  A difference of pointers into the buffer, either of which may be null.
\<close>

definition ptr_diff :: "nat \<Rightarrow> nat option \<Rightarrow> nat option \<Rightarrow> nat" where
  "ptr_diff base a b = sub64 (case a of None \<Rightarrow> 0 | Some i \<Rightarrow> base + i) (case b of None \<Rightarrow> 0 | Some i \<Rightarrow> base + i)"

definition split_authority :: "('p, 'f) server \<Rightarrow> cflare_request \<Rightarrow> head_locals \<Rightarrow> (cflare_request \<times> head_locals) res" where
  "split_authority sv req hl =
     bindE (derefE (rq_path req) Null_deref) (\<lambda>path.
     bindE (strstr (drop path (rq_buffer req)) ''://'') (\<lambda>found. case found of
         None \<Rightarrow> Inr (req, hl)
       | Some p \<Rightarrow>
           let host_part = path + p + 3 in
           bindE (strstr (drop host_part (rq_buffer req)) ''/'') (\<lambda>slash.
             let path_part = map_option (\<lambda>i. host_part + i) slash;
                 host_part_len = ptr_diff (sv_base sv) path_part (Some host_part)
             in bindE (memmove_at (rq_buffer req) (host_part - 1) host_part (hl_host_len hl)) (\<lambda>buffer.
                bindE (write_at buffer ((host_part - 1 + hl_host_len hl) mod 2 ^ 64) NUL) (\<lambda>buffer2.
                  Inr (req\<lparr>rq_buffer := buffer2,
                           rq_path_len := ptr_diff (sv_base sv) (Some (path + rq_path_len req)) path_part,
                           rq_path := path_part\<rparr>,
                       hl\<lparr>hl_host := Some (host_part - 1), hl_host_len := host_part_len\<rparr>))))))"

definition check_version :: "('p, 'f) server \<Rightarrow> cflare_request \<Rightarrow> head_locals \<Rightarrow> (cflare_request \<times> head_locals) step" where
  "check_version sv req hl =
     bindE (derefE (rq_version req) Null_deref) (\<lambda>version.
     bindE (read_at (rq_buffer req) (version + 5)) (\<lambda>major.
     bindE (read_at (rq_buffer req) (version + 7)) (\<lambda>minor.
       if major \<noteq> CHR ''1'' then respond req 400 ''HTTP version not supported''
       else if minor = CHR ''1'' then
         (if hl_host hl = None then respond req 400 ''HTTP version requires host'' else continue (req, hl))
       else if minor = CHR ''2'' then bindE (split_authority sv req hl) continue
       else continue (req\<lparr>rq_keepalive := False\<rparr>, hl))))"

text \<open>The conversion of an \<open>int64_t\<close> to a \<open>size_t\<close>.\<close>

definition to_size :: "int \<Rightarrow> nat" where
  "to_size i = nat (i mod 2 ^ 64)"

definition parse_head ::
  "('p, 'f) server \<Rightarrow> cflare_socket \<Rightarrow> cflare_request \<Rightarrow> nat \<Rightarrow> cflare_request step" where
  "parse_head sv sk req nbytes =
     bindS (parse_method req nbytes) (\<lambda>(req1, nbytes1).
     bindS (parse_path req1 nbytes1) (\<lambda>(req2, nbytes2).
     bindS (parse_version req2 nbytes2) (\<lambda>(req3, nbytes3).
     bindS (header_loop sv (req3\<lparr>rq_headers := []\<rparr>)
              \<lparr>hl_host = None, hl_host_len = 0, hl_content_length = 0\<rparr> nbytes3) (\<lambda>(req4, hl4, nbytes4).
     bindS (check_version sv req4 hl4) (\<lambda>(req5, hl5).
       continue (req5\<lparr>rq_host := hl_host hl5, rq_host_len := hl_host_len hl5,
                      rq_ip := Some (cflare_socket_ip sk), rq_port := cflare_socket_port sk,
                      rq_buffer_unread := nbytes4,
                      rq_content_length := to_size (hl_content_length hl5),
                      rq_content_length_unread := to_size (hl_content_length hl5)\<rparr>))))))"

section \<open>Processing\<close>

definition cflare_request_new :: cflare_request where
  "cflare_request_new =
     \<lparr>rq_buffer = replicate CFLARE_REQUEST_MAX_LENGTH NUL, rq_buffer_freespace = 0, rq_buffer_position = 0,
      rq_buffer_unread = 0, rq_method = None, rq_method_len = 0, rq_path = None, rq_path_len = 0,
      rq_query = None, rq_query_len = 0, rq_version = None, rq_version_len = 0, rq_ip = None, rq_port = 0,
      rq_headers = [], rq_host = None, rq_host_len = 0, rq_content_length_unread = 0,
      rq_content_length = 0, rq_content_type = None, rq_keepalive = False,
      rq_response = \<lparr>rs_status_code = 0, rs_sent = False, rs_keepalive = False, rs_buffer_pos = 0,
                     rs_buffer = replicate CFLARE_RESPONSE_MAX_LENGTH NUL\<rparr>\<rparr>"

text \<open>What a request is set to before its head is read.\<close>

definition begin_request :: "cflare_request \<Rightarrow> cflare_request" where
  "begin_request req = req\<lparr>rq_buffer_position := 0, rq_buffer_freespace := length (rq_buffer req),
     rq_keepalive := True,
     rq_response := cflare_response_init ((rq_response req)\<lparr>rs_keepalive := True\<rparr>)\<rparr>"

text \<open>
  The part of the world a hook works on: the request with its response, the socket, the network and the
  stack of results.
\<close>

type_synonym 'f world = "(cflare_request \<times> cflare_socket \<times> net \<times> 'f cflare_hookstack option) res"

definition call_request_hooks ::
  "(addr \<Rightarrow> 'f cflare_hookstack option \<Rightarrow> 'f world \<Rightarrow> ptr \<Rightarrow> 'f world \<times> bool) \<Rightarrow> ('p, 'f) server
   \<Rightarrow> cflare_request \<Rightarrow> cflare_socket \<Rightarrow> net \<Rightarrow> (cflare_request \<times> cflare_socket \<times> net \<times> int option) res" where
  "call_request_hooks run sv req sk n =
     bindE (cflare_hookstack_push_pointer (sv_junk sv) (Some cflare_hookstack_new) ''cflare_request''
              (sv_request_ptr sv) None None) (\<lambda>args1.
     bindE (cflare_hookstack_push_pointer (sv_junk sv) args1 ''cflare_response''
              (sv_response_ptr sv) None None) (\<lambda>args.
     bindE (cflare_hook_call run (sv_hooks sv) ''Request'' args (Inr (req, sk, n, Some cflare_hookstack_new)))
       (\<lambda>(world, answered).
     bindE world (\<lambda>(req1, sk1, n1, rets).
     bindE (cflare_hookstack_get_integer rets 0) (\<lambda>result.
     bindE (cflare_hookstack_delete rets) (\<lambda>calls1.
     bindE (cflare_hookstack_delete args) (\<lambda>calls2.
       case result of
         None \<Rightarrow> Inr (req1, sk1, n1, None)
       | Some (Data_integer i) \<Rightarrow> Inr (req1, sk1, n1, Some i)
       | Some _ \<Rightarrow> Inl Dangling)))))))"

definition finish_request ::
  "('p, 'f) server \<Rightarrow> cflare_request \<Rightarrow> cflare_socket \<Rightarrow> net \<Rightarrow> int option
   \<Rightarrow> (cflare_request \<times> cflare_socket \<times> net \<times> bool) res" where
  "finish_request sv req sk n result =
     (let keepalive = (rq_keepalive req \<and> rq_content_length_unread req = 0 \<and> (result = None \<or> result = Some 0))
      in bindE (if keepalive \<and> rq_buffer_unread req > 0
                then bindE (assertE (rq_buffer_position req + rq_buffer_unread req \<le> length (rq_buffer req)) Out_of_bounds) (\<lambda>_.
                       cflare_socket_requeue sk (take (rq_buffer_unread req) (drop (rq_buffer_position req) (rq_buffer req))))
                else Inr sk) (\<lambda>sk1.
         bindE (if result = None
                then cflare_response_data sv (req\<lparr>rq_response := cflare_response_status (rq_response req) 500\<rparr>)
                       sk1 n (''no request handler'' @ [LF])
                else Inr (req, sk1, n, True)) (\<lambda>(req2, sk2, n2, ok).
           Inr (req2, sk2, n2, rs_keepalive (rq_response req2)))))"

definition cflare_request_process_socket ::
  "(addr \<Rightarrow> 'f cflare_hookstack option \<Rightarrow> 'f world \<Rightarrow> ptr \<Rightarrow> 'f world \<times> bool) \<Rightarrow> ('p, 'f) server
   \<Rightarrow> cflare_request \<Rightarrow> cflare_socket \<Rightarrow> net \<Rightarrow> (cflare_request \<times> cflare_socket \<times> net \<times> bool) res" where
  "cflare_request_process_socket run sv req sk n =
     (let req0 = begin_request req in
      bindE (read_head sk n (rq_buffer req0) (rq_buffer_freespace req0) 0 0) (\<lambda>(sk1, n1, buffer, outcome).
        let req1 = req0\<lparr>rq_buffer := buffer\<rparr> in
        case outcome of
          Inl (status, message) \<Rightarrow>
            bindE (quick_response_socket sv sk1 n1 status message False) (\<lambda>(sk2, n2). Inr (req1, sk2, n2, False))
        | Inr nbytes \<Rightarrow>
            bindE (parse_head sv sk1 (req1\<lparr>rq_buffer_freespace := rq_buffer_freespace req1 - nbytes\<rparr>) nbytes)
              (\<lambda>parsed. case parsed of
                 Inl (req2, status, message) \<Rightarrow>
                   bindE (quick_response_socket sv sk1 n1 status message False) (\<lambda>(sk2, n2).
                     Inr (req2, sk2, n2, False))
               | Inr req2 \<Rightarrow>
                   bindE (call_request_hooks run sv req2 sk1 n1) (\<lambda>(req3, sk3, n3, result).
                     finish_request sv req3 sk3 n3 result))))"

section \<open>Asking a request\<close>

definition cflare_request_method :: "cflare_request \<Rightarrow> nat option" where
  "cflare_request_method req = rq_method req"
definition cflare_request_path :: "cflare_request \<Rightarrow> nat option" where
  "cflare_request_path req = rq_path req"
definition cflare_request_query :: "cflare_request \<Rightarrow> nat option" where
  "cflare_request_query req = rq_query req"
definition cflare_request_version :: "cflare_request \<Rightarrow> nat option" where
  "cflare_request_version req = rq_version req"
definition cflare_request_ip :: "cflare_request \<Rightarrow> string option" where
  "cflare_request_ip req = rq_ip req"
definition cflare_request_port :: "cflare_request \<Rightarrow> 16 word" where
  "cflare_request_port req = rq_port req"
definition cflare_request_host :: "cflare_request \<Rightarrow> nat option" where
  "cflare_request_host req = rq_host req"
definition cflare_request_headers :: "cflare_request \<Rightarrow> cflare_request_header list" where
  "cflare_request_headers req = rq_headers req"
definition cflare_request_content_has :: "cflare_request \<Rightarrow> bool" where
  "cflare_request_content_has req = (rq_content_length req \<noteq> 0)"
definition cflare_request_content_type :: "cflare_request \<Rightarrow> nat option" where
  "cflare_request_content_type req = rq_content_type req"
definition cflare_request_content_length :: "cflare_request \<Rightarrow> nat" where
  "cflare_request_content_length req = rq_content_length req"
definition cflare_request_content_unread :: "cflare_request \<Rightarrow> nat" where
  "cflare_request_content_unread req = rq_content_length_unread req"

section \<open>Reading the content\<close>

text \<open>
  \<open>readable\<close> is the larger of the two lengths, as the code has it. The result is the request, the
  socket, the network, the caller's block, the number of bytes read and the answer.
\<close>

definition cflare_request_content_chunk ::
  "cflare_request \<Rightarrow> cflare_socket \<Rightarrow> net \<Rightarrow> string \<Rightarrow> nat
   \<Rightarrow> (cflare_request \<times> cflare_socket \<times> net \<times> string \<times> nat \<times> bool) res" where
  "cflare_request_content_chunk req sk n buffer buffer_len0 =
     (let buffer_len = (if rq_content_length_unread req < buffer_len0 then rq_content_length_unread req else buffer_len0);
          readable = (if rq_buffer_unread req > 0
                      then (if buffer_len > rq_buffer_unread req then buffer_len else rq_buffer_unread req) else 0)
      in bindE (assertE (rq_buffer_position req + readable \<le> length (rq_buffer req)) Out_of_bounds) (\<lambda>_.
         bindE (memcpy_at buffer 0 (take readable (drop (rq_buffer_position req) (rq_buffer req)))) (\<lambda>buffer1.
           let req1 = req\<lparr>rq_buffer_position := rq_buffer_position req + readable,
                          rq_buffer_unread := sub64 (rq_buffer_unread req) readable,
                          rq_content_length_unread := sub64 (rq_content_length_unread req) readable\<rparr>;
               room = sub64 buffer_len readable
           in if rq_buffer_unread req > 0 \<and> room = 0 then Inr (req1, sk, n, buffer1, readable, True)
              else bindE (cflare_socket_read sk n room) (\<lambda>(sk1, n1, ok, got).
                   bindE (memcpy_at buffer1 readable got) (\<lambda>buffer2.
                     Inr (req1\<lparr>rq_content_length_unread := sub64 (rq_content_length_unread req1) (length got)\<rparr>,
                          sk1, n1, buffer2, readable + length got, ok))))))"

end
