(* ===== verification/RequestRead.thy ===== *)
theory RequestRead
  imports Request
begin

text \<open>
  Reading the head of a request: what ends up in the buffer is the next bytes of the socket, and the
  loop stops with the fragment in which the head ends, however the bytes are cut into fragments.
\<close>

section \<open>The scan for the end of the head\<close>

lemma scan_newlines_append:
  "scan_newlines (a @ b) k = (case scan_newlines a k of (k', d) \<Rightarrow> if d then (k', True) else scan_newlines b k')"
  by (induction a k rule: scan_newlines.induct) (auto split: prod.splits)

abbreviation head_ended :: "string \<Rightarrow> bool" where
  "head_ended s \<equiv> snd (scan_newlines s 0)"

lemma head_ended_append: "head_ended a \<Longrightarrow> head_ended (a @ b)"
  by (auto simp: scan_newlines_append split: prod.splits)

section \<open>The loop\<close>

definition head_read ::
  "cflare_socket \<Rightarrow> net \<Rightarrow> string \<Rightarrow> nat \<Rightarrow> nat
   \<Rightarrow> (cflare_socket \<times> net \<times> string \<times> ((32 word \<times> string) + nat)) res \<Rightarrow> bool" where
  "head_read sk n buffer freespace nbytes result = (case result of Inl e \<Rightarrow> e = Blocked
     | Inr (sk', n', buffer', r) \<Rightarrow> sk_ok sk' \<and> same_socket sk sk' \<and> same_sends n n' \<and>
         length buffer' = length buffer \<and>
         (\<exists>got. take (nbytes + length got) buffer' = take nbytes buffer @ got \<and>
            drop (nbytes + length got) buffer' = drop (nbytes + length got) buffer \<and>
            pending sk n = got @ pending sk' n' \<and> nbytes + length got \<le> freespace \<and>
            (case r of
               Inl (status, message) \<Rightarrow> (status = 400 \<and> message = ''recv error'') \<or>
                 (status = 413 \<and> message = ''request too long'' \<and> nbytes + length got = freespace)
             | Inr m \<Rightarrow> m = nbytes + length got \<and> m < freespace \<and> sk_connected sk' \<and> head_ended (take m buffer'))))"

lemma head_read_step:
  assumes "head_read sk1 n1 buffer1 freespace (nbytes + length frag) r"
    and "pending sk n = frag @ pending sk1 n1" and "length buffer1 = length buffer"
    and "take (nbytes + length frag) buffer1 = take nbytes buffer @ frag"
    and "drop (nbytes + length frag) buffer1 = drop (nbytes + length frag) buffer"
    and "same_socket sk sk1" and "same_sends n n1"
  shows "head_read sk n buffer freespace nbytes r"
proof (cases r)
  case (Inr res)
  obtain sk' n' buffer' out where res: "res = (sk', n', buffer', out)" by (cases res) auto
  from assms(1) Inr res obtain got where g: "sk_ok sk'" "same_socket sk1 sk'" "same_sends n1 n'"
    "length buffer' = length buffer1"
    "take (nbytes + length frag + length got) buffer' = take (nbytes + length frag) buffer1 @ got"
    "drop (nbytes + length frag + length got) buffer' = drop (nbytes + length frag + length got) buffer1"
    "pending sk1 n1 = got @ pending sk' n'" "nbytes + length frag + length got \<le> freespace"
    "case out of
       Inl (status, message) \<Rightarrow> (status = 400 \<and> message = ''recv error'') \<or>
         (status = 413 \<and> message = ''request too long'' \<and> nbytes + length frag + length got = freespace)
     | Inr m \<Rightarrow> m = nbytes + length frag + length got \<and> m < freespace \<and> sk_connected sk' \<and> head_ended (take m buffer')"
    by (auto simp: head_read_def)
  have "drop (nbytes + length frag + length got) buffer1 = drop (nbytes + length frag + length got) buffer"
    using arg_cong [OF assms(5), of "drop (length got)"] by (simp add: add.commute add.left_commute)
  with g assms(2-4) same_trans(1) [of n n1 n'] same_trans(2) [of sk sk1 sk'] assms(6,7) Inr res show ?thesis
    by (auto simp: head_read_def add.assoc split: sum.splits intro!: exI [of _ "frag @ got"])
qed (use assms(1) in \<open>simp add: head_read_def\<close>)

lemma read_head_result:
  assumes "sk_ok sk" and "sk_connected sk" and "nbytes < freespace" and "freespace \<le> length buffer"
    and "scan_newlines (take nbytes buffer) 0 = (newlines, False)"
  shows "head_read sk n buffer freespace nbytes (read_head sk n buffer freespace nbytes newlines)"
  using assms
proof (induction sk n buffer freespace nbytes newlines rule: read_head.induct)
  case (1 sk n buffer freespace nbytes newlines)
  note cases = socket_read_cases [OF 1(2,3), of "freespace - nbytes" n]
  show ?case
  proof (cases "cflare_socket_read sk n (freespace - nbytes)")
    case (Inl e)
    with cases 1(4) show ?thesis by (simp add: read_head.simps [of sk n] head_read_def)
  next
    case (Inr res)
    obtain sk1 n1 ok frag where res: "res = (sk1, n1, ok, frag)" by (cases res) auto
    from cases Inr res 1(4) have r: "sk_ok sk1" "pending sk n = frag @ pending sk1 n1"
      "length frag \<le> freespace - nbytes" "ok \<longleftrightarrow> frag \<noteq> []" "ok \<longrightarrow> sk_connected sk1"
      "same_sends n n1" "same_socket sk sk1" by auto
    show ?thesis
    proof (cases ok)
      case False
      with Inr res have "read_head sk n buffer freespace nbytes newlines =
          Inr (sk1, n1, buffer, Inl (400, ''recv error''))" by (simp add: read_head.simps [of sk n])
      with r False 1(4) show ?thesis by (auto simp: head_read_def intro!: exI [of _ "[]"])
    next
      case True
      let ?b = "take nbytes buffer @ frag @ drop (nbytes + length frag) buffer"
      have fits: "nbytes + length frag \<le> length buffer" using r(3) 1(4,5) by simp
      then have w: "memcpy_at buffer nbytes frag = Inr ?b" by (simp add: memcpy_at_def)
      have b: "length ?b = length buffer" "take (nbytes + length frag) ?b = take nbytes buffer @ frag"
        "drop (nbytes + length frag) ?b = drop (nbytes + length frag) buffer"
        using fits by simp_all
      show ?thesis
      proof (cases "nbytes + length frag = freespace")
        case full: True
        with Inr res True w have run: "read_head sk n buffer freespace nbytes newlines =
            Inr (sk1, n1, ?b, Inl (413, ''request too long''))" by (simp add: read_head.simps [of sk n])
        show ?thesis unfolding run using r b full by (auto simp: head_read_def intro!: exI [of _ frag])
      next
        case more: False
        obtain newlines1 got_part where s: "scan_newlines frag newlines = (newlines1, got_part)" by fastforce
        have scan: "scan_newlines (take (nbytes + length frag) ?b) 0 = (newlines1, got_part)"
          using 1(6) s unfolding b(2) by (simp add: scan_newlines_append)
        show ?thesis
        proof (cases got_part)
          case ended: True
          with Inr res True w more s have run: "read_head sk n buffer freespace nbytes newlines =
              Inr (sk1, n1, ?b, Inr (nbytes + length frag))" by (simp add: read_head.simps [of sk n])
          show ?thesis
            unfolding run using r b True ended scan more 1(4)
            by (auto simp: head_read_def intro!: exI [of _ frag])
        next
          case False
          with Inr res True w more s have run: "read_head sk n buffer freespace nbytes newlines =
              read_head sk1 n1 ?b freespace (nbytes + length frag) newlines1"
            by (simp add: read_head.simps [of sk n])
          have "nbytes + length frag < freespace" using more r(3) 1(4) by simp
          then have "head_read sk1 n1 ?b freespace (nbytes + length frag)
              (read_head sk1 n1 ?b freespace (nbytes + length frag) newlines1)"
            using 1(1) [OF Inr res [symmetric] refl refl _ w more s [symmetric]] True False r b 1(5) scan by simp
          from head_read_step [OF this r(2) b r(7,6)] show ?thesis unfolding run .
        qed
      qed
    qed
  qed
qed

text \<open>Where the network delivers the whole head the loop returns, with nothing left in the requeue.\<close>

lemma read_head_delivering:
  assumes "sk_ok sk" and "sk_connected sk" and "delivering n" and "net_incoming n \<noteq> []"
    and "scan_newlines (take nbytes buffer) 0 = (newlines, False)"
    and "head_ended (take nbytes buffer @ pending sk n)"
    and "nbytes + length (pending sk n) < freespace" and "freespace \<le> length buffer"
  shows "\<exists>sk' n' buffer' m. read_head sk n buffer freespace nbytes newlines = Inr (sk', n', buffer', Inr m) \<and>
    delivering n' \<and> requeued sk' = []"
  using assms
proof (induction sk n buffer freespace nbytes newlines rule: read_head.induct)
  case (1 sk n buffer freespace nbytes newlines)
  from 1(8) have room: "0 < freespace - nbytes" by simp
  from socket_read_delivering [OF 1(2,3) room 1(4,5)] obtain sk1 n1 frag where
    read: "cflare_socket_read sk n (freespace - nbytes) = Inr (sk1, n1, True, frag)" "delivering n1" by blast
  from socket_read_cases [OF 1(2,3) room, of n] read(1) have r: "sk_ok sk1" "sk_connected sk1"
    "pending sk n = frag @ pending sk1 n1" "requeued sk1 = drop (freespace - nbytes) (requeued sk)" by auto
  have "length (requeued sk) \<le> length (pending sk n)" by (simp add: pending_def)
  with r(4) 1(8) have empty: "requeued sk1 = []" by simp
  let ?b = "take nbytes buffer @ frag @ drop (nbytes + length frag) buffer"
  have fits: "nbytes + length frag \<le> length buffer" "nbytes + length frag < freespace"
    using r(3) 1(8,9) by auto
  then have w: "memcpy_at buffer nbytes frag = Inr ?b" by (simp add: memcpy_at_def)
  have b: "take (nbytes + length frag) ?b = take nbytes buffer @ frag" "length ?b = length buffer"
    using fits by simp_all
  obtain newlines1 got_part where s: "scan_newlines frag newlines = (newlines1, got_part)" by fastforce
  show ?case
  proof (cases got_part)
    case True
    with read(1) w fits(2) s have "read_head sk n buffer freespace nbytes newlines =
        Inr (sk1, n1, ?b, Inr (nbytes + length frag))" by (simp add: read_head.simps [of sk n])
    with read(2) empty show ?thesis by blast
  next
    case False
    then have scan: "scan_newlines (take (nbytes + length frag) ?b) 0 = (newlines1, False)"
      using 1(6) s unfolding b(1) by (simp add: scan_newlines_append)
    have ended: "head_ended (take (nbytes + length frag) ?b @ pending sk1 n1)"
      using 1(7) r(3) unfolding b(1) by simp
    then have "pending sk1 n1 \<noteq> []" using scan by (auto simp del: take_append)
    then have "net_incoming n1 \<noteq> []" using empty by (auto simp: pending_def)
    with 1(1) [OF read(1) refl refl refl _ w _ s [symmetric] False r(1,2) read(2) _ scan ended] fits b(2) r(3) 1(8,9)
    obtain sk' n' buffer' m where "read_head sk1 n1 ?b freespace (nbytes + length frag) newlines1 =
        Inr (sk', n', buffer', Inr m)" "delivering n'" "requeued sk' = []" by auto
    moreover have "read_head sk n buffer freespace nbytes newlines =
        read_head sk1 n1 ?b freespace (nbytes + length frag) newlines1"
      using read(1) w fits(2) s False by (simp add: read_head.simps [of sk n])
    ultimately show ?thesis by auto
  qed
qed

text \<open>The text of a head ends where the scan stops, and not before.\<close>

definition complete_head :: "string \<Rightarrow> bool" where
  "complete_head text = (head_ended text \<and> (\<forall>k < length text. \<not> head_ended (take k text)))"

lemma read_head_text:
  assumes "sk_ok sk" and "sk_connected sk" and "delivering n" and "net_incoming n \<noteq> []"
    and "pending sk n = text @ body" and "complete_head text" and "length (text @ body) < length buffer"
  shows "\<exists>sk' n' buffer' m. read_head sk n buffer (length buffer) 0 0 = Inr (sk', n', buffer', Inr m) \<and>
    length text \<le> m \<and> take m buffer' @ pending sk' n' = text @ body \<and> length buffer' = length buffer \<and>
    drop m buffer' = drop m buffer \<and> sk_ok sk' \<and> sk_connected sk' \<and> same_socket sk sk' \<and> same_sends n n' \<and>
    requeued sk' = [] \<and> delivering n' \<and> m \<le> length (text @ body)"
proof -
  have scan: "scan_newlines (take 0 buffer) 0 = (0, False)" by simp
  have ended: "head_ended (take 0 buffer @ pending sk n)"
    using assms(5,6) by (simp add: complete_head_def head_ended_append)
  from read_head_delivering [OF assms(1-4) scan ended, of "length buffer"] assms(5,7) obtain sk' n' buffer' m where
    run: "read_head sk n buffer (length buffer) 0 0 = Inr (sk', n', buffer', Inr m)" "delivering n'"
      "requeued sk' = []" by auto
  have "0 < length buffer" using assms(7) by linarith
  from read_head_result [OF assms(1,2) this order_refl scan, of n] run(1) obtain got where
    g: "sk_ok sk'" "same_socket sk sk'" "same_sends n n'" "length buffer' = length buffer"
      "take (length got) buffer' = got" "drop (length got) buffer' = drop (length got) buffer"
      "text @ body = got @ pending sk' n'" "m = length got" "sk_connected sk'" "head_ended (take m buffer')"
    using assms(5) by (auto simp: head_read_def)
  have "length text \<le> m"
  proof (rule ccontr)
    assume "\<not> length text \<le> m"
    then have "m < length text" by simp
    moreover from this have "take m text = got" using g(7,8) by (metis append_eq_append_conv_if less_imp_le nat_neq_iff not_le)
    ultimately show False using assms(6) g(5,8,10) by (auto simp: complete_head_def)
  qed
  moreover have "m \<le> length (text @ body)" unfolding g(7) g(8) by simp
  ultimately show ?thesis using run g by (intro exI [of _ sk'] exI [of _ n'] exI [of _ buffer'] exI [of _ m]) simp
qed

end
