(* ===== verification/RequestParse.thy ===== *)
theory RequestParse
  imports RequestRead
begin

text \<open>
  What the parser makes of a well-formed head: the words of the request line and the names and values
  of the headers, each a terminated string in the buffer, and the rest of the buffer untouched.
\<close>

section \<open>Strings in the buffer\<close>

lemma first_of_here: "c \<notin> set s \<Longrightarrow> length s < len \<Longrightarrow> first_of (s @ c # t) len c = Inr (Some (length s))"
proof (induction s arbitrary: len)
  case Nil
  then show ?case by (cases len) simp_all
next
  case (Cons a s)
  then show ?case by (cases len) auto
qed

lemma first_of_absent: "c \<notin> set (take len s) \<Longrightarrow> len \<le> length s \<Longrightarrow> first_of s len c = Inr None"
  by (induction s len c rule: first_of.induct) auto

lemma is_prefix_iff: "is_prefix p s \<longleftrightarrow> (\<exists>t. s = p @ t)"
  by (induction p s rule: is_prefix.induct) auto

lemma find_str_iff: "find_str s pat \<noteq> None \<longleftrightarrow> (\<exists>a b. s = a @ pat @ b)"
proof (induction s)
  case (Cons c cs)
  have "(\<exists>a b. c # cs = a @ pat @ b) \<longleftrightarrow> is_prefix pat (c # cs) \<or> (\<exists>a b. cs = a @ pat @ b)"
    by (metis Cons_eq_append_conv append_Cons append_Nil is_prefix_iff)
  with Cons show ?case by auto
qed auto

lemma cstr_at: "NUL \<notin> set s \<Longrightarrow> cstr (drop (length a) (a @ s @ NUL # b)) = Inr s"
  by (simp add: cstr_terminated)

lemma cstr_tail: "NUL \<notin> set s \<Longrightarrow> cstr (s @ NUL # b) = Inr s"
  by (rule cstr_terminated)

lemma write_at_here [simp]:
  "write_at (a @ c # b) (length a) d = Inr (a @ d # b)"
  "write_at (a @ s @ c # b) (length a + length s) d = Inr (a @ s @ d # b)"
  by (simp_all add: write_at_def list_update_append)

lemma read_at_here [simp]: "read_at (a @ c # b) (length a) = Inr c"
  by (simp add: read_at_def)

lemma read_before_here: "a \<noteq> [] \<Longrightarrow> read_before (a @ b) (length a) = Inr (last a)"
  by (cases a rule: rev_cases) (auto simp: read_before_def read_at_def nth_append)

text \<open>A terminated string in the buffer.\<close>

definition points_to :: "string \<Rightarrow> nat option \<Rightarrow> string \<Rightarrow> bool" where
  "points_to buffer p s = (\<exists>i. p = Some i \<and> i \<le> length buffer \<and> cstr (drop i buffer) = Inr s)"

lemma points_toI:
  "buffer = a @ s @ NUL # b \<Longrightarrow> NUL \<notin> set s \<Longrightarrow> i = length a \<Longrightarrow> points_to buffer (Some i) s"
  by (simp add: points_to_def cstr_tail)

section \<open>The text of a head\<close>

text \<open>Characters that have no meaning for the parser.\<close>

definition plain :: "string \<Rightarrow> bool" where
  "plain s = (NUL \<notin> set s \<and> CR \<notin> set s \<and> LF \<notin> set s)"

definition eol_ok :: "string \<Rightarrow> bool" where
  "eol_ok eol = (eol = [LF] \<or> eol = [CR, LF])"

text \<open>What cutting a line leaves of the end of it.\<close>

definition cut_eol :: "string \<Rightarrow> string" where
  "cut_eol eol = (if eol = [LF] then [NUL] else [NUL, LF])"

lemma length_cut_eol [simp]: "eol_ok eol \<Longrightarrow> length (cut_eol eol) = length eol"
  by (auto simp: eol_ok_def cut_eol_def)

fun header_text :: "string \<Rightarrow> (string \<times> string) list \<Rightarrow> string" where
  "header_text eol [] = eol"
| "header_text eol ((k, x) # hs) = k @ '': '' @ x @ eol @ header_text eol hs"

text \<open>The rows of the headers alone, and what is left of them in the buffer.\<close>

definition rows_text :: "string \<Rightarrow> (string \<times> string) list \<Rightarrow> string" where
  "rows_text eol hs = concat (map (\<lambda>(k, x). k @ '': '' @ x @ eol) hs)"

definition rows_cut :: "string \<Rightarrow> (string \<times> string) list \<Rightarrow> string" where
  "rows_cut eol hs = concat (map (\<lambda>(k, x). k @ NUL # '' '' @ x @ cut_eol eol) hs)"

lemma rows_simps [simp]:
  "rows_text eol [] = []" "rows_text eol ((k, x) # hs) = k @ '': '' @ x @ eol @ rows_text eol hs"
  "rows_cut eol [] = []" "rows_cut eol ((k, x) # hs) = k @ NUL # '' '' @ x @ cut_eol eol @ rows_cut eol hs"
  by (simp_all add: rows_text_def rows_cut_def)

fun header_cut :: "string \<Rightarrow> (string \<times> string) list \<Rightarrow> string" where
  "header_cut eol [] = cut_eol eol"
| "header_cut eol ((k, x) # hs) = k @ NUL # '' '' @ x @ cut_eol eol @ header_cut eol hs"

lemma length_header_cut [simp]: "eol_ok eol \<Longrightarrow> length (header_cut eol hs) = length (header_text eol hs)"
  by (induction eol hs rule: header_cut.induct) simp_all

lemma header_rows: "header_text eol hs = rows_text eol hs @ eol" "header_cut eol hs = rows_cut eol hs @ cut_eol eol"
  by (induction eol hs rule: header_cut.induct) simp_all

lemma length_rows_cut: "eol_ok eol \<Longrightarrow> length (rows_cut eol hs) = length (rows_text eol hs)"
  by (induction hs) auto

definition header_name_ok :: "string \<Rightarrow> bool" where
  "header_name_ok k = (plain k \<and> CHR '':'' \<notin> set k \<and> k \<noteq> [] \<and> hd k \<noteq> CHR '' '' \<and> hd k \<noteq> TAB)"

definition uri :: "string \<Rightarrow> string option \<Rightarrow> string" where
  "uri p q = p @ (case q of None \<Rightarrow> [] | Some x \<Rightarrow> ''?'' @ x)"

definition head_text ::
  "string \<Rightarrow> string \<Rightarrow> string \<Rightarrow> string option \<Rightarrow> string \<Rightarrow> (string \<times> string) list \<Rightarrow> string" where
  "head_text eol m p q v hs = m @ '' '' @ uri p q @ '' '' @ v @ eol @ header_text eol hs"

definition head_words_ok :: "string \<Rightarrow> string \<Rightarrow> string option \<Rightarrow> string \<Rightarrow> bool" where
  "head_words_ok m p q v = (plain m \<and> CHR '' '' \<notin> set m \<and> plain p \<and> CHR '' '' \<notin> set p \<and> CHR ''?'' \<notin> set p \<and>
     (\<forall>x. q = Some x \<longrightarrow> plain x \<and> CHR '' '' \<notin> set x) \<and> plain v)"

definition header_fields_ok :: "(string \<times> string) list \<Rightarrow> bool" where
  "header_fields_ok hs = (\<forall>(k, x) \<in> set hs. header_name_ok k \<and> plain x)"

section \<open>The request line\<close>

lemma parse_method_ok:
  assumes "rq_buffer req = pre @ m @ CHR '' '' # cur" and "rq_buffer_position req = length pre"
    and "CHR '' '' \<notin> set m" and "length m < nbytes"
  shows "parse_method req nbytes = continue (req\<lparr>rq_buffer := pre @ m @ NUL # cur,
      rq_method := Some (length pre), rq_method_len := length m,
      rq_buffer_position := length (pre @ m @ [NUL])\<rparr>, nbytes - (length m + 1))"
  using assms first_of_here [of "CHR '' ''" m nbytes cur]
  by (simp add: parse_method_def Let_def)

lemma parse_path_ok:
  assumes "rq_buffer req = pre @ uri p q @ CHR '' '' # cur" and "rq_buffer_position req = length pre"
    and "CHR '' '' \<notin> set (uri p q)" and "CHR ''?'' \<notin> set p" and "length (uri p q) < nbytes"
  shows "parse_path req nbytes = continue (req\<lparr>
      rq_buffer := pre @ p @ (case q of None \<Rightarrow> [] | Some x \<Rightarrow> NUL # x) @ NUL # cur,
      rq_path := Some (length pre), rq_path_len := length p,
      rq_query := map_option (\<lambda>x. length (pre @ p @ [NUL])) q,
      rq_query_len := (case q of None \<Rightarrow> 0 | Some x \<Rightarrow> length x),
      rq_buffer_position := length (pre @ uri p q @ [NUL])\<rparr>, nbytes - (length (uri p q) + 1))"
proof (cases q)
  case None
  have "first_of (p @ NUL # cur) (length p) (CHR ''?'') = Inr None"
    using assms(4) by (intro first_of_absent) simp_all
  with None assms first_of_here [of "CHR '' ''" p nbytes cur] show ?thesis
    by (simp add: parse_path_def Let_def uri_def)
next
  case (Some x)
  let ?u = "p @ CHR ''?'' # x"
  have u: "uri p q = ?u" using Some by (simp add: uri_def)
  have "first_of (?u @ NUL # cur) (length ?u) (CHR ''?'') = Inr (Some (length p))"
    using assms(4) first_of_here [of "CHR ''?''" p "length ?u" "x @ NUL # cur"] by simp
  moreover have "first_of (?u @ CHR '' '' # cur) nbytes (CHR '' '') = Inr (Some (length ?u))"
    using assms(3,5) first_of_here [of "CHR '' ''" ?u nbytes cur] unfolding u by simp
  moreover have "write_at (pre @ ?u @ CHR '' '' # cur) (length pre + length ?u) NUL = Inr (pre @ ?u @ NUL # cur)"
    by (rule write_at_here)
  moreover have "write_at (pre @ ?u @ NUL # cur) (length pre + length p) NUL = Inr (pre @ p @ NUL # x @ NUL # cur)"
    using write_at_here(2) [of pre p "CHR ''?''" "x @ NUL # cur"] by simp
  ultimately show ?thesis
    using Some assms(1,2,5) unfolding u by (simp add: parse_path_def Let_def)
qed

lemma cut_line_ok:
  assumes "eol_ok eol" and "plain s" and "pre \<noteq> []" and "last pre \<noteq> CR"
  shows "cut_line (pre @ s @ eol @ cur) (length pre) (length s + length eol - 1) =
    Inr (pre @ s @ cut_eol eol @ cur, length s)"
proof (cases "eol = [LF]")
  case True
  have "read_before (pre @ s @ LF # cur) (length pre + length s) = Inr (last (pre @ s))"
    using assms(3) read_before_here [of "pre @ s" "LF # cur"] by simp
  moreover have "last (pre @ s) \<noteq> CR"
    using assms(2,4) by (metis last_append last_in_set plain_def)
  ultimately show ?thesis using True by (simp add: cut_line_def cut_eol_def)
next
  case False
  then have e: "eol = [CR, LF]" using assms(1) by (auto simp: eol_ok_def)
  have "read_before (pre @ s @ CR # LF # cur) (Suc (length pre + length s)) = Inr CR"
    by (simp add: read_before_def read_at_def nth_append)
  with e show ?thesis by (simp add: cut_line_def cut_eol_def)
qed

lemma parse_version_ok:
  assumes "rq_buffer req = pre @ v @ eol @ cur" and "rq_buffer_position req = length pre"
    and "eol_ok eol" and "plain v" and "pre \<noteq> []" and "last pre \<noteq> CR" and "length v + length eol \<le> nbytes"
  shows "parse_version req nbytes = continue (req\<lparr>rq_buffer := pre @ v @ cut_eol eol @ cur,
      rq_version := Some (length pre), rq_version_len := length v,
      rq_buffer_position := length (pre @ v @ eol)\<rparr>, nbytes - (length v + length eol))"
proof -
  from assms(3) obtain s where e: "eol = s @ [LF]" "LF \<notin> set s" by (auto simp: eol_ok_def)
  have "first_of (v @ eol @ cur) nbytes LF = Inr (Some (length (v @ s)))"
    using first_of_here [of LF "v @ s" nbytes cur] e assms(4,7) by (simp add: plain_def)
  then have f: "first_of (drop (length pre) (rq_buffer req)) nbytes LF = Inr (Some (length v + length eol - 1))"
    using assms(1) e(1) by simp
  have "length v + length eol - 1 \<noteq> nbytes" "Suc (length v + length eol - 1) = length v + length eol"
    using assms(7) e(1) by auto
  with f assms(1,2) cut_line_ok [OF assms(3-6), of cur] show ?thesis
    by (simp add: parse_version_def Let_def)
qed

section \<open>The headers\<close>

text \<open>A server whose header table is in order and knows the seven headers it asks for by name.\<close>

definition server_ok :: "('p, 'f) server \<Rightarrow> bool" where
  "server_ok sv = (hd_inv (sv_headers sv) \<and> get_all (sv_headers sv) common_headers = Inr (sv_common sv) \<and>
     (\<forall>n \<in> set common_headers. header_map (sv_headers sv) (lower n) \<noteq> None))"

abbreviation known :: "('p, 'f) server \<Rightarrow> string \<Rightarrow> loaded_header option" where
  "known sv k \<equiv> header_map (sv_headers sv) (lower k)"

lemma common_names_plain: "n \<in> set common_headers \<Longrightarrow> NUL \<notin> set n"
  by (auto simp: common_headers_def)

lemma get_all_map:
  "hd_inv st \<Longrightarrow> \<forall>n \<in> set ns. NUL \<notin> set n \<Longrightarrow>
    get_all st ns = Inr (map (\<lambda>n. as_header (header_map st (lower n))) ns)"
  by (induction ns) (simp_all add: get_as_header)

lemma server_common:
  assumes "server_ok sv"
  shows "hdr_host sv = as_header (known sv ''Host'')" "hdr_connection sv = as_header (known sv ''Connection'')"
    "hdr_content_type sv = as_header (known sv ''Content-Type'')"
    "hdr_content_length sv = as_header (known sv ''Content-Length'')"
    "hdr_server sv = as_header (known sv ''Server'')" "hdr_date sv = as_header (known sv ''Date'')"
proof -
  have "sv_common sv = map (\<lambda>n. as_header (known sv n)) common_headers"
    using assms get_all_map [of "sv_headers sv" common_headers] common_names_plain by (simp add: server_ok_def)
  then show "hdr_host sv = as_header (known sv ''Host'')" "hdr_connection sv = as_header (known sv ''Connection'')"
    "hdr_content_type sv = as_header (known sv ''Content-Type'')"
    "hdr_content_length sv = as_header (known sv ''Content-Length'')"
    "hdr_server sv = as_header (known sv ''Server'')" "hdr_date sv = as_header (known sv ''Date'')"
    by (simp_all add: common_headers_def hdr_host_def hdr_connection_def hdr_content_type_def
        hdr_content_length_def hdr_server_def hdr_date_def)
qed

lemma equals_common:
  assumes "server_ok sv" and "known sv k = Some h" and "n \<in> set common_headers"
  shows "cflare_headers_equals (as_header (Some h)) (as_header (known sv n)) = Inr (lower k = lower n)"
proof -
  from assms(1,3) obtain h' where "known sv n = Some h'" by (auto simp: server_ok_def)
  with assms equals_as_header [of "sv_headers sv" "lower k" h "lower n" h'] show ?thesis
    by (simp add: server_ok_def)
qed

text \<open>
  What a known header changes: the server keeps whether the connection stays open, where the host is and
  how long the content is.
\<close>

definition content_value :: "string \<Rightarrow> int" where
  "content_value x = (case cflare_tointeger (x @ [NUL]) of Inr (Some i) \<Rightarrow> i | _ \<Rightarrow> 0)"

definition is_content_length :: "string \<Rightarrow> bool" where
  "is_content_length k = (lower k = lower ''Content-Length'' \<and> lower k \<noteq> lower ''Host'' \<and>
     lower k \<noteq> lower ''Connection'' \<and> lower k \<noteq> lower ''Content-Type'')"

definition header_effect :: "string \<Rightarrow> string \<Rightarrow> nat \<Rightarrow> bool \<times> head_locals \<Rightarrow> bool \<times> head_locals" where
  "header_effect k x off s = (case s of (ka, hl) \<Rightarrow>
     if lower k = lower ''Host'' then (ka, hl\<lparr>hl_host := Some off, hl_host_len := length x\<rparr>)
     else if lower k = lower ''Connection'' then (find_str x ''keep-alive'' \<noteq> None, hl)
     else if is_content_length k then (ka, hl\<lparr>hl_content_length := content_value x\<rparr>)
     else (ka, hl))"

definition content_length_ok :: "string \<Rightarrow> string \<Rightarrow> bool" where
  "content_length_ok k x = (is_content_length k \<longrightarrow> (\<exists>i. cflare_tointeger (x @ [NUL]) = Inr (Some i)))"

lemma tointeger_cut: "NUL \<notin> set x \<Longrightarrow> cflare_tointeger (x @ NUL # r) = cflare_tointeger (x @ [NUL])"
  by (simp add: cflare_tointeger_def cstr_terminated)

lemma note_header_ok:
  assumes sv: "server_ok sv" "known sv k = Some h" and buf: "rq_buffer req = a @ x @ NUL # b" "plain x"
    and ok: "content_length_ok k x"
  shows "note_header sv req hl (as_header (Some h)) (length a) (length x) =
    (case header_effect k x (length a) (rq_keepalive req, hl) of (ka, hl') \<Rightarrow> continue (req\<lparr>rq_keepalive := ka\<rparr>, hl'))"
proof -
  note eq = equals_common [OF sv]
  have e: "cflare_headers_equals (as_header (Some h)) (hdr_host sv) = Inr (lower k = lower ''Host'')"
    "cflare_headers_equals (as_header (Some h)) (hdr_connection sv) = Inr (lower k = lower ''Connection'')"
    "cflare_headers_equals (as_header (Some h)) (hdr_content_type sv) = Inr (lower k = lower ''Content-Type'')"
    "cflare_headers_equals (as_header (Some h)) (hdr_content_length sv) = Inr (lower k = lower ''Content-Length'')"
    unfolding server_common [OF sv(1)] by (rule eq, simp add: common_headers_def)+
  have s: "strstr (drop (length a) (rq_buffer req)) pat = Inr (find_str x pat)" for pat
    using buf by (simp add: strstr_def cstr_tail plain_def)
  have t: "cflare_tointeger (drop (length a) (rq_buffer req)) = cflare_tointeger (x @ [NUL])"
    using buf tointeger_cut [of x b] by (simp add: plain_def)
  show ?thesis
  proof (cases "is_content_length k")
    case True
    with ok obtain i where "cflare_tointeger (x @ [NUL]) = Inr (Some i)" by (auto simp: content_length_ok_def)
    with True show ?thesis
      by (auto simp: note_header_def e s t header_effect_def is_content_length_def content_value_def)
  next
    case False
    then show ?thesis by (auto simp: note_header_def e s header_effect_def is_content_length_def)
  qed
qed

definition known_header :: "('p, 'f) server \<Rightarrow> string \<Rightarrow> string \<Rightarrow> nat \<Rightarrow> cflare_request_header list" where
  "known_header sv k x off = (case known sv k of None \<Rightarrow> []
     | Some h \<Rightarrow> [\<lparr>rh_header = as_header (Some h), rh_value = off, rh_value_len = length x\<rparr>])"

definition known_effect :: "('p, 'f) server \<Rightarrow> string \<Rightarrow> string \<Rightarrow> nat \<Rightarrow> bool \<times> head_locals \<Rightarrow> bool \<times> head_locals" where
  "known_effect sv k x off s = (if known sv k = None then s else header_effect k x off s)"

lemma header_line_known:
  assumes sv: "server_ok sv" and buf: "rq_buffer req = pre @ k @ '': '' @ x @ NUL # cur"
    and words: "header_name_ok k" "plain x"
    and room: "length (rq_headers req) < 32" "length (rq_buffer req) < 2 ^ 64"
  shows "header_line sv req hl (length pre) (length k + 2 + length x) =
      (let req2 = req\<lparr>rq_buffer := pre @ k @ NUL # '' '' @ x @ NUL # cur\<rparr> in
       if known sv k = None then continue (req2, hl)
       else note_header sv (req2\<lparr>rq_headers := rq_headers req2 @
              [\<lparr>rh_header = as_header (known sv k), rh_value = length pre + length k + 2, rh_value_len = length x\<rparr>]\<rparr>)
            hl (as_header (known sv k)) (length pre + length k + 2) (length x))"
proof -
  let ?val = "length pre + length k + 2"
  let ?b = "pre @ k @ NUL # '' '' @ x @ NUL # cur"
  have colon: "first_of (drop (length pre) (rq_buffer req)) (length k + 2 + length x) (CHR '':'') = Inr (Some (length k))"
    using buf words(1) first_of_here [of "CHR '':''" k "length k + 2 + length x" "'' '' @ x @ NUL # cur"]
    by (simp add: header_name_ok_def)
  have w1: "write_at (rq_buffer req) (length pre + length k) NUL = Inr ?b"
    unfolding buf using write_at_here(2) [of pre k "CHR '':''" "'' '' @ x @ NUL # cur" NUL] by simp
  have val: "length pre + length k + 1 + 1 = ?val" by simp
  have len: "sub64 (length k + 2 + length x) (length k + 1 + 1) = length x" by simp
  have "?val + length x < 2 ^ 64" using room(2) buf by simp
  then have m: "(?val + length x) mod 2 ^ 64 = ?val + length x" by simp
  have w2: "write_at ?b (?val + length x) NUL = Inr ?b"
    using write_at_here(2) [of "pre @ k @ NUL # '' ''" x NUL cur NUL] by simp
  have key: "cstr (drop (length pre) ?b) = Inr k"
    using words(1) cstr_tail [of k] by (simp add: header_name_ok_def plain_def)
  have inv: "hd_inv (sv_headers sv)" using sv by (simp add: server_ok_def)
  have "NUL \<notin> set k" using words(1) by (simp add: header_name_ok_def plain_def)
  from get_as_header [OF inv this] as_header_valid [OF inv, of "lower k"]
  have hdr: "cflare_headers_get (sv_headers sv) k = Inr (as_header (known sv k))"
    "cflare_headers_valid (as_header (known sv k)) \<longleftrightarrow> known sv k \<noteq> None" by simp_all
  show ?thesis
    unfolding header_line_def colon bindE_Inr option.case w1 Let_def val len m w2 key hdr(1)
    using room(1) hdr(2) by (simp add: CFLARE_REQUEST_MAX_HEADERS_def)
qed

lemma header_line_ok:
  assumes sv: "server_ok sv" and buf: "rq_buffer req = pre @ k @ '': '' @ x @ NUL # cur"
    and words: "header_name_ok k" "plain x" and ok: "known sv k \<noteq> None \<longrightarrow> content_length_ok k x"
    and room: "length (rq_headers req) < 32" "length (rq_buffer req) < 2 ^ 64"
  shows "header_line sv req hl (length pre) (length k + 2 + length x) =
    (case known_effect sv k x (length pre + length k + 2) (rq_keepalive req, hl) of (ka, hl') \<Rightarrow>
       continue (req\<lparr>rq_buffer := pre @ k @ NUL # '' '' @ x @ NUL # cur,
         rq_headers := rq_headers req @ known_header sv k x (length pre + length k + 2), rq_keepalive := ka\<rparr>, hl'))"
proof -
  let ?val = "length pre + length k + 2"
  let ?b = "pre @ k @ NUL # '' '' @ x @ NUL # cur"
  note step = header_line_known [OF sv buf words room, of hl]
  show ?thesis
  proof (cases "known sv k")
    case None
    then show ?thesis unfolding step by (simp add: known_header_def known_effect_def Let_def)
  next
    case (Some h)
    let ?req = "req\<lparr>rq_buffer := ?b, rq_headers := rq_headers req @
      [\<lparr>rh_header = as_header (Some h), rh_value = ?val, rh_value_len = length x\<rparr>]\<rparr>"
    have "rq_buffer ?req = (pre @ k @ NUL # '' '') @ x @ NUL # cur" by simp
    from note_header_ok [OF sv Some this words(2)] Some ok show ?thesis
      unfolding step by (simp add: known_header_def known_effect_def Let_def split: prod.split)
  qed
qed

text \<open>The headers of a whole head, and what they change in order.\<close>

fun known_headers :: "('p, 'f) server \<Rightarrow> string \<Rightarrow> nat \<Rightarrow> (string \<times> string) list \<Rightarrow> cflare_request_header list" where
  "known_headers sv eol off [] = []"
| "known_headers sv eol off ((k, x) # hs) = known_header sv k x (off + length k + 2) @
     known_headers sv eol (off + length k + 2 + length x + length eol) hs"

fun header_effects ::
  "('p, 'f) server \<Rightarrow> string \<Rightarrow> nat \<Rightarrow> (string \<times> string) list \<Rightarrow> bool \<times> head_locals \<Rightarrow> bool \<times> head_locals" where
  "header_effects sv eol off [] s = s"
| "header_effects sv eol off ((k, x) # hs) s =
     header_effects sv eol (off + length k + 2 + length x + length eol) hs
       (known_effect sv k x (off + length k + 2) s)"

lemma known_headers_length: "length (known_headers sv eol off hs) \<le> length hs"
  by (induction sv eol off hs rule: known_headers.induct)
    (auto simp: known_header_def le_SucI split: option.splits)

definition content_lengths_ok :: "('p, 'f) server \<Rightarrow> (string \<times> string) list \<Rightarrow> bool" where
  "content_lengths_ok sv hs = (\<forall>(k, x) \<in> set hs. known sv k \<noteq> None \<longrightarrow> content_length_ok k x)"

lemma plain_simps [simp]:
  "plain (a @ b) \<longleftrightarrow> plain a \<and> plain b" "plain []"
  "plain (c # s) \<longleftrightarrow> c \<noteq> NUL \<and> c \<noteq> CR \<and> c \<noteq> LF \<and> plain s"
  by (auto simp: plain_def)

lemma find_line_end:
  assumes "eol_ok eol" and "plain s" and "length s + length eol \<le> nbytes"
  shows "first_of (s @ eol @ cur) nbytes LF = Inr (Some (length s + length eol - 1))"
proof -
  from assms(1) obtain e where e: "eol = e @ [LF]" "LF \<notin> set e" by (auto simp: eol_ok_def)
  with first_of_here [of LF "s @ e" nbytes cur] assms(2,3) show ?thesis by (simp add: plain_def)
qed

lemma cut_eol_NUL:
  assumes "eol_ok eol"
  obtains e where "cut_eol eol = NUL # e" "last (NUL # e) \<noteq> CR"
  using assms that by (auto simp: eol_ok_def cut_eol_def split: if_splits)

text \<open>One turn of the loop on a line of the text: the blank line, a continuation, or a header.\<close>

lemma header_loop_line:
  assumes eol: "eol_ok eol" and buf: "rq_buffer req = pre @ s @ eol @ tail" "rq_buffer_position req = length pre"
    and s: "plain s" "pre \<noteq> []" "last pre \<noteq> CR" "length s + length eol \<le> nbytes"
  shows "header_loop sv req hl nbytes =
    (let req1 = req\<lparr>rq_buffer := pre @ s @ cut_eol eol @ tail,
                    rq_buffer_position := length pre + length s + length eol\<rparr>;
         n1 = nbytes - (length s + length eol)
     in if s = [] then continue (req1, hl, n1)
        else if hd s = CHR '' '' \<or> hd s = TAB
        then respond req1 400 ''request header invalid: nothing to continue''
        else bindS (header_line sv req1 hl (length pre) (length s)) (\<lambda>(req2, hl2). header_loop sv req2 hl2 n1))"
proof -
  have pos: "0 < length eol" using eol by (auto simp: eol_ok_def)
  have f: "first_of (drop (rq_buffer_position req) (rq_buffer req)) nbytes LF = Inr (Some (length s + length eol - 1))"
    using find_line_end [OF eol s(1,4), of tail] buf by simp
  have c: "cut_line (rq_buffer req) (rq_buffer_position req) (length s + length eol - 1) =
      Inr (pre @ s @ cut_eol eol @ tail, length s)"
    using buf cut_line_ok [OF eol s(1-3), of tail] by simp
  have l: "length s + length eol - 1 + 1 = length s + length eol" using pos by simp
  show ?thesis
  proof (cases s)
    case Nil
    then show ?thesis
      unfolding header_loop.simps [of sv req] f Let_def bindE_Inr option.case c prod.case l
      using buf(2) by simp
  next
    case (Cons a t)
    have r: "read_at (pre @ s @ cut_eol eol @ tail) (rq_buffer_position req) = Inr (hd s)"
      using Cons buf(2) by simp
    have "length s \<noteq> 0" using Cons by simp
    then show ?thesis
      unfolding header_loop.simps [of sv req] f Let_def bindE_Inr option.case c prod.case l r
      using Cons buf(2) by (simp add: add.assoc)
  qed
qed

lemma header_loop_rows:
  assumes sv: "server_ok sv" and eol: "eol_ok eol"
    and "rq_buffer req = pre @ rows_text eol hs @ tail" and "rq_buffer_position req = length pre"
    and "header_fields_ok hs" and "content_lengths_ok sv hs" and "length (rq_headers req) + length hs \<le> 32"
    and "length (rq_buffer req) < 2 ^ 64" and "pre \<noteq> []" and "last pre \<noteq> CR"
    and "length (rows_text eol hs) \<le> nbytes"
  shows "header_loop sv req hl nbytes =
    (case header_effects sv eol (length pre) hs (rq_keepalive req, hl) of (ka, hl') \<Rightarrow>
       header_loop sv (req\<lparr>rq_buffer := pre @ rows_cut eol hs @ tail,
         rq_buffer_position := length pre + length (rows_text eol hs),
         rq_headers := rq_headers req @ known_headers sv eol (length pre) hs, rq_keepalive := ka\<rparr>) hl'
         (nbytes - length (rows_text eol hs)))"
  using assms(3-)
proof (induction hs arbitrary: req pre hl nbytes)
  case Nil
  then have "req\<lparr>rq_buffer := pre @ tail, rq_buffer_position := length pre, rq_headers := rq_headers req,
      rq_keepalive := rq_keepalive req\<rparr> = req" by (cases req) simp
  then show ?case by simp
next
  case (Cons kx hs)
  obtain k x where kx: "kx = (k, x)" by fastforce
  from Cons.prems(3) kx have words: "header_name_ok k" "plain x" "header_fields_ok hs" "plain k"
    by (auto simp: header_fields_ok_def header_name_ok_def)
  from Cons.prems(4) kx have cl: "known sv k \<noteq> None \<longrightarrow> content_length_ok k x" "content_lengths_ok sv hs"
    by (auto simp: content_lengths_ok_def)
  let ?line = "k @ '': '' @ x" and ?tail = "rows_text eol hs @ tail"
  from cut_eol_NUL [OF eol] obtain e where e: "cut_eol eol = NUL # e" "last (NUL # e) \<noteq> CR" by blast
  have le: "length eol = Suc (length e)" using length_cut_eol [OF eol] e(1) by simp
  have buf: "rq_buffer req = pre @ ?line @ eol @ ?tail" using Cons.prems(1) kx by simp
  have line: "plain ?line" "?line \<noteq> []" "hd ?line \<noteq> CHR '' ''" "hd ?line \<noteq> TAB"
    using words(1,2,4) by (auto simp: header_name_ok_def)
  have n: "length ?line + length eol \<le> nbytes" using Cons.prems(9) kx by simp
  let ?off = "length pre + length ?line + length eol" and ?n1 = "nbytes - (length ?line + length eol)"
  let ?req1 = "req\<lparr>rq_buffer := pre @ ?line @ cut_eol eol @ ?tail, rq_buffer_position := ?off\<rparr>"
  have turn: "header_loop sv req hl nbytes =
      bindS (header_line sv ?req1 hl (length pre) (length ?line)) (\<lambda>(req2, hl2). header_loop sv req2 hl2 ?n1)"
    using header_loop_line [OF eol buf Cons.prems(2) line(1) Cons.prems(7,8) n] line(2-4) by (simp add: Let_def)
  obtain ka hl1 where eff: "known_effect sv k x (length pre + length k + 2) (rq_keepalive req, hl) = (ka, hl1)"
    by fastforce
  let ?pre = "pre @ k @ NUL # '' '' @ x @ NUL # e"
  let ?req2 = "?req1\<lparr>rq_buffer := ?pre @ ?tail,
    rq_headers := rq_headers req @ known_header sv k x (length pre + length k + 2), rq_keepalive := ka\<rparr>"
  have room: "length (rq_headers ?req1) < 32" "length (rq_buffer ?req1) < 2 ^ 64"
    using Cons.prems(5,6) buf le e(1) by simp_all
  have "header_line sv ?req1 hl (length pre) (length k + 2 + length x) = continue (?req2, hl1)"
    using header_line_ok [OF sv, of ?req1 pre k x "e @ ?tail" hl] words(1,2) cl(1) room eff e(1) by simp
  then have run: "header_loop sv req hl nbytes = header_loop sv ?req2 hl1 ?n1"
    unfolding turn by simp
  have len_pre: "length ?pre = ?off" using le by simp
  have "known_header sv k x (length pre + length k + 2) = [] \<or> length (known_header sv k x (length pre + length k + 2)) = 1"
    by (simp add: known_header_def split: option.split)
  then have count: "length (rq_headers ?req2) + length hs \<le> 32" using Cons.prems(5) by auto
  have "header_loop sv ?req2 hl1 ?n1 =
    (case header_effects sv eol (length ?pre) hs (rq_keepalive ?req2, hl1) of (ka, hl') \<Rightarrow>
       header_loop sv (?req2\<lparr>rq_buffer := ?pre @ rows_cut eol hs @ tail,
         rq_buffer_position := length ?pre + length (rows_text eol hs),
         rq_headers := rq_headers ?req2 @ known_headers sv eol (length ?pre) hs, rq_keepalive := ka\<rparr>) hl'
         (?n1 - length (rows_text eol hs)))"
  proof (rule Cons.IH)
    show "rq_buffer ?req2 = ?pre @ rows_text eol hs @ tail" by simp
    show "rq_buffer_position ?req2 = length ?pre" using len_pre by simp
    show "length (rq_buffer ?req2) < 2 ^ 64" using Cons.prems(6) buf le by simp
    show "last ?pre \<noteq> CR" using e(2) by simp
    show "length (rows_text eol hs) \<le> ?n1"
      using Cons.prems(9) kx by simp
  qed (use words(3) cl(2) count in simp_all)
  then show ?case
    unfolding run len_pre kx using eff e(1) le by (simp split: prod.split add: add.assoc)
qed

lemma last_cut_rows: "eol_ok eol \<Longrightarrow> last pre \<noteq> CR \<Longrightarrow> pre \<noteq> [] \<Longrightarrow> last (pre @ rows_cut eol hs) \<noteq> CR"
  by (induction hs rule: rev_induct) (auto simp: rows_cut_def cut_eol_def)

lemma header_loop_ok:
  assumes sv: "server_ok sv" and eol: "eol_ok eol"
    and buf: "rq_buffer req = pre @ header_text eol hs @ rest" and pos: "rq_buffer_position req = length pre"
    and ok: "header_fields_ok hs" "content_lengths_ok sv hs" "length (rq_headers req) + length hs \<le> 32"
      "length (rq_buffer req) < 2 ^ 64" "pre \<noteq> []" "last pre \<noteq> CR"
    and n: "length (header_text eol hs) \<le> nbytes"
  shows "header_loop sv req hl nbytes =
    (case header_effects sv eol (length pre) hs (rq_keepalive req, hl) of (ka, hl') \<Rightarrow>
       continue (req\<lparr>rq_buffer := pre @ header_cut eol hs @ rest,
         rq_buffer_position := length pre + length (header_text eol hs),
         rq_headers := rq_headers req @ known_headers sv eol (length pre) hs, rq_keepalive := ka\<rparr>, hl',
         nbytes - length (header_text eol hs)))"
proof -
  obtain ka hl' where eff: "header_effects sv eol (length pre) hs (rq_keepalive req, hl) = (ka, hl')" by fastforce
  let ?pre = "pre @ rows_cut eol hs"
  let ?req = "req\<lparr>rq_buffer := ?pre @ eol @ rest,
    rq_buffer_position := length pre + length (rows_text eol hs),
    rq_headers := rq_headers req @ known_headers sv eol (length pre) hs, rq_keepalive := ka\<rparr>"
  have b: "rq_buffer req = pre @ rows_text eol hs @ (eol @ rest)" using buf by (simp add: header_rows)
  have n': "length (rows_text eol hs) \<le> nbytes" using n by (simp add: header_rows)
  have run: "header_loop sv req hl nbytes = header_loop sv ?req hl' (nbytes - length (rows_text eol hs))"
    using header_loop_rows [OF sv eol b pos ok n', of hl] eff by simp
  have "rq_buffer ?req = ?pre @ [] @ eol @ rest" "rq_buffer_position ?req = length ?pre" "?pre \<noteq> []"
    "length [] + length eol \<le> nbytes - length (rows_text eol hs)"
    using n ok(5) length_rows_cut [OF eol] by (simp_all add: header_rows)
  from header_loop_line [OF eol this(1,2) _ this(3) last_cut_rows [OF eol ok(6,5)] this(4), of sv hl'] show ?thesis
    unfolding run using eff length_rows_cut [OF eol] by (simp add: header_rows add.assoc)
qed

section \<open>Where a head ends\<close>

definition ends_exactly :: "string \<Rightarrow> nat \<Rightarrow> bool" where
  "ends_exactly s k = (snd (scan_newlines s k) \<and> (\<forall>j < length s. \<not> snd (scan_newlines (take j s) k)))"

lemma ends_exactly_append:
  assumes "scan_newlines a k = (k', False)" and "ends_exactly b k'"
  shows "ends_exactly (a @ b) k"
proof -
  have "\<not> snd (scan_newlines (take j (a @ b)) k)" if "j < length (a @ b)" for j
  proof (cases "j \<le> length a")
    case True
    have "snd (scan_newlines (take j a) k) \<Longrightarrow> snd (scan_newlines (take j a @ drop j a) k)"
      unfolding scan_newlines_append by (auto split: prod.split)
    with assms(1) True show ?thesis by auto
  next
    case False
    with that assms show ?thesis by (simp add: scan_newlines_append ends_exactly_def)
  qed
  with assms show ?thesis by (simp add: ends_exactly_def scan_newlines_append)
qed

lemma scan_plain: "plain s \<Longrightarrow> s \<noteq> [] \<Longrightarrow> scan_newlines s k = (0, False)"
proof (induction s arbitrary: k)
  case (Cons c s)
  then show ?case by (cases "s = []") simp_all
qed simp

lemma scan_line:
  assumes "eol_ok eol" and "plain s" and "s \<noteq> []"
  shows "scan_newlines (s @ eol) k = (1, False)"
  using assms by (auto simp: scan_newlines_append scan_plain eol_ok_def)

lemma header_text_ends:
  assumes "eol_ok eol" and "header_fields_ok hs"
  shows "ends_exactly (header_text eol hs) 1"
  using assms(2)
proof (induction hs)
  case Nil
  have "ends_exactly [LF] 1" "ends_exactly [CR, LF] 1" by (simp_all add: ends_exactly_def All_less_Suc)
  with assms(1) show ?case by (auto simp: eol_ok_def)
next
  case (Cons kx hs)
  obtain k x where kx: "kx = (k, x)" by fastforce
  with Cons.prems have "plain (k @ '': '' @ x)" "header_fields_ok hs"
    by (auto simp: header_fields_ok_def header_name_ok_def)
  with ends_exactly_append [OF scan_line [OF assms(1), of "k @ '': '' @ x"] Cons.IH] kx show ?case by simp
qed

lemma head_text_complete:
  assumes "eol_ok eol" and "head_words_ok m p q v" and "header_fields_ok hs"
  shows "complete_head (head_text eol m p q v hs)"
proof -
  have "plain (m @ '' '' @ uri p q @ '' '' @ v)"
    using assms(2) by (auto simp: head_words_ok_def uri_def split: option.splits)
  from ends_exactly_append [OF scan_line [OF assms(1) this] header_text_ends [OF assms(1,3)]]
  show ?thesis by (simp add: complete_head_def ends_exactly_def head_text_def)
qed

section \<open>The whole head\<close>

definition head_cut ::
  "string \<Rightarrow> string \<Rightarrow> string \<Rightarrow> string option \<Rightarrow> string \<Rightarrow> (string \<times> string) list \<Rightarrow> string" where
  "head_cut eol m p q v hs = m @ NUL # p @ (case q of None \<Rightarrow> [] | Some x \<Rightarrow> NUL # x) @ NUL # v @
     cut_eol eol @ header_cut eol hs"

lemma length_uri: "length (uri p q) = length p + length (case q of None \<Rightarrow> [] | Some x \<Rightarrow> NUL # x)"
  by (simp add: uri_def split: option.split)

lemma length_head_cut: "eol_ok eol \<Longrightarrow> length (head_cut eol m p q v hs) = length (head_text eol m p q v hs)"
  by (simp add: head_cut_def head_text_def length_uri)

text \<open>Where the version and the headers start.\<close>

definition version_start :: "string \<Rightarrow> string \<Rightarrow> string option \<Rightarrow> nat" where
  "version_start m p q = length m + 1 + length (uri p q) + 1"

definition headers_start :: "string \<Rightarrow> string \<Rightarrow> string \<Rightarrow> string option \<Rightarrow> string \<Rightarrow> nat" where
  "headers_start eol m p q v = version_start m p q + length v + length eol"

definition no_locals :: head_locals where
  "no_locals = \<lparr>hl_host = None, hl_host_len = 0, hl_content_length = 0\<rparr>"

text \<open>The request once its first line is parsed, and once the rows behind it are.\<close>

definition line_cut :: "string \<Rightarrow> string \<Rightarrow> string \<Rightarrow> string option \<Rightarrow> string \<Rightarrow> string" where
  "line_cut eol m p q v = m @ NUL # p @ (case q of None \<Rightarrow> [] | Some x \<Rightarrow> NUL # x) @ NUL # v @ cut_eol eol"

definition line_text :: "string \<Rightarrow> string \<Rightarrow> string \<Rightarrow> string option \<Rightarrow> string \<Rightarrow> string" where
  "line_text eol m p q v = m @ '' '' @ uri p q @ '' '' @ v @ eol"

definition line_req ::
  "string \<Rightarrow> string \<Rightarrow> string \<Rightarrow> string option \<Rightarrow> string \<Rightarrow> string \<Rightarrow> cflare_request \<Rightarrow> cflare_request" where
  "line_req eol m p q v tail req = req\<lparr>rq_buffer := line_cut eol m p q v @ tail,
      rq_method := Some 0, rq_method_len := length m, rq_path := Some (length m + 1), rq_path_len := length p,
      rq_query := map_option (\<lambda>x. length m + 1 + length p + 1) q,
      rq_query_len := (case q of None \<Rightarrow> 0 | Some x \<Rightarrow> length x),
      rq_version := Some (version_start m p q), rq_version_len := length v,
      rq_buffer_position := headers_start eol m p q v, rq_headers := []\<rparr>"

lemma length_line:
  "length (line_text eol m p q v) = headers_start eol m p q v"
  "eol_ok eol \<Longrightarrow> length (line_cut eol m p q v) = headers_start eol m p q v"
  by (simp_all add: line_text_def line_cut_def headers_start_def version_start_def length_uri)

lemma head_lines:
  "head_text eol m p q v hs = line_text eol m p q v @ header_text eol hs"
  "head_cut eol m p q v hs = line_cut eol m p q v @ header_cut eol hs"
  by (simp_all add: head_text_def head_cut_def line_text_def line_cut_def)

lemma line_cut_ends: "line_cut eol m p q v \<noteq> []" "eol_ok eol \<Longrightarrow> last (line_cut eol m p q v) \<noteq> CR"
  by (auto simp: line_cut_def eol_ok_def cut_eol_def)

text \<open>What is left to do once the headers are read.\<close>

definition after_headers ::
  "('p, 'f) server \<Rightarrow> cflare_socket \<Rightarrow> cflare_request \<times> head_locals \<times> nat \<Rightarrow> cflare_request step" where
  "after_headers sv sk = (\<lambda>(req4, hl4, nbytes4).
     bindS (check_version sv req4 hl4) (\<lambda>(req5, hl5).
       continue (req5\<lparr>rq_host := hl_host hl5, rq_host_len := hl_host_len hl5,
                      rq_ip := Some (cflare_socket_ip sk), rq_port := cflare_socket_port sk,
                      rq_buffer_unread := nbytes4,
                      rq_content_length := to_size (hl_content_length hl5),
                      rq_content_length_unread := to_size (hl_content_length hl5)\<rparr>)))"

lemma parse_head_line:
  assumes eol: "eol_ok eol" and words: "head_words_ok m p q v"
    and buf: "rq_buffer req = line_text eol m p q v @ tail" "rq_buffer_position req = 0"
      "headers_start eol m p q v \<le> nbytes"
  shows "parse_head sv sk req nbytes =
    bindS (header_loop sv (line_req eol m p q v tail req) no_locals (nbytes - headers_start eol m p q v))
      (after_headers sv sk)"
proof -
  let ?u = "p @ (case q of None \<Rightarrow> [] | Some x \<Rightarrow> NUL # x)"
  let ?cur1 = "uri p q @ CHR '' '' # v @ eol @ tail" and ?cur2 = "v @ eol @ tail"
  have b0: "rq_buffer req = [] @ m @ CHR '' '' # ?cur1" using buf(1) by (simp add: line_text_def)
  have w: "CHR '' '' \<notin> set m" "CHR '' '' \<notin> set (uri p q)" "CHR ''?'' \<notin> set p" "plain v"
    using words by (auto simp: head_words_ok_def uri_def split: option.splits)
  have n: "length m < nbytes" "length (uri p q) < nbytes - (length m + 1)"
    "length v + length eol \<le> nbytes - (length m + 1) - (length (uri p q) + 1)"
    using buf(3) by (simp_all add: headers_start_def version_start_def)
  let ?req1 = "req\<lparr>rq_buffer := m @ NUL # ?cur1, rq_method := Some 0, rq_method_len := length m,
      rq_buffer_position := length m + 1\<rparr>" and ?n1 = "nbytes - (length m + 1)"
  have s1: "parse_method req nbytes = continue (?req1, ?n1)"
    using parse_method_ok [OF b0 _ w(1) n(1)] buf(2) by simp
  let ?req2 = "?req1\<lparr>rq_buffer := (m @ [NUL]) @ ?u @ NUL # ?cur2, rq_path := Some (length m + 1), rq_path_len := length p,
      rq_query := map_option (\<lambda>x. length m + 1 + length p + 1) q,
      rq_query_len := (case q of None \<Rightarrow> 0 | Some x \<Rightarrow> length x),
      rq_buffer_position := version_start m p q\<rparr>" and ?n2 = "?n1 - (length (uri p q) + 1)"
  have s2: "parse_path ?req1 ?n1 = continue (?req2, ?n2)"
    using parse_path_ok [of ?req1 "m @ [NUL]" p q ?cur2 ?n1] w(2,3) n(2) by (simp add: version_start_def)
  let ?pre = "m @ NUL # ?u @ [NUL]"
  have pre: "length ?pre = version_start m p q" "last ?pre \<noteq> CR"
    by (simp_all add: version_start_def length_uri)
  let ?req3 = "?req2\<lparr>rq_buffer := ?pre @ v @ cut_eol eol @ tail, rq_version := Some (version_start m p q),
      rq_version_len := length v, rq_buffer_position := headers_start eol m p q v\<rparr>"
    and ?n3 = "?n2 - (length v + length eol)"
  have s3: "parse_version ?req2 ?n2 = continue (?req3, ?n3)"
    using parse_version_ok [of ?req2 ?pre v eol tail ?n2] eol w(4) pre n(3) by (simp add: headers_start_def)
  have r: "?req3\<lparr>rq_headers := []\<rparr> = line_req eol m p q v tail req" by (simp add: line_req_def line_cut_def)
  have n3: "?n3 = nbytes - headers_start eol m p q v" by (simp add: headers_start_def version_start_def)
  show ?thesis
    unfolding parse_head_def s1 s2 s3 bindS_simps prod.case r n3 no_locals_def [symmetric] after_headers_def ..
qed

lemma parse_head_rows:
  assumes sv: "server_ok sv" and eol: "eol_ok eol" and words: "head_words_ok m p q v"
    and fields: "header_fields_ok hs" "content_lengths_ok sv hs" "length hs \<le> 32"
    and buf: "rq_buffer req = line_text eol m p q v @ rows_text eol hs @ tail" "rq_buffer_position req = 0"
      "length (rq_buffer req) < 2 ^ 64" "headers_start eol m p q v + length (rows_text eol hs) \<le> nbytes"
      and ka: "header_effects sv eol (headers_start eol m p q v) hs (rq_keepalive req, no_locals) = (ka, hl)"
  shows "parse_head sv sk req nbytes =
    bindS (header_loop sv ((line_req eol m p q v (rows_cut eol hs @ tail) req)
         \<lparr>rq_buffer_position := headers_start eol m p q v + length (rows_text eol hs),
          rq_headers := known_headers sv eol (headers_start eol m p q v) hs, rq_keepalive := ka\<rparr>) hl
         (nbytes - headers_start eol m p q v - length (rows_text eol hs)))
      (after_headers sv sk)"
proof -
  let ?req = "line_req eol m p q v (rows_text eol hs @ tail) req" and ?pre = "line_cut eol m p q v"
  have pre: "length ?pre = headers_start eol m p q v" using length_line(2) [OF eol] .
  have "rq_buffer ?req = ?pre @ rows_text eol hs @ tail" "rq_buffer_position ?req = length ?pre"
    "length (rq_headers ?req) + length hs \<le> 32" "length (rq_buffer ?req) < 2 ^ 64"
    "length (rows_text eol hs) \<le> nbytes - headers_start eol m p q v"
    using fields(3) buf pre length_line(1) [of eol m p q v] by (simp_all add: line_req_def)
  note loop = header_loop_rows [OF sv eol this(1,2) fields(1,2) this(3,4) line_cut_ends(1) line_cut_ends(2) [OF eol] this(5), of no_locals]
  have same: "rq_keepalive ?req = rq_keepalive req" "rq_headers ?req = []" by (simp_all add: line_req_def)
  have buf': "?req\<lparr>rq_buffer := ?pre @ rows_cut eol hs @ tail\<rparr> = line_req eol m p q v (rows_cut eol hs @ tail) req"
    by (cases req) (simp add: line_req_def)
  from loop
  have "header_loop sv ?req no_locals (nbytes - headers_start eol m p q v) =
    header_loop sv ((line_req eol m p q v (rows_cut eol hs @ tail) req)
         \<lparr>rq_buffer_position := headers_start eol m p q v + length (rows_text eol hs),
          rq_headers := known_headers sv eol (headers_start eol m p q v) hs, rq_keepalive := ka\<rparr>) hl
         (nbytes - headers_start eol m p q v - length (rows_text eol hs))"
    unfolding pre same ka buf' by (simp only: prod.case append_Nil)
  moreover have "headers_start eol m p q v \<le> nbytes" using buf(4) by simp
  ultimately show ?thesis using parse_head_line [OF eol words buf(1,2), of nbytes sv sk] by simp
qed

text \<open>The request once the whole head is read.\<close>

definition head_req ::
  "('p, 'f) server \<Rightarrow> string \<Rightarrow> string \<Rightarrow> string \<Rightarrow> string option \<Rightarrow> string \<Rightarrow> (string \<times> string) list \<Rightarrow> string
   \<Rightarrow> bool \<Rightarrow> cflare_request \<Rightarrow> cflare_request" where
  "head_req sv eol m p q v hs rest ka req = (line_req eol m p q v (header_cut eol hs @ rest) req)
     \<lparr>rq_buffer_position := length (head_text eol m p q v hs),
      rq_headers := known_headers sv eol (headers_start eol m p q v) hs, rq_keepalive := ka\<rparr>"

lemma parse_lines_ok:
  assumes sv: "server_ok sv" and eol: "eol_ok eol" and words: "head_words_ok m p q v"
    and fields: "header_fields_ok hs" "content_lengths_ok sv hs" "length hs \<le> 32"
    and buf: "rq_buffer req = head_text eol m p q v hs @ rest" "rq_buffer_position req = 0"
      "length (rq_buffer req) < 2 ^ 64" "length (head_text eol m p q v hs) \<le> nbytes"
    and ka: "header_effects sv eol (headers_start eol m p q v) hs (rq_keepalive req, no_locals) = (ka, hl)"
  shows "parse_head sv sk req nbytes = after_headers sv sk
    (head_req sv eol m p q v hs rest ka req, hl, nbytes - length (head_text eol m p q v hs))"
proof -
  let ?start = "headers_start eol m p q v"
  have len: "length (head_text eol m p q v hs) = ?start + length (rows_text eol hs) + length eol"
    unfolding head_lines header_rows length_append length_line(1) by simp
  let ?pre = "line_cut eol m p q v @ rows_cut eol hs"
  have pre: "length ?pre = ?start + length (rows_text eol hs)" "?pre \<noteq> []" "last ?pre \<noteq> CR"
    using length_line(2) [OF eol] length_rows_cut [OF eol] line_cut_ends(1) [of eol m p q v]
      last_cut_rows [OF eol line_cut_ends(2,1)] eol by simp_all
  let ?req = "(line_req eol m p q v (rows_cut eol hs @ eol @ rest) req)
     \<lparr>rq_buffer_position := ?start + length (rows_text eol hs),
      rq_headers := known_headers sv eol ?start hs, rq_keepalive := ka\<rparr>"
  have "rq_buffer ?req = ?pre @ [] @ eol @ rest" "rq_buffer_position ?req = length ?pre"
    "length [] + length eol \<le> nbytes - ?start - length (rows_text eol hs)"
    using pre(1) buf(4) len by (simp_all add: line_req_def)
  from header_loop_line [OF eol this(1,2) _ pre(2,3) this(3), of sv hl]
  have "header_loop sv ?req hl (nbytes - ?start - length (rows_text eol hs)) =
      continue (head_req sv eol m p q v hs rest ka req, hl, nbytes - length (head_text eol m p q v hs))"
    unfolding pre(1) len by (simp add: head_req_def line_req_def header_rows len)
  moreover have "rq_buffer req = line_text eol m p q v @ rows_text eol hs @ (eol @ rest)"
    "?start + length (rows_text eol hs) \<le> nbytes"
    using buf(1,4) len by (simp_all add: head_lines header_rows)
  ultimately show ?thesis
    using parse_head_rows [OF sv eol words fields _ buf(2,3) _ ka, of "eol @ rest" nbytes sk] by simp
qed

section \<open>What the server keeps of the headers\<close>

text \<open>The value of the last header of a name, up to case.\<close>

fun last_value :: "string \<Rightarrow> string option \<Rightarrow> (string \<times> string) list \<Rightarrow> string option" where
  "last_value n w [] = w"
| "last_value n w ((k, x) # hs) = last_value n (if lower k = lower n then Some x else w) hs"

lemma last_value_start: "last_value n w hs = (case last_value n None hs of None \<Rightarrow> w | Some y \<Rightarrow> Some y)"
proof (induction hs arbitrary: w)
  case (Cons a hs)
  obtain k x where "a = (k, x)" by fastforce
  with Cons.IH [of "Some x"] Cons.IH [of w] show ?case by (simp split: option.split)
qed simp

definition wants_keepalive :: "bool \<Rightarrow> (string \<times> string) list \<Rightarrow> bool" where
  "wants_keepalive ka hs = (case last_value ''Connection'' None hs of None \<Rightarrow> ka
     | Some x \<Rightarrow> \<exists>a b. x = a @ ''keep-alive'' @ b)"

lemma wants_keepalive_find:
  "wants_keepalive ka hs = (case last_value ''Connection'' None hs of None \<Rightarrow> ka
     | Some x \<Rightarrow> find_str x ''keep-alive'' \<noteq> None)"
  by (simp only: wants_keepalive_def find_str_iff)

definition content_length_of :: "(string \<times> string) list \<Rightarrow> int" where
  "content_length_of hs = (case last_value ''Content-Length'' None hs of None \<Rightarrow> 0 | Some x \<Rightarrow> content_value x)"

lemma common_distinct:
  "lower ''Host'' \<noteq> lower ''Connection''" "lower ''Content-Length'' \<noteq> lower ''Host''"
  "lower ''Content-Length'' \<noteq> lower ''Connection''" "lower ''Content-Length'' \<noteq> lower ''Content-Type''"
  by (simp_all add: lower_def tolower_def isupper_def char_of_def bit_Suc_0_iff)

lemma is_content_length_iff: "is_content_length k \<longleftrightarrow> lower k = lower ''Content-Length''"
  using common_distinct by (auto simp: is_content_length_def)

lemma known_common: "server_ok sv \<Longrightarrow> n \<in> set common_headers \<Longrightarrow> lower k = lower n \<Longrightarrow> known sv k \<noteq> None"
  by (simp add: server_ok_def)

definition holds_value :: "string \<Rightarrow> nat option \<Rightarrow> nat \<Rightarrow> string option \<Rightarrow> bool" where
  "holds_value buffer p len w = (case w of None \<Rightarrow> p = None | Some x \<Rightarrow> points_to buffer p x \<and> len = length x)"

lemma header_effects_values:
  assumes sv: "server_ok sv" and eol: "eol_ok eol"
    and "buffer = pre @ header_cut eol hs @ rest" and "off = length pre" and "header_fields_ok hs"
    and "holds_value buffer (hl_host hl) (hl_host_len hl) w"
  shows "case header_effects sv eol off hs (ka, hl) of (ka', hl') \<Rightarrow>
    holds_value buffer (hl_host hl') (hl_host_len hl') (last_value ''Host'' w hs) \<and>
    ka' = (case last_value ''Connection'' None hs of None \<Rightarrow> ka | Some x \<Rightarrow> find_str x ''keep-alive'' \<noteq> None) \<and>
    hl_content_length hl' = (case last_value ''Content-Length'' None hs of
      None \<Rightarrow> hl_content_length hl | Some x \<Rightarrow> content_value x)"
  using assms(3-)
proof (induction hs arbitrary: pre off hl w ka)
  case Nil
  then show ?case by simp
next
  case (Cons kx hs)
  obtain k x where kx: "kx = (k, x)" by fastforce
  from cut_eol_NUL [OF eol] obtain e where e: "cut_eol eol = NUL # e" by blast
  have le: "length eol = Suc (length e)" using length_cut_eol [OF eol] e by simp
  let ?pre = "pre @ k @ NUL # '' '' @ x @ cut_eol eol"
  obtain ka1 hl1 where eff: "known_effect sv k x (off + length k + 2) (ka, hl) = (ka1, hl1)" by fastforce
  have here: "points_to buffer (Some (off + length k + 2)) x"
    using Cons.prems kx e
    by (intro points_toI [of _ "pre @ k @ NUL # '' ''" _ "e @ header_cut eol hs @ rest"])
      (auto simp: header_fields_ok_def plain_def)
  have host: "holds_value buffer (hl_host hl1) (hl_host_len hl1) (if lower k = lower ''Host'' then Some x else w)"
    using eff Cons.prems(4) here known_common [OF sv, of "''Host''" k]
    by (cases w) (auto simp: known_effect_def header_effect_def holds_value_def common_headers_def split: if_splits)
  have ka1: "ka1 = (if lower k = lower ''Connection'' then find_str x ''keep-alive'' \<noteq> None else ka)"
    using eff common_distinct(1) known_common [OF sv, of "''Connection''" k]
    by (auto simp: known_effect_def header_effect_def common_headers_def split: if_splits)
  have cl: "hl_content_length hl1 = (if lower k = lower ''Content-Length'' then content_value x else hl_content_length hl)"
    using eff common_distinct known_common [OF sv, of "''Content-Length''" k]
    by (auto simp: known_effect_def header_effect_def is_content_length_iff common_headers_def split: if_splits)
  have b: "buffer = ?pre @ header_cut eol hs @ rest" "off + length k + 2 + length x + length eol = length ?pre"
    "header_fields_ok hs"
    using Cons.prems(1-3) kx e le by (auto simp: header_fields_ok_def)
  note gen = last_value_start [of _ "Some x" hs]
  obtain ka2 hl2 where fin: "header_effects sv eol (length ?pre) hs (ka1, hl1) = (ka2, hl2)" by fastforce
  from Cons.IH [OF b(1) refl b(3) host, of ka1] fin have ih:
    "holds_value buffer (hl_host hl2) (hl_host_len hl2)
       (last_value ''Host'' (if lower k = lower ''Host'' then Some x else w) hs)"
    "ka2 = (case last_value ''Connection'' None hs of None \<Rightarrow> ka1 | Some x \<Rightarrow> find_str x ''keep-alive'' \<noteq> None)"
    "hl_content_length hl2 = (case last_value ''Content-Length'' None hs of
       None \<Rightarrow> hl_content_length hl1 | Some x \<Rightarrow> content_value x)" by simp_all
  have run: "header_effects sv eol off (kx # hs) (ka, hl) = (ka2, hl2)"
    unfolding kx header_effects.simps eff b(2) by (rule fin)
  have "ka2 = (case last_value ''Connection'' None (kx # hs) of None \<Rightarrow> ka | Some x \<Rightarrow> find_str x ''keep-alive'' \<noteq> None)"
    unfolding ih(2) ka1 kx
    by (cases "last_value ''Connection'' None hs") (simp_all add: gen [of "''Connection''"])
  moreover have "hl_content_length hl2 = (case last_value ''Content-Length'' None (kx # hs) of
       None \<Rightarrow> hl_content_length hl | Some x \<Rightarrow> content_value x)"
    unfolding ih(3) cl kx
    by (cases "last_value ''Content-Length'' None hs") (simp_all add: gen [of "''Content-Length''"])
  ultimately show ?case unfolding run using ih(1) kx by simp
qed

lemma known_headers_values:
  assumes sv: "server_ok sv" and eol: "eol_ok eol"
    and "buffer = pre @ header_cut eol hs @ rest" and "off = length pre" and "header_fields_ok hs"
  shows "list_all2 (\<lambda>rh (k, x). rh_header rh = as_header (known sv k) \<and>
      points_to buffer (Some (rh_value rh)) x \<and> rh_value_len rh = length x)
    (known_headers sv eol off hs) (filter (\<lambda>(k, x). known sv k \<noteq> None) hs)"
  using assms(3-)
proof (induction hs arbitrary: pre off)
  case (Cons kx hs)
  obtain k x where kx: "kx = (k, x)" by fastforce
  from cut_eol_NUL [OF eol] obtain e where e: "cut_eol eol = NUL # e" by blast
  have le: "length eol = Suc (length e)" using length_cut_eol [OF eol] e by simp
  let ?pre = "pre @ k @ NUL # '' '' @ x @ cut_eol eol"
  have here: "points_to buffer (Some (off + length k + 2)) x"
    using Cons.prems kx e
    by (intro points_toI [of _ "pre @ k @ NUL # '' ''" _ "e @ header_cut eol hs @ rest"])
      (auto simp: header_fields_ok_def plain_def)
  have "buffer = ?pre @ header_cut eol hs @ rest" "off + length k + 2 + length x + length eol = length ?pre"
    "header_fields_ok hs"
    using Cons.prems kx e le by (auto simp: header_fields_ok_def)
  from Cons.IH [OF this] here kx show ?case
    by (auto simp: known_header_def split: option.splits)
qed simp

section \<open>The version\<close>

text \<open>A version the server speaks without looking for the host in the path.\<close>

definition version_ok :: "string \<Rightarrow> (string \<times> string) list \<Rightarrow> bool" where
  "version_ok v hs = (8 \<le> length v \<and> v ! 5 = CHR ''1'' \<and> v ! 7 \<noteq> CHR ''2'' \<and>
     (v ! 7 = CHR ''1'' \<longrightarrow> last_value ''Host'' None hs \<noteq> None))"

lemma check_version_ok:
  assumes "rq_buffer req = pre @ v @ rest" and "rq_version req = Some (length pre)" and "version_ok v hs"
    and "hl_host hl = None \<longrightarrow> last_value ''Host'' None hs = None"
  shows "check_version sv req hl = continue (req\<lparr>rq_keepalive := (v ! 7 = CHR ''1'' \<and> rq_keepalive req)\<rparr>, hl)"
proof -
  have "read_at (rq_buffer req) (length pre + 5) = Inr (v ! 5)" "read_at (rq_buffer req) (length pre + 7) = Inr (v ! 7)"
    using assms(1,3) by (simp_all add: read_at_def version_ok_def nth_append)
  with assms(2-4) show ?thesis by (auto simp: check_version_def version_ok_def)
qed

section \<open>The request a head is parsed to\<close>

definition request_holds ::
  "('p, 'f) server \<Rightarrow> string \<Rightarrow> string \<Rightarrow> string option \<Rightarrow> string \<Rightarrow> (string \<times> string) list \<Rightarrow> cflare_request \<Rightarrow> bool" where
  "request_holds sv m p q v hs req = (let text = rq_buffer req in
     points_to text (rq_method req) m \<and> rq_method_len req = length m \<and>
     points_to text (rq_path req) p \<and> rq_path_len req = length p \<and>
     holds_value text (rq_query req) (rq_query_len req) q \<and>
     points_to text (rq_version req) v \<and> rq_version_len req = length v \<and>
     list_all2 (\<lambda>rh (k, x). rh_header rh = as_header (known sv k) \<and>
         points_to text (Some (rh_value rh)) x \<and> rh_value_len rh = length x)
       (rq_headers req) (filter (\<lambda>(k, x). known sv k \<noteq> None) hs) \<and>
     holds_value text (rq_host req) (rq_host_len req) (last_value ''Host'' None hs) \<and>
     rq_keepalive req = (v ! 7 = CHR ''1'' \<and> wants_keepalive True hs) \<and>
     rq_content_length req = to_size (content_length_of hs) \<and>
     rq_content_length_unread req = rq_content_length req)"

lemma head_cut_points:
  assumes "eol_ok eol" and "head_words_ok m p q v"
  shows "points_to (head_cut eol m p q v hs @ rest) (Some 0) m"
    "points_to (head_cut eol m p q v hs @ rest) (Some (length m + 1)) p"
    "q = Some x \<Longrightarrow> points_to (head_cut eol m p q v hs @ rest) (Some (length m + 1 + length p + 1)) x"
    "points_to (head_cut eol m p q v hs @ rest) (Some (version_start m p q)) v"
proof -
  let ?q = "case q of None \<Rightarrow> [] | Some x \<Rightarrow> NUL # x"
  from cut_eol_NUL [OF assms(1)] obtain e where e: "cut_eol eol = NUL # e" by blast
  let ?tail = "v @ NUL # e @ header_cut eol hs @ rest"
  have b: "head_cut eol m p q v hs @ rest = m @ NUL # p @ ?q @ NUL # ?tail" by (simp add: head_cut_def e)
  have w: "NUL \<notin> set m" "NUL \<notin> set p" "NUL \<notin> set v" "q = Some x \<Longrightarrow> NUL \<notin> set x"
    using assms(2) by (auto simp: head_words_ok_def plain_def)
  obtain r where r: "?q @ NUL # ?tail = NUL # r" by (cases q) auto
  show "points_to (head_cut eol m p q v hs @ rest) (Some 0) m"
    unfolding b by (rule points_toI [of _ "[]"]) (use w in simp_all)
  show "points_to (head_cut eol m p q v hs @ rest) (Some (length m + 1)) p"
    unfolding b r by (rule points_toI [of _ "m @ [NUL]" _ r]) (use w in simp_all)
  show "points_to (head_cut eol m p q v hs @ rest) (Some (length m + 1 + length p + 1)) x" if "q = Some x"
    unfolding b by (rule points_toI [of _ "m @ NUL # p @ [NUL]" _ ?tail]) (use w that in simp_all)
  show "points_to (head_cut eol m p q v hs @ rest) (Some (version_start m p q)) v"
    unfolding b by (rule points_toI [of _ "m @ NUL # p @ ?q @ [NUL]" _ "e @ header_cut eol hs @ rest"])
      (use w in \<open>simp_all add: version_start_def length_uri\<close>)
qed

lemma parse_head_ok:
  assumes sv: "server_ok sv" and eol: "eol_ok eol" and words: "head_words_ok m p q v"
    and fields: "header_fields_ok hs" "content_lengths_ok sv hs" "length hs \<le> 32" and ver: "version_ok v hs"
    and buf: "rq_buffer req = head_text eol m p q v hs @ rest" "rq_buffer_position req = 0"
      "length (rq_buffer req) < 2 ^ 64" "length (head_text eol m p q v hs) \<le> nbytes" and ka: "rq_keepalive req"
  shows "\<exists>req'. parse_head sv sk req nbytes = continue req' \<and> request_holds sv m p q v hs req' \<and>
    rq_buffer req' = head_cut eol m p q v hs @ rest \<and>
    rq_buffer_position req' = length (head_text eol m p q v hs) \<and>
    rq_buffer_unread req' = nbytes - length (head_text eol m p q v hs) \<and>
    rq_response req' = rq_response req \<and> rq_ip req' = Some (sk_ip sk) \<and> rq_port req' = sk_port sk"
proof -
  let ?start = "headers_start eol m p q v" and ?text = "head_cut eol m p q v hs @ rest"
    and ?n = "nbytes - length (head_text eol m p q v hs)"
  obtain ka hl where eff: "header_effects sv eol ?start hs (True, no_locals) = (ka, hl)" by fastforce
  let ?req4 = "head_req sv eol m p q v hs rest ka req"
  have run: "parse_head sv sk req nbytes = after_headers sv sk (?req4, hl, ?n)"
    using parse_lines_ok [OF sv eol words fields buf, of ka hl sk] eff ka by simp
  have req4: "rq_buffer ?req4 = ?text" by (simp add: head_req_def line_req_def head_lines)
  let ?pre = "m @ NUL # p @ (case q of None \<Rightarrow> [] | Some x \<Rightarrow> NUL # x) @ [NUL]"
  have pre: "?text = ?pre @ v @ cut_eol eol @ header_cut eol hs @ rest" "length ?pre = version_start m p q"
    by (simp_all add: head_cut_def version_start_def length_uri)
  have pre4: "?text = (?pre @ v @ cut_eol eol) @ header_cut eol hs @ rest" "?start = length (?pre @ v @ cut_eol eol)"
    using pre eol by (simp_all add: headers_start_def)
  have "holds_value ?text (hl_host no_locals) (hl_host_len no_locals) None"
    by (simp add: holds_value_def no_locals_def)
  from header_effects_values [OF sv eol pre4 fields(1) this, of True] eff have vals:
    "holds_value ?text (hl_host hl) (hl_host_len hl) (last_value ''Host'' None hs)" "ka = wants_keepalive True hs"
    "hl_content_length hl = content_length_of hs"
    by (simp_all add: wants_keepalive_find content_length_of_def no_locals_def cong: option.case_cong)
  have b4: "rq_buffer ?req4 = ?pre @ v @ cut_eol eol @ header_cut eol hs @ rest"
    unfolding pre(1) [symmetric] by (rule req4)
  have v4: "rq_version ?req4 = Some (length ?pre)" unfolding pre(2) by (simp add: head_req_def line_req_def)
  have h4: "hl_host hl = None \<longrightarrow> last_value ''Host'' None hs = None"
    using vals(1) by (auto simp: holds_value_def points_to_def split: option.splits)
  have check: "check_version sv ?req4 hl =
      continue (?req4\<lparr>rq_keepalive := (v ! 7 = CHR ''1'' \<and> ka)\<rparr>, hl)"
    using check_version_ok [OF b4 v4 ver h4, of sv] by (simp add: head_req_def)
  let ?req = "?req4\<lparr>rq_keepalive := (v ! 7 = CHR ''1'' \<and> ka), rq_host := hl_host hl, rq_host_len := hl_host_len hl,
    rq_ip := Some (sk_ip sk), rq_port := sk_port sk, rq_buffer_unread := ?n,
    rq_content_length := to_size (hl_content_length hl), rq_content_length_unread := to_size (hl_content_length hl)\<rparr>"
  have "parse_head sv sk req nbytes = continue ?req"
    unfolding run by (simp add: after_headers_def check cflare_socket_ip_def cflare_socket_port_def)
  moreover have "request_holds sv m p q v hs ?req"
    using head_cut_points(1,2,4) [OF eol words, of hs rest] head_cut_points(3) [OF eol words, of _ hs rest] vals known_headers_values [OF sv eol pre4 fields(1)] req4
    by (cases q) (simp_all add: request_holds_def Let_def head_req_def line_req_def head_lines holds_value_def)
  ultimately show ?thesis using req4 by (intro exI [of _ ?req]) (simp add: head_req_def line_req_def)
qed

end
