(* ===== verification/ResponseText.thy ===== *)
theory ResponseText
  imports RequestParse
begin

text \<open>
  The text of an answer: the status line, the headers in the order the server writes them, a blank line
  and the data; and the text of the short answers. And a server to try the properties on, with the
  headers it asks for loaded by name.
\<close>

section \<open>Collecting headers\<close>

definition header_row :: "string \<Rightarrow> string \<Rightarrow> string" where
  "header_row name val = name @ '': '' @ val @ [LF]"

lemma length_header_row [simp]: "length (header_row name val) = length name + length val + 3"
  by (simp add: header_row_def)

definition collected :: "cflare_response \<Rightarrow> string" where
  "collected r = take (rs_buffer_pos r) (rs_buffer r)"

definition response_ok :: "cflare_response \<Rightarrow> bool" where
  "response_ok r = (length (rs_buffer r) = 4096 \<and> rs_buffer_pos r < 4096)"

lemma length_collected: "response_ok r \<Longrightarrow> length (collected r) = rs_buffer_pos r"
  by (simp add: collected_def response_ok_def)

lemma response_header_fits:
  assumes ok: "response_ok r" and name: "hdr_name h = Some name" and fits: "length (collected r @ header_row name val) < 4096"
  shows "\<exists>r'. cflare_response_header r h val = Inr r' \<and> response_ok r' \<and>
    collected r' = collected r @ header_row name val \<and>
    rs_sent r' = rs_sent r \<and> rs_keepalive r' = rs_keepalive r \<and> rs_status_code r' = rs_status_code r"
proof -
  let ?row = "header_row name val" and ?pos = "rs_buffer_pos r"
  let ?b = "take ?pos (rs_buffer r) @ ?row @ drop (?pos + length ?row) (rs_buffer r)"
  have l: "?pos + length ?row < 4096" "length (rs_buffer r) = 4096"
    using fits ok length_collected [OF ok] by (simp_all add: response_ok_def)
  have c: "memcpy_at (rs_buffer r) ?pos ?row = Inr ?b" using l by (simp add: memcpy_at_def)
  have "cflare_response_header r h val = Inr (r\<lparr>rs_buffer := ?b, rs_buffer_pos := ?pos + length ?row\<rparr>)"
    using l(1) c unfolding header_row_def
    by (simp add: cflare_response_header_def name CFLARE_RESPONSE_MAX_LENGTH_def Let_def)
  moreover have "take (?pos + length ?row) ?b = collected r @ ?row" "length ?b = 4096"
    using l unfolding collected_def by simp_all
  ultimately show ?thesis using l(1) unfolding collected_def response_ok_def by simp
qed

lemma response_header_full:
  assumes "response_ok r" and "hdr_name h = Some name" and "4096 \<le> length (collected r @ header_row name val)"
  shows "cflare_response_header r h val = Inr r"
  using assms length_collected [OF assms(1)]
  by (auto simp: cflare_response_header_def response_ok_def CFLARE_RESPONSE_MAX_LENGTH_def Let_def)

section \<open>The text of a response\<close>

text \<open>The reason of a status, and the status line where it fits the 128 bytes it is printed to.\<close>

definition reason_text :: "('p, 'f) server \<Rightarrow> 32 word \<Rightarrow> string" where
  "reason_text sv code = (case reason_of (sv_statuses sv) code of None \<Rightarrow> ''Unknown'' | Some s \<Rightarrow> s)"

definition status_text :: "('p, 'f) server \<Rightarrow> 32 word \<Rightarrow> string" where
  "status_text sv code = ''HTTP/1.1 '' @ decimal (unat code) @ '' '' @ reason_text sv code @ [LF]"

lemma status_line_text:
  assumes "sc_inv (sv_statuses sv)" and "length (status_text sv code) < 128"
  shows "status_line sv code = Inr (status_text sv code)"
  using assms by (simp add: status_line_def tostring_reason status_text_def reason_text_def assertE_def Let_def)

definition answer_keepalive :: "cflare_request \<Rightarrow> bool" where
  "answer_keepalive req = (rq_keepalive req \<and> rs_keepalive (rq_response req) \<and> rq_content_length_unread req = 0)"

text \<open>The header names are those the table has, in whatever case they were loaded.\<close>

definition named :: "('p, 'f) server \<Rightarrow> string \<Rightarrow> string \<Rightarrow> string \<Rightarrow> string \<Rightarrow> bool" where
  "named sv len_name server_name date_name connection_name =
     (hdr_name (hdr_content_length sv) = Some len_name \<and> hdr_name (hdr_server sv) = Some server_name \<and>
      hdr_name (hdr_date sv) = Some date_name \<and> hdr_name (hdr_connection sv) = Some connection_name)"

definition head_rows :: "('p, 'f) server \<Rightarrow> string \<Rightarrow> string \<Rightarrow> string \<Rightarrow> bool \<Rightarrow> string" where
  "head_rows sv server_name date_name connection_name keepalive =
     header_row server_name ''cflare'' @ header_row date_name (sv_date sv) @
     header_row connection_name (if keepalive then ''keep-alive'' else ''close'')"

lemma send_headers_text:
  assumes sv: "sc_inv (sv_statuses sv)" "named sv ln sn dn cn"
    and r: "response_ok (rq_response req)" "\<not> rs_sent (rq_response req)" "sk_connected sk"
    and fits: "length (status_text sv (rs_status_code (rq_response req))) < 128"
      "length (collected (rq_response req) @ head_rows sv sn dn cn (answer_keepalive req)) < 4095"
    and acc: "accepting n (m + 128 + 4096)"
  shows "\<exists>r' n'. send_headers sv req sk n = Inr (req\<lparr>rq_response := r'\<rparr>, sk, n', True) \<and>
    rs_sent r' \<and> rs_keepalive r' = answer_keepalive req \<and>
    accepting n' m \<and> net_incoming n' = net_incoming n \<and> net_closed n' = net_closed n \<and>
    net_sent n' = net_sent n @ status_text sv (rs_status_code (rq_response req)) @ collected (rq_response req) @
      head_rows sv sn dn cn (answer_keepalive req) @ [LF] \<and> response_ok r'"
proof -
  let ?r = "rq_response req" and ?ka = "answer_keepalive req"
  let ?rk = "?r\<lparr>rs_keepalive := ?ka\<rparr>" and ?conn = "if ?ka then ''keep-alive'' else ''close''"
  have r0: "response_ok ?rk" "collected ?rk = collected ?r" using r(1) by (simp_all add: response_ok_def collected_def)
  have s0: "rs_sent ?rk = rs_sent ?r" "rs_keepalive ?rk = ?ka" "rs_status_code ?rk = rs_status_code ?r" by simp_all
  have names: "hdr_name (hdr_server sv) = Some sn" "hdr_name (hdr_date sv) = Some dn"
    "hdr_name (hdr_connection sv) = Some cn" using sv(2) by (simp_all add: named_def)
  have l: "length (collected ?r) + length (header_row sn ''cflare'') + length (header_row dn (sv_date sv)) +
      length (header_row cn ?conn) < 4096"
    using fits(2) unfolding head_rows_def length_append by (simp only: add.assoc)
  have "length (collected ?rk @ header_row sn ''cflare'') < 4096" unfolding r0(2) using l by simp
  from response_header_fits [OF r0(1) names(1) this, unfolded r0(2) s0] obtain r1 where r1:
    "cflare_response_header ?rk (hdr_server sv) ''cflare'' = Inr r1" "response_ok r1"
    "collected r1 = collected ?r @ header_row sn ''cflare''" "rs_keepalive r1 = ?ka"
    "rs_status_code r1 = rs_status_code ?r" by blast
  from response_header_fits [OF r1(2) names(2), of "sv_date sv"] l r1(3) obtain r2 where r2:
    "cflare_response_header r1 (hdr_date sv) (sv_date sv) = Inr r2" "response_ok r2"
    "collected r2 = collected r1 @ header_row dn (sv_date sv)" "rs_keepalive r2 = ?ka"
    "rs_status_code r2 = rs_status_code ?r" using r1(4,5) by auto
  from response_header_fits [OF r2(2) names(3), of ?conn] l r1(3) r2(3) obtain r3 where r3:
    "cflare_response_header r2 (hdr_connection sv) ?conn = Inr r3" "response_ok r3"
    "collected r3 = collected r2 @ header_row cn ?conn" "rs_keepalive r3 = ?ka"
    "rs_status_code r3 = rs_status_code ?r" using r2(4,5) by auto
  have text3: "collected r3 = collected ?r @ head_rows sv sn dn cn ?ka"
    using r1(3) r2(3) r3(3) by (simp add: head_rows_def)
  have status: "status_line sv (rs_status_code r3) = Inr (status_text sv (rs_status_code ?r))"
    using status_line_text [OF sv(1) fits(1)] r3(5) by simp
  have "accepting n (m + 4096 + max 1 (length (status_text sv (rs_status_code ?r))))"
    using acc fits(1) by (auto simp: accepting_def)
  from socket_write_accepting [OF r(3) this] fits(1) obtain n1 where n1:
    "cflare_socket_write sk n (status_text sv (rs_status_code ?r)) = Inr (sk, n1, True)" "accepting n1 (m + 4096)"
    "net_sent n1 = net_sent n @ status_text sv (rs_status_code ?r)" "net_incoming n1 = net_incoming n"
    "net_closed n1 = net_closed n" by auto
  let ?b = "(rs_buffer r3)[rs_buffer_pos r3 := LF]"
  have w: "write_at (rs_buffer r3) (rs_buffer_pos r3) LF = Inr ?b"
    using r3(2) by (simp add: write_at_def response_ok_def)
  have t: "take (rs_buffer_pos r3 + 1) ?b = collected r3 @ [LF]"
    using r3(2) by (simp add: response_ok_def collected_def take_Suc_conv_app_nth)
  have "length (collected r3 @ [LF]) \<le> 4096" using length_collected [OF r3(2)] r3(2) by (simp add: response_ok_def)
  then have "accepting n1 (m + max 1 (length (collected r3 @ [LF])))" "length (collected r3 @ [LF]) < 2 ^ 31"
    using n1(2) by (auto simp: accepting_def)
  from socket_write_accepting [OF r(3) this] obtain n2 where n2:
    "cflare_socket_write sk n1 (collected r3 @ [LF]) = Inr (sk, n2, True)" "accepting n2 m"
    "net_sent n2 = net_sent n1 @ collected r3 @ [LF]" "net_incoming n2 = net_incoming n1"
    "net_closed n2 = net_closed n1" by auto
  let ?fin = "r3\<lparr>rs_sent := True, rs_buffer := ?b, rs_buffer_pos := rs_buffer_pos r3 + 1\<rparr>"
  have ka: "(rq_keepalive req \<and> rs_keepalive ?r \<and> rq_content_length_unread req = 0) = ?ka"
    by (simp add: answer_keepalive_def)
  have "send_headers sv req sk n = Inr (req\<lparr>rq_response := ?fin\<rparr>, sk, n2, True)"
    unfolding send_headers_def Let_def ka
    using r(2) t n2(1) by (simp add: r1(1) r2(1) r3(1) status n1(1) w)
  moreover have "response_ok ?fin"
    using r3(2) fits(2) length_collected [OF r3(2)] unfolding text3 response_ok_def by simp
  ultimately show ?thesis using r3(4) n1 n2 text3 by (intro exI [of _ ?fin] exI [of _ n2]) simp
qed

section \<open>The short answers\<close>

definition quick_text :: "32 word \<Rightarrow> string \<Rightarrow> string \<Rightarrow> string" where
  "quick_text status reason message = quick_headers status reason (length message) False @ [LF] @ message @ [LF]"

lemma quick_response_text:
  assumes sv: "sc_inv (sv_statuses sv)" "reason_of (sv_statuses sv) status = Some reason"
    and sk: "sk_connected sk" "0 \<le> sk_fd sk" and len: "length (quick_text status reason message) < 2 ^ 31"
    and acc: "accepting n (m + 2 + length (quick_text status reason message))"
  shows "\<exists>sk' n'. quick_response_socket sv sk n status message False = Inr (sk', n') \<and>
    \<not> sk_connected sk' \<and> net_sent n' = net_sent n @ quick_text status reason message \<and> accepting n' m \<and>
    net_incoming n' = net_incoming n \<and> net_closed n' = net_closed n @ [sk_fd sk]"
proof -
  let ?h = "quick_headers status reason (length message) False"
  have l: "length (quick_text status reason message) = length ?h + 1 + length message + 1" by (simp add: quick_text_def)
  have "accepting n ((m + 2 + length message) + 2 + length ?h)" "length ?h < 2 ^ 31"
    using acc len unfolding l by (simp_all add: ac_simps)
  from socket_write_line_accepting [OF sk(1) this] obtain n1 where n1:
    "cflare_socket_write_line sk n ?h = Inr (sk, n1, True)" "accepting n1 (m + 2 + length message)"
    "net_sent n1 = net_sent n @ ?h @ [LF]" "net_incoming n1 = net_incoming n" "net_closed n1 = net_closed n" by blast
  have "length message < 2 ^ 31" using len unfolding l by simp
  from socket_write_line_accepting [OF sk(1) n1(2) this] obtain n2 where
    "cflare_socket_write_line sk n1 message = Inr (sk, n2, True)" "accepting n2 m"
    "net_sent n2 = net_sent n1 @ message @ [LF]" "net_incoming n2 = net_incoming n1" "net_closed n2 = net_closed n1"
    by blast
  with n1 sv sk(2) show ?thesis
    by (simp add: quick_response_socket_def tostring_reason cflare_socket_close_def quick_text_def accepting_def)
qed

section \<open>A server\<close>

lemma add_statuses:
  assumes "sc_inv sc"
  shows "\<forall>(c, r) \<in> set crs. NUL \<notin> set r \<Longrightarrow> distinct (map fst crs) \<Longrightarrow>
    \<exists>sc'. sc_inv sc' \<and> (\<forall>(c, r) \<in> set crs. reason_of sc' c = Some r)"
proof (induction crs)
  case Nil
  with assms show ?case by auto
next
  case (Cons cr crs)
  obtain c r where cr: "cr = (c, r)" by fastforce
  from Cons cr obtain sc1 where sc1: "sc_inv sc1" "\<forall>(c, r) \<in> set crs. reason_of sc1 c = Some r" by auto
  from add_status_ok [OF sc1(1), of r c "[]"] Cons.prems(1) cr obtain sc2 where
    "sc_inv sc2" "reason_of sc2 = (reason_of sc1)(c \<mapsto> r)" by auto
  with sc1(2) Cons.prems(2) cr show ?case by (intro exI [of _ sc2]) (fastforce simp: image_iff)
qed

lemma ensure_all:
  assumes "hd_inv st"
  shows "\<forall>n \<in> set ns. NUL \<notin> set n \<and> length n \<le> 64 \<Longrightarrow> gid st + length ns < 2 ^ 31 \<Longrightarrow>
    \<exists>st'. hd_inv st' \<and> gid st' \<le> gid st + length ns \<and> (\<forall>n \<in> set ns. header_map st' (lower n) \<noteq> None)"
proof (induction ns)
  case Nil
  with assms show ?case by auto
next
  case (Cons n ns)
  then obtain st1 where st1: "hd_inv st1" "gid st1 \<le> gid st + length ns" "\<forall>n \<in> set ns. header_map st1 (lower n) \<noteq> None"
    by auto
  have "gid st1 < 2 ^ 31" using st1(2) Cons.prems(2) by simp
  from create_header_ok [OF st1(1) _ _ this, of n] Cons.prems(1) obtain st2 p where
    "hd_inv st2" "gid st2 = gid st1 + 1" "header_map st2 = (header_map st1)(lower n \<mapsto> \<lparr>lh_id = int (gid st1),
       lh_name = n, lh_last_used = 0, lh_on_disk = False\<rparr>)" by auto
  with st1(2,3) show ?case by (intro exI [of _ st2]) auto
qed

lemma server_exists:
  "\<exists>sv :: (int, int) server. server_ok sv \<and> sc_inv (sv_statuses sv) \<and> sv_hooks sv = no_hooks \<and> sv_date sv = [] \<and>
    reason_of (sv_statuses sv) 400 = Some ''Bad Request'' \<and>
    reason_of (sv_statuses sv) 413 = Some ''Too Large'' \<and>
    reason_of (sv_statuses sv) 500 = Some ''Error''"
proof -
  have "\<forall>n \<in> set common_headers. NUL \<notin> set n \<and> length n \<le> 64" by (simp add: common_headers_def)
  moreover have "gid no_headers + length common_headers < 2 ^ 31" by (simp add: no_headers_def common_headers_def)
  ultimately obtain st where st: "hd_inv st" "\<forall>n \<in> set common_headers. header_map st (lower n) \<noteq> None"
    using ensure_all [OF no_headers_inv, of common_headers] by blast
  obtain hs where hs: "get_all st common_headers = Inr hs"
    using get_all_map [OF st(1)] common_names_plain by blast
  have "\<forall>(c, r) \<in> set [(400, ''Bad Request''), (413, ''Too Large''), (500 :: 32 word, ''Error'')]. NUL \<notin> set r"
    "distinct (map fst [(400, ''Bad Request''), (413, ''Too Large''), (500 :: 32 word, ''Error'')])" by simp_all
  from add_statuses [OF empty_cache_inv this] obtain sc where sc: "sc_inv sc"
    "reason_of sc 400 = Some ''Bad Request''" "reason_of sc 413 = Some ''Too Large''"
    "reason_of sc 500 = Some ''Error''" by auto
  let ?sv = "\<lparr>sv_headers = st, sv_common = hs, sv_statuses = sc, sv_hooks = no_hooks, sv_date = [],
    sv_request_ptr = Some 1, sv_response_ptr = Some 2,
    sv_junk = \<lparr>elm_type = HOOKSTACK_INTEGER, elm_data = Data_integer 0, elm_deleter = None,
      elm_deleter_context = None\<rparr>, sv_base = 4096\<rparr>"
  have "server_ok ?sv" using st hs by (simp add: server_ok_def)
  with sc show ?thesis by (intro exI [of _ ?sv]) simp
qed

lemma lower_length: "lower a = lower b \<Longrightarrow> length a = length b"
  by (metis length_map lower_def)

text \<open>The names of the headers a server that is in order writes.\<close>

lemma server_named:
  assumes "server_ok sv"
  obtains ln sn dn cn where "named sv ln sn dn cn" "lower ln = lower ''Content-Length''" "lower sn = lower ''Server''"
    "lower dn = lower ''Date''" "lower cn = lower ''Connection''"
proof -
  have name: "\<exists>name. hdr_name (as_header (known sv n)) = Some name \<and> lower name = lower n"
    if "n \<in> set common_headers" for n
  proof -
    from assms that obtain l where "known sv n = Some l" by (auto simp: server_ok_def)
    with assms header_map_valid(2) [of "sv_headers sv" "lower n" l] show ?thesis
      by (simp add: server_ok_def as_header_def)
  qed
  from name [of "''Content-Length''"] obtain ln where
    "hdr_name (hdr_content_length sv) = Some ln" "lower ln = lower ''Content-Length''"
    by (auto simp: common_headers_def server_common [OF assms])
  moreover from name [of "''Server''"] obtain sn where
    "hdr_name (hdr_server sv) = Some sn" "lower sn = lower ''Server''"
    by (auto simp: common_headers_def server_common [OF assms])
  moreover from name [of "''Date''"] obtain dn where
    "hdr_name (hdr_date sv) = Some dn" "lower dn = lower ''Date''"
    by (auto simp: common_headers_def server_common [OF assms])
  moreover from name [of "''Connection''"] obtain cn where
    "hdr_name (hdr_connection sv) = Some cn" "lower cn = lower ''Connection''"
    by (auto simp: common_headers_def server_common [OF assms])
  ultimately show thesis by (intro that [of ln sn dn cn]) (simp_all add: named_def)
qed

section \<open>Properties\<close>

lemma response_data_ok:
  assumes sv: "sc_inv (sv_statuses sv)" "named sv len_name server_name date_name connection_name"
    and r: "response_ok (rq_response req)" "\<not> rs_sent (rq_response req)" "sk_connected sk"
    and fits: "length (status_text sv (rs_status_code (rq_response req))) < 128" "length data < 2 ^ 31"
      "length (collected (rq_response req) @ header_row len_name (decimal (length data)) @
         head_rows sv server_name date_name connection_name (answer_keepalive req)) < 4095"
    and acc: "accepting n (m + 128 + 4096 + 1 + length data)"
  shows "\<exists>req' n'. cflare_response_data sv req sk n data = Inr (req', sk, n', True) \<and>
    req' = req\<lparr>rq_response := rq_response req'\<rparr> \<and>
    rs_sent (rq_response req') \<and> rs_keepalive (rq_response req') = answer_keepalive req \<and>
    net_sent n' = net_sent n @ status_text sv (rs_status_code (rq_response req)) @ collected (rq_response req) @
      header_row len_name (decimal (length data)) @
      head_rows sv server_name date_name connection_name (answer_keepalive req) @ [LF] @ data \<and>
    accepting n' m \<and> net_incoming n' = net_incoming n \<and> net_closed n' = net_closed n \<and>
    response_ok (rq_response req') \<and>
    (\<forall>sk' n'' more. \<exists>req''. cflare_response_data sv req' sk' n'' more = Inr (req'', sk', n'', False))"
proof -
  have names: "hdr_name (hdr_content_length sv) = Some len_name" using sv(2) by (simp add: named_def)
  from response_header_fits [OF r(1) names, of "decimal (length data)"] fits(3) obtain r1 where r1:
    "cflare_response_header (rq_response req) (hdr_content_length sv) (decimal (length data)) = Inr r1"
    "response_ok r1" "collected r1 = collected (rq_response req) @ header_row len_name (decimal (length data))"
    "\<not> rs_sent r1" "rs_keepalive r1 = rs_keepalive (rq_response req)"
    "rs_status_code r1 = rs_status_code (rq_response req)" using r(2) by auto
  let ?req1 = "req\<lparr>rq_response := r1\<rparr>"
  have k: "answer_keepalive ?req1 = answer_keepalive req" using r1(5) by (simp add: answer_keepalive_def)
  have "accepting n ((m + 1 + length data) + 128 + 4096)" using acc by (simp add: ac_simps)
  from send_headers_text [OF sv, of ?req1 sk n "m + 1 + length data"] this r1 r(3) fits k
  obtain r' n1 where s: "send_headers sv ?req1 sk n = Inr (req\<lparr>rq_response := r'\<rparr>, sk, n1, True)"
    "rs_sent r'" "rs_keepalive r' = answer_keepalive req" "accepting n1 (m + 1 + length data)"
    "net_incoming n1 = net_incoming n" "net_closed n1 = net_closed n"
    "net_sent n1 = net_sent n @ status_text sv (rs_status_code (rq_response req)) @ collected r1 @
      head_rows sv server_name date_name connection_name (answer_keepalive req) @ [LF]" "response_ok r'" by auto
  have "accepting n1 (m + max 1 (length data))" using s(4) by (auto simp: accepting_def)
  from socket_write_accepting [OF r(3) this fits(2)] obtain n2 where n2:
    "cflare_socket_write sk n1 data = Inr (sk, n2, True)" "accepting n2 m" "net_sent n2 = net_sent n1 @ data"
    "net_incoming n2 = net_incoming n1" "net_closed n2 = net_closed n1" by blast
  have run: "cflare_response_data sv req sk n data = Inr (req\<lparr>rq_response := r'\<rparr>, sk, n2, True)"
    using r1(1) s(1) n2(1) by (simp add: cflare_response_data_def)
  have ok': "response_ok r'" using s(8) .
  have "\<exists>req''. cflare_response_data sv (req\<lparr>rq_response := r'\<rparr>) sk' n'' more = Inr (req'', sk', n'', False)"
    for sk' n'' more
  proof -
    obtain r'' where "cflare_response_header r' (hdr_content_length sv) (decimal (length more)) = Inr r''"
      "rs_sent r'' = rs_sent r'"
      using response_header_fits [OF ok' names, of "decimal (length more)"]
        response_header_full [OF ok' names, of "decimal (length more)"] by (meson not_le)
    with s(2) show ?thesis by (simp add: cflare_response_data_def send_headers_def)
  qed
  with run s n2 r1(3) show ?thesis
    by (intro exI [of _ "req\<lparr>rq_response := r'\<rparr>"] exI [of _ n2]) simp
qed

text \<open>
  C18: The data of a response is sent behind its head: the status line, the headers the handler gave, in
  order, the length of the data, the server, the date and whether the connection stays open, a blank
  line, and the data, every byte once. The connection stays open only where the client asked for it, the
  handler allows it and no content is left unread. A second answer to the same request sends nothing.
\<close>

theorem response_data_text:
  assumes sv: "sc_inv (sv_statuses sv)" "named sv len_name server_name date_name connection_name"
    and r: "response_ok (rq_response req)" "\<not> rs_sent (rq_response req)" "sk_connected sk"
    and fits: "length (status_text sv (rs_status_code (rq_response req))) < 128" "length data < 2 ^ 31"
      "length (collected (rq_response req) @ header_row len_name (decimal (length data)) @
         head_rows sv server_name date_name connection_name (answer_keepalive req)) < 4095"
    and acc: "accepting n (m + 128 + 4096 + 1 + length data)"
  shows "\<exists>req' n'. cflare_response_data sv req sk n data = Inr (req', sk, n', True) \<and>
    req' = req\<lparr>rq_response := rq_response req'\<rparr> \<and>
    rs_sent (rq_response req') \<and> rs_keepalive (rq_response req') = answer_keepalive req \<and>
    net_sent n' = net_sent n @ status_text sv (rs_status_code (rq_response req)) @ collected (rq_response req) @
      header_row len_name (decimal (length data)) @
      head_rows sv server_name date_name connection_name (answer_keepalive req) @ [LF] @ data \<and>
    accepting n' m \<and> net_incoming n' = net_incoming n \<and> net_closed n' = net_closed n \<and>
    (\<forall>sk' n'' more. \<exists>req''. cflare_response_data sv req' sk' n'' more = Inr (req'', sk', n'', False))"
  using response_data_ok [OF assms] by fast

lemma response_data_text_witness:
  "\<exists>sv :: (int, int) server. \<exists>ln sn dn cn req n'.
    cflare_response_data sv (cflare_request_new\<lparr>rq_keepalive := True,
        rq_response := (rq_response cflare_request_new)\<lparr>rs_status_code := 500, rs_keepalive := True\<rparr>\<rparr>)
      sample_socket (sample_net [] (replicate 5000 (Accepts 9))) ''hello'' = Inr (req, sample_socket, n', True) \<and>
    net_sent n' = status_text sv 500 @ header_row ln (decimal 5) @ head_rows sv sn dn cn True @ [LF] @ ''hello''"
proof -
  obtain sv :: "(int, int) server" where sv: "server_ok sv" "sc_inv (sv_statuses sv)" "sv_date sv = []"
    "reason_of (sv_statuses sv) 500 = Some ''Error''" using server_exists by blast
  from server_named [OF sv(1)] obtain ln sn dn cn where names: "named sv ln sn dn cn"
    "lower ln = lower ''Content-Length''" "lower sn = lower ''Server''" "lower dn = lower ''Date''"
    "lower cn = lower ''Connection''" .
  then have l: "length ln = 14" "length sn = 6" "length dn = 4" "length cn = 10"
    by (auto dest!: lower_length)
  let ?req = "cflare_request_new\<lparr>rq_keepalive := True,
    rq_response := (rq_response cflare_request_new)\<lparr>rs_status_code := 500, rs_keepalive := True\<rparr>\<rparr>"
    and ?n = "sample_net [] (replicate 5000 (Accepts 9))"
  have c: "collected (rq_response ?req) = []" "answer_keepalive ?req"
    by (simp_all add: collected_def cflare_request_new_def answer_keepalive_def)
  have h5: "length ''hello'' = 5" by simp
  have d: "length (decimal 5) = 1" "length (decimal 500) = 3" by (simp_all add: decimal.simps)
  have "response_ok (rq_response ?req)" "\<not> rs_sent (rq_response ?req)"
    by (simp_all add: response_ok_def cflare_request_new_def CFLARE_RESPONSE_MAX_LENGTH_def)
  moreover have "length (status_text sv (rs_status_code (rq_response ?req))) < 128"
    using sv(4) d by (simp add: status_text_def reason_text_def)
  moreover have "length (collected (rq_response ?req) @ header_row ln (decimal (length ''hello'')) @
      head_rows sv sn dn cn (answer_keepalive ?req)) < 4095"
    unfolding h5 using c l d sv(3) by (simp add: head_rows_def)
  moreover have "accepting ?n (0 + 128 + 4096 + 1 + length ''hello'')"
    by (simp add: accepting_def sample_net_def)
  ultimately obtain req n' where r: "cflare_response_data sv ?req sample_socket ?n ''hello'' = Inr (req, sample_socket, n', True)"
    "net_sent n' = net_sent ?n @ status_text sv (rs_status_code (rq_response ?req)) @ collected (rq_response ?req) @
      header_row ln (decimal (length ''hello'')) @ head_rows sv sn dn cn (answer_keepalive ?req) @ [LF] @ ''hello''"
    using response_data_text [OF sv(2) names(1) _ _ sample_socket(2), of ?req "''hello''" ?n 0] by fastforce
  then have "net_sent n' = status_text sv 500 @ header_row ln (decimal 5) @ head_rows sv sn dn cn True @ [LF] @ ''hello''"
    unfolding h5 using c by (simp add: sample_net_def)
  with r(1) show ?thesis by blast
qed

end
