(* ===== verification/RequestProps.thy ===== *)
theory RequestProps
  imports ResponseText
begin

text \<open>
  A connection's requests from end to end: what a well-formed request is parsed to however it is cut
  into fragments, what is answered where no hook answers, what is put back for the next request, and
  the requests the server refuses or cannot survive.
\<close>

section \<open>A request that arrives\<close>

definition head_ok ::
  "('p, 'f) server \<Rightarrow> string \<Rightarrow> string \<Rightarrow> string \<Rightarrow> string option \<Rightarrow> string \<Rightarrow> (string \<times> string) list \<Rightarrow> bool" where
  "head_ok sv eol m p q v hs = (eol_ok eol \<and> head_words_ok m p q v \<and> header_fields_ok hs \<and>
     content_lengths_ok sv hs \<and> length hs \<le> 32 \<and> version_ok v hs)"

text \<open>
  The socket delivers a text that fits the buffer with a byte to spare, in whatever fragments, and the
  peer has still something to send.
\<close>

definition arrives :: "cflare_socket \<Rightarrow> net \<Rightarrow> string \<Rightarrow> bool" where
  "arrives sk n text = (sk_ok sk \<and> sk_connected sk \<and> delivering n \<and> net_incoming n \<noteq> [] \<and>
     pending sk n = text \<and> length text < 4096)"

definition unread :: "cflare_request \<Rightarrow> string" where
  "unread req = take (rq_buffer_unread req) (drop (rq_buffer_position req) (rq_buffer req))"

abbreviation fresh_request :: "cflare_request \<Rightarrow> bool" where
  "fresh_request req \<equiv> length (rq_buffer req) = 4096"

lemma begin_request_simps [simp]:
  "rq_buffer (begin_request req) = rq_buffer req" "rq_buffer_position (begin_request req) = 0"
  "rq_buffer_freespace (begin_request req) = length (rq_buffer req)" "rq_keepalive (begin_request req)"
  "rq_response (begin_request req) = (rq_response req)\<lparr>rs_keepalive := True, rs_status_code := 0,
     rs_buffer_pos := 0, rs_sent := False\<rparr>"
  by (simp_all add: begin_request_def cflare_response_init_def)

text \<open>The part of processing behind the head, once the head is read.\<close>

definition process_read ::
  "(addr \<Rightarrow> 'f cflare_hookstack option \<Rightarrow> 'f world \<Rightarrow> ptr \<Rightarrow> 'f world \<times> bool) \<Rightarrow> ('p, 'f) server
   \<Rightarrow> cflare_request \<Rightarrow> cflare_socket \<Rightarrow> net \<Rightarrow> nat \<Rightarrow> (cflare_request \<times> cflare_socket \<times> net \<times> bool) res" where
  "process_read run sv req sk n nbytes = bindE (parse_head sv sk req nbytes) (\<lambda>parsed. case parsed of
       Inl (req2, status, message) \<Rightarrow>
         bindE (quick_response_socket sv sk n status message False) (\<lambda>(sk2, n2). Inr (req2, sk2, n2, False))
     | Inr req2 \<Rightarrow> bindE (call_request_hooks run sv req2 sk n) (\<lambda>(req3, sk3, n3, result).
         finish_request sv req3 sk3 n3 result))"

text \<open>Reading a complete head, whatever follows it: the loop stopped behind it.\<close>

definition received ::
  "cflare_socket \<Rightarrow> net \<Rightarrow> cflare_request \<Rightarrow> string \<Rightarrow> cflare_socket \<Rightarrow> net \<Rightarrow> bool" where
  "received sk n req text sk' n' = (sk_ok sk \<and> sk_connected sk \<and> pending sk n = text \<and>
     (\<exists>b m. read_head sk n (rq_buffer req) 4096 0 0 = Inr (sk', n', b, Inr m)))"

lemma arrives_received:
  assumes "fresh_request req" and "complete_head text" and "arrives sk n (text @ body)"
  shows "\<exists>sk' n'. received sk n req (text @ body) sk' n' \<and> requeued sk' = [] \<and> delivering n'"
proof -
  have "length (text @ body) < length (rq_buffer req)" using assms(1,3) by (simp add: arrives_def)
  with read_head_text [OF _ _ _ _ _ assms(2) this, of sk n] assms(1,3) show ?thesis
    unfolding arrives_def received_def by (metis (no_types, lifting))
qed

lemma process_reads:
  assumes req: "fresh_request req" and whole: "complete_head text" and rec: "received sk n req (text @ body) sk' n'"
  shows "\<exists>req1 m tail. cflare_request_process_socket run sv req sk n = process_read run sv req1 sk' n' m \<and>
    rq_buffer req1 = text @ tail \<and> rq_buffer_position req1 = 0 \<and> fresh_request req1 \<and> rq_keepalive req1 \<and>
    rq_response req1 = rq_response (begin_request req) \<and>
    length text \<le> m \<and> m < 4096 \<and> take (m - length text) tail @ pending sk' n' = body \<and>
    sk_ok sk' \<and> sk_connected sk' \<and> same_socket sk sk' \<and> same_sends n n'"
proof -
  from rec obtain b m where run: "read_head sk n (rq_buffer req) 4096 0 0 = Inr (sk', n', b, Inr m)"
    and sk: "sk_ok sk" "sk_connected sk" "pending sk n = text @ body" by (auto simp: received_def)
  have scan: "scan_newlines (take 0 (rq_buffer req)) 0 = (0, False)" by simp
  have "head_read sk n (rq_buffer req) 4096 0 (Inr (sk', n', b, Inr m))"
    using read_head_result [OF sk(1,2) _ _ scan, of 4096 n] req run by simp
  then obtain got where g: "sk_ok sk'" "same_socket sk sk'" "same_sends n n'" "length b = 4096"
    "take (length got) b = got" "text @ body = got @ pending sk' n'" "m = length got" "m < 4096" "sk_connected sk'"
    "head_ended (take m b)"
    using req sk(3) by (auto simp: head_read_def)
  have m: "length text \<le> m"
  proof (rule ccontr)
    assume "\<not> length text \<le> m"
    then have "m < length text" by simp
    moreover from this have "take m text = got"
      using g(6,7) by (metis append_eq_append_conv_if less_imp_le nat_neq_iff not_le)
    ultimately show False using whole g(5,7,10) by (auto simp: complete_head_def)
  qed
  let ?req1 = "(begin_request req)\<lparr>rq_buffer := b, rq_buffer_freespace := 4096 - m\<rparr>" and ?tail = "drop (length text) b"
  have "got = text @ take (m - length text) ?tail" "take (m - length text) ?tail @ pending sk' n' = body"
    using g(5-7) m by (metis append_eq_append_conv_if append_eq_conv_conj append_take_drop_id drop_take)+
  moreover from this have "b = text @ ?tail"
    using g(5,7) m by (metis append_eq_conv_conj append_take_drop_id length_append le_add1 min.absorb1 take_take)
  moreover have "cflare_request_process_socket run sv req sk n = process_read run sv ?req1 sk' n' m"
    using req by (simp add: cflare_request_process_socket_def run Let_def process_read_def)
  ultimately show ?thesis
    using g m by (intro exI [of _ ?req1] exI [of _ m] exI [of _ ?tail]) simp
qed

lemma process_parses:
  assumes sv: "server_ok sv" and ok: "head_ok sv eol m p q v hs" and req: "fresh_request req"
    and rec: "received sk n req (head_text eol m p q v hs @ body) sk' n'"
  shows "\<exists>req'. cflare_request_process_socket run sv req sk n =
      bindE (call_request_hooks run sv req' sk' n') (\<lambda>(req3, sk3, n3, result). finish_request sv req3 sk3 n3 result) \<and>
    request_holds sv m p q v hs req' \<and> rq_ip req' = Some (sk_ip sk) \<and> rq_port req' = sk_port sk \<and>
    rq_response req' = rq_response (begin_request req) \<and> fresh_request req' \<and>
    rq_buffer_position req' + rq_buffer_unread req' \<le> 4096 \<and> unread req' @ pending sk' n' = body \<and>
    sk_ok sk' \<and> sk_connected sk' \<and> same_socket sk sk' \<and> same_sends n n'"
proof -
  let ?text = "head_text eol m p q v hs"
  from ok have eol: "eol_ok eol" and words: "head_words_ok m p q v" and
    fields: "header_fields_ok hs" "content_lengths_ok sv hs" "length hs \<le> 32" and ver: "version_ok v hs"
    by (simp_all add: head_ok_def)
  from process_reads [OF req head_text_complete [OF eol words fields(1)] rec, of run sv]
  obtain req1 k tail where run: "cflare_request_process_socket run sv req sk n = process_read run sv req1 sk' n' k"
    and r: "rq_buffer req1 = ?text @ tail" "rq_buffer_position req1 = 0" "fresh_request req1" "rq_keepalive req1"
      "rq_response req1 = rq_response (begin_request req)"
    and k: "length ?text \<le> k" "k < 4096" "take (k - length ?text) tail @ pending sk' n' = body"
    and s: "sk_ok sk'" "sk_connected sk'" "same_socket sk sk'" "same_sends n n'" by blast
  have "length (rq_buffer req1) < 2 ^ 64" using r(3) by simp
  from parse_head_ok [OF sv eol words fields ver r(1,2) this k(1) r(4), of sk'] obtain req' where
    p: "parse_head sv sk' req1 k = continue req'" "request_holds sv m p q v hs req'"
      "rq_buffer req' = head_cut eol m p q v hs @ tail" "rq_buffer_position req' = length ?text"
      "rq_buffer_unread req' = k - length ?text" "rq_response req' = rq_response req1"
      "rq_ip req' = Some (sk_ip sk')" "rq_port req' = sk_port sk'" by blast
  have l: "length (head_cut eol m p q v hs) = length ?text" by (rule length_head_cut [OF eol])
  have "unread req' = take (k - length ?text) tail" unfolding unread_def p(3-5) using l by simp
  moreover have "length (rq_buffer req') = 4096" using r(1,3) unfolding p(3) by (simp add: l)
  ultimately show ?thesis
    using run p k s r(5) by (intro exI [of _ req']) (auto simp: process_read_def continue_def same_socket_def)
qed

section \<open>A request no hook answers\<close>

lemma stack_new: "ll_wf cflare_hookstack_new" "ll_contents cflare_hookstack_new = []"
  by (simp_all add: cflare_hookstack_new_def)

lemma stack_delete: "ll_wf l \<Longrightarrow> \<exists>calls. cflare_hookstack_delete (Some l) = Inr calls"
  using delete_inv [of l "ll_addrs l"] by (simp add: cflare_hookstack_delete_def ll_wf_def)

lemma call_hooks_none:
  fixes sv :: "('p, 'f) server"
  assumes "hook_inv (sv_hooks sv)" and "hooks_of (sv_hooks sv) ''Request'' = []"
  shows "call_request_hooks run sv req sk n = Inr (req, sk, n, None)"
proof -
  obtain l1 l2 where l: "cflare_hookstack_push_pointer (sv_junk sv) (Some cflare_hookstack_new) ''cflare_request''
      (sv_request_ptr sv) None None = Inr (Some l1)"
    "cflare_hookstack_push_pointer (sv_junk sv) (Some l1) ''cflare_response'' (sv_response_ptr sv) None None = Inr (Some l2)"
    "ll_wf l2"
    unfolding cflare_hookstack_push_pointer_def using push_elm_ok [OF stack_new(1)] push_elm_ok by metis
  from stack_delete [OF l(3)] stack_delete [OF stack_new(1)] obtain c1 c2 where
    "cflare_hookstack_delete (Some l2) = Inr c1"
    "cflare_hookstack_delete (Some (cflare_hookstack_new :: 'f cflare_hookstack)) = Inr c2" by blast
  moreover have "cflare_hookstack_get_integer (Some (cflare_hookstack_new :: 'f cflare_hookstack)) 0 = Inr None"
    by (simp add: cflare_hookstack_get_integer_def get_elm_nth [OF stack_new(1)] nth_elm_def stack_new(2))
  ultimately show ?thesis
    using assms hook_call_ok [of "sv_hooks sv" run "''Request''" "Some l2"] l
    by (simp add: call_request_hooks_def)
qed

text \<open>Whether the connection is kept after an answer, and what the server says where no hook answers.\<close>

definition stays_open :: "string \<Rightarrow> (string \<times> string) list \<Rightarrow> bool" where
  "stays_open v hs = (v ! 7 = CHR ''1'' \<and> wants_keepalive True hs \<and> to_size (content_length_of hs) = 0)"

definition unhandled_text ::
  "('p, 'f) server \<Rightarrow> string \<Rightarrow> string \<Rightarrow> string \<Rightarrow> string \<Rightarrow> bool \<Rightarrow> string" where
  "unhandled_text sv ln sn dn cn keepalive = status_text sv 500 @ header_row ln ''19'' @
     head_rows sv sn dn cn keepalive @ [LF] @ ''no request handler'' @ [LF]"

text \<open>A server without a hook for requests, whose lines fit the buffers they are printed to.\<close>

definition idle_server :: "('p, 'f) server \<Rightarrow> string \<Rightarrow> string \<Rightarrow> string \<Rightarrow> string \<Rightarrow> bool" where
  "idle_server sv ln sn dn cn = (server_ok sv \<and> sc_inv (sv_statuses sv) \<and> hook_inv (sv_hooks sv) \<and>
     hooks_of (sv_hooks sv) ''Request'' = [] \<and> named sv ln sn dn cn \<and>
     length (status_text sv 500) < 128 \<and>
     (\<forall>keepalive. length (header_row ln ''19'' @ head_rows sv sn dn cn keepalive) < 4095))"

lemma finish_unhandled:
  assumes sv: "idle_server sv ln sn dn cn" and req: "fresh_request req" "length (rs_buffer (rq_response req)) = 4096"
    "rs_buffer_pos (rq_response req) = 0" "\<not> rs_sent (rq_response req)" "rs_keepalive (rq_response req)"
    "rq_buffer_position req + rq_buffer_unread req \<le> 4096"
    and sk: "sk_ok sk" "sk_connected sk" and acc: "accepting n (k + 5000)"
  defines "ka \<equiv> rq_keepalive req \<and> rq_content_length_unread req = 0"
  shows "\<exists>req' sk' n'. finish_request sv req sk n None = Inr (req', sk', n', ka) \<and>
    fresh_request req' \<and> length (rs_buffer (rq_response req')) = 4096 \<and>
    net_sent n' = net_sent n @ unhandled_text sv ln sn dn cn ka \<and> accepting n' k \<and> net_incoming n' = net_incoming n \<and>
    requeued sk' = (if ka then unread req else []) @ requeued sk \<and> sk_ok sk' \<and> sk_connected sk' \<and> same_socket sk sk' \<and>
    net_closed n' = net_closed n \<and> (unread req = [] \<longrightarrow> sk' = sk)"
proof -
  let ?put = "ka \<and> rq_buffer_unread req > 0"
  from socket_requeue_ok [OF sk(1), of "unread req"] obtain sk1 where
    "cflare_socket_requeue sk (unread req) = Inr sk1" "sk_ok sk1" "requeued sk1 = unread req @ requeued sk"
    "sk_connected sk1 = sk_connected sk" "same_socket sk sk1" by blast
  moreover have empty: "unread req = [] \<longleftrightarrow> rq_buffer_unread req = 0"
    using req(1,6) by (auto simp: unread_def)
  ultimately obtain sk2 where sk2: "(if ?put then bindE (assertE (rq_buffer_position req + rq_buffer_unread req \<le> length (rq_buffer req)) Out_of_bounds)
      (\<lambda>_. cflare_socket_requeue sk (take (rq_buffer_unread req) (drop (rq_buffer_position req) (rq_buffer req)))) else Inr sk) = Inr sk2"
    "sk_ok sk2" "sk_connected sk2" "requeued sk2 = (if ka then unread req else []) @ requeued sk" "same_socket sk sk2"
    "unread req = [] \<longrightarrow> sk2 = sk"
    using req(1,6) sk by (cases ?put) (auto simp: unread_def assertE_def)
  let ?resp = "cflare_response_status (rq_response req) 500" 
  let ?req = "req\<lparr>rq_response := ?resp\<rparr>"
  define data where "data = ''no request handler'' @ [LF]"
  have r: "rs_status_code ?resp = 500" "response_ok ?resp" "\<not> rs_sent ?resp" "collected ?resp = []"
    using req(2-5) by (simp_all add: cflare_response_status_def response_ok_def collected_def)
  have k: "answer_keepalive ?req = ka"
    using req(5) by (simp add: answer_keepalive_def ka_def cflare_response_status_def)
  have l: "length data = 19" by (simp add: data_def)
  have d: "decimal (length data) = ''19''" unfolding l by (simp add: decimal.simps digit_char_def char_of_def bit_Suc_0_iff)
  have ok: "sc_inv (sv_statuses sv)" "named sv ln sn dn cn" "length (status_text sv 500) < 128"
    "length (header_row ln ''19'' @ head_rows sv sn dn cn ka) < 4095"
    using sv by (simp_all add: idle_server_def)
  have "accepting n ((k + 756) + 128 + 4096 + 1 + length data)" using acc unfolding l by (simp add: ac_simps)
  from response_data_ok [OF ok(1,2), of ?req sk2 data n "k + 756"] this sk2(3) r k d l ok(3,4)
  obtain req' n' where s: "cflare_response_data sv ?req sk2 n data = Inr (req', sk2, n', True)"
    "req' = ?req\<lparr>rq_response := rq_response req'\<rparr>" "rs_keepalive (rq_response req') = ka"
    "response_ok (rq_response req')" "net_sent n' = net_sent n @ unhandled_text sv ln sn dn cn ka"
    "accepting n' (k + 756)" "net_incoming n' = net_incoming n" "net_closed n' = net_closed n"
    unfolding unhandled_text_def data_def [symmetric] by auto
  have "rq_buffer req' = rq_buffer req" by (subst s(2)) simp
  moreover have "accepting n' k" using s(6) by (simp add: accepting_def)
  moreover have "(rq_keepalive req \<and> rq_content_length_unread req = 0 \<and> (None = None \<or> None = Some (0 :: int))) = ka"
    by (simp add: ka_def)
  ultimately show ?thesis
    using s(1,3,4,5,7,8) sk2 req(1)
    by (intro exI [of _ req'] exI [of _ sk2] exI [of _ n']) (simp add: finish_request_def response_ok_def Let_def data_def)
qed

definition request_ok :: "cflare_request \<Rightarrow> bool" where
  "request_ok req = (length (rq_buffer req) = 4096 \<and> length (rs_buffer (rq_response req)) = 4096)"

lemma process_unhandled:
  assumes sv: "idle_server sv ln sn dn cn" and ok: "head_ok sv eol m p q v hs" and req: "request_ok req"
    and rec: "received sk n req (head_text eol m p q v hs @ body) sk1 n1" and acc: "accepting n (k + 5000)"
  shows "\<exists>req' sk' n' rest. cflare_request_process_socket run sv req sk n = Inr (req', sk', n', stays_open v hs) \<and>
    net_sent n' = net_sent n @ unhandled_text sv ln sn dn cn (stays_open v hs) \<and>
    body = rest @ pending sk1 n1 \<and> net_incoming n' = net_incoming n1 \<and>
    requeued sk' = (if stays_open v hs then rest else []) @ requeued sk1 \<and>
    request_ok req' \<and> sk_ok sk' \<and> sk_connected sk' \<and> same_socket sk sk' \<and> accepting n' k \<and>
    net_closed n' = net_closed n"
proof -
  have sv': "server_ok sv" "hook_inv (sv_hooks sv)" "hooks_of (sv_hooks sv) ''Request'' = []"
    using sv by (simp_all add: idle_server_def)
  have fresh: "fresh_request req" using req by (simp add: request_ok_def)
  from process_parses [OF sv'(1) ok fresh rec, of run] obtain req1 where
    run: "cflare_request_process_socket run sv req sk n =
      bindE (call_request_hooks run sv req1 sk1 n1) (\<lambda>(req3, sk3, n3, result). finish_request sv req3 sk3 n3 result)" and
    r: "request_holds sv m p q v hs req1" "rq_response req1 = rq_response (begin_request req)" "fresh_request req1"
      "rq_buffer_position req1 + rq_buffer_unread req1 \<le> 4096" "unread req1 @ pending sk1 n1 = body" and
    s: "sk_ok sk1" "sk_connected sk1" "same_socket sk sk1" "same_sends n n1" by blast
  have resp: "length (rs_buffer (rq_response req1)) = 4096" "rs_buffer_pos (rq_response req1) = 0"
    "\<not> rs_sent (rq_response req1)" "rs_keepalive (rq_response req1)"
    using req unfolding r(2) by (simp_all add: request_ok_def)
  have acc1: "accepting n1 (k + 5000)" using acc s(4) by (simp add: same_sends_def accepting_def)
  have ka: "(rq_keepalive req1 \<and> rq_content_length_unread req1 = 0) = stays_open v hs"
    using r(1) by (auto simp: request_holds_def stays_open_def Let_def)
  from finish_unhandled [OF sv r(3) resp r(4) s(1,2) acc1, unfolded ka] obtain req' sk' n' where
    f: "finish_request sv req1 sk1 n1 None = Inr (req', sk', n', stays_open v hs)" "fresh_request req'"
      "length (rs_buffer (rq_response req')) = 4096"
      "net_sent n' = net_sent n1 @ unhandled_text sv ln sn dn cn (stays_open v hs)" "accepting n' k"
      "net_incoming n' = net_incoming n1" "requeued sk' = (if stays_open v hs then unread req1 else []) @ requeued sk1"
      "sk_ok sk'" "sk_connected sk'" "same_socket sk1 sk'" "net_closed n' = net_closed n1" by blast
  have "cflare_request_process_socket run sv req sk n = Inr (req', sk', n', stays_open v hs)"
    unfolding run using call_hooks_none [OF sv'(2,3)] f(1) by simp
  then show ?thesis
    using f s r(5) same_trans(2) [OF s(3) f(10)]
    by (intro exI [of _ req'] exI [of _ sk'] exI [of _ n'] exI [of _ "unread req1"])
      (auto simp: request_ok_def same_sends_def)
qed

lemma idle_exists:
  fixes sv :: "(int, 'f) server"
  assumes "server_ok sv" and "sc_inv (sv_statuses sv)" and "sv_hooks sv = no_hooks" and "sv_date sv = []"
    and "reason_of (sv_statuses sv) 500 = Some ''Error''"
  obtains ln sn dn cn where "idle_server sv ln sn dn cn"
proof -
  from server_named [OF assms(1)] obtain ln sn dn cn where names: "named sv ln sn dn cn"
    "lower ln = lower ''Content-Length''" "lower sn = lower ''Server''" "lower dn = lower ''Date''"
    "lower cn = lower ''Connection''" .
  then have l: "length ln = 14" "length sn = 6" "length dn = 4" "length cn = 10" by (auto dest!: lower_length)
  have "length (decimal 500) = 3" by (simp add: decimal.simps)
  then have "length (status_text sv 500) < 128" using assms(5) by (simp add: status_text_def reason_text_def)
  moreover have "length (header_row ln ''19'' @ head_rows sv sn dn cn keepalive) < 4095" for keepalive
    using l assms(4) by (simp add: head_rows_def)
  ultimately show thesis
    using that [of ln sn dn cn] assms names(1) no_hooks_inv by (simp add: idle_server_def)
qed

lemma silent_read_blocks:
  assumes "sk_ok sk" and "sk_connected sk" and "length (requeued sk) < buffer_length" and "net_incoming n = []"
  shows "cflare_socket_read sk n buffer_length = Inl Blocked"
proof (cases "requeued sk = []")
  case True
  then have "sk_requeue_length sk = 0" using length_requeued [OF assms(1)] by simp
  with assms show ?thesis by (simp add: cflare_socket_read_def lthread_recv_def assertE_def)
next
  case False
  with assms show ?thesis using silent_requeue_blocks by blast
qed

section \<open>Properties\<close>

text \<open>
  C1: A well-formed request is parsed to exactly what it says, however the network cuts it into fragments
  and whatever the buffer held before: the hooks are called with a request whose method, path, query,
  version and host are the words of the text, whose headers are those the table knows, in order and with
  their values, which is to be kept alive exactly if it is of version 1.1 and its last Connection header
  says so, and whose unread bytes, together with what the socket has still to deliver, are the bytes
  behind the head.
\<close>

theorem request_parse_roundtrip:
  assumes "server_ok sv" and "head_ok sv eol m p q v hs" and "fresh_request req"
    and "arrives sk n (head_text eol m p q v hs @ body)"
  shows "\<exists>req' sk' n'. cflare_request_process_socket run sv req sk n =
      bindE (call_request_hooks run sv req' sk' n') (\<lambda>(req3, sk3, n3, result). finish_request sv req3 sk3 n3 result) \<and>
    request_holds sv m p q v hs req' \<and> rq_ip req' = Some (sk_ip sk) \<and> rq_port req' = sk_port sk \<and>
    unread req' @ pending sk' n' = body \<and> sk_connected sk' \<and> net_sent n' = net_sent n"
proof -
  have "complete_head (head_text eol m p q v hs)" using assms(2) head_text_complete unfolding head_ok_def by blast
  from arrives_received [OF assms(3) this assms(4)] obtain sk' n' where
    "received sk n req (head_text eol m p q v hs @ body) sk' n'" by blast
  from process_parses [OF assms(1-3) this, of run] show ?thesis by (fastforce simp: same_sends_def)
qed

text \<open>A request to try the properties on.\<close>

lemma sample_head:
  assumes "server_ok sv"
  shows "head_ok sv [LF] ''GET'' ''/a'' (Some ''x=1'') ''HTTP/1.1'' [(''Host'', ''h'')]"
proof -
  have "\<not> is_content_length ''Host''" by (simp add: is_content_length_def)
  then show ?thesis
    by (simp add: head_ok_def eol_ok_def head_words_ok_def header_fields_ok_def header_name_ok_def
        content_lengths_ok_def content_length_ok_def version_ok_def)
qed

definition sample_text :: string where
  "sample_text = head_text [LF] ''GET'' ''/a'' (Some ''x=1'') ''HTTP/1.1'' [(''Host'', ''h'')]"

lemma sample_text: "sample_text = ''GET /a?x=1 HTTP/1.1'' @ LF # ''Host: h'' @ [LF, LF]"
  by (simp add: sample_text_def head_text_def uri_def)

lemma new_request_ok: "request_ok cflare_request_new"
  by (simp add: request_ok_def cflare_request_new_def CFLARE_REQUEST_MAX_LENGTH_def CFLARE_RESPONSE_MAX_LENGTH_def)

text \<open>The text in two fragments, with \<open>s\<close> behind it.\<close>

definition sample_fragments :: "string \<Rightarrow> recv_event list" where
  "sample_fragments s = [Data (take 9 sample_text), Data (drop 9 sample_text @ s)]"

lemma sample_arrives:
  "length s < 4000 \<Longrightarrow> arrives sample_socket (sample_net (sample_fragments s) fs) (sample_text @ s)"
  using sample_socket
  by (auto simp: arrives_def sample_net_def sample_fragments_def delivering_def pending_def sample_text)

lemma request_parse_roundtrip_witness:
  "\<exists>sv :: (int, int) server. \<exists>req' sk' n'. \<forall>run.
    cflare_request_process_socket run sv cflare_request_new sample_socket (sample_net (sample_fragments ''body'') []) =
      bindE (call_request_hooks run sv (req' run) (sk' run) (n' run))
        (\<lambda>(req3, sk3, n3, result). finish_request sv req3 sk3 n3 result) \<and>
    points_to (rq_buffer (req' run)) (rq_query (req' run)) ''x=1'' \<and>
    unread (req' run) @ pending (sk' run) (n' run) = ''body''"
proof -
  obtain sv :: "(int, int) server" where sv: "server_ok sv" using server_exists by blast
  have a: "arrives sample_socket (sample_net (sample_fragments ''body'') []) (head_text [LF] ''GET'' ''/a'' (Some ''x=1'')
      ''HTTP/1.1'' [(''Host'', ''h'')] @ ''body'')"
    using sample_arrives [of "''body''" "[]"] by (simp add: sample_text_def)
  have f: "fresh_request cflare_request_new" using new_request_ok by (simp add: request_ok_def)
  have "\<exists>req' sk' n'. cflare_request_process_socket run sv cflare_request_new sample_socket (sample_net (sample_fragments ''body'') []) =
      bindE (call_request_hooks run sv req' sk' n') (\<lambda>(req3, sk3, n3, result). finish_request sv req3 sk3 n3 result) \<and>
      points_to (rq_buffer req') (rq_query req') ''x=1'' \<and> unread req' @ pending sk' n' = ''body''" for run
    using request_parse_roundtrip [OF sv sample_head [OF sv] f a, of run]
    by (auto simp: request_holds_def holds_value_def Let_def)
  then show ?thesis by metis
qed

text \<open>
  C7: A request no hook answers is answered with status 500, and the connection stays open exactly if the
  client asked for it and sent no content. Where it stays open, nothing that was read beyond the request
  is lost: the bytes behind the head are delivered to the next request. The next request is served
  however little of it has been read, except where the peer is silent: then it is never answered, even
  if all of its bytes are at hand.
\<close>

theorem request_unhandled_pipelined:
  assumes "idle_server sv len_name server_name date_name connection_name" and "head_ok sv eol m p q v hs"
    and "request_ok req" and "arrives sk n (head_text eol m p q v hs @ body)" and "accepting n 5000"
  shows "\<exists>req' sk' n'. cflare_request_process_socket run sv req sk n = Inr (req', sk', n', stays_open v hs) \<and>
    net_sent n' = net_sent n @ unhandled_text sv len_name server_name date_name connection_name (stays_open v hs) \<and>
    (stays_open v hs \<longrightarrow> pending sk' n' = body \<and> sk_ok sk' \<and> sk_connected sk' \<and> request_ok req' \<and>
       (net_incoming n' = [] \<longrightarrow> (\<forall>run'. cflare_request_process_socket run' sv req' sk' n' = Inl Blocked)))"
proof -
  have acc: "accepting n (0 + 5000)" using assms(5) by simp
  have fresh: "fresh_request req" using assms(3) by (simp add: request_ok_def)
  have "complete_head (head_text eol m p q v hs)" using assms(2) head_text_complete unfolding head_ok_def by blast
  from arrives_received [OF fresh this assms(4)] obtain sk1 n1 where
    rec: "received sk n req (head_text eol m p q v hs @ body) sk1 n1" and empty: "requeued sk1 = []" by blast
  from process_unhandled [OF assms(1-3) rec acc, of run] empty obtain req' sk' n' rest where
    p: "cflare_request_process_socket run sv req sk n = Inr (req', sk', n', stays_open v hs)"
      "net_sent n' = net_sent n @ unhandled_text sv len_name server_name date_name connection_name (stays_open v hs)"
      "body = rest @ stream (net_incoming n')" "requeued sk' = (if stays_open v hs then rest else [])"
      "request_ok req'" "sk_ok sk'" "sk_connected sk'" by (auto simp: pending_def)
  have "cflare_request_process_socket run' sv req' sk' n' = Inl Blocked"
    if "stays_open v hs" "net_incoming n' = []" for run'
  proof -
    have "length rest \<le> length body" using p(3) by simp
    then have "length (requeued sk') < 4096" using p(4) that(1) assms(4) by (simp add: arrives_def)
    from silent_read_blocks [OF p(6,7) this that(2)] p(5) show ?thesis
      by (simp add: cflare_request_process_socket_def read_head.simps [of sk' n'] request_ok_def Let_def)
  qed
  with p show ?thesis by (auto simp: pending_def)
qed

lemma request_unhandled_pipelined_witness:
  "\<exists>sv :: (int, int) server. \<exists>ln sn dn cn. \<forall>run. \<exists>req' sk' n'. cflare_request_process_socket run sv cflare_request_new
      sample_socket (sample_net (sample_fragments sample_text) (replicate 5000 (Accepts 9))) = Inr (req', sk', n', True) \<and>
    net_sent n' = unhandled_text sv ln sn dn cn True \<and> pending sk' n' = sample_text"
proof -
  obtain sv :: "(int, int) server" where sv: "server_ok sv" "sc_inv (sv_statuses sv)" "sv_hooks sv = no_hooks"
    "sv_date sv = []" "reason_of (sv_statuses sv) 500 = Some ''Error''" using server_exists by blast
  from idle_exists [OF sv] obtain ln sn dn cn where idle: "idle_server sv ln sn dn cn" .
  let ?n = "sample_net (sample_fragments sample_text) (replicate 5000 (Accepts 9))"
  have l: "length sample_text < 4000" by (simp add: sample_text)
  have a: "arrives sample_socket ?n (head_text [LF] ''GET'' ''/a'' (Some ''x=1'') ''HTTP/1.1'' [(''Host'', ''h'')] @ sample_text)"
    using sample_arrives [OF l] by (simp add: sample_text_def)
  have acc: "accepting ?n 5000" by (simp add: accepting_def sample_net_def)
  have kept: "stays_open ''HTTP/1.1'' [(''Host'', ''h'')]"
    using common_distinct by (simp add: stays_open_def wants_keepalive_def content_length_of_def to_size_def)
  have "\<exists>req' sk' n'. cflare_request_process_socket run sv cflare_request_new sample_socket ?n = Inr (req', sk', n', True) \<and>
      net_sent n' = unhandled_text sv ln sn dn cn True \<and> pending sk' n' = sample_text" for run
    using request_unhandled_pipelined [OF idle sample_head [OF sv(1)] new_request_ok a acc, of run] kept
    by (auto simp: sample_net_def)
  then show ?thesis by blast
qed

end
