(* ===== verification/RequestBounds.thy ===== *)
theory RequestBounds
  imports RequestProps
begin

text \<open>
  The parser on any bytes at all: it reads and writes inside the request's buffer, except where it
  looks at the version, and it gives up only where \<open>cflare_tointeger\<close> does.
\<close>

section \<open>Steps that stay inside\<close>

definition number_fault :: "fault \<Rightarrow> bool" where
  "number_fault e = (e = Assert_failed \<or> e = Int_overflow)"

definition step_ok :: "('a \<Rightarrow> bool) \<Rightarrow> 'a step \<Rightarrow> bool" where
  "step_ok P m = (case m of Inl e \<Rightarrow> number_fault e | Inr (Inl refused) \<Rightarrow> True | Inr (Inr x) \<Rightarrow> P x)"

lemma step_ok_simps [simp]:
  "step_ok P (continue x) = P x" "step_ok P (respond req status message)"
  by (simp_all add: step_ok_def continue_def respond_def)

lemma step_ok_bind: "step_ok P m \<Longrightarrow> (\<And>x. P x \<Longrightarrow> step_ok Q (f x)) \<Longrightarrow> step_ok Q (bindS m f)"
  by (cases m; cases "projr m") (auto simp: step_ok_def bindS_def bindE_def)

lemma step_ok_bind':
  "step_ok P m \<Longrightarrow> (\<And>x. m = continue x \<Longrightarrow> P x \<Longrightarrow> step_ok Q (f x)) \<Longrightarrow> step_ok Q (bindS m f)"
  by (cases m; cases "projr m") (auto simp: step_ok_def bindS_def bindE_def continue_def)

lemma step_ok_mono: "step_ok P m \<Longrightarrow> (\<And>x. P x \<Longrightarrow> Q x) \<Longrightarrow> step_ok Q m"
  by (auto simp: step_ok_def split: sum.splits)

lemma first_of_result:
  "len \<le> length s \<Longrightarrow> \<exists>r. first_of s len c = Inr r \<and> (\<forall>p. r = Some p \<longrightarrow> p < len \<and> s ! p = c)"
proof (induction s len c rule: first_of.induct)
  case (3 a s len c)
  show ?case
  proof (cases "a = c")
    case False
    with 3 obtain r where "first_of s len c = Inr r" "\<forall>p. r = Some p \<longrightarrow> p < len \<and> s ! p = c" by auto
    with False show ?thesis by (cases r) auto
  qed simp
qed simp_all

section \<open>The buffer\<close>

text \<open>The bytes to parse end before the last byte of the buffer, which is zero.\<close>

definition buffer_ok :: "string \<Rightarrow> bool" where
  "buffer_ok buffer = (length buffer = 4096 \<and> buffer ! 4095 = NUL)"

definition parse_inv :: "cflare_request \<Rightarrow> nat \<Rightarrow> bool" where
  "parse_inv req nbytes = (buffer_ok (rq_buffer req) \<and> rq_buffer_position req + nbytes \<le> 4095)"

text \<open>Where a line starts behind a byte that is no carriage return.\<close>

definition at_line :: "cflare_request \<Rightarrow> nat \<Rightarrow> bool" where
  "at_line req nbytes = (parse_inv req nbytes \<and> 0 < rq_buffer_position req \<and>
     rq_buffer req ! (rq_buffer_position req - 1) \<noteq> CR)"

lemma write_NUL_ok:
  "buffer_ok buffer \<Longrightarrow> i < 4096 \<Longrightarrow> write_at buffer i NUL = Inr (buffer[i := NUL]) \<and> buffer_ok (buffer[i := NUL])"
  by (simp add: write_at_def buffer_ok_def nth_list_update)

lemma write_NUL_not_CR: "i < length b \<Longrightarrow> b ! i \<noteq> CR \<Longrightarrow> b[j := NUL] ! i \<noteq> CR"
  by (cases "i = j") simp_all

lemma find_in_buffer:
  assumes "buffer_ok buffer" and "i + len \<le> 4095"
  shows "\<exists>r. first_of (drop i buffer) len c = Inr r \<and> (\<forall>p. r = Some p \<longrightarrow> p < len \<and> buffer ! (i + p) = c)"
  using first_of_result [of len "drop i buffer" c] assms by (auto simp: buffer_ok_def)

lemma cstr_in_buffer:
  assumes "buffer_ok buffer" and "i \<le> 4095"
  shows "\<exists>s. cstr (drop i buffer) = Inr s \<and> NUL \<notin> set s"
proof -
  have "NUL = drop i buffer ! (4095 - i)" "4095 - i < length (drop i buffer)"
    using assms by (auto simp: buffer_ok_def)
  then have "NUL \<in> set (drop i buffer)" by (metis nth_mem)
  then obtain a b where "drop i buffer = a @ NUL # b" "NUL \<notin> set a" by (metis split_list_first)
  then show ?thesis by (simp add: cstr_terminated)
qed

section \<open>The request line\<close>

lemma parse_method_safe:
  assumes "parse_inv req nbytes"
  shows "step_ok (\<lambda>(req', n'). parse_inv req' n') (parse_method req nbytes)"
proof -
  from find_in_buffer [of "rq_buffer req" "rq_buffer_position req" nbytes "CHR '' ''"] assms obtain r where
    r: "first_of (drop (rq_buffer_position req) (rq_buffer req)) nbytes (CHR '' '') = Inr r"
      "\<forall>p. r = Some p \<longrightarrow> p < nbytes" by (auto simp: parse_inv_def)
  show ?thesis
  proof (cases r)
    case None
    with r show ?thesis by (simp add: parse_method_def Let_def)
  next
    case (Some p)
    with r assms write_NUL_ok [of "rq_buffer req" "rq_buffer_position req + p"] show ?thesis
      by (auto simp: parse_method_def Let_def parse_inv_def)
  qed
qed

lemma parse_path_safe:
  assumes "parse_inv req nbytes"
  shows "step_ok (\<lambda>(req', n'). at_line req' n') (parse_path req nbytes)"
proof -
  let ?path = "rq_buffer_position req"
  from find_in_buffer [of "rq_buffer req" ?path nbytes "CHR '' ''"] assms obtain r where
    r: "first_of (drop ?path (rq_buffer req)) nbytes (CHR '' '') = Inr r" "\<forall>p. r = Some p \<longrightarrow> p < nbytes"
    by (auto simp: parse_inv_def)
  show ?thesis
  proof (cases r)
    case None
    with r show ?thesis by (simp add: parse_path_def Let_def)
  next
    case (Some p)
    let ?b = "(rq_buffer req)[?path + p := NUL]"
    have p: "p < nbytes" "?path + p < 4095" using r(2) Some assms by (auto simp: parse_inv_def)
    have w: "write_at (rq_buffer req) (?path + p) NUL = Inr ?b" "buffer_ok ?b"
      using write_NUL_ok [of "rq_buffer req" "?path + p"] assms p by (auto simp: parse_inv_def)
    from find_in_buffer [OF w(2), of ?path p "CHR ''?''"] p obtain q where
      q: "first_of (drop ?path ?b) p (CHR ''?'') = Inr q" "\<forall>i. q = Some i \<longrightarrow> i < p" by auto
    have l: "length (rq_buffer req) = 4096" using assms by (simp add: parse_inv_def buffer_ok_def)
    show ?thesis
    proof (cases q)
      case None
      with r Some p w q assms l show ?thesis by (auto simp: parse_path_def Let_def at_line_def parse_inv_def)
    next
      case q': (Some i)
      then have i: "i < p" using q(2) by simp
      with write_NUL_ok [OF w(2), of "?path + i"] p have
        "write_at ?b (?path + i) NUL = Inr (?b[?path + i := NUL])" "buffer_ok (?b[?path + i := NUL])" by auto
      with r Some p w q q' i assms l show ?thesis
        by (auto simp: parse_path_def Let_def at_line_def parse_inv_def nth_list_update)
    qed
  qed
qed

text \<open>The end of a line that starts behind no carriage return.\<close>

lemma cut_line_safe:
  assumes "buffer_ok buffer" and "0 < line" and "buffer ! (line - 1) \<noteq> CR" and "line + pos < 4095"
    and "buffer ! (line + pos) = LF"
  shows "\<exists>buffer' len. cut_line buffer line pos = Inr (buffer', len) \<and> buffer_ok buffer' \<and> len \<le> pos \<and>
    buffer' ! (line + len) = NUL \<and> buffer' ! (line + pos) \<noteq> CR"
proof -
  have r: "read_before buffer (line + pos) = Inr (buffer ! (line + pos - 1))"
    using assms by (simp add: read_before_def read_at_def buffer_ok_def)
  show ?thesis
  proof (cases "buffer ! (line + pos - 1) = CR")
    case True
    then have "0 < pos" using assms(3) by (cases pos) auto
    with True r assms write_NUL_ok [OF assms(1), of "line + pos - 1"] show ?thesis
      by (simp add: cut_line_def buffer_ok_def nth_list_update)
  next
    case False
    with r assms write_NUL_ok [OF assms(1), of "line + pos"] show ?thesis
      by (simp add: cut_line_def buffer_ok_def nth_list_update)
  qed
qed

lemma parse_version_safe:
  assumes "at_line req nbytes"
  shows "step_ok (\<lambda>(req', n'). at_line req' n') (parse_version req nbytes)"
proof -
  let ?line = "rq_buffer_position req"
  from find_in_buffer [of "rq_buffer req" ?line nbytes LF] assms obtain r where
    r: "first_of (drop ?line (rq_buffer req)) nbytes LF = Inr r"
      "\<forall>p. r = Some p \<longrightarrow> p < nbytes \<and> rq_buffer req ! (?line + p) = LF" by (auto simp: at_line_def parse_inv_def)
  show ?thesis
  proof (cases r)
    case None
    with r show ?thesis by (simp add: parse_version_def Let_def)
  next
    case (Some p)
    with cut_line_safe [of "rq_buffer req" ?line p] r(2) assms obtain b len where
      "cut_line (rq_buffer req) ?line p = Inr (b, len)" "buffer_ok b" "b ! (?line + p) \<noteq> CR" "p < nbytes"
      by (auto simp: at_line_def parse_inv_def)
    with Some r assms show ?thesis
      by (auto simp: parse_version_def Let_def at_line_def parse_inv_def)
  qed
qed

section \<open>The headers\<close>

lemma digits_loop_faults: "digits_loop base cs ret = Inl e \<Longrightarrow> number_fault e"
proof (induction base cs ret rule: digits_loop.induct)
  case (2 base c cs ret)
  then show ?case
    by (auto simp: Let_def bindE_def assertE_def add_digit_def number_fault_def split: if_splits)
qed simp

lemma tointeger_faults:
  assumes "cstr block = Inr s" and "cflare_tointeger block = Inl e"
  shows "number_fault e"
proof -
  obtain sign s1 base s2 where "strip_sign s = (sign, s1)" "strip_base s1 = (base, s2)" by fastforce
  with assms show ?thesis
    using digits_loop_faults [of base s2 0]
    by (cases "digits_loop base s2 0") (auto simp: cflare_tointeger_def split: if_splits)
qed

lemma note_header_safe:
  assumes sv: "server_ok sv" "known sv k = Some h" and buf: "buffer_ok (rq_buffer req)" "val \<le> 4095"
  shows "step_ok (\<lambda>(req', hl'). rq_buffer req' = rq_buffer req \<and> rq_version req' = rq_version req \<and>
      rq_buffer_position req' = rq_buffer_position req) (note_header sv req hl (as_header (Some h)) val len)"
proof -
  note eq = equals_common [OF sv]
  have e: "cflare_headers_equals (as_header (Some h)) (hdr_host sv) = Inr (lower k = lower ''Host'')"
    "cflare_headers_equals (as_header (Some h)) (hdr_connection sv) = Inr (lower k = lower ''Connection'')"
    "cflare_headers_equals (as_header (Some h)) (hdr_content_type sv) = Inr (lower k = lower ''Content-Type'')"
    "cflare_headers_equals (as_header (Some h)) (hdr_content_length sv) = Inr (lower k = lower ''Content-Length'')"
    unfolding server_common [OF sv(1)] by (rule eq, simp add: common_headers_def)+
  from cstr_in_buffer [OF buf] obtain s where s: "cstr (drop val (rq_buffer req)) = Inr s" by blast
  have number: "step_ok (\<lambda>(req', hl'). rq_buffer req' = rq_buffer req \<and> rq_version req' = rq_version req \<and>
      rq_buffer_position req' = rq_buffer_position req)
    (bindE (cflare_tointeger (drop val (rq_buffer req))) (\<lambda>number. case number of
        None \<Rightarrow> respond req 400 ''bad content-length'' | Some i \<Rightarrow> continue (req, hl\<lparr>hl_content_length := i\<rparr>)))"
  proof (cases "cflare_tointeger (drop val (rq_buffer req))")
    case (Inl e)
    with tointeger_faults [OF s Inl] show ?thesis by (simp add: step_ok_def)
  next
    case (Inr number)
    then show ?thesis by (cases number) simp_all
  qed
  show ?thesis
    unfolding note_header_def e bindE_Inr using number by (simp add: strstr_def s)
qed

lemma header_line_safe:
  assumes sv: "server_ok sv" and buf: "buffer_ok (rq_buffer req)" and line: "line + line_len \<le> 4094"
  shows "step_ok (\<lambda>(req', hl'). buffer_ok (rq_buffer req') \<and> rq_version req' = rq_version req \<and>
      rq_buffer_position req' = rq_buffer_position req \<and>
      (\<forall>i < 4096. rq_buffer req ! i \<noteq> CR \<longrightarrow> rq_buffer req' ! i \<noteq> CR)) (header_line sv req hl line line_len)"
proof -
  from find_in_buffer [OF buf, of line line_len "CHR '':''"] line obtain r where
    r: "first_of (drop line (rq_buffer req)) line_len (CHR '':'') = Inr r" "\<forall>p. r = Some p \<longrightarrow> p < line_len" by auto
  show ?thesis
  proof (cases r)
    case None
    with r show ?thesis by (simp add: header_line_def)
  next
    case (Some p)
    then have p: "p < line_len" using r(2) by simp
    let ?b = "(rq_buffer req)[line + p := NUL]" and ?val = "line + p + 1 + 1" and ?len = "sub64 line_len (p + 1 + 1)"
    have w1: "write_at (rq_buffer req) (line + p) NUL = Inr ?b" "buffer_ok ?b"
      using write_NUL_ok [OF buf, of "line + p"] p line by auto
    have m: "(?val + ?len) mod 2 ^ 64 = line + line_len"
    proof (cases "p + 1 + 1 \<le> line_len")
      case True
      then show ?thesis using line by simp
    next
      case False
      then have "?val + ?len = line + line_len + 2 ^ 64" using p by (simp add: sub64_def)
      then show ?thesis using line by (simp only: mod_add_self2) simp
    qed
    let ?b2 = "?b[line + line_len := NUL]"
    have w2: "write_at ?b (line + line_len) NUL = Inr ?b2" "buffer_ok ?b2"
      using write_NUL_ok [OF w1(2), of "line + line_len"] line by auto
    have cr: "\<forall>i < 4096. rq_buffer req ! i \<noteq> CR \<longrightarrow> ?b2 ! i \<noteq> CR"
      using buf write_NUL_not_CR [of _ ?b "line + line_len"] write_NUL_not_CR [of _ "rq_buffer req" "line + p"]
      by (auto simp: buffer_ok_def)
    from cstr_in_buffer [OF w2(2), of line] line obtain key where key: "cstr (drop line ?b2) = Inr key" "NUL \<notin> set key"
      by auto
    have inv: "hd_inv (sv_headers sv)" using sv by (simp add: server_ok_def)
    from get_as_header [OF inv key(2)] as_header_valid [OF inv, of "lower key"]
    have hdr: "cflare_headers_get (sv_headers sv) key = Inr (as_header (known sv key))"
      "cflare_headers_valid (as_header (known sv key)) \<longleftrightarrow> known sv key \<noteq> None" by simp_all
    have step: "header_line sv req hl line line_len =
      (let req2 = req\<lparr>rq_buffer := ?b2\<rparr> in
       if known sv key = None then continue (req2, hl)
       else if length (rq_headers req2) \<ge> 32 then respond req2 413 ''reached max number of headers''
       else note_header sv (req2\<lparr>rq_headers := rq_headers req2 @
              [\<lparr>rh_header = as_header (known sv key), rh_value = ?val, rh_value_len = ?len\<rparr>]\<rparr>)
            hl (as_header (known sv key)) ?val ?len)"
      unfolding header_line_def r(1) Some bindE_Inr option.case w1(1) Let_def m w2(1) key(1) hdr(1)
      using hdr(2) by (simp add: CFLARE_REQUEST_MAX_HEADERS_def)
    show ?thesis
    proof (cases "known sv key")
      case None
      then show ?thesis unfolding step using w2(2) cr by simp
    next
      case (Some h)
      let ?req = "req\<lparr>rq_buffer := ?b2, rq_headers := rq_headers req @
        [\<lparr>rh_header = as_header (Some h), rh_value = ?val, rh_value_len = ?len\<rparr>]\<rparr>"
      have "buffer_ok (rq_buffer ?req)" "?val \<le> 4095" using w2(2) p line by simp_all
      note n = note_header_safe [OF sv Some this, of hl ?len]
      have "step_ok (\<lambda>(req', hl'). buffer_ok (rq_buffer req') \<and> rq_version req' = rq_version req \<and>
          rq_buffer_position req' = rq_buffer_position req \<and>
          (\<forall>i < 4096. rq_buffer req ! i \<noteq> CR \<longrightarrow> rq_buffer req' ! i \<noteq> CR))
        (note_header sv ?req hl (as_header (Some h)) ?val ?len)"
        using step_ok_mono [OF n] w2(2) cr by auto
      then show ?thesis unfolding step Let_def Some by simp
    qed
  qed
qed

lemma header_loop_safe:
  "server_ok sv \<Longrightarrow> at_line req nbytes \<Longrightarrow>
    step_ok (\<lambda>(req', hl', n'). parse_inv req' n' \<and> rq_version req' = rq_version req) (header_loop sv req hl nbytes)"
proof (induction sv req hl nbytes rule: header_loop.induct)
  case (1 sv req hl nbytes)
  let ?line = "rq_buffer_position req"
  have inv: "buffer_ok (rq_buffer req)" "?line + nbytes \<le> 4095" "0 < ?line" "rq_buffer req ! (?line - 1) \<noteq> CR"
    using 1(3) by (auto simp: at_line_def parse_inv_def)
  from find_in_buffer [OF inv(1,2), of LF] obtain r where
    r: "first_of (drop ?line (rq_buffer req)) nbytes LF = Inr r"
      "\<forall>p. r = Some p \<longrightarrow> p < nbytes \<and> rq_buffer req ! (?line + p) = LF" by auto
  show ?case
  proof (cases r)
    case None
    with r show ?thesis by (simp add: header_loop.simps [of sv req])
  next
    case (Some p)
    then have p: "p < nbytes" "rq_buffer req ! (?line + p) = LF" using r(2) by auto
    from cut_line_safe [OF inv(1,3,4), of p] p inv(2) obtain b len where
      c: "cut_line (rq_buffer req) ?line p = Inr (b, len)" "buffer_ok b" "len \<le> p" "b ! (?line + p) \<noteq> CR" by auto
    let ?req1 = "req\<lparr>rq_buffer := b, rq_buffer_position := ?line + (p + 1)\<rparr>" and ?n1 = "nbytes - (p + 1)"
    have read: "read_at b ?line = Inr (b ! ?line)" using c(2) inv(2) by (simp add: read_at_def buffer_ok_def)
    have run: "header_loop sv req hl nbytes =
      (if len = 0 then continue (?req1, hl, ?n1)
       else if b ! ?line = CHR '' '' \<or> b ! ?line = TAB
       then respond ?req1 400 ''request header invalid: nothing to continue''
       else bindS (header_line sv ?req1 hl ?line len) (\<lambda>(req2, hl2). header_loop sv req2 hl2 ?n1))"
      unfolding header_loop.simps [of sv req] Let_def r(1) Some bindE_Inr option.case c(1) prod.case read ..
    have "step_ok (\<lambda>(req', hl', n'). parse_inv req' n' \<and> rq_version req' = rq_version req)
        (bindS (header_line sv ?req1 hl ?line len) (\<lambda>(req2, hl2). header_loop sv req2 hl2 ?n1))"
      if l: "len \<noteq> 0" "\<not> (b ! ?line = CHR '' '' \<or> b ! ?line = TAB)"
    proof (rule step_ok_bind')
      show "step_ok (\<lambda>(req', hl'). buffer_ok (rq_buffer req') \<and> rq_version req' = rq_version ?req1 \<and>
          rq_buffer_position req' = rq_buffer_position ?req1 \<and>
          (\<forall>i < 4096. rq_buffer ?req1 ! i \<noteq> CR \<longrightarrow> rq_buffer req' ! i \<noteq> CR)) (header_line sv ?req1 hl ?line len)"
        by (rule header_line_safe [OF 1(2)]) (use c inv(2) p in auto)
    next
      fix x
      assume x: "header_line sv ?req1 hl ?line len = continue x"
        "case x of (req', hl') \<Rightarrow> buffer_ok (rq_buffer req') \<and> rq_version req' = rq_version ?req1 \<and>
          rq_buffer_position req' = rq_buffer_position ?req1 \<and>
          (\<forall>i < 4096. rq_buffer ?req1 ! i \<noteq> CR \<longrightarrow> rq_buffer req' ! i \<noteq> CR)"
      obtain req2 hl2 where xx: "x = (req2, hl2)" by fastforce
      have "at_line req2 ?n1"
        using x(2) xx c inv(2) p by (auto simp: at_line_def parse_inv_def)
      moreover have "rq_version req2 = rq_version req" using x(2) xx by simp
      ultimately show "step_ok (\<lambda>(req', hl', n'). parse_inv req' n' \<and> rq_version req' = rq_version req)
          (case x of (req2, hl2) \<Rightarrow> header_loop sv req2 hl2 ?n1)"
        using 1(1) [OF refl r(1) Some c(1) refl refl refl l(1) read l(2) x(1) xx [symmetric] 1(2)] xx by simp
    qed
    then show ?thesis unfolding run using c inv(2) p by (auto simp: parse_inv_def)
  qed
qed

section \<open>The version\<close>

lemma memmove_length: "memmove_at b dst src len = Inr b' \<Longrightarrow> length b' = length b"
  by (auto simp: memmove_at_def memcpy_at_def split: if_splits)

lemma split_authority_keeps:
  "split_authority sv req hl = Inr (req', hl') \<Longrightarrow> length (rq_buffer req') = length (rq_buffer req) \<and>
    rq_buffer_position req' = rq_buffer_position req"
  by (auto simp: split_authority_def Let_def write_at_def bindE_def derefE_def split: sum.splits option.splits if_splits
      dest: memmove_length)

text \<open>Where looking at the version may leave the buffer: a version that starts too late, and version 1.2.\<close>

definition version_risky :: "cflare_request \<Rightarrow> bool" where
  "version_risky req = (\<exists>i. rq_version req = Some i \<and> (4088 < i \<or> rq_buffer req ! (i + 7) = CHR ''2''))"

lemma check_version_safe:
  assumes "parse_inv req nbytes" and "rq_version req = Some i"
  shows "case check_version sv req hl of Inl e \<Rightarrow> version_risky req | Inr (Inl refused) \<Rightarrow> True
    | Inr (Inr (req', hl')) \<Rightarrow> length (rq_buffer req') = 4096 \<and> rq_buffer_position req' = rq_buffer_position req"
proof (cases "4088 < i")
  case True
  then show ?thesis
    using assms split_authority_keeps [of sv req hl]
    by (auto simp: version_risky_def check_version_def parse_inv_def buffer_ok_def respond_def continue_def bindE_def
        split: sum.splits)
next
  case False
  then have "read_at (rq_buffer req) (i + 5) = Inr (rq_buffer req ! (i + 5))"
    "read_at (rq_buffer req) (i + 7) = Inr (rq_buffer req ! (i + 7))"
    using assms(1) by (simp_all add: parse_inv_def buffer_ok_def)
  then show ?thesis
    using assms split_authority_keeps [of sv req hl]
    by (auto simp: version_risky_def check_version_def parse_inv_def buffer_ok_def respond_def continue_def bindE_def
        split: sum.splits)
qed

lemma version_kept:
  "parse_version req nbytes = continue (req', n') \<Longrightarrow> rq_version req' \<noteq> None"
  by (auto simp: parse_version_def Let_def bindE_def continue_def respond_def split: sum.splits option.splits if_splits prod.splits)

lemma parse_head_safe:
  assumes sv: "server_ok sv" and inv: "parse_inv req nbytes"
  shows "case parse_head sv sk req nbytes of
      Inl e \<Rightarrow> number_fault e \<or> (\<exists>req' hl. check_version sv req' hl = Inl e \<and> version_risky req')
    | Inr (Inl refused) \<Rightarrow> True
    | Inr (Inr req') \<Rightarrow> length (rq_buffer req') = 4096 \<and> rq_buffer_position req' + rq_buffer_unread req' \<le> 4095"
proof -
  define headers where "headers = bindS (parse_method req nbytes) (\<lambda>(req1, n1). bindS (parse_path req1 n1) (\<lambda>(req2, n2).
      bindS (parse_version req2 n2) (\<lambda>(req3, n3). header_loop sv (req3\<lparr>rq_headers := []\<rparr>) no_locals n3)))"
  have run: "parse_head sv sk req nbytes = bindS headers (after_headers sv sk)"
    by (simp add: parse_head_def headers_def after_headers_def no_locals_def bindS_assoc split_def)
  have safe: "step_ok (\<lambda>(req', hl', n'). parse_inv req' n' \<and> rq_version req' \<noteq> None) headers"
    unfolding headers_def
  proof (rule step_ok_bind [OF parse_method_safe [OF inv]], clarify)
    fix req1 n1
    assume "parse_inv req1 n1"
    from parse_path_safe [OF this]
    show "step_ok (\<lambda>(req', hl', n'). parse_inv req' n' \<and> rq_version req' \<noteq> None) (bindS (parse_path req1 n1) (\<lambda>(req2, n2).
        bindS (parse_version req2 n2) (\<lambda>(req3, n3). header_loop sv (req3\<lparr>rq_headers := []\<rparr>) no_locals n3)))"
    proof (rule step_ok_bind, clarify)
      fix req2 n2
      assume "at_line req2 n2"
      from parse_version_safe [OF this]
      show "step_ok (\<lambda>(req', hl', n'). parse_inv req' n' \<and> rq_version req' \<noteq> None)
        (bindS (parse_version req2 n2) (\<lambda>(req3, n3). header_loop sv (req3\<lparr>rq_headers := []\<rparr>) no_locals n3))"
      proof (rule step_ok_bind', clarify)
        fix req3 n3
        assume "parse_version req2 n2 = continue (req3, n3)" "at_line req3 n3"
        then have v: "rq_version req3 \<noteq> None" and "at_line (req3\<lparr>rq_headers := []\<rparr>) n3"
          by (auto dest: version_kept simp: at_line_def parse_inv_def)
        from header_loop_safe [OF sv this(2), of no_locals]
        show "step_ok (\<lambda>(req', hl', n'). parse_inv req' n' \<and> rq_version req' \<noteq> None)
            (header_loop sv (req3\<lparr>rq_headers := []\<rparr>) no_locals n3)"
          by (rule step_ok_mono) (use v in auto)
      qed
    qed
  qed
  show ?thesis
  proof (cases headers)
    case (Inl e)
    with safe show ?thesis unfolding run by (simp add: step_ok_def bindS_def)
  next
    case (Inr r)
    show ?thesis
    proof (cases r)
      case (Inl refused)
      with Inr show ?thesis unfolding run by (simp add: bindS_def)
    next
      case h: (Inr x)
      obtain req4 hl4 n4 where x: "x = (req4, hl4, n4)" by (cases x)
      with safe Inr h have q: "parse_inv req4 n4" "rq_version req4 \<noteq> None" by (simp_all add: step_ok_def)
      then obtain i where "rq_version req4 = Some i" by blast
      from check_version_safe [OF q(1) this, of sv hl4] q(1) Inr h x show ?thesis
        unfolding run
        by (auto simp: bindS_def after_headers_def continue_def bindE_def parse_inv_def split: sum.splits)
    qed
  qed
qed

section \<open>Properties\<close>



end
