(* ===== verification/RequestRefuse.thy ===== *)
theory RequestRefuse
  imports RequestProps
begin

text \<open>
  The requests the server refuses: the answer, and that the connection is closed. Among them are
  well-formed ones, and one that ends the process.
\<close>

section \<open>Refusing\<close>

text \<open>The short answer is sent, the descriptor closed, and the caller told not to go on.\<close>

definition refuses ::
  "(cflare_request \<times> cflare_socket \<times> net \<times> bool) res \<Rightarrow> cflare_socket \<Rightarrow> net \<Rightarrow> 32 word \<Rightarrow> string \<Rightarrow> string \<Rightarrow> bool" where
  "refuses result sk n status reason message = (case result of Inl e \<Rightarrow> False
     | Inr (req', sk', n', keep) \<Rightarrow> \<not> keep \<and> \<not> sk_connected sk' \<and>
         net_sent n' = net_sent n @ quick_text status reason message \<and> net_closed n' = net_closed n @ [sk_fd sk])"

text \<open>A server that knows the name of a status, and a connection that takes the answer.\<close>

definition can_refuse :: "('p, 'f) server \<Rightarrow> cflare_socket \<Rightarrow> net \<Rightarrow> 32 word \<Rightarrow> string \<Rightarrow> bool" where
  "can_refuse sv sk n status reason = (sc_inv (sv_statuses sv) \<and> reason_of (sv_statuses sv) status = Some reason \<and>
     length reason < 1000 \<and> 0 \<le> sk_fd sk \<and> accepting n 2000)"

lemma decimal_status: "length (decimal (unat (status :: 32 word))) \<le> 10"
proof -
  have "unat status < 2 ^ 32" using unsigned_less [of status] by simp
  then have "unat status < 10 ^ 10" by simp
  then show ?thesis by (intro decimal_length) simp_all
qed

lemma refuse_ok:
  assumes can: "can_refuse sv sk n status reason" and sk: "sk_connected sk1" "same_socket sk sk1" "same_sends n n1"
    and msg: "length message < 100"
  shows "\<exists>sk' n'. quick_response_socket sv sk1 n1 status message False = Inr (sk', n') \<and>
    refuses (Inr (req, sk', n', False)) sk n status reason message"
proof -
  have "length message + 1 < 10 ^ 4" using msg by simp
  then have d: "length (decimal (length message + 1)) \<le> 4" by (intro decimal_length) simp_all
  then have "length (quick_text status reason message) < 1500"
    using can msg decimal_status [of status] by (simp add: quick_text_def quick_headers_def can_refuse_def)
  then have "length (quick_text status reason message) < 2 ^ 31"
    "accepting n1 (0 + 2 + length (quick_text status reason message))"
    using can sk(3) by (auto simp: can_refuse_def accepting_def same_sends_def)
  with quick_response_text [of sv status reason sk1 message n1 0] can sk show ?thesis
    by (auto simp: can_refuse_def refuses_def same_socket_def same_sends_def)
qed

lemma process_refused:
  assumes req: "fresh_request req" and whole: "complete_head text" and arr: "arrives sk n (text @ body)"
    and can: "can_refuse sv sk n status reason" and msg: "length message < 100"
    and parse: "\<And>sk1 req1 tail k. rq_buffer req1 = text @ tail \<Longrightarrow> rq_buffer_position req1 = 0 \<Longrightarrow>
      length (rq_buffer req1) = 4096 \<Longrightarrow> length text \<le> k \<Longrightarrow> \<exists>req'. parse_head sv sk1 req1 k = respond req' status message"
  shows "refuses (cflare_request_process_socket run sv req sk n) sk n status reason message"
proof -
  from arrives_received [OF req whole arr] obtain sk' n' where rec: "received sk n req (text @ body) sk' n'" by blast
  from process_reads [OF req whole rec, of run sv] obtain req1 k tail where
    run: "cflare_request_process_socket run sv req sk n = process_read run sv req1 sk' n' k" and
    r: "rq_buffer req1 = text @ tail" "rq_buffer_position req1 = 0" "fresh_request req1" and
    s: "length text \<le> k" "sk_connected sk'" "same_socket sk sk'" "same_sends n n'" by blast
  from parse [OF r s(1)] obtain req' where p: "parse_head sv sk' req1 k = respond req' status message" by blast
  from refuse_ok [OF can s(2-4) msg, of req'] obtain sk'' n'' where
    "quick_response_socket sv sk' n' status message False = Inr (sk'', n'')"
    "refuses (Inr (req', sk'', n'', False)) sk n status reason message" by blast
  then show ?thesis unfolding run process_read_def p by (simp add: respond_def)
qed

lemma process_faults:
  assumes req: "fresh_request req" and whole: "complete_head text" and arr: "arrives sk n (text @ body)"
    and parse: "\<And>sk1 req1 tail k. rq_buffer req1 = text @ tail \<Longrightarrow> rq_buffer_position req1 = 0 \<Longrightarrow>
      length (rq_buffer req1) = 4096 \<Longrightarrow> length text \<le> k \<Longrightarrow> parse_head sv sk1 req1 k = Inl e"
  shows "cflare_request_process_socket run sv req sk n = Inl e"
proof -
  from arrives_received [OF req whole arr] obtain sk' n' where rec: "received sk n req (text @ body) sk' n'" by blast
  from process_reads [OF req whole rec, of run sv] obtain req1 k tail where
    run: "cflare_request_process_socket run sv req sk n = process_read run sv req1 sk' n' k" and
    r: "rq_buffer req1 = text @ tail" "rq_buffer_position req1 = 0" "fresh_request req1" and
    s: "length text \<le> k" by blast
  show ?thesis unfolding run process_read_def parse [OF r s] by simp
qed

section \<open>A row that stops the parser\<close>

lemma scan_rows:
  assumes "eol_ok eol" and "header_fields_ok hs"
  shows "scan_newlines (rows_text eol hs) 1 = (1, False)"
  using assms(2)
proof (induction hs)
  case (Cons kx hs)
  obtain k x where kx: "kx = (k, x)" by fastforce
  with Cons.prems have "plain (k @ '': '' @ x)" "header_fields_ok hs"
    by (auto simp: header_fields_ok_def header_name_ok_def)
  with scan_line [OF assms(1), of "k @ '': '' @ x" 1] Cons.IH
    scan_newlines_append [of "(k @ '': '' @ x) @ eol" "rows_text eol hs" 1] show ?case
    unfolding kx by simp
qed simp

text \<open>A head with a row of its own between the headers: any line of text that is not blank.\<close>

definition odd_text ::
  "string \<Rightarrow> string \<Rightarrow> string \<Rightarrow> string option \<Rightarrow> string \<Rightarrow> (string \<times> string) list \<Rightarrow> string \<Rightarrow> (string \<times> string) list \<Rightarrow> string" where
  "odd_text eol m p q v hs row hs' = line_text eol m p q v @ rows_text eol hs @ row @ eol @ header_text eol hs'"

lemma odd_text_complete:
  assumes "eol_ok eol" and "head_words_ok m p q v" and "header_fields_ok hs" and "header_fields_ok hs'"
    and "plain row" and "row \<noteq> []"
  shows "complete_head (odd_text eol m p q v hs row hs')"
proof -
  have "plain (m @ '' '' @ uri p q @ '' '' @ v)"
    using assms(2) by (auto simp: head_words_ok_def uri_def split: option.splits)
  note l = scan_line [OF assms(1) this, of 0]
  note r = scan_line [OF assms(1,5,6), of 1]
  have "ends_exactly (rows_text eol hs @ (row @ eol) @ header_text eol hs') 1"
    by (rule ends_exactly_append [OF scan_rows [OF assms(1,3)] ends_exactly_append [OF r header_text_ends [OF assms(1,4)]]])
  from ends_exactly_append [OF l this] show ?thesis
    by (simp add: complete_head_def ends_exactly_def odd_text_def line_text_def)
qed

lemma odd_row:
  assumes sv: "server_ok sv" and eol: "eol_ok eol" and words: "head_words_ok m p q v"
    and fields: "header_fields_ok hs" "content_lengths_ok sv hs" "length hs < 32"
    and row: "plain row" "row \<noteq> []"
    and buf: "rq_buffer req = odd_text eol m p q v hs row hs' @ tail" "rq_buffer_position req = 0"
      "length (rq_buffer req) = 4096" "length (odd_text eol m p q v hs row hs') \<le> k"
  shows "\<exists>pre cur req1 hl n1. rq_buffer req1 = pre @ row @ cut_eol eol @ cur \<and> length (rq_headers req1) < 32 \<and>
    length (rq_buffer req1) < 2 ^ 64 \<and>
    parse_head sv sk req k = bindS
      (if hd row = CHR '' '' \<or> hd row = TAB
       then respond req1 400 ''request header invalid: nothing to continue''
       else bindS (header_line sv req1 hl (length pre) (length row)) (\<lambda>(req2, hl2). header_loop sv req2 hl2 n1))
      (after_headers sv sk)"
proof -
  let ?start = "headers_start eol m p q v" and ?tail = "row @ eol @ header_text eol hs' @ tail"
  obtain ka hl where eff: "header_effects sv eol ?start hs (rq_keepalive req, no_locals) = (ka, hl)" by fastforce
  have len: "length (odd_text eol m p q v hs row hs') = ?start + length (rows_text eol hs) + length row + length eol +
      length (header_text eol hs')"
    unfolding odd_text_def length_append length_line(1) by simp
  have b: "rq_buffer req = line_text eol m p q v @ rows_text eol hs @ ?tail" using buf(1) by (simp add: odd_text_def)
  let ?pre = "line_cut eol m p q v @ rows_cut eol hs"
  have pre: "length ?pre = ?start + length (rows_text eol hs)" "?pre \<noteq> []" "last ?pre \<noteq> CR"
    using length_line(2) [OF eol] length_rows_cut [OF eol] line_cut_ends(1) [of eol m p q v]
      last_cut_rows [OF eol line_cut_ends(2,1)] eol by simp_all
  let ?req = "(line_req eol m p q v (rows_cut eol hs @ ?tail) req)
     \<lparr>rq_buffer_position := ?start + length (rows_text eol hs),
      rq_headers := known_headers sv eol ?start hs, rq_keepalive := ka\<rparr>"
    and ?n = "k - ?start - length (rows_text eol hs)"
  have k: "?start + length (rows_text eol hs) \<le> k" "length row + length eol \<le> ?n" using buf(4) len by simp_all
  have run: "parse_head sv sk req k = bindS (header_loop sv ?req hl ?n) (after_headers sv sk)"
    using parse_head_rows [OF sv eol words fields(1,2) _ b buf(2) _ k(1) eff, of sk] fields(3) buf(3) by simp
  have b': "rq_buffer ?req = ?pre @ row @ eol @ (header_text eol hs' @ tail)" "rq_buffer_position ?req = length ?pre"
    using pre(1) by (simp_all add: line_req_def)
  let ?req1 = "?req\<lparr>rq_buffer := ?pre @ row @ cut_eol eol @ (header_text eol hs' @ tail),
    rq_buffer_position := length ?pre + length row + length eol\<rparr>"
  have "length (rq_headers ?req1) < 32" using known_headers_length [of sv eol ?start hs] fields(3) by simp
  moreover have "length (rq_buffer ?req1) < 2 ^ 64"
    using buf(3) b length_line [of eol m p q v] eol pre(1) by simp
  ultimately show ?thesis
    using run header_loop_line [OF eol b' row(1) pre(2,3) k(2), of sv hl] row(2)
    by (intro exI [of _ ?pre] exI [of _ "header_text eol hs' @ tail"] exI [of _ ?req1] exI [of _ hl]
        exI [of _ "?n - (length row + length eol)"]) (simp add: Let_def)
qed

lemma row_line_ok:
  assumes sv: "server_ok sv" and buf: "rq_buffer req = pre @ (k @ '': '' @ x) @ cut_eol eol @ cur" and eol: "eol_ok eol"
    and words: "header_name_ok k" "plain x" and cl: "lower k = lower ''Content-Length''"
    and room: "length (rq_headers req) < 32" "length (rq_buffer req) < 2 ^ 64"
  shows "\<exists>req'. header_line sv req hl (length pre) (length (k @ '': '' @ x)) =
    bindE (cflare_tointeger (x @ [NUL])) (\<lambda>number. case number of
        None \<Rightarrow> respond req' 400 ''bad content-length''
      | Some i \<Rightarrow> continue (req', hl\<lparr>hl_content_length := i\<rparr>))"
proof -
  from cut_eol_NUL [OF eol] obtain e where e: "cut_eol eol = NUL # e" by blast
  have "known sv k \<noteq> None" using known_common [OF sv, of "''Content-Length''"] cl by (simp add: common_headers_def)
  then obtain h where h: "known sv k = Some h" by blast
  have b: "rq_buffer req = pre @ k @ '': '' @ x @ NUL # (e @ cur)" using buf e by simp
  let ?req = "req\<lparr>rq_buffer := pre @ k @ NUL # '' '' @ x @ NUL # (e @ cur), rq_headers := rq_headers req @
      [\<lparr>rh_header = as_header (Some h), rh_value = length pre + length k + 2, rh_value_len = length x\<rparr>]\<rparr>"
  have step: "header_line sv req hl (length pre) (length k + 2 + length x) =
      note_header sv ?req hl (as_header (Some h)) (length pre + length k + 2) (length x)"
    using header_line_known [OF sv b words room] h by simp
  have eq: "cflare_headers_equals (as_header (Some h)) (hdr_host sv) = Inr False"
    "cflare_headers_equals (as_header (Some h)) (hdr_connection sv) = Inr False"
    "cflare_headers_equals (as_header (Some h)) (hdr_content_type sv) = Inr False"
    "cflare_headers_equals (as_header (Some h)) (hdr_content_length sv) = Inr True"
    unfolding server_common [OF sv] using equals_common [OF sv h] cl common_distinct
    by (simp_all add: common_headers_def)
  have drop: "drop (length pre + length k + 2) (rq_buffer ?req) = x @ NUL # e @ cur" by simp
  have number: "cflare_tointeger (x @ NUL # e @ cur) = cflare_tointeger (x @ [NUL])"
    using tointeger_cut [of x "e @ cur"] words(2) by (simp add: plain_def)
  have "note_header sv ?req hl (as_header (Some h)) (length pre + length k + 2) (length x) =
    bindE (cflare_tointeger (x @ [NUL])) (\<lambda>number. case number of
        None \<Rightarrow> respond ?req 400 ''bad content-length''
      | Some i \<Rightarrow> continue (?req, hl\<lparr>hl_content_length := i\<rparr>))"
    unfolding note_header_def eq bindE_Inr if_True if_False drop number ..
  with step show ?thesis by (intro exI [of _ ?req]) simp
qed

lemma parse_to_version:
  assumes sv: "server_ok sv" and eol: "eol_ok eol" and words: "head_words_ok m p q v"
    and fields: "header_fields_ok hs" "content_lengths_ok sv hs" "length hs \<le> 32"
    and buf: "rq_buffer req = head_text eol m p q v hs @ rest" "rq_buffer_position req = 0"
      "length (rq_buffer req) < 2 ^ 64" "length (head_text eol m p q v hs) \<le> nbytes"
  shows "\<exists>req' hl pre cur. parse_head sv sk req nbytes =
      after_headers sv sk (req', hl, nbytes - length (head_text eol m p q v hs)) \<and>
    rq_version req' = Some (length pre) \<and> rq_buffer req' = pre @ v @ cur \<and>
    (hl_host hl = None \<longleftrightarrow> last_value ''Host'' None hs = None)"
proof -
  obtain ka hl where eff: "header_effects sv eol (headers_start eol m p q v) hs (rq_keepalive req, no_locals) = (ka, hl)"
    by fastforce
  let ?req = "head_req sv eol m p q v hs rest ka req"
  let ?pre = "m @ NUL # p @ (case q of None \<Rightarrow> [] | Some x \<Rightarrow> NUL # x) @ [NUL]"
    and ?cur = "cut_eol eol @ header_cut eol hs @ rest"
  have b: "rq_buffer ?req = ?pre @ v @ ?cur" "rq_version ?req = Some (length ?pre)"
    by (simp_all add: head_req_def line_req_def line_cut_def version_start_def length_uri)
  have at: "rq_buffer ?req = (?pre @ v @ cut_eol eol) @ header_cut eol hs @ rest"
    "headers_start eol m p q v = length (?pre @ v @ cut_eol eol)"
    using b(1) eol by (simp_all add: headers_start_def version_start_def length_uri)
  have "holds_value (rq_buffer ?req) (hl_host no_locals) (hl_host_len no_locals) None"
    by (simp add: holds_value_def no_locals_def)
  from header_effects_values [OF sv eol at fields(1) this, of "rq_keepalive req"]
  have "holds_value (rq_buffer ?req) (hl_host hl) (hl_host_len hl) (last_value ''Host'' None hs)"
    unfolding eff prod.case by blast
  then have "hl_host hl = None \<longleftrightarrow> last_value ''Host'' None hs = None"
    by (auto simp: holds_value_def points_to_def split: option.splits)
  with parse_lines_ok [OF sv eol words fields buf eff, of sk] b show ?thesis
    by (intro exI [of _ ?req] exI [of _ hl] exI [of _ ?pre] exI [of _ ?cur]) simp
qed

text \<open>A server and connections for the witnesses.\<close>

lemma one_fragment:
  "text \<noteq> [] \<Longrightarrow> length text < 4096 \<Longrightarrow> arrives sample_socket (sample_net [Data text] fs) (text @ [])"
  using sample_socket by (simp add: arrives_def sample_net_def delivering_def pending_def)

lemma refusing_server:
  obtains sv :: "(int, int) server" where "server_ok sv"
    "\<And>es. can_refuse sv sample_socket (sample_net es (replicate 2000 (Accepts 9))) 400 ''Bad Request''"
    "\<And>es. can_refuse sv sample_socket (sample_net es (replicate 2000 (Accepts 9))) 413 ''Too Large''"
proof -
  obtain sv :: "(int, int) server" where "server_ok sv" "sc_inv (sv_statuses sv)"
    "reason_of (sv_statuses sv) 400 = Some ''Bad Request''" "reason_of (sv_statuses sv) 413 = Some ''Too Large''"
    using server_exists by blast
  then show thesis
    by (intro that [of sv]) (simp_all add: can_refuse_def accepting_def sample_socket_def sample_net_def)
qed

lemma new_fresh: "fresh_request cflare_request_new"
  using new_request_ok by (simp add: request_ok_def)

section \<open>Properties\<close>

text \<open>
  A request of another major version than 1, and one of version 1.1 that names no host, is refused with
  status 400 and the reason, and the connection is closed, even where the request itself is well formed.
\<close>

theorem request_version_refused:
  assumes "server_ok sv" and "eol_ok eol" and "head_words_ok m p q v" and "header_fields_ok hs"
    and "content_lengths_ok sv hs" and "length hs \<le> 32" and "fresh_request req"
    and "arrives sk n (head_text eol m p q v hs @ body)" and "can_refuse sv sk n 400 reason" and "8 \<le> length v"
    and "v ! 5 \<noteq> CHR ''1'' \<and> message = ''HTTP version not supported'' \<or>
      v ! 5 = CHR ''1'' \<and> v ! 7 = CHR ''1'' \<and> last_value ''Host'' None hs = None \<and>
      message = ''HTTP version requires host''"
  shows "refuses (cflare_request_process_socket run sv req sk n) sk n 400 reason message"
proof (rule process_refused [OF assms(7) head_text_complete [OF assms(2,3,4)] assms(8,9)])
  show "length message < 100" using assms(11) by auto
next
  fix sk1 and req1 :: cflare_request and tail k
  assume b: "rq_buffer req1 = head_text eol m p q v hs @ tail" "rq_buffer_position req1 = 0"
    "length (rq_buffer req1) = 4096" "length (head_text eol m p q v hs) \<le> k"
  then have "length (rq_buffer req1) < 2 ^ 64" by simp
  from parse_to_version [OF assms(1-6) b(1,2) this b(4), of sk1] obtain req' hl pre cur where
    p: "parse_head sv sk1 req1 k = after_headers sv sk1 (req', hl, k - length (head_text eol m p q v hs))"
      "rq_version req' = Some (length pre)" "rq_buffer req' = pre @ v @ cur"
      "hl_host hl = None \<longleftrightarrow> last_value ''Host'' None hs = None" by (elim exE conjE) (rule that)
  have "read_at (rq_buffer req') (length pre + 5) = Inr (v ! 5)" "read_at (rq_buffer req') (length pre + 7) = Inr (v ! 7)"
    using p(3) assms(10) by (simp_all add: read_at_def nth_append)
  with p(2,4) assms(11) have "check_version sv req' hl = respond req' 400 message"
    by (auto simp: check_version_def)
  with p(1) show "\<exists>req'. parse_head sv sk1 req1 k = respond req' 400 message"
    by (intro exI [of _ req']) (simp add: after_headers_def)
qed

lemma request_version_refused_witness:
  "\<exists>sv :: (int, int) server. \<forall>run. refuses (cflare_request_process_socket run sv cflare_request_new sample_socket
      (sample_net [Data (''GET / HTTP/1.1'' @ [LF, LF])] (replicate 2000 (Accepts 9))))
    sample_socket (sample_net [Data (''GET / HTTP/1.1'' @ [LF, LF])] (replicate 2000 (Accepts 9))) 400 ''Bad Request''
    ''HTTP version requires host''"
proof -
  obtain sv :: "(int, int) server" where sv: "server_ok sv"
    "\<And>es. can_refuse sv sample_socket (sample_net es (replicate 2000 (Accepts 9))) 400 ''Bad Request''"
    by (rule refusing_server) (rule that)
  let ?t = "head_text [LF] ''GET'' ''/'' None ''HTTP/1.1'' []"
  have t: "?t = ''GET / HTTP/1.1'' @ [LF, LF]" by (simp add: head_text_def uri_def)
  have "arrives sample_socket (sample_net [Data ?t] (replicate 2000 (Accepts 9))) (?t @ [])"
    by (rule one_fragment) (simp_all add: t)
  from request_version_refused [OF sv(1) _ _ _ _ _ new_fresh this sv(2)]
  have "refuses (cflare_request_process_socket run sv cflare_request_new sample_socket
      (sample_net [Data ?t] (replicate 2000 (Accepts 9)))) sample_socket
      (sample_net [Data ?t] (replicate 2000 (Accepts 9))) 400 ''Bad Request'' ''HTTP version requires host''" for run
    by (simp add: eol_ok_def head_words_ok_def header_fields_ok_def content_lengths_ok_def)
  then show ?thesis unfolding t by blast
qed

text \<open>
  A header that goes on in the next line, as the standard allowed, is always refused: a line that
  starts with a space or a tab is answered with status 400, whatever headers stand before and behind it.
\<close>

theorem request_continuation_refused:
  assumes "server_ok sv" and "eol_ok eol" and "head_words_ok m p q v" and "header_fields_ok hs"
    and "content_lengths_ok sv hs" and "length hs < 32" and "header_fields_ok hs'"
    and "plain row" and "row \<noteq> []" and "hd row = CHR '' '' \<or> hd row = TAB" and "fresh_request req"
    and "arrives sk n (odd_text eol m p q v hs row hs' @ body)" and "can_refuse sv sk n 400 reason"
  shows "refuses (cflare_request_process_socket run sv req sk n) sk n 400 reason
    ''request header invalid: nothing to continue''"
proof (rule process_refused [OF assms(11) odd_text_complete [OF assms(2,3,4,7,8,9)] assms(12,13)])
  fix sk1 and req1 :: cflare_request and tail k
  assume b: "rq_buffer req1 = odd_text eol m p q v hs row hs' @ tail" "rq_buffer_position req1 = 0"
    "length (rq_buffer req1) = 4096" "length (odd_text eol m p q v hs row hs') \<le> k"
  from odd_row [OF assms(1-6,8,9) b, of sk1] assms(10)
  show "\<exists>req'. parse_head sv sk1 req1 k = respond req' 400 ''request header invalid: nothing to continue''"
    by auto
qed simp

lemma request_continuation_refused_witness:
  "\<exists>sv :: (int, int) server. \<forall>run. \<exists>text. text = ''GET / HTTP/1.1'' @ LF # ''Host: h'' @ LF # '' x'' @ [LF, LF] \<and>
    refuses (cflare_request_process_socket run sv cflare_request_new sample_socket
      (sample_net [Data text] (replicate 2000 (Accepts 9))))
    sample_socket (sample_net [Data text] (replicate 2000 (Accepts 9))) 400 ''Bad Request''
    ''request header invalid: nothing to continue''"
proof -
  obtain sv :: "(int, int) server" where sv: "server_ok sv"
    "\<And>es. can_refuse sv sample_socket (sample_net es (replicate 2000 (Accepts 9))) 400 ''Bad Request''"
    by (rule refusing_server) (rule that)
  let ?t = "odd_text [LF] ''GET'' ''/'' None ''HTTP/1.1'' [(''Host'', ''h'')] '' x'' []"
  have t: "?t = ''GET / HTTP/1.1'' @ LF # ''Host: h'' @ LF # '' x'' @ [LF, LF]"
    by (simp add: odd_text_def line_text_def uri_def)
  have a: "arrives sample_socket (sample_net [Data ?t] (replicate 2000 (Accepts 9))) (?t @ [])"
    by (rule one_fragment) (simp_all add: odd_text_def line_text_def uri_def)
  have c: "content_lengths_ok sv [(''Host'', ''h'')]"
    by (simp add: content_lengths_ok_def content_length_ok_def is_content_length_def)
  have "refuses (cflare_request_process_socket run sv cflare_request_new sample_socket
      (sample_net [Data ?t] (replicate 2000 (Accepts 9)))) sample_socket
      (sample_net [Data ?t] (replicate 2000 (Accepts 9))) 400 ''Bad Request''
      ''request header invalid: nothing to continue''" for run
    using request_continuation_refused [OF sv(1) _ _ _ c _ _ _ _ _ new_fresh a sv(2), of run]
    by (simp add: eol_ok_def head_words_ok_def header_fields_ok_def header_name_ok_def)
  then show ?thesis unfolding t by blast
qed

text \<open>
  A Content-Length that is no number is refused with status 400 where it holds only letters and digits
  or nothing at all; where \<open>cflare_tointeger\<close> does not return, on a character that is neither letter nor
  digit or on a number too large, the request takes the server with it.
\<close>

theorem request_bad_content_length:
  assumes "server_ok sv" and "eol_ok eol" and "head_words_ok m p q v" and "header_fields_ok hs"
    and "content_lengths_ok sv hs" and "length hs < 32" and "header_fields_ok hs'"
    and "header_name_ok k" and "plain x" and "lower k = lower ''Content-Length''" and "fresh_request req"
    and "arrives sk n (odd_text eol m p q v hs (k @ '': '' @ x) hs' @ body)" and "can_refuse sv sk n 400 reason"
  shows "case cflare_tointeger (x @ [NUL]) of
      Inl e \<Rightarrow> cflare_request_process_socket run sv req sk n = Inl e
    | Inr None \<Rightarrow> refuses (cflare_request_process_socket run sv req sk n) sk n 400 reason ''bad content-length''
    | Inr (Some i) \<Rightarrow> True"
proof -
  let ?row = "k @ '': '' @ x"
  have row: "plain ?row" "?row \<noteq> []" using assms(8,9) by (auto simp: header_name_ok_def)
  have "hd ?row = hd k" using assms(8) by (simp add: header_name_ok_def)
  then have start: "\<not> (hd ?row = CHR '' '' \<or> hd ?row = TAB)" using assms(8) by (simp add: header_name_ok_def)
  note whole = odd_text_complete [OF assms(2,3,4,7) row]
  have parse: "\<exists>req' req2 hl n1. parse_head sv sk1 req1 j =
      bindS (bindE (cflare_tointeger (x @ [NUL])) (\<lambda>number. case number of
          None \<Rightarrow> respond req' 400 ''bad content-length''
        | Some i \<Rightarrow> continue (req', hl\<lparr>hl_content_length := i\<rparr>)))
        (\<lambda>(req2, hl2). bindS (header_loop sv req2 hl2 n1) (after_headers sv sk1))"
    if b: "rq_buffer req1 = odd_text eol m p q v hs ?row hs' @ tail" "rq_buffer_position req1 = 0"
      "length (rq_buffer req1) = 4096" "length (odd_text eol m p q v hs ?row hs') \<le> j"
    for sk1 and req1 :: cflare_request and tail j
  proof -
    from odd_row [OF assms(1-6) row b, of sk1] obtain pre cur req2 hl n1 where
      o: "rq_buffer req2 = pre @ ?row @ cut_eol eol @ cur" "length (rq_headers req2) < 32" "length (rq_buffer req2) < 2 ^ 64"
        "parse_head sv sk1 req1 j = bindS (if hd ?row = CHR '' '' \<or> hd ?row = TAB
           then respond req2 400 ''request header invalid: nothing to continue''
           else bindS (header_line sv req2 hl (length pre) (length ?row)) (\<lambda>(req2, hl2). header_loop sv req2 hl2 n1))
         (after_headers sv sk1)" by blast
    from row_line_ok [OF assms(1) o(1) assms(2,8,9,10) o(2,3), of hl] obtain req' where
      "header_line sv req2 hl (length pre) (length ?row) = bindE (cflare_tointeger (x @ [NUL])) (\<lambda>number. case number of
        None \<Rightarrow> respond req' 400 ''bad content-length''
      | Some i \<Rightarrow> continue (req', hl\<lparr>hl_content_length := i\<rparr>))" by blast
    with o(4) show ?thesis unfolding if_not_P [OF start] by (auto simp: bindS_assoc split_def)
  qed
  show ?thesis
  proof (cases "cflare_tointeger (x @ [NUL])")
    case (Inl e)
    then have "cflare_request_process_socket run sv req sk n = Inl e"
      using parse by (intro process_faults [OF assms(11) whole assms(12)]) fastforce
    with Inl show ?thesis by simp
  next
    case (Inr number)
    show ?thesis
    proof (cases number)
      case None
      have "refuses (cflare_request_process_socket run sv req sk n) sk n 400 reason ''bad content-length''"
        using parse Inr None by (intro process_refused [OF assms(11) whole assms(12,13)]) fastforce+
      with Inr None show ?thesis by simp
    qed (use Inr in simp)
  qed
qed

lemma request_bad_content_length_witness:
  "\<exists>sv :: (int, int) server. \<forall>run. \<exists>text. text = ''POST / HTTP/1.0'' @ LF # ''Content-Length: 1 2'' @ [LF, LF] \<and>
    cflare_request_process_socket run sv cflare_request_new sample_socket
      (sample_net [Data text] (replicate 2000 (Accepts 9))) = Inl Assert_failed"
proof -
  obtain sv :: "(int, int) server" where sv: "server_ok sv"
    "\<And>es. can_refuse sv sample_socket (sample_net es (replicate 2000 (Accepts 9))) 400 ''Bad Request''"
    by (rule refusing_server) (rule that)
  let ?t = "odd_text [LF] ''POST'' ''/'' None ''HTTP/1.0'' [] (''Content-Length'' @ '': '' @ ''1 2'') []"
  have t: "?t = ''POST / HTTP/1.0'' @ LF # ''Content-Length: 1 2'' @ [LF, LF]"
    by (simp add: odd_text_def line_text_def uri_def)
  have a: "arrives sample_socket (sample_net [Data ?t] (replicate 2000 (Accepts 9))) (?t @ [])"
    by (rule one_fragment) (simp_all add: odd_text_def line_text_def uri_def)
  have n: "cflare_tointeger (''1 2'' @ [NUL]) = Inl Assert_failed"
    using tointeger_scan [of "''1 2''" 1 "''1 2''" 10 "''1 2''" "[]"]
    by (simp add: strip_sign_def strip_base_def is_digit_def char_to_number_def)
  have "cflare_request_process_socket run sv cflare_request_new sample_socket
      (sample_net [Data ?t] (replicate 2000 (Accepts 9))) = Inl Assert_failed" for run
    using request_bad_content_length [OF sv(1) _ _ _ _ _ _ _ _ refl new_fresh a sv(2), of run]
    unfolding n by (simp add: eol_ok_def head_words_ok_def header_fields_ok_def header_name_ok_def content_lengths_ok_def)
  then show ?thesis unfolding t by blast
qed

text \<open>
  A fragment that fills the buffer is refused with status 413 whatever it holds: also where the head
  is complete and short and it is the content, or the next request, that fills it.
\<close>

theorem request_full_buffer_refused:
  assumes "fresh_request req" and "sk_ok sk" and "sk_connected sk" and "requeued sk = []"
    and "net_incoming n = Data s # es" and "4096 \<le> length s" and "can_refuse sv sk n 413 reason"
  shows "refuses (cflare_request_process_socket run sv req sk n) sk n 413 reason ''request too long''"
proof -
  let ?n = "n\<lparr>net_incoming := (if length s \<le> 4096 then es else Data (drop 4096 s) # es)\<rparr>"
  have "sk_requeue_length sk = 0" using length_requeued [OF assms(2)] assms(4) by simp
  then have "cflare_socket_read sk n 4096 = Inr (sk, ?n, True, take 4096 s)"
    using assms(3,5,6) by (simp add: cflare_socket_read_def lthread_recv_def assertE_def)
  moreover have "memcpy_at (rq_buffer req) 0 (take 4096 s) = Inr (take 4096 s)"
    using assms(1,6) by (simp add: memcpy_at_def)
  ultimately have read: "read_head sk n (rq_buffer req) 4096 0 0 =
      Inr (sk, ?n, take 4096 s, Inl (413, ''request too long''))"
    using assms(6) by (simp add: read_head.simps [of sk n])
  have "same_sends n ?n" by (simp add: same_sends_def)
  from refuse_ok [OF assms(7,3) same_refl(2) this, of "''request too long''" "(begin_request req)\<lparr>rq_buffer := take 4096 s\<rparr>"]
  obtain sk' n' where "quick_response_socket sv sk ?n 413 ''request too long'' False = Inr (sk', n')"
    "refuses (Inr ((begin_request req)\<lparr>rq_buffer := take 4096 s\<rparr>, sk', n', False)) sk n 413 reason ''request too long''"
    by auto
  then show ?thesis using assms(1) read by (simp add: cflare_request_process_socket_def Let_def)
qed

lemma request_full_buffer_refused_witness:
  "\<exists>sv :: (int, int) server. \<forall>run. \<exists>n. n = sample_net [Data (sample_text @ replicate 4096 NUL)] (replicate 2000 (Accepts 9)) \<and>
    refuses (cflare_request_process_socket run sv cflare_request_new sample_socket n) sample_socket n 413 ''Too Large''
      ''request too long''"
proof -
  obtain sv :: "(int, int) server" where sv: "server_ok sv"
    "\<And>es. can_refuse sv sample_socket (sample_net es (replicate 2000 (Accepts 9))) 413 ''Too Large''"
    by (rule refusing_server) (rule that)
  have "refuses (cflare_request_process_socket run sv cflare_request_new sample_socket
      (sample_net [Data (sample_text @ replicate 4096 NUL)] (replicate 2000 (Accepts 9)))) sample_socket
      (sample_net [Data (sample_text @ replicate 4096 NUL)] (replicate 2000 (Accepts 9))) 413 ''Too Large''
      ''request too long''" for run
    by (rule request_full_buffer_refused [OF new_fresh sample_socket _ _ sv(2), of _ _ "[]"])
      (simp add: sample_net_def, simp only: length_append length_replicate le_add2)
  then show ?thesis by blast
qed

text \<open>
  A header with nothing behind its colon is not empty: its length wraps around to \<open>2 ^ 64 - 1\<close>, and its
  value is the text of the line behind it. Where it is the Host header, so is the host of the request.
\<close>

theorem header_empty_value:
  assumes "server_ok sv" and "known sv k = Some h" and "header_name_ok k"
    and "rq_buffer req = pre @ k @ '':'' @ NUL # next_line @ NUL # cur" and "NUL \<notin> set next_line"
    and "length (rq_headers req) < 32" and "length (rq_buffer req) < 2 ^ 64"
    and "lower k \<notin> lower ` {''Connection'', ''Content-Type'', ''Content-Length''}"
  shows "\<exists>req' hl'. header_line sv req hl (length pre) (length (k @ '':'')) = continue (req', hl') \<and>
    rq_headers req' = rq_headers req @ [\<lparr>rh_header = as_header (Some h),
      rh_value = length (pre @ k @ '':'' @ [NUL]), rh_value_len = 2 ^ 64 - 1\<rparr>] \<and>
    points_to (rq_buffer req') (Some (length (pre @ k @ '':'' @ [NUL]))) next_line \<and>
    (lower k = lower ''Host'' \<longrightarrow>
       hl_host hl' = Some (length (pre @ k @ '':'' @ [NUL])) \<and> hl_host_len hl' = 2 ^ 64 - 1)"
proof -
  let ?val = "length pre + length k + 2" and ?b = "pre @ k @ NUL # NUL # next_line @ NUL # cur"
  have colon: "first_of (drop (length pre) (rq_buffer req)) (length (k @ '':'')) (CHR '':'') = Inr (Some (length k))"
    using assms(3,4) first_of_here [of "CHR '':''" k "length k + 1" "NUL # next_line @ NUL # cur"]
    by (simp add: header_name_ok_def)
  have w1: "write_at (rq_buffer req) (length pre + length k) NUL = Inr ?b"
    unfolding assms(4) using write_at_here(2) [of pre k "CHR '':''" "NUL # next_line @ NUL # cur" NUL] by simp
  have val: "length pre + length k + 1 + 1 = ?val" by simp
  have len: "sub64 (length (k @ '':'')) (length k + 1 + 1) = 2 ^ 64 - 1" by (simp add: sub64_def)
  have "?val + (2 ^ 64 - 1) = length (pre @ k @ [NUL]) + 2 ^ 64" by simp
  moreover have "length (pre @ k @ [NUL]) < 2 ^ 64" using assms(4,7) by simp
  ultimately have m: "(?val + (2 ^ 64 - 1)) mod 2 ^ 64 = length (pre @ k @ [NUL])"
    by (simp only: mod_add_self2 mod_less)
  have w2: "write_at ?b (length (pre @ k @ [NUL])) NUL = Inr ?b"
    using write_at_here(1) [of "pre @ k @ [NUL]" NUL "next_line @ NUL # cur" NUL] by simp
  have key: "cstr (drop (length pre) ?b) = Inr k" "NUL \<notin> set k"
    using assms(3) cstr_tail [of k] by (simp_all add: header_name_ok_def plain_def)
  have inv: "hd_inv (sv_headers sv)" using assms(1) by (simp add: server_ok_def)
  from get_as_header [OF inv key(2)] as_header_valid [OF inv, of "lower k"] assms(2)
  have hdr: "cflare_headers_get (sv_headers sv) k = Inr (as_header (Some h))"
    "cflare_headers_valid (as_header (Some h))" by simp_all
  let ?req = "req\<lparr>rq_buffer := ?b, rq_headers := rq_headers req @
      [\<lparr>rh_header = as_header (Some h), rh_value = ?val, rh_value_len = 2 ^ 64 - 1\<rparr>]\<rparr>"
  have step: "header_line sv req hl (length pre) (length (k @ '':'')) =
      note_header sv ?req hl (as_header (Some h)) ?val (2 ^ 64 - 1)"
    unfolding header_line_def colon bindE_Inr option.case w1 Let_def val len m w2 key(1) hdr(1)
    using assms(6) hdr(2) by (simp add: CFLARE_REQUEST_MAX_HEADERS_def)
  note eq = equals_common [OF assms(1,2)]
  have e: "cflare_headers_equals (as_header (Some h)) (hdr_host sv) = Inr (lower k = lower ''Host'')"
    "cflare_headers_equals (as_header (Some h)) (hdr_connection sv) = Inr False"
    "cflare_headers_equals (as_header (Some h)) (hdr_content_type sv) = Inr False"
    "cflare_headers_equals (as_header (Some h)) (hdr_content_length sv) = Inr False"
    unfolding server_common [OF assms(1)] using eq assms(8) by (simp_all add: common_headers_def)
  have noted: "note_header sv ?req hl (as_header (Some h)) ?val (2 ^ 64 - 1) =
      continue (?req, if lower k = lower ''Host'' then hl\<lparr>hl_host := Some ?val, hl_host_len := 2 ^ 64 - 1\<rparr> else hl)"
    unfolding note_header_def e by simp
  have "points_to ?b (Some ?val) next_line"
    by (rule points_toI [of _ "pre @ k @ [NUL, NUL]" _ cur]) (use assms(5) in simp_all)
  then show ?thesis unfolding step noted by (intro exI conjI) (rule refl, simp_all)
qed

lemma header_empty_value_witness:
  "\<exists>sv :: (int, int) server. \<exists>req' hl'.
    header_line sv (cflare_request_new\<lparr>rq_buffer := ''.'' @ ''Host'' @ '':'' @ NUL # ''Evil: x'' @ NUL # []\<rparr>) no_locals 1 5 =
      continue (req', hl') \<and>
    points_to (rq_buffer req') (hl_host hl') ''Evil: x'' \<and> hl_host_len hl' = 2 ^ 64 - 1"
proof -
  obtain sv :: "(int, int) server" where sv: "server_ok sv" using server_exists by blast
  then obtain h where h: "known sv ''Host'' = Some h" by (auto simp: server_ok_def common_headers_def)
  let ?req = "cflare_request_new\<lparr>rq_buffer := ''.'' @ ''Host'' @ '':'' @ NUL # ''Evil: x'' @ NUL # []\<rparr>"
  have ok: "header_name_ok ''Host''" by (simp add: header_name_ok_def)
  have other: "lower ''Host'' \<notin> lower ` {''Connection'', ''Content-Type'', ''Content-Length''}"
    by (simp add: lower_def tolower_def isupper_def char_of_def bit_Suc_0_iff)
  have b: "rq_buffer ?req = ''.'' @ ''Host'' @ '':'' @ NUL # ''Evil: x'' @ NUL # []" by simp
  have "length (rq_headers ?req) < 32" "length (rq_buffer ?req) < 2 ^ 64" by (simp_all add: cflare_request_new_def)
  from header_empty_value [OF sv h ok b _ this other, of no_locals] obtain req' hl' where
    r: "header_line sv ?req no_locals (length ''.'') (length (''Host'' @ '':'')) = continue (req', hl')"
      "points_to (rq_buffer req') (Some (length (''.'' @ ''Host'' @ '':'' @ [NUL]))) ''Evil: x''"
      "hl_host hl' = Some (length (''.'' @ ''Host'' @ '':'' @ [NUL]))" "hl_host_len hl' = 2 ^ 64 - 1" by auto
  have l: "length ''.'' = 1" "length (''Host'' @ '':'') = 5" by simp_all
  show ?thesis using r(1) [unfolded l] r(2,4) unfolding r(3) [symmetric] by blast
qed

section \<open>Reading the content\<close>



end
