(* ===== verification/Filesystem.thy ===== *)
theory Filesystem
  imports LinkedList Util
begin

text \<open>
  Listing a directory: \<open>src/cflare-posix/filesystem.c\<close> and \<open>src/cflare/filesystem.h\<close>.

  The operating system is a parameter: \<open>fs path\<close> is the sequence of entries \<open>readdir\<close> returns
  for the directory that \<open>opendir\<close> opens under this path, or \<open>None\<close> where it cannot be opened. The
  directory streams opened and closed and the warnings logged are recorded as events, in order. The
  recursion over the directories is by fuel, which counts the levels below the first directory; the
  theorems say how much of it is enough, and that every directory opened is closed.
\<close>

section \<open>State\<close>

datatype cflare_filesystem_entry_type =
    CFLARE_FILESYSTEM_UNKNOWN
  | CFLARE_FILESYSTEM_FILE
  | CFLARE_FILESYSTEM_DIRECTORY
  | CFLARE_FILESYSTEM_FIFO
  | CFLARE_FILESYSTEM_SOCKET
  | CFLARE_FILESYSTEM_CHARDEV
  | CFLARE_FILESYSTEM_BLOCKDEV
  | CFLARE_FILESYSTEM_LINK

text \<open>An entry holds one block, its \<open>path\<close>; \<open>name\<close> points into it and is an offset here.\<close>

record cflare_filesystem_entry =
  fe_path :: "string option"
  fe_name :: nat
  fe_type :: cflare_filesystem_entry_type
  fe_depth :: nat

definition zero_entry :: cflare_filesystem_entry where
  "zero_entry = \<lparr>fe_path = None, fe_name = 0, fe_type = CFLARE_FILESYSTEM_UNKNOWN, fe_depth = 0\<rparr>"

definition CFLARE_FILESYSTEM_LIST_RECURSIVE :: "32 word" where
  "CFLARE_FILESYSTEM_LIST_RECURSIVE = push_bit 0 1"

definition CFLARE_FILESYSTEM_LIST_EXCLUDE_DIRECTORIES :: "32 word" where
  "CFLARE_FILESYSTEM_LIST_EXCLUDE_DIRECTORIES = push_bit 1 1"

text \<open>
  A directory entry as \<open>readdir\<close> returns it: a name (its terminator is not part of it) and one of
  the file types of \<open>dirent.h\<close>, or a value that is none of them.
\<close>

datatype dirent_type =
  DT_UNKNOWN | DT_REG | DT_DIR | DT_FIFO | DT_SOCK | DT_CHR | DT_BLK | DT_LNK | DT_other nat

record dirent =
  d_name :: string
  d_type :: dirent_type

datatype dir_event = Opendir string | Closedir string | Could_not_list string

type_synonym filesystem = "string \<Rightarrow> dirent list option"
type_synonym entry_list = "cflare_filesystem_entry cflare_linkedlist"

section \<open>Operations\<close>

definition free_list_ptr :: ptr where "free_list_ptr = Some 7"

text \<open>The blocks \<open>free_list\<close> frees.\<close>

definition free_list :: "cflare_filesystem_entry \<Rightarrow> string list" where
  "free_list e = (case fe_path e of None \<Rightarrow> [] | Some block \<Rightarrow> [block])"

fun entry_type :: "dirent_type \<Rightarrow> cflare_filesystem_entry_type" where
  "entry_type DT_UNKNOWN = CFLARE_FILESYSTEM_UNKNOWN"
| "entry_type DT_REG = CFLARE_FILESYSTEM_FILE"
| "entry_type DT_DIR = CFLARE_FILESYSTEM_DIRECTORY"
| "entry_type DT_FIFO = CFLARE_FILESYSTEM_FIFO"
| "entry_type DT_SOCK = CFLARE_FILESYSTEM_SOCKET"
| "entry_type DT_CHR = CFLARE_FILESYSTEM_CHARDEV"
| "entry_type DT_BLK = CFLARE_FILESYSTEM_BLOCKDEV"
| "entry_type DT_LNK = CFLARE_FILESYSTEM_LINK"
| "entry_type (DT_other _) = CFLARE_FILESYSTEM_UNKNOWN"

definition is_dot_entry :: "string \<Rightarrow> bool" where
  "is_dot_entry name =
     (let f_len = length name in
        f_len = 1 \<and> name ! 0 = CHR ''.'' \<or>
        f_len = 2 \<and> name ! 0 = CHR ''.'' \<and> name ! 1 = CHR ''.'')"

text \<open>Appending an entry to the list and filling it in.\<close>

definition add_entry ::
  "(nat \<Rightarrow> char) \<Rightarrow> entry_list \<Rightarrow> string \<Rightarrow> nat \<Rightarrow> string \<Rightarrow> cflare_filesystem_entry_type \<Rightarrow> nat
   \<Rightarrow> entry_list res" where
  "add_entry junk list path path_len name t depth =
     bindE (cflare_linkedlist_insert_last list zero_entry) (\<lambda>(list1, f).
     bindE (cflare_string_concat_n_c junk [path, name @ [NUL]]) (\<lambda>(block, _).
       ll_write list1 f \<lparr>fe_path = Some block, fe_name = path_len, fe_type = t, fe_depth = depth\<rparr>))"

fun populate_list ::
  "nat \<Rightarrow> filesystem \<Rightarrow> (nat \<Rightarrow> char) \<Rightarrow> bool \<Rightarrow> bool \<Rightarrow> entry_list \<Rightarrow> string \<Rightarrow> nat \<Rightarrow> nat
   \<Rightarrow> (entry_list \<times> dir_event list) res"
and read_entries ::
  "nat \<Rightarrow> filesystem \<Rightarrow> (nat \<Rightarrow> char) \<Rightarrow> bool \<Rightarrow> bool \<Rightarrow> entry_list \<Rightarrow> string \<Rightarrow> nat \<Rightarrow> nat \<Rightarrow> dirent list
   \<Rightarrow> (entry_list \<times> dir_event list) res" where
  "populate_list fuel fs junk recursive exc_dirs list path path_len depth =
     (case fuel of 0 \<Rightarrow> Inl Out_of_fuel | Suc fuel' \<Rightarrow>
        bindE (cstr path) (\<lambda>p. case fs p of
            None \<Rightarrow> Inr (list, [Could_not_list p])
          | Some ents \<Rightarrow>
              bindE (read_entries fuel' fs junk recursive exc_dirs list path path_len depth ents)
                (\<lambda>(list', evs). Inr (list', Opendir p # evs @ [Closedir p]))))"
| "read_entries fuel fs junk recursive exc_dirs list path path_len depth [] = Inr (list, [])"
| "read_entries fuel fs junk recursive exc_dirs list path path_len depth (ent # ents) =
     (if is_dot_entry (d_name ent)
      then read_entries fuel fs junk recursive exc_dirs list path path_len depth ents
      else let t = entry_type (d_type ent) in
        bindE (if \<not> exc_dirs \<or> (exc_dirs \<and> t \<noteq> CFLARE_FILESYSTEM_DIRECTORY)
               then add_entry junk list path path_len (d_name ent) t depth else Inr list) (\<lambda>list1.
        bindE (if recursive \<and> t = CFLARE_FILESYSTEM_DIRECTORY
               then bindE (cflare_string_concat_n_c junk [path, d_name ent @ [NUL], ''/'' @ [NUL]])
                 (\<lambda>(newpath, newpath_len).
                   populate_list fuel fs junk recursive exc_dirs list1 newpath newpath_len (depth + 1))
               else Inr (list1, [])) (\<lambda>(list2, evs).
        bindE (read_entries fuel fs junk recursive exc_dirs list2 path path_len depth ents)
          (\<lambda>(list3, evs'). Inr (list3, evs @ evs')))))"

declare populate_list.simps [simp del]

text \<open>The test of the last character looks before the block where the path is empty.\<close>

definition cflare_filesystem_list ::
  "nat \<Rightarrow> filesystem \<Rightarrow> (nat \<Rightarrow> char) \<Rightarrow> string \<Rightarrow> 32 word \<Rightarrow> (entry_list \<times> dir_event list) res" where
  "cflare_filesystem_list fuel fs junk path opts =
     (let list = cflare_linkedlist_ondelete (cflare_linkedlist_new 32) free_list_ptr None in
      bindE (cstr path) (\<lambda>p.
        let path_len = length p in
        bindE (if path_len = 0 then Inl Out_of_bounds else read_at path (path_len - 1)) (\<lambda>c.
        bindE (if c \<noteq> CHR ''/'' then cflare_string_concat_n_c junk [path, ''/'' @ [NUL]]
               else Inr (path, path_len)) (\<lambda>(path', path_len').
          populate_list fuel fs junk
            (opts AND CFLARE_FILESYSTEM_LIST_RECURSIVE \<noteq> 0)
            (opts AND CFLARE_FILESYSTEM_LIST_EXCLUDE_DIRECTORIES \<noteq> 0)
            list path' path_len' 0))))"

section \<open>What a listing is\<close>

text \<open>
  A tree of directories, as the file system holds it: a directory that can be opened, one that
  cannot, and anything that is not a directory.
\<close>

datatype node =
    Dir string "node list"
  | Closed_dir string
  | Leaf string dirent_type

fun node_dirent :: "node \<Rightarrow> dirent" where
  "node_dirent (Dir name ts) = \<lparr>d_name = name, d_type = DT_DIR\<rparr>"
| "node_dirent (Closed_dir name) = \<lparr>d_name = name, d_type = DT_DIR\<rparr>"
| "node_dirent (Leaf name t) = \<lparr>d_name = name, d_type = t\<rparr>"

definition real_entries :: "dirent list \<Rightarrow> dirent list" where
  "real_entries ents = filter (\<lambda>e. \<not> is_dot_entry (d_name e)) ents"

text \<open>The file system shows the tree below a path that ends in a slash.\<close>

fun shows_node :: "filesystem \<Rightarrow> string \<Rightarrow> node \<Rightarrow> bool" where
  "shows_node fs path (Dir name ts) =
     (NUL \<notin> set name \<and>
      map_option real_entries (fs (path @ name @ ''/'')) = Some (map node_dirent ts) \<and>
      list_all (\<lambda>t. shows_node fs (path @ name @ ''/'') t) ts)"
| "shows_node fs path (Closed_dir name) = (NUL \<notin> set name \<and> fs (path @ name @ ''/'') = None)"
| "shows_node fs path (Leaf name t) = (NUL \<notin> set name \<and> t \<noteq> DT_DIR)"

definition shows_tree :: "filesystem \<Rightarrow> string \<Rightarrow> node list \<Rightarrow> bool" where
  "shows_tree fs path ts \<longleftrightarrow> NUL \<notin> set path \<and>
     map_option real_entries (fs path) = Some (map node_dirent ts) \<and>
     list_all (shows_node fs path) ts"

fun height :: "node \<Rightarrow> nat" where
  "height (Dir name ts) = Suc (Max (insert 0 (height ` set ts)))"
| "height (Closed_dir name) = 1"
| "height (Leaf name t) = 0"

definition tree_height :: "node list \<Rightarrow> nat" where
  "tree_height ts = Max (insert 0 (height ` set ts))"

text \<open>The entry of a node, and the listing in the order of the directories, parents first.\<close>

definition make_entry :: "string \<Rightarrow> nat \<Rightarrow> dirent \<Rightarrow> cflare_filesystem_entry" where
  "make_entry path depth e = \<lparr>fe_path = Some (path @ d_name e @ [NUL]), fe_name = length path,
     fe_type = entry_type (d_type e), fe_depth = depth\<rparr>"

fun node_listing :: "bool \<Rightarrow> bool \<Rightarrow> string \<Rightarrow> nat \<Rightarrow> node \<Rightarrow> cflare_filesystem_entry list" where
  "node_listing recursive exc path depth (Dir name ts) =
     (if exc then [] else [make_entry path depth (node_dirent (Dir name ts))]) @
     (if recursive then concat (map (\<lambda>t. node_listing recursive exc (path @ name @ ''/'') (depth + 1) t) ts)
      else [])"
| "node_listing recursive exc path depth (Closed_dir name) =
     (if exc then [] else [make_entry path depth (node_dirent (Closed_dir name))])"
| "node_listing recursive exc path depth (Leaf name t) =
     [make_entry path depth (node_dirent (Leaf name t))]"

fun node_events :: "bool \<Rightarrow> string \<Rightarrow> node \<Rightarrow> dir_event list" where
  "node_events recursive path (Dir name ts) =
     (let p = path @ name @ ''/'' in
      if recursive then Opendir p # concat (map (\<lambda>t. node_events recursive p t) ts) @ [Closedir p] else [])"
| "node_events recursive path (Closed_dir name) =
     (if recursive then [Could_not_list (path @ name @ ''/'')] else [])"
| "node_events recursive path (Leaf name t) = []"

section \<open>Listing a tree\<close>

lemma concat_two:
  assumes "NUL \<notin> set p" and "NUL \<notin> set s"
  shows "cflare_string_concat_n_c junk [p @ [NUL], s @ [NUL]] = Inr (p @ s @ [NUL], length p + length s)"
  using string_concat_bytes [of "[p, s]" junk "\<lambda>_. []"] assms by simp

lemma concat_three:
  assumes "NUL \<notin> set p" and "NUL \<notin> set s" and "NUL \<notin> set u"
  shows "cflare_string_concat_n_c junk [p @ [NUL], s @ [NUL], u @ [NUL]] =
    Inr (p @ s @ u @ [NUL], length p + length s + length u)"
  using string_concat_bytes [of "[p, s, u]" junk "\<lambda>_. []"] assms by simp

lemma add_entry_appends:
  assumes "ll_wf list" and "NUL \<notin> set p" and "NUL \<notin> set (d_name e)"
  shows "\<exists>list'. add_entry junk list (p @ [NUL]) (length p) (d_name e) (entry_type (d_type e)) depth =
      Inr list' \<and> ll_wf list' \<and> ll_conf list' = ll_conf list \<and>
      ll_contents list' = ll_contents list @ [make_entry p depth e]"
  using ll.push_fill [OF assms(1), of zero_entry "make_entry p depth e"] concat_two [OF assms(2,3)]
  by (fastforce simp: add_entry_def make_entry_def)

text \<open>
  What a call from a list with contents \<open>xs\<close> produces: the list with the entries appended, and the
  events. The same shape is proved of a directory, of a node and of a rest of a directory.
\<close>

definition lists ::
  "entry_list \<Rightarrow> cflare_filesystem_entry list \<Rightarrow> dir_event list \<Rightarrow> (entry_list \<times> dir_event list) res \<Rightarrow> bool" where
  "lists list es evs r \<longleftrightarrow> (\<exists>list'. r = Inr (list', evs) \<and> ll_wf list' \<and> ll_conf list' = ll_conf list \<and>
     ll_contents list' = ll_contents list @ es)"

lemma lists_nothing: "ll_wf list \<Longrightarrow> lists list [] [] (Inr (list, []))"
  by (simp add: lists_def)

lemma lists_bind:
  assumes "lists list es evs m"
    and "\<And>list1. ll_wf list1 \<Longrightarrow> lists list1 es' evs' (f list1)"
  shows "lists list (es @ es') (evs @ evs')
    (bindE m (\<lambda>(list1, a). bindE (f list1) (\<lambda>(list2, b). Inr (list2, a @ b))))"
  using assms by (fastforce simp: lists_def)

lemma lists_bind_entry:
  assumes "\<exists>list1. m = Inr list1 \<and> ll_wf list1 \<and> ll_conf list1 = ll_conf list \<and>
      ll_contents list1 = ll_contents list @ es"
    and "\<And>list1. ll_wf list1 \<Longrightarrow> lists list1 es' evs (f list1)"
  shows "lists list (es @ es') evs (bindE m f)"
  using assms by (fastforce simp: lists_def)

definition directory_listed :: "filesystem \<Rightarrow> (nat \<Rightarrow> char) \<Rightarrow> bool \<Rightarrow> bool \<Rightarrow> nat \<Rightarrow> bool" where
  "directory_listed fs junk recursive exc fuel \<longleftrightarrow>
     (\<forall>path ts list depth. shows_tree fs path ts \<and> tree_height ts < fuel \<and> ll_wf list \<longrightarrow>
        lists list (concat (map (node_listing recursive exc path depth) ts))
          (Opendir path # concat (map (node_events recursive path) ts) @ [Closedir path])
          (populate_list fuel fs junk recursive exc list (path @ [NUL]) (length path) depth))"

lemma height_child: "height (Dir name ts) \<le> fuel \<Longrightarrow> tree_height ts < fuel"
  by (simp add: tree_height_def Suc_le_eq)

lemma height_member: "t \<in> set ts \<Longrightarrow> height t \<le> tree_height ts"
  by (simp add: tree_height_def)

text \<open>The part of the listing that comes from below a node.\<close>

fun below :: "bool \<Rightarrow> bool \<Rightarrow> string \<Rightarrow> nat \<Rightarrow> node \<Rightarrow> cflare_filesystem_entry list" where
  "below recursive exc path depth (Dir name ts) =
     (if recursive then concat (map (node_listing recursive exc (path @ name @ ''/'') (depth + 1)) ts) else [])"
| "below recursive exc path depth t = []"

lemma node_listing_split:
  assumes "shows_node fs path t"
  shows "node_listing recursive exc path depth t =
    (if \<not> exc \<or> entry_type (d_type (node_dirent t)) \<noteq> CFLARE_FILESYSTEM_DIRECTORY
     then [make_entry path depth (node_dirent t)] else []) @ below recursive exc path depth t"
proof (cases t)
  case (Leaf name ty)
  with assms show ?thesis by (cases ty) auto
qed auto

lemma descend_lists:
  assumes listed: "directory_listed fs junk recursive exc fuel"
    and t: "shows_node fs path t" "height t \<le> fuel" and p: "NUL \<notin> set path" and wf: "ll_wf list"
  shows "lists list (below recursive exc path depth t) (node_events recursive path t)
    (if recursive \<and> entry_type (d_type (node_dirent t)) = CFLARE_FILESYSTEM_DIRECTORY
     then bindE (cflare_string_concat_n_c junk
            [path @ [NUL], d_name (node_dirent t) @ [NUL], ''/'' @ [NUL]]) (\<lambda>(newpath, newpath_len).
          populate_list fuel fs junk recursive exc list newpath newpath_len (depth + 1))
     else Inr (list, []))"
proof (cases t)
  case (Dir name ts)
  let ?p = "path @ name @ ''/''"
  from t p have sh: "shows_tree fs ?p ts" and h: "tree_height ts < fuel"
    using height_child [of name ts fuel]
    by (auto simp: Dir shows_tree_def list_all_iff)
  have n: "NUL \<notin> set name" using t(1) by (simp add: Dir)
  have "lists list (concat (map (node_listing recursive exc ?p (depth + 1)) ts))
      (Opendir ?p # concat (map (node_events recursive ?p) ts) @ [Closedir ?p])
      (populate_list fuel fs junk recursive exc list (?p @ [NUL]) (length ?p) (depth + 1))"
    using listed sh h wf unfolding directory_listed_def by blast
  then show ?thesis
    using concat_three [OF p n, of "''/''" junk] wf
    by (auto simp: Dir lists_nothing Let_def add.assoc)
next
  case (Closed_dir name)
  from t(2) obtain fuel' where f: "fuel = Suc fuel'" by (cases fuel) (auto simp: Closed_dir)
  have n: "NUL \<notin> set name" and cl: "fs (path @ name @ ''/'') = None" using t(1) by (simp_all add: Closed_dir)
  have "cstr (path @ name @ ''/'' @ [NUL]) = Inr (path @ name @ ''/'')"
    using cstr_terminated [of "path @ name @ ''/''" "[]"] p n by simp
  then show ?thesis
    using concat_three [OF p n, of "''/''" junk] wf cl
    by (auto simp: Closed_dir lists_def f populate_list.simps)
next
  case (Leaf name ty)
  with t(1) show ?thesis by (cases ty) (auto simp: lists_nothing wf)
qed

lemma real_entries_simps [simp]:
  "real_entries [] = []"
  "real_entries (e # es) = (if is_dot_entry (d_name e) then real_entries es else e # real_entries es)"
  by (simp_all add: real_entries_def)

lemma read_entries_lists:
  assumes listed: "directory_listed fs junk recursive exc fuel" and p: "NUL \<notin> set path"
  shows "real_entries ents = map node_dirent ts \<Longrightarrow> \<forall>t \<in> set ts. shows_node fs path t \<and> height t \<le> fuel \<Longrightarrow>
    ll_wf list \<Longrightarrow>
    lists list (concat (map (node_listing recursive exc path depth) ts))
      (concat (map (node_events recursive path) ts))
      (read_entries fuel fs junk recursive exc list (path @ [NUL]) (length path) depth ents)"
proof (induction ents arbitrary: ts list)
  case Nil
  then show ?case by (simp add: lists_nothing)
next
  case (Cons e ents)
  show ?case
  proof (cases "is_dot_entry (d_name e)")
    case True
    with Cons show ?thesis by simp
  next
    case False
    with Cons.prems(1) obtain t ts' where ts: "ts = t # ts'" "e = node_dirent t"
      "real_entries ents = map node_dirent ts'"
      by (cases ts) auto
    have t: "shows_node fs path t" "height t \<le> fuel" and rest: "\<forall>t \<in> set ts'. shows_node fs path t \<and> height t \<le> fuel"
      using Cons.prems(2) by (auto simp: ts)
    have n: "NUL \<notin> set (d_name e)" using t(1) by (cases t) (auto simp: ts)
    let ?here = "\<not> exc \<or> entry_type (d_type e) \<noteq> CFLARE_FILESYSTEM_DIRECTORY"
    have here: "\<exists>list1. (if \<not> exc \<or> (exc \<and> entry_type (d_type e) \<noteq> CFLARE_FILESYSTEM_DIRECTORY)
          then add_entry junk list (path @ [NUL]) (length path) (d_name e) (entry_type (d_type e)) depth
          else Inr list) = Inr list1 \<and> ll_wf list1 \<and> ll_conf list1 = ll_conf list \<and>
        ll_contents list1 = ll_contents list @ (if ?here then [make_entry path depth e] else [])"
      using add_entry_appends [OF Cons.prems(3) p n] Cons.prems(3) by simp
    show ?thesis
      unfolding ts(1) list.map concat.simps node_listing_split [OF t(1), folded ts(2)] append_assoc
        read_entries.simps(2) Let_def if_not_P [OF False]
    proof (rule lists_bind_entry [OF here])
      fix list1 :: entry_list
      assume "ll_wf list1"
      from lists_bind [OF descend_lists [OF listed t p this] Cons.IH [OF ts(3) rest]]
      show "lists list1 (below recursive exc path depth t @ concat (map (node_listing recursive exc path depth) ts'))
         (node_events recursive path t @ concat (map (node_events recursive path) ts'))
         (bindE (if recursive \<and> entry_type (d_type e) = CFLARE_FILESYSTEM_DIRECTORY
            then bindE (cflare_string_concat_n_c junk [path @ [NUL], d_name e @ [NUL], ''/'' @ [NUL]])
              (\<lambda>(newpath, newpath_len).
                populate_list fuel fs junk recursive exc list1 newpath newpath_len (depth + 1))
            else Inr (list1, [])) (\<lambda>(list2, evs).
          bindE (read_entries fuel fs junk recursive exc list2 (path @ [NUL]) (length path) depth ents)
            (\<lambda>(list3, evs'). Inr (list3, evs @ evs'))))"
        unfolding ts(2) .
    qed
  qed
qed

lemma directory_listed_fuel: "directory_listed fs junk recursive exc fuel"
proof (induction fuel)
  case 0
  show ?case by (simp add: directory_listed_def)
next
  case (Suc fuel)
  show ?case
    unfolding directory_listed_def
  proof (intro allI impI, elim conjE)
    fix path ts and list :: entry_list and depth
    assume sh: "shows_tree fs path ts" and h: "tree_height ts < Suc fuel" and wf: "ll_wf list"
    then obtain ents where ents: "fs path = Some ents" "real_entries ents = map node_dirent ts"
      and p: "NUL \<notin> set path" and ts: "\<forall>t \<in> set ts. shows_node fs path t"
      by (auto simp: shows_tree_def list_all_iff)
    have "\<forall>t \<in> set ts. shows_node fs path t \<and> height t \<le> fuel"
      using ts h height_member less_Suc_eq_le order_trans by blast
    from read_entries_lists [OF Suc.IH p ents(2) this wf]
    show "lists list (concat (map (node_listing recursive exc path depth) ts))
        (Opendir path # concat (map (node_events recursive path) ts) @ [Closedir path])
        (populate_list (Suc fuel) fs junk recursive exc list (path @ [NUL]) (length path) depth)"
      by (auto simp: lists_def populate_list.simps cstr_terminated [OF p, of "[]"] ents(1))
  qed
qed

text \<open>The path a listing starts from, with the slash it needs.\<close>

definition slashed :: "string \<Rightarrow> string" where
  "slashed p = (if last p = CHR ''/'' then p else p @ ''/'')"

lemma option_bits:
  "(opts AND CFLARE_FILESYSTEM_LIST_RECURSIVE \<noteq> 0) = bit opts 0"
  "(opts AND CFLARE_FILESYSTEM_LIST_EXCLUDE_DIRECTORIES \<noteq> 0) = bit opts 1"
  unfolding CFLARE_FILESYSTEM_LIST_RECURSIVE_def CFLARE_FILESYSTEM_LIST_EXCLUDE_DIRECTORIES_def
  by (rule and_push_bit)+

lemma filesystem_list_start:
  assumes "p \<noteq> []" and p: "NUL \<notin> set p"
  shows "cflare_filesystem_list fuel fs junk (p @ [NUL]) opts =
    populate_list fuel fs junk (bit opts 0) (bit opts 1)
      (cflare_linkedlist_ondelete (cflare_linkedlist_new 32) free_list_ptr None)
      (slashed p @ [NUL]) (length (slashed p)) 0"
proof -
  have "read_at (p @ [NUL]) (length p - 1) = Inr (last p)"
    using assms(1) by (simp add: nth_append last_conv_nth)
  then show ?thesis
    using assms concat_two [OF p, of "''/''" junk] cstr_terminated [OF p, of "[]"]
    by (simp add: cflare_filesystem_list_def option_bits slashed_def)
qed

text \<open>Streams are closed in the reverse order of their opening: the open ones form a stack.\<close>

fun open_streams :: "dir_event list \<Rightarrow> string list \<Rightarrow> string list option" where
  "open_streams [] st = Some st"
| "open_streams (Opendir p # evs) st = open_streams evs (p # st)"
| "open_streams (Closedir p # evs) st = (case st of [] \<Rightarrow> None
     | q # st' \<Rightarrow> if p = q then open_streams evs st' else None)"
| "open_streams (Could_not_list p # evs) st = open_streams evs st"

lemma open_streams_append:
  "open_streams (evs @ evs') st = (case open_streams evs st of None \<Rightarrow> None | Some st' \<Rightarrow> open_streams evs' st')"
  by (induction evs st rule: open_streams.induct) (auto split: list.splits)

lemma open_streams_concat:
  "(\<And>t st. t \<in> set ts \<Longrightarrow> open_streams (f t) st = Some st) \<Longrightarrow> open_streams (concat (map f ts)) st = Some st"
  by (induction ts) (simp_all add: open_streams_append)

lemma node_events_balanced: "open_streams (node_events recursive path t) st = Some st"
proof (induction recursive path t arbitrary: st rule: node_events.induct)
  case (1 recursive path name ts)
  then show ?case by (simp add: Let_def open_streams_append open_streams_concat)
qed simp_all

section \<open>Properties\<close>

text \<open>
  C19: where the file system below the path is a tree of directories, listing it returns one entry for
  every node (the directories themselves left out, or what is below them, as the options say), in the
  order of the directories with every directory before what is in it. Each entry has its full path in a
  block of its own, a name that points at the part after the directory, its type and its depth.
  A recursion as deep as the tree is enough. Every directory stream is closed, in the reverse order of the
  opening, a directory that cannot be opened is only logged, and deleting the list gives each entry to
  \<open>free_list\<close> once.
\<close>

theorem filesystem_list_tree:
  assumes "p \<noteq> []" and "NUL \<notin> set p" and "shows_tree fs (slashed p) ts" and "tree_height ts < fuel"
  shows "\<exists>l evs. cflare_filesystem_list fuel fs junk (p @ [NUL]) opts = Inr (l, evs) \<and> ll_wf l \<and>
    ll_contents l = concat (map (node_listing (bit opts 0) (bit opts 1) (slashed p) 0) ts) \<and>
    evs = Opendir (slashed p) # concat (map (node_events (bit opts 0) (slashed p)) ts) @ [Closedir (slashed p)] \<and>
    open_streams evs [] = Some [] \<and>
    cflare_linkedlist_delete l = Inr (map (\<lambda>e. (the free_list_ptr, None, e)) (ll_contents l))"
proof -
  let ?l0 = "cflare_linkedlist_ondelete (cflare_linkedlist_new 32) free_list_ptr None :: entry_list"
  from directory_listed_fuel [of fs junk "bit opts 0" "bit opts 1" fuel] assms(3,4) wf_new
  obtain l evs where l: "cflare_filesystem_list fuel fs junk (p @ [NUL]) opts = Inr (l, evs)"
    and e: "evs = Opendir (slashed p) # concat (map (node_events (bit opts 0) (slashed p)) ts) @ [Closedir (slashed p)]"
    and wf: "ll_wf l" and conf: "ll_conf l = ll_conf ?l0"
    and c: "ll_contents l = ll_contents ?l0 @ concat (map (node_listing (bit opts 0) (bit opts 1) (slashed p) 0) ts)"
    unfolding directory_listed_def lists_def filesystem_list_start [OF assms(1,2)]
    by (metis wf_ondelete(1))
  have d: "ll_deleter l = Some 7" "ll_deleter_context l = None"
    using conf by (simp_all add: ll_conf_def cflare_linkedlist_ondelete_def free_list_ptr_def)
  have "cflare_linkedlist_delete l = Inr (map (\<lambda>x. (7, None, x)) (ll_contents l))"
    using linkedlist_delete_calls [OF wf d(1)] d(2) by simp
  with l e wf c show ?thesis
    by (auto simp: open_streams_append open_streams_concat node_events_balanced free_list_ptr_def)
qed

definition sample_fs :: filesystem where
  "sample_fs = [''/d/'' \<mapsto> [\<lparr>d_name = ''.'', d_type = DT_DIR\<rparr>, \<lparr>d_name = ''..'', d_type = DT_DIR\<rparr>,
       \<lparr>d_name = ''a'', d_type = DT_REG\<rparr>, \<lparr>d_name = ''s'', d_type = DT_DIR\<rparr>, \<lparr>d_name = ''n'', d_type = DT_DIR\<rparr>],
     ''/d/s/'' \<mapsto> [\<lparr>d_name = ''..'', d_type = DT_DIR\<rparr>, \<lparr>d_name = ''b'', d_type = DT_LNK\<rparr>]]"

definition sample_tree :: "node list" where
  "sample_tree = [Leaf ''a'' DT_REG, Dir ''s'' [Leaf ''b'' DT_LNK], Closed_dir ''n'']"

lemma sample_shown: "shows_tree sample_fs (slashed ''/d'') sample_tree" "tree_height sample_tree = 1"
  by (simp_all add: shows_tree_def sample_fs_def sample_tree_def slashed_def is_dot_entry_def tree_height_def)

lemma filesystem_list_tree_witness:
  "\<exists>l evs. cflare_filesystem_list 2 sample_fs (\<lambda>_. CHR ''?'') (''/d'' @ [NUL]) 3 = Inr (l, evs) \<and>
    ll_contents l =
      [\<lparr>fe_path = Some (''/d/a'' @ [NUL]), fe_name = 3, fe_type = CFLARE_FILESYSTEM_FILE, fe_depth = 0\<rparr>,
       \<lparr>fe_path = Some (''/d/s/b'' @ [NUL]), fe_name = 5, fe_type = CFLARE_FILESYSTEM_LINK, fe_depth = 1\<rparr>] \<and>
    evs = [Opendir ''/d/'', Opendir ''/d/s/'', Closedir ''/d/s/'', Could_not_list ''/d/n/'', Closedir ''/d/'']"
proof -
  have b: "bit (3 :: 32 word) 0" "bit (3 :: 32 word) (Suc 0)" by simp_all
  show ?thesis
    using filesystem_list_tree [of "''/d''" sample_fs sample_tree 2 "\<lambda>_. CHR ''?''" 3] sample_shown b
    by (auto simp: sample_tree_def slashed_def make_entry_def Let_def)
qed

text \<open>
  An empty path is read one byte before its block; a path that cannot be opened gives an empty list
  and a warning.
\<close>

lemma filesystem_list_empty_path:
  "cflare_filesystem_list fuel fs junk [NUL] opts = Inl Out_of_bounds"
  by (simp add: cflare_filesystem_list_def cstr_def)

lemma filesystem_list_unreadable:
  assumes "p \<noteq> []" and p: "NUL \<notin> set p" and "fs (slashed p) = None" and "0 < fuel"
  shows "\<exists>l. cflare_filesystem_list fuel fs junk (p @ [NUL]) opts = Inr (l, [Could_not_list (slashed p)]) \<and>
    ll_wf l \<and> ll_contents l = []"
proof -
  have "NUL \<notin> set (slashed p)" using p by (simp add: slashed_def)
  from cstr_terminated [OF this, of "[]"] assms show ?thesis
    by (cases fuel) (auto simp: filesystem_list_start [OF assms(1,2)] populate_list.simps)
qed

end
