(* ===== verification/LockTable.thy ===== *)
theory LockTable
  imports Cflare_Prelude
begin

text \<open>
  The locks of \<open>src/cflare-windows/mutex.c\<close>: a table of \<open>lockinfo\<close> that grows by doubling, whose
  positions plus one are the identities that \<open>cflare_mutex\<close> and \<open>cflare_rwmutex\<close> hold. What the
  operating system's slim locks are is left open: \<open>'l\<close> is their type and \<open>new_lock\<close> is what
  \<open>InitializeSRWLock\<close> gives. Every operation on the table runs under \<open>infos_lock\<close>, so it is one step here.
  \<open>avail n\<close> says whether \<open>realloc\<close> can give a table of \<open>n\<close> locks.
\<close>

section \<open>State\<close>

record 'l lockinfo =
  is_used :: bool
  lock_position :: nat
  rw_lock :: 'l
  internallock :: 'l
  write_thread :: nat
  writelock_depth :: nat
  readlock_depth :: nat

text \<open>The table is a null pointer before the first use.\<close>

record 'l lock_table =
  infos :: "'l lockinfo list option"
  infos_free :: nat
  infos_curpos :: nat

definition no_locks :: "'l lock_table" where
  "no_locks = \<lparr>infos = None, infos_free = 0, infos_curpos = 0\<rparr>"

definition infos_list :: "'l lock_table \<Rightarrow> 'l lockinfo list" where
  "infos_list t = (case infos t of None \<Rightarrow> [] | Some xs \<Rightarrow> xs)"

definition infos_len :: "'l lock_table \<Rightarrow> nat" where
  "infos_len t = length (infos_list t)"

text \<open>Access through \<open>infos + i\<close>.\<close>

definition info_at :: "'l lock_table \<Rightarrow> nat \<Rightarrow> 'l lockinfo res" where
  "info_at t i = (case infos t of None \<Rightarrow> Inl Null_deref
     | Some xs \<Rightarrow> if i < length xs then Inr (xs ! i) else Inl Out_of_bounds)"

definition info_write :: "'l lock_table \<Rightarrow> nat \<Rightarrow> 'l lockinfo \<Rightarrow> 'l lock_table res" where
  "info_write t i x = (case infos t of None \<Rightarrow> Inl Null_deref
     | Some xs \<Rightarrow> if i < length xs then Inr (t\<lparr>infos := Some (xs[i := x])\<rparr>) else Inl Out_of_bounds)"

section \<open>Operations\<close>

definition init_info :: "'l \<Rightarrow> nat \<Rightarrow> 'l lockinfo" where
  "init_info new_lock i = \<lparr>is_used = False, lock_position = i, rw_lock = new_lock, internallock = new_lock,
     write_thread = 0, writelock_depth = 0, readlock_depth = 0\<rparr>"

definition realloc_locks :: "(nat \<Rightarrow> bool) \<Rightarrow> 'l \<Rightarrow> 'l lock_table \<Rightarrow> nat \<Rightarrow> 'l lock_table res" where
  "realloc_locks avail new_lock t newsize =
     (let oldsize = infos_len t; newcount = newsize - infos_len t in
      bindE (assertE (avail newsize) Assert_failed) (\<lambda>_.
        Inr (t\<lparr>infos := Some (take newsize (infos_list t) @ map (init_info new_lock) [oldsize..<newsize]),
               infos_free := infos_free t + newcount\<rparr>)))"

text \<open>
  The search for a slot that is not in use goes round the table for ever where there is none; the
  fuel counts its steps.
\<close>

fun find_unused :: "nat \<Rightarrow> 'l lock_table \<Rightarrow> 'l lock_table res" where
  "find_unused 0 t = Inl Out_of_fuel"
| "find_unused (Suc fuel) t =
     bindE (info_at t (infos_curpos t)) (\<lambda>info.
       if \<not> is_used info then Inr t
       else find_unused fuel (t\<lparr>infos_curpos := (infos_curpos t + 1) mod infos_len t\<rparr>))"

text \<open>Marking the slot found as used.\<close>

definition take_unused :: "'l lock_table \<Rightarrow> ('l lock_table \<times> nat) res" where
  "take_unused t =
     bindE (find_unused (infos_len t) t) (\<lambda>t1.
     bindE (info_at t1 (infos_curpos t1)) (\<lambda>info.
     bindE (info_write t1 (infos_curpos t1) (info\<lparr>is_used := True\<rparr>)) (\<lambda>t2.
       Inr (t2\<lparr>infos_free := infos_free t2 - 1\<rparr>, lock_position info + 1))))"

definition alloc_lock :: "(nat \<Rightarrow> bool) \<Rightarrow> 'l \<Rightarrow> 'l lock_table \<Rightarrow> ('l lock_table \<times> nat) res" where
  "alloc_lock avail new_lock t =
     bindE (case infos t of
         None \<Rightarrow> realloc_locks avail new_lock (t\<lparr>infos := Some [], infos_free := 0\<rparr>) 16
       | Some _ \<Rightarrow> Inr t) (\<lambda>t1.
     bindE (if infos_free t1 = 0 then realloc_locks avail new_lock t1 (infos_len t1 * 2) else Inr t1) (\<lambda>t2.
       take_unused t2))"

text \<open>The pointer \<open>get_info\<close> computes, as an index into the table; the test lets the length through.\<close>

definition get_info :: "'l lock_table \<Rightarrow> nat \<Rightarrow> nat res" where
  "get_info t ident =
     (if ident = 0 then Inl (Fatal ''mutex: is null.'')
      else let i = ident - 1 in
        if i > infos_len t then Inl (Fatal ''mutex: outside range of allocated locks.'')
        else Inr i)"

definition free_lock :: "'l lock_table \<Rightarrow> nat \<Rightarrow> 'l lock_table res" where
  "free_lock t lock =
     bindE (get_info t lock) (\<lambda>i.
     bindE (info_at t i) (\<lambda>info.
       if \<not> is_used info then Inl (Fatal ''mutex: freeing already free mutex.'')
       else bindE (info_write t i (info\<lparr>is_used := False\<rparr>)) (\<lambda>t1.
         Inr (t1\<lparr>infos_free := infos_free t1 + 1\<rparr>))))"

text \<open>A mutex and a read-write mutex are both the identity of a lock; the type asked for is not used.\<close>

definition cflare_rwmutex_new ::
  "(nat \<Rightarrow> bool) \<Rightarrow> 'l \<Rightarrow> 'l lock_table \<Rightarrow> 32 word \<Rightarrow> ('l lock_table \<times> nat) res" where
  "cflare_rwmutex_new avail new_lock t type = alloc_lock avail new_lock t"

definition cflare_rwmutex_delete :: "'l lock_table \<Rightarrow> nat \<Rightarrow> 'l lock_table res" where
  "cflare_rwmutex_delete t mtx = free_lock t mtx"

definition cflare_mutex_new ::
  "(nat \<Rightarrow> bool) \<Rightarrow> 'l \<Rightarrow> 'l lock_table \<Rightarrow> 32 word \<Rightarrow> ('l lock_table \<times> nat) res" where
  "cflare_mutex_new avail new_lock t type = cflare_rwmutex_new avail new_lock t type"

definition cflare_mutex_delete :: "'l lock_table \<Rightarrow> nat \<Rightarrow> 'l lock_table res" where
  "cflare_mutex_delete t mtx = cflare_rwmutex_delete t mtx"

section \<open>The invariant of the table\<close>

definition unused_count :: "'l lockinfo list \<Rightarrow> nat" where
  "unused_count xs = length (filter (\<lambda>x. \<not> is_used x) xs)"

definition table_ok :: "'l lock_table \<Rightarrow> bool" where
  "table_ok t \<longleftrightarrow> (case infos t of
       None \<Rightarrow> infos_curpos t = 0
     | Some xs \<Rightarrow> xs \<noteq> [] \<and> infos_curpos t < length xs \<and> infos_free t = unused_count xs \<and>
         map lock_position xs = [0..<length xs])"

text \<open>The identities of the locks in use, and the lock behind one.\<close>

definition live_locks :: "'l lock_table \<Rightarrow> nat set" where
  "live_locks t = {Suc i | i. i < infos_len t \<and> is_used (infos_list t ! i)}"

definition lock_of :: "'l lock_table \<Rightarrow> nat \<Rightarrow> 'l lockinfo option" where
  "lock_of t ident = (if ident \<in> live_locks t then Some (infos_list t ! (ident - 1)) else None)"

lemma table_ok_new [simp]: "table_ok no_locks"
  by (simp add: table_ok_def no_locks_def)

lemma live_locks_new [simp]: "live_locks no_locks = {}"
  by (simp add: live_locks_def no_locks_def infos_len_def infos_list_def)

text \<open>The search ends at a slot that is not in use, whenever there is one, within one round.\<close>

lemma find_unused_at:
  assumes "infos t = Some xs" and "i < length xs" and "\<not> is_used (xs ! i)" and "infos_curpos t < length xs"
    and "(infos_curpos t + n) mod length xs = i" and "n < fuel"
  shows "\<exists>p. find_unused fuel t = Inr (t\<lparr>infos_curpos := p\<rparr>) \<and> p < length xs \<and> \<not> is_used (xs ! p)"
  using assms
proof (induction n arbitrary: t fuel)
  case 0
  then show ?case
    by (cases fuel) (auto simp: info_at_def intro!: exI [of _ "infos_curpos t"])
next
  case (Suc n)
  from Suc.prems(6) obtain fuel' where f: "fuel = Suc fuel'" "n < fuel'" by (cases fuel) auto
  show ?case
  proof (cases "is_used (xs ! infos_curpos t)")
    case False
    with Suc.prems show ?thesis by (auto simp: f info_at_def intro!: exI [of _ "infos_curpos t"])
  next
    case True
    let ?t = "t\<lparr>infos_curpos := (infos_curpos t + 1) mod length xs\<rparr>"
    have "((infos_curpos t + 1) mod length xs + n) mod length xs = i"
      using Suc.prems(5) by (simp add: mod_simps)
    moreover have "infos_curpos ?t < length xs"
      using Suc.prems(2) by (simp del: length_greater_0_conv)
    ultimately obtain p where
      "find_unused fuel' ?t = Inr (?t\<lparr>infos_curpos := p\<rparr>)" "p < length xs" "\<not> is_used (xs ! p)"
      using Suc.IH [of ?t fuel'] Suc.prems(1-3) f(2) by auto
    with True Suc.prems show ?thesis by (auto simp: f info_at_def infos_len_def infos_list_def)
  qed
qed

lemma find_unused_ok:
  assumes "infos t = Some xs" and "infos_curpos t < length xs" and "unused_count xs \<noteq> 0"
  shows "\<exists>p. find_unused (length xs) t = Inr (t\<lparr>infos_curpos := p\<rparr>) \<and> p < length xs \<and> \<not> is_used (xs ! p)"
proof -
  from assms(3) obtain i where i: "i < length xs" "\<not> is_used (xs ! i)"
    by (auto simp: unused_count_def filter_empty_conv in_set_conv_nth)
  let ?n = "(length xs - infos_curpos t + i) mod length xs"
  have "(infos_curpos t + (length xs - infos_curpos t + i)) mod length xs = i"
    using assms(2) i(1) by simp
  then have "(infos_curpos t + ?n) mod length xs = i" by (simp add: mod_simps)
  moreover have "?n < length xs" using i(1) by (intro mod_less_divisor) linarith
  ultimately show ?thesis
    using find_unused_at [OF assms(1) i assms(2)] by blast
qed

lemma unused_count_use:
  assumes "i < length xs" and "\<not> is_used (xs ! i)" and "is_used x"
  shows "unused_count (xs[i := x]) = unused_count xs - 1" and "unused_count xs \<noteq> 0"
proof -
  have "unused_count xs = unused_count (take i xs @ xs ! i # drop (Suc i) xs)"
    using assms(1) by (simp flip: id_take_nth_drop)
  then show "unused_count (xs[i := x]) = unused_count xs - 1" "unused_count xs \<noteq> 0"
    using assms by (simp_all add: unused_count_def upd_conv_take_nth_drop)
qed

lemma unused_count_free:
  assumes "i < length xs" and "is_used (xs ! i)" and "\<not> is_used x"
  shows "unused_count (xs[i := x]) = unused_count xs + 1"
proof -
  have "unused_count xs = unused_count (take i xs @ xs ! i # drop (Suc i) xs)"
    using assms(1) by (simp flip: id_take_nth_drop)
  then show ?thesis
    using assms by (simp add: unused_count_def upd_conv_take_nth_drop)
qed

text \<open>Growing a table keeps every lock where it is and adds locks that are not in use.\<close>

lemma realloc_locks_ok:
  assumes "infos t = Some xs" and "map lock_position xs = [0..<length xs]" and "infos_curpos t \<le> length xs"
    and "infos_curpos t < n" and "infos_free t = unused_count xs" and "length xs < n" and "avail n"
  shows "\<exists>t'. realloc_locks avail new_lock t n = Inr t' \<and> table_ok t' \<and> infos_free t' \<noteq> 0 \<and>
    (\<exists>ys. infos t' = Some (xs @ ys) \<and> (\<forall>y \<in> set ys. \<not> is_used y))"
proof -
  let ?ys = "map (init_info new_lock) [length xs..<n]"
  have "realloc_locks avail new_lock t n =
      Inr (t\<lparr>infos := Some (xs @ ?ys), infos_free := infos_free t + (n - length xs)\<rparr>)"
    using assms by (simp add: realloc_locks_def infos_len_def infos_list_def)
  moreover have "[0..<n] = [0..<length xs] @ [length xs..<n]"
    using assms(6) upt_add_eq_append [of 0 "length xs" "n - length xs"] by simp
  then have "map lock_position (xs @ ?ys) = [0..<length (xs @ ?ys)]"
    using assms(2,6) by (simp add: init_info_def o_def)
  moreover have "unused_count (xs @ ?ys) = unused_count xs + (n - length xs)"
    by (simp add: unused_count_def init_info_def o_def)
  moreover have "\<forall>y \<in> set ?ys. \<not> is_used y" by (simp add: init_info_def)
  ultimately show ?thesis
    using assms by (auto simp: table_ok_def)
qed

lemma live_append:
  assumes "infos t = Some xs" and "infos t' = Some (xs @ ys)" and "\<forall>y \<in> set ys. \<not> is_used y"
  shows "live_locks t' = live_locks t" and "i \<in> live_locks t \<Longrightarrow> lock_of t' i = lock_of t i"
proof -
  have "i < length xs" if "is_used ((xs @ ys) ! i)" and "i < length xs + length ys" for i
  proof (rule ccontr)
    assume "\<not> i < length xs"
    with that have "is_used (ys ! (i - length xs))" "i - length xs < length ys" by (auto simp: nth_append)
    with assms(3) show False by (meson nth_mem)
  qed
  then show l: "live_locks t' = live_locks t"
    using assms(1,2) by (fastforce simp: live_locks_def infos_len_def infos_list_def nth_append)
  show "lock_of t' i = lock_of t i" if "i \<in> live_locks t"
    using assms(1,2) that l by (auto simp: lock_of_def live_locks_def infos_len_def infos_list_def nth_append)
qed

lemma live_null: "infos t = None \<Longrightarrow> live_locks t = {}"
  by (simp add: live_locks_def infos_len_def infos_list_def)

text \<open>The first two steps of an allocation leave a table with a slot that is not in use.\<close>

lemma make_room:
  assumes ok: "table_ok t" and av: "\<forall>n. avail n"
  shows "\<exists>t1 t2 xs. (case infos t of
         None \<Rightarrow> realloc_locks avail new_lock (t\<lparr>infos := Some [], infos_free := 0\<rparr>) 16
       | Some _ \<Rightarrow> Inr t) = Inr t1 \<and>
     (if infos_free t1 = 0 then realloc_locks avail new_lock t1 (infos_len t1 * 2) else Inr t1) = Inr t2 \<and>
     table_ok t2 \<and> infos t2 = Some xs \<and> infos_free t2 \<noteq> 0 \<and> live_locks t2 = live_locks t \<and>
     (\<forall>i \<in> live_locks t. lock_of t2 i = lock_of t i)"
proof (cases "infos t")
  case None
  let ?t = "t\<lparr>infos := Some [], infos_free := 0\<rparr>"
  have "infos_curpos t = 0" using ok None by (simp add: table_ok_def)
  with realloc_locks_ok [of ?t "[]" 16 avail new_lock] av obtain t1 ys where
    t1: "realloc_locks avail new_lock ?t 16 = Inr t1" "table_ok t1" "infos_free t1 \<noteq> 0"
      "infos t1 = Some ys" "\<forall>y \<in> set ys. \<not> is_used y"
    by (auto simp: unused_count_def)
  have "live_locks t1 = {}" "live_locks t = {}"
    using t1(4,5) None by (force simp: live_locks_def infos_len_def infos_list_def)+
  with t1 None show ?thesis by simp
next
  case (Some xs)
  show ?thesis
  proof (cases "infos_free t = 0")
    case False
    with Some ok show ?thesis by simp
  next
    case True
    from Some ok have "map lock_position xs = [0..<length xs]" "infos_curpos t < length xs"
      "infos_free t = unused_count xs" "xs \<noteq> []"
      by (simp_all add: table_ok_def)
    with realloc_locks_ok [OF Some, of "length xs * 2" avail new_lock] av obtain t2 ys where
      t2: "realloc_locks avail new_lock t (length xs * 2) = Inr t2" "table_ok t2" "infos_free t2 \<noteq> 0"
        "infos t2 = Some (xs @ ys)" "\<forall>y \<in> set ys. \<not> is_used y"
      by auto
    with True Some live_append [OF Some t2(4,5)] show ?thesis
      by (auto simp: infos_len_def infos_list_def)
  qed
qed

text \<open>Writing one slot of the table.\<close>

lemma live_write:
  assumes "infos t = Some xs" and "i < length xs"
  shows "live_locks (t\<lparr>infos := Some (xs[i := x]), infos_free := n\<rparr>) =
      (if is_used x then insert (Suc i) (live_locks t) else live_locks t - {Suc i})"
    and "j \<noteq> Suc i \<Longrightarrow> lock_of (t\<lparr>infos := Some (xs[i := x]), infos_free := n\<rparr>) j = lock_of t j"
  using assms
  by (auto simp: live_locks_def lock_of_def infos_len_def infos_list_def nth_list_update split: if_splits)

lemma position_nth: "map lock_position xs = [0..<length xs] \<Longrightarrow> i < length xs \<Longrightarrow> lock_position (xs ! i) = i"
  by (metis nth_map nth_upt add_0 diff_zero length_upt)

lemma positions_write:
  "map lock_position xs = [0..<length xs] \<Longrightarrow> i < length xs \<Longrightarrow> lock_position x = i \<Longrightarrow>
   map lock_position (xs[i := x]) = [0..<length xs]"
  by (simp add: map_update list_update_same_conv)

lemma take_unused_ok:
  assumes ok: "table_ok t" and xs: "infos t = Some xs" and free: "infos_free t \<noteq> 0"
  shows "\<exists>t' p. take_unused t = Inr (t', Suc p) \<and> p < length xs \<and> \<not> is_used (xs ! p) \<and> table_ok t' \<and>
    live_locks t' = insert (Suc p) (live_locks t) \<and> lock_of t' (Suc p) = Some ((xs ! p)\<lparr>is_used := True\<rparr>) \<and>
    (\<forall>i \<in> live_locks t. lock_of t' i = lock_of t i)"
proof -
  from ok xs have inv: "infos_curpos t < length xs" "infos_free t = unused_count xs"
      "map lock_position xs = [0..<length xs]"
    by (simp_all add: table_ok_def)
  with find_unused_ok [OF xs inv(1)] free obtain p where
    p: "find_unused (length xs) t = Inr (t\<lparr>infos_curpos := p\<rparr>)" "p < length xs" "\<not> is_used (xs ! p)"
    by auto
  let ?x = "(xs ! p)\<lparr>is_used := True\<rparr>"
  let ?t = "t\<lparr>infos := Some (xs[p := ?x]), infos_free := infos_free t - 1\<rparr>"
  let ?t' = "?t\<lparr>infos_curpos := p\<rparr>"
  have "take_unused t = Inr (?t', Suc p)"
    using p xs position_nth [OF inv(3) p(2)]
    by (simp add: take_unused_def infos_len_def infos_list_def info_at_def info_write_def)
  moreover have "map lock_position (xs[p := ?x]) = [0..<length xs]"
    using positions_write [OF inv(3) p(2)] position_nth [OF inv(3) p(2)] by simp
  then have "table_ok ?t'"
    using inv p unused_count_use(1) [OF p(2,3), of ?x] by (auto simp: table_ok_def)
  moreover have "live_locks ?t' = live_locks ?t" "lock_of ?t' = lock_of ?t"
    by (auto simp: live_locks_def lock_of_def infos_len_def infos_list_def fun_eq_iff)
  moreover have "\<forall>i \<in> live_locks t. i \<noteq> Suc p"
    using p xs by (auto simp: live_locks_def infos_len_def infos_list_def)
  moreover have "lock_of ?t (Suc p) = Some ?x"
    using p(2) by (simp add: lock_of_def live_locks_def infos_len_def infos_list_def)
  ultimately show ?thesis
    using p(2,3) live_write [OF xs p(2), where x = ?x and n = "infos_free t - 1"] by auto
qed

lemma alloc_lock_ok:
  assumes ok: "table_ok t" and av: "\<forall>n. avail n"
  shows "\<exists>t' ident. alloc_lock avail new_lock t = Inr (t', ident) \<and> table_ok t' \<and> ident \<noteq> 0 \<and>
    ident \<notin> live_locks t \<and> live_locks t' = insert ident (live_locks t) \<and>
    (\<forall>i \<in> live_locks t. lock_of t' i = lock_of t i)"
proof -
  from make_room [OF assms] obtain t1 t2 xs where
    r: "(case infos t of
         None \<Rightarrow> realloc_locks avail new_lock (t\<lparr>infos := Some [], infos_free := 0\<rparr>) 16
       | Some _ \<Rightarrow> Inr t) = Inr t1"
     "(if infos_free t1 = 0 then realloc_locks avail new_lock t1 (infos_len t1 * 2) else Inr t1) = Inr t2"
    and ok2: "table_ok t2" and xs: "infos t2 = Some xs" and free: "infos_free t2 \<noteq> 0"
    and live: "live_locks t2 = live_locks t" "\<forall>i \<in> live_locks t. lock_of t2 i = lock_of t i"
    by blast
  have a: "alloc_lock avail new_lock t = take_unused t2"
    unfolding alloc_lock_def r bindE_Inr ..
  from take_unused_ok [OF ok2 xs free] obtain t' p where t': "take_unused t2 = Inr (t', Suc p)"
    "p < length xs" "\<not> is_used (xs ! p)" "table_ok t'" "live_locks t' = insert (Suc p) (live_locks t2)"
    "\<forall>i \<in> live_locks t2. lock_of t' i = lock_of t2 i" by blast
  have "Suc p \<notin> live_locks t2" using t'(3) xs by (auto simp: live_locks_def infos_len_def infos_list_def)
  with a t' live show ?thesis by auto
qed

lemma live_lockE:
  assumes "ident \<in> live_locks t" and "table_ok t"
  obtains xs where "infos t = Some xs" and "ident - 1 < length xs" and "is_used (xs ! (ident - 1))"
    and "ident = Suc (ident - 1)"
  using assms by (cases "infos t") (auto simp: live_locks_def infos_len_def infos_list_def)

lemma free_lock_ok:
  assumes ok: "table_ok t" and live: "ident \<in> live_locks t"
  shows "\<exists>t'. free_lock t ident = Inr t' \<and> table_ok t' \<and> live_locks t' = live_locks t - {ident} \<and>
    (\<forall>i \<in> live_locks t - {ident}. lock_of t' i = lock_of t i)"
proof -
  from live_lockE [OF live ok] obtain xs where xs: "infos t = Some xs" "ident - 1 < length xs"
    "is_used (xs ! (ident - 1))" and s: "ident = Suc (ident - 1)" by blast
  let ?i = "ident - 1"
  let ?x = "(xs ! ?i)\<lparr>is_used := False\<rparr>"
  let ?t = "t\<lparr>infos := Some (xs[?i := ?x]), infos_free := infos_free t + 1\<rparr>"
  from ok xs(1) have inv: "infos_curpos t < length xs" "infos_free t = unused_count xs"
      "map lock_position xs = [0..<length xs]"
    by (simp_all add: table_ok_def)
  have "free_lock t ident = Inr ?t"
    using xs s by (simp add: free_lock_def get_info_def infos_len_def infos_list_def info_at_def info_write_def)
  moreover have "map lock_position (xs[?i := ?x]) = [0..<length xs]"
    using positions_write [OF inv(3) xs(2)] position_nth [OF inv(3) xs(2)] by simp
  then have "table_ok ?t"
    using inv xs unused_count_free [OF xs(2,3), of ?x] by (auto simp: table_ok_def)
  ultimately show ?thesis
    using live_write [OF xs(1,2), where x = ?x and n = "infos_free t + 1"] s by auto
qed

lemma free_lock_refused:
  assumes "ident \<notin> live_locks t" and "table_ok t"
  shows "\<exists>e. free_lock t ident = Inl e"
proof (cases "infos t")
  case (Some xs)
  then show ?thesis
    using assms by (auto simp: free_lock_def get_info_def live_locks_def infos_len_def infos_list_def
        info_at_def Let_def gr0_conv_Suc)
qed (auto simp: free_lock_def get_info_def info_at_def Let_def)

section \<open>Identities as a resource\<close>

text \<open>
  What the users of an allocator of identities rely on: an identity handed out is not 0 and not in
  use, what is behind the other identities does not change, and giving back what is not in use is
  an error. A run of allocations then hands out different identities.
\<close>

locale identity_pool =
  fixes wf :: "'s \<Rightarrow> bool" and live :: "'s \<Rightarrow> nat set" and at :: "'s \<Rightarrow> nat \<Rightarrow> 'v option"
    and alloc :: "'s \<Rightarrow> ('s \<times> nat) res" and release :: "'s \<Rightarrow> nat \<Rightarrow> 's res"
  assumes alloc_law: "wf s \<Longrightarrow> \<exists>s' i. alloc s = Inr (s', i) \<and> wf s' \<and> i \<noteq> 0 \<and> i \<notin> live s \<and>
      live s' = insert i (live s) \<and> (\<forall>j \<in> live s. at s' j = at s j)"
    and release_law: "wf s \<Longrightarrow> i \<in> live s \<Longrightarrow> \<exists>s'. release s i = Inr s' \<and> wf s' \<and>
      live s' = live s - {i} \<and> (\<forall>j \<in> live s - {i}. at s' j = at s j)"
    and release_dead: "wf s \<Longrightarrow> i \<notin> live s \<Longrightarrow> \<exists>e. release s i = Inl e"
begin

fun allocs :: "nat \<Rightarrow> 's \<Rightarrow> ('s \<times> nat list) res" where
  "allocs 0 s = Inr (s, [])"
| "allocs (Suc n) s = bindE (alloc s) (\<lambda>(s', i). bindE (allocs n s') (\<lambda>(s'', is). Inr (s'', i # is)))"

lemma allocs_distinct:
  "wf s \<Longrightarrow> \<exists>s' is. allocs n s = Inr (s', is) \<and> wf s' \<and> length is = n \<and> distinct is \<and> 0 \<notin> set is \<and>
     set is \<inter> live s = {} \<and> live s' = live s \<union> set is \<and> (\<forall>j \<in> live s. at s' j = at s j)"
proof (induction n arbitrary: s)
  case (Suc n)
  from alloc_law [OF Suc.prems] obtain s1 i where s1: "alloc s = Inr (s1, i)" "wf s1" "i \<noteq> 0" "i \<notin> live s"
    "live s1 = insert i (live s)" "\<forall>j \<in> live s. at s1 j = at s j" by blast
  from Suc.IH [OF s1(2)] s1 show ?case by fastforce
qed simp

text \<open>Identities given back can be handed out again; those not given back stay as they are.\<close>

lemma release_alloc:
  assumes "wf s" and "i \<in> live s"
  shows "\<exists>s1 s2 k. release s i = Inr s1 \<and> alloc s1 = Inr (s2, k) \<and> wf s2 \<and> k \<notin> live s - {i} \<and>
    live s2 = insert k (live s - {i}) \<and> (\<forall>j \<in> live s - {i}. at s2 j = at s j)"
proof -
  from release_law [OF assms] obtain s1 where s1: "release s i = Inr s1" "wf s1" "live s1 = live s - {i}"
    "\<forall>j \<in> live s - {i}. at s1 j = at s j" by blast
  from alloc_law [OF s1(2)] s1 show ?thesis by fastforce
qed

end

text \<open>Memory without end is an assumption of the interpretation: without it an allocation aborts.\<close>

abbreviation "enough_memory \<equiv> \<lambda>n :: nat. True"

interpretation locks: identity_pool table_ok live_locks lock_of
  "\<lambda>t. alloc_lock enough_memory new_lock t" free_lock
  using alloc_lock_ok [of _ enough_memory] free_lock_ok free_lock_refused
  by unfold_locales simp_all

section \<open>Properties\<close>

text \<open>
  C26: the table of locks is a pool of identities. Creating a mutex always finds a slot, whether the table
  is still null, has room or has to be doubled, and gives an identity that is not 0 and that no mutex in
  use has; the locks behind the others stay as they were. Deleting a mutex gives its identity back and no other; an
  identity that is not in use is refused, or is the one past the end that the range test lets through.
\<close>

theorem lock_table_pool:
  assumes "table_ok t" and "\<forall>n. avail n"
  shows "(\<exists>t' ident. cflare_rwmutex_new avail new_lock t type = Inr (t', ident) \<and> table_ok t' \<and> ident \<noteq> 0 \<and>
      ident \<notin> live_locks t \<and> live_locks t' = insert ident (live_locks t) \<and>
      (\<forall>i \<in> live_locks t. lock_of t' i = lock_of t i)) \<and>
    (if mtx \<in> live_locks t
      then \<exists>t'. cflare_rwmutex_delete t mtx = Inr t' \<and> table_ok t' \<and> live_locks t' = live_locks t - {mtx} \<and>
        (\<forall>i \<in> live_locks t - {mtx}. lock_of t' i = lock_of t i)
      else \<exists>e. cflare_rwmutex_delete t mtx = Inl e)"
proof -
  have "avail = enough_memory" using assms(2) by (simp add: fun_eq_iff)
  then show ?thesis
    using locks.alloc_law [OF assms(1)] locks.release_law [OF assms(1)] locks.release_dead [OF assms(1)]
    by (simp add: cflare_rwmutex_new_def cflare_rwmutex_delete_def)
qed

definition two_locks :: "nat lock_table" where
  "two_locks = \<lparr>infos = Some [(init_info 0 0)\<lparr>is_used := True, writelock_depth := 1\<rparr>, (init_info 0 1)\<lparr>is_used := True\<rparr>],
     infos_free = 0, infos_curpos = 1\<rparr>"

lemma two_locks_ok: "table_ok two_locks" "live_locks two_locks = {1, 2}"
  by (auto simp: two_locks_def table_ok_def init_info_def unused_count_def live_locks_def infos_len_def
      infos_list_def less_Suc_eq)

lemma lock_table_pool_witness:
  "(\<exists>t' ident. cflare_rwmutex_new enough_memory 0 two_locks 1 = Inr (t', ident) \<and> ident \<notin> {0, 1, 2} \<and>
     live_locks t' = {1, 2, ident}) \<and>
   (\<exists>t'. cflare_rwmutex_delete two_locks 1 = Inr t' \<and> live_locks t' = {2}) \<and>
   (\<exists>e. cflare_rwmutex_delete two_locks 3 = Inl e)"
  using lock_table_pool [of two_locks enough_memory 0 1 1] lock_table_pool [of two_locks enough_memory 0 1 3]
    two_locks_ok
  by (auto simp: insert_commute)

text \<open>
  a slot is only initialised when the table grows. A mutex that is deleted while it is locked comes
  back locked: in a full table the next mutex created has the same identity and the same locks, owner and depths.
\<close>

theorem deleted_lock_comes_back:
  assumes "table_ok t" and "infos_free t = 0" and "lock_of t mtx = Some info"
  shows "\<exists>t1 t2. cflare_mutex_delete t mtx = Inr t1 \<and>
    cflare_mutex_new avail new_lock t1 type = Inr (t2, mtx) \<and> lock_of t2 mtx = Some info"
proof -
  from assms(3) have live: "mtx \<in> live_locks t" by (simp add: lock_of_def split: if_splits)
  from live_lockE [OF live assms(1)] obtain xs where xs: "infos t = Some xs" "mtx - 1 < length xs"
    "is_used (xs ! (mtx - 1))" "mtx = Suc (mtx - 1)" by blast
  from assms(3) live xs have info: "info = xs ! (mtx - 1)" by (simp add: lock_of_def infos_list_def)
  from assms(1,2) xs(1) have "\<forall>x \<in> set xs. is_used x"
    by (simp add: table_ok_def unused_count_def filter_empty_conv)
  let ?x = "info\<lparr>is_used := False\<rparr>"
  let ?t1 = "t\<lparr>infos := Some (xs[mtx - 1 := ?x]), infos_free := 1\<rparr>"
  have t1: "free_lock t mtx = Inr ?t1"
    using xs info assms(2)
    by (simp add: free_lock_def get_info_def infos_len_def infos_list_def info_at_def info_write_def)
  with free_lock_ok [OF assms(1) live] have ok1: "table_ok ?t1" by auto
  have "alloc_lock avail new_lock ?t1 = take_unused ?t1" by (simp add: alloc_lock_def)
  moreover obtain t2 p where t2: "take_unused ?t1 = Inr (t2, Suc p)" "p < length xs"
    "\<not> is_used (xs[mtx - 1 := ?x] ! p)" "lock_of t2 (Suc p) = Some ((xs[mtx - 1 := ?x] ! p)\<lparr>is_used := True\<rparr>)"
    using take_unused_ok [OF ok1, of "xs[mtx - 1 := ?x]"] by auto
  moreover have "p = mtx - 1"
    using t2(2,3) \<open>\<forall>x \<in> set xs. is_used x\<close> by (metis nth_list_update_neq nth_mem)
  ultimately have "alloc_lock avail new_lock ?t1 = Inr (t2, mtx)" "lock_of t2 mtx = Some info"
    using xs info by simp_all
  with t1 show ?thesis
    by (simp add: cflare_mutex_delete_def cflare_rwmutex_delete_def cflare_mutex_new_def cflare_rwmutex_new_def)
qed

lemma deleted_lock_comes_back_witness:
  "\<exists>t1 t2. cflare_mutex_delete two_locks 1 = Inr t1 \<and> cflare_mutex_new enough_memory 0 t1 1 = Inr (t2, 1) \<and>
     map_option writelock_depth (lock_of t2 1) = Some 1"
proof -
  let ?x = "(init_info 0 0)\<lparr>is_used := True, writelock_depth := 1\<rparr> :: nat lockinfo"
  have "lock_of two_locks 1 = Some ?x"
    by (simp add: lock_of_def two_locks_ok) (simp add: two_locks_def infos_list_def)
  moreover have "infos_free two_locks = 0" by (simp add: two_locks_def)
  ultimately show ?thesis
    using deleted_lock_comes_back [of two_locks 1 ?x enough_memory 0 1] two_locks_ok(1) by fastforce
qed

text \<open>The range test of \<open>get_info\<close> lets the position after the last lock through.\<close>

lemma get_info_past_the_end:
  "get_info two_locks 3 = Inr 2 \<and> cflare_rwmutex_delete two_locks 3 = Inl Out_of_bounds"
  by (simp add: get_info_def two_locks_def infos_len_def infos_list_def cflare_rwmutex_delete_def free_lock_def
      info_at_def)

end
