(* ===== verification/RwLock.thy ===== *)
theory RwLock
  imports LockTable
begin

text \<open>
  The read-write lock of \<open>src/cflare-windows/mutex.c\<close>, as many threads use it. One \<open>lockinfo\<close> holds two
  slim locks of the operating system: \<open>internallock\<close> guards the fields, \<open>lock\<close> is what a writer or the
  readers hold. A thread that holds the lock for writing may take it again, for writing or for reading;
  the depths count this.

  The slim locks are a parameter (\<open>srw\<close>), of which the theorems assume what is documented of them. So is
  \<open>cur t\<close>, the value that \<open>GetCurrentThread()\<close> has in the thread \<open>t\<close>. The functions are cut into the steps
  between two calls of the operating system, and a run of the system is any interleaving of the steps of
  its threads.
\<close>

section \<open>One thread\<close>

text \<open>Taking a lock is \<open>None\<close> while it would block.\<close>

record 'l srw =
  AcquireSRWLockExclusive :: "'l \<Rightarrow> 'l option"
  ReleaseSRWLockExclusive :: "'l \<Rightarrow> 'l"
  AcquireSRWLockShared :: "'l \<Rightarrow> 'l option"
  ReleaseSRWLockShared :: "'l \<Rightarrow> 'l"

text \<open>Where a thread is, named by what it does next; \<open>Idle\<close> is outside the functions of the lock.\<close>

datatype lock_pc =
    Idle
  | Write_enter | Write_test | Write_wait | Write_got | Write_set
  | Unwrite_enter | Unwrite_test | Unwrite_unlock | Unwrite_leave
  | Read_enter | Read_test | Read_wait
  | Unread_enter | Unread_test | Unread_unlock

text \<open>\<open>++\<close> and \<open>--\<close> on a \<open>size_t\<close>.\<close>

definition inc64 :: "nat \<Rightarrow> nat" where "inc64 n = (n + 1) mod 2 ^ 64"
definition dec64 :: "nat \<Rightarrow> nat" where "dec64 n = (n + 2 ^ 64 - 1) mod 2 ^ 64"

definition leave_internal :: "'l srw \<Rightarrow> 'l lockinfo \<Rightarrow> 'l lockinfo" where
  "leave_internal api info = info\<lparr>internallock := ReleaseSRWLockExclusive api (internallock info)\<rparr>"

definition enter_internal :: "'l srw \<Rightarrow> 'l lockinfo \<Rightarrow> 'l lockinfo option" where
  "enter_internal api info =
     map_option (\<lambda>l. info\<lparr>internallock := l\<rparr>) (AcquireSRWLockExclusive api (internallock info))"

fun cflare_rwmutex_write_lock ::
  "'l srw \<Rightarrow> nat \<Rightarrow> lock_pc \<Rightarrow> 'l lockinfo \<Rightarrow> (lock_pc \<times> 'l lockinfo) option" where
  "cflare_rwmutex_write_lock api me Write_enter info =
     map_option (Pair Write_test) (enter_internal api info)"
| "cflare_rwmutex_write_lock api me Write_test info =
     (if write_thread info = me
      then Some (Idle, leave_internal api (info\<lparr>writelock_depth := inc64 (writelock_depth info)\<rparr>))
      else Some (Write_wait, leave_internal api info))"
| "cflare_rwmutex_write_lock api me Write_wait info =
     map_option (\<lambda>l. (Write_got, info\<lparr>rw_lock := l\<rparr>)) (AcquireSRWLockExclusive api (rw_lock info))"
| "cflare_rwmutex_write_lock api me Write_got info =
     map_option (Pair Write_set) (enter_internal api info)"
| "cflare_rwmutex_write_lock api me Write_set info =
     Some (Idle, leave_internal api (info\<lparr>write_thread := me, writelock_depth := 1\<rparr>))"
| "cflare_rwmutex_write_lock api me _ info = None"

fun cflare_rwmutex_write_unlock ::
  "'l srw \<Rightarrow> nat \<Rightarrow> lock_pc \<Rightarrow> 'l lockinfo \<Rightarrow> (lock_pc \<times> 'l lockinfo) option" where
  "cflare_rwmutex_write_unlock api me Unwrite_enter info =
     map_option (Pair Unwrite_test) (enter_internal api info)"
| "cflare_rwmutex_write_unlock api me Unwrite_test info =
     (let info1 = (if write_thread info = me
                   then info\<lparr>writelock_depth := dec64 (writelock_depth info)\<rparr> else info)
      in if write_thread info = me \<and> writelock_depth info1 > 0
         then Some (Idle, leave_internal api info1)
         else Some (Unwrite_unlock, info1\<lparr>write_thread := 0\<rparr>))"
| "cflare_rwmutex_write_unlock api me Unwrite_unlock info =
     Some (Unwrite_leave, info\<lparr>rw_lock := ReleaseSRWLockExclusive api (rw_lock info)\<rparr>)"
| "cflare_rwmutex_write_unlock api me Unwrite_leave info = Some (Idle, leave_internal api info)"
| "cflare_rwmutex_write_unlock api me _ info = None"

fun cflare_rwmutex_read_lock ::
  "'l srw \<Rightarrow> nat \<Rightarrow> lock_pc \<Rightarrow> 'l lockinfo \<Rightarrow> (lock_pc \<times> 'l lockinfo) option" where
  "cflare_rwmutex_read_lock api me Read_enter info =
     map_option (Pair Read_test) (enter_internal api info)"
| "cflare_rwmutex_read_lock api me Read_test info =
     (if write_thread info = me
      then Some (Idle, leave_internal api (info\<lparr>readlock_depth := inc64 (readlock_depth info)\<rparr>))
      else Some (Read_wait, leave_internal api info))"
| "cflare_rwmutex_read_lock api me Read_wait info =
     map_option (\<lambda>l. (Idle, info\<lparr>rw_lock := l\<rparr>)) (AcquireSRWLockShared api (rw_lock info))"
| "cflare_rwmutex_read_lock api me _ info = None"

fun cflare_rwmutex_read_unlock ::
  "'l srw \<Rightarrow> nat \<Rightarrow> lock_pc \<Rightarrow> 'l lockinfo \<Rightarrow> (lock_pc \<times> 'l lockinfo) option" where
  "cflare_rwmutex_read_unlock api me Unread_enter info =
     map_option (Pair Unread_test) (enter_internal api info)"
| "cflare_rwmutex_read_unlock api me Unread_test info =
     (if write_thread info = me
      then Some (Idle, leave_internal api (info\<lparr>readlock_depth := dec64 (readlock_depth info)\<rparr>))
      else Some (Unread_unlock, leave_internal api info))"
| "cflare_rwmutex_read_unlock api me Unread_unlock info =
     Some (Idle, info\<lparr>rw_lock := ReleaseSRWLockShared api (rw_lock info)\<rparr>)"
| "cflare_rwmutex_read_unlock api me _ info = None"

text \<open>What a thread does next: the step of the function it is in.\<close>

definition thread_code ::
  "'l srw \<Rightarrow> nat \<Rightarrow> lock_pc \<Rightarrow> 'l lockinfo \<Rightarrow> (lock_pc \<times> 'l lockinfo) option" where
  "thread_code api me pc info =
     (if pc \<in> {Write_enter, Write_test, Write_wait, Write_got, Write_set}
        then cflare_rwmutex_write_lock api me pc info
      else if pc \<in> {Unwrite_enter, Unwrite_test, Unwrite_unlock, Unwrite_leave}
        then cflare_rwmutex_write_unlock api me pc info
      else if pc \<in> {Read_enter, Read_test, Read_wait} then cflare_rwmutex_read_lock api me pc info
      else cflare_rwmutex_read_unlock api me pc info)"

text \<open>A plain mutex is the same lock, taken for writing.\<close>

definition cflare_mutex_lock ::
  "'l srw \<Rightarrow> nat \<Rightarrow> lock_pc \<Rightarrow> 'l lockinfo \<Rightarrow> (lock_pc \<times> 'l lockinfo) option" where
  "cflare_mutex_lock = cflare_rwmutex_write_lock"

definition cflare_mutex_unlock ::
  "'l srw \<Rightarrow> nat \<Rightarrow> lock_pc \<Rightarrow> 'l lockinfo \<Rightarrow> (lock_pc \<times> 'l lockinfo) option" where
  "cflare_mutex_unlock = cflare_rwmutex_write_unlock"

section \<open>The system of threads\<close>

text \<open>
  A thread with what it holds: the calls that have returned to it and whose unlock it has not called yet.
  \<open>th_inner\<close> counts the reads it took while it held the lock for writing.
\<close>

record thread =
  th_pc :: lock_pc
  th_writes :: nat
  th_reads :: nat
  th_inner :: nat

record 'l rw_system =
  sy_info :: "'l lockinfo"
  sy_thread :: "nat \<Rightarrow> thread"

definition idle_thread :: thread where
  "idle_thread = \<lparr>th_pc = Idle, th_writes = 0, th_reads = 0, th_inner = 0\<rparr>"

definition start_system :: "'l \<Rightarrow> nat \<Rightarrow> 'l rw_system" where
  "start_system new_lock i = \<lparr>sy_info = init_info new_lock i, sy_thread = (\<lambda>_. idle_thread)\<rparr>"

text \<open>
  The calls a client may make: it unlocks what it holds, and gives back the reads taken inside before
  its last write.
\<close>

inductive client_call :: "thread \<Rightarrow> thread \<Rightarrow> bool" where
  write_lock: "th_pc th = Idle \<Longrightarrow> th_writes th + 1 < 2 ^ 64 \<Longrightarrow>
     client_call th (th\<lparr>th_pc := Write_enter\<rparr>)"
| write_unlock: "th_pc th = Idle \<Longrightarrow> 0 < th_writes th \<Longrightarrow> th_writes th = 1 \<longrightarrow> th_inner th = 0 \<Longrightarrow>
     client_call th (th\<lparr>th_pc := Unwrite_enter, th_writes := th_writes th - 1\<rparr>)"
| read_lock: "th_pc th = Idle \<Longrightarrow> th_inner th + 1 < 2 ^ 64 \<Longrightarrow>
     client_call th (th\<lparr>th_pc := Read_enter\<rparr>)"
| read_unlock_inner: "th_pc th = Idle \<Longrightarrow> 0 < th_writes th \<Longrightarrow> 0 < th_inner th \<Longrightarrow>
     client_call th (th\<lparr>th_pc := Unread_enter, th_inner := th_inner th - 1\<rparr>)"
| read_unlock: "th_pc th = Idle \<Longrightarrow> th_writes th = 0 \<Longrightarrow> 0 < th_reads th \<Longrightarrow>
     client_call th (th\<lparr>th_pc := Unread_enter, th_reads := th_reads th - 1\<rparr>)"

inductive_cases client_callE: "client_call th th'"

text \<open>What a thread holds after a step of its code.\<close>

definition after_step :: "thread \<Rightarrow> lock_pc \<Rightarrow> thread" where
  "after_step th pc' =
     (let th1 = th\<lparr>th_pc := pc'\<rparr> in
      if pc' \<noteq> Idle then th1
      else if th_pc th \<in> {Write_test, Write_set} then th1\<lparr>th_writes := th_writes th + 1\<rparr>
      else if th_pc th = Read_test then th1\<lparr>th_inner := th_inner th + 1\<rparr>
      else if th_pc th = Read_wait then th1\<lparr>th_reads := th_reads th + 1\<rparr>
      else th1)"

inductive rw_step :: "'l srw \<Rightarrow> (nat \<Rightarrow> nat) \<Rightarrow> nat \<Rightarrow> 'l rw_system \<Rightarrow> 'l rw_system \<Rightarrow> bool"
  for api :: "'l srw" and cur :: "nat \<Rightarrow> nat" and n :: nat where
  call: "t < n \<Longrightarrow> client_call (sy_thread s t) th' \<Longrightarrow>
     rw_step api cur n s (s\<lparr>sy_thread := (sy_thread s)(t := th')\<rparr>)"
| run: "t < n \<Longrightarrow> thread_code api (cur t) (th_pc (sy_thread s t)) (sy_info s) = Some (pc', info') \<Longrightarrow>
     rw_step api cur n s (s\<lparr>sy_info := info',
       sy_thread := (sy_thread s)(t := after_step (sy_thread s t) pc')\<rparr>)"

inductive_cases rw_stepE: "rw_step api cur n s s'"

inductive rw_reachable :: "'l srw \<Rightarrow> (nat \<Rightarrow> nat) \<Rightarrow> nat \<Rightarrow> 'l \<Rightarrow> 'l rw_system \<Rightarrow> bool"
  for api :: "'l srw" and cur :: "nat \<Rightarrow> nat" and n :: nat and new_lock :: 'l where
  start: "rw_reachable api cur n new_lock (start_system new_lock i)"
| step: "rw_reachable api cur n new_lock s \<Longrightarrow> rw_step api cur n s s' \<Longrightarrow> rw_reachable api cur n new_lock s'"

text \<open>A thread is in the client's critical section when it holds the lock and is outside its functions.\<close>

definition holds_write :: "'l rw_system \<Rightarrow> nat \<Rightarrow> bool" where
  "holds_write s t \<longleftrightarrow> 0 < th_writes (sy_thread s t)"

definition holds_read :: "'l rw_system \<Rightarrow> nat \<Rightarrow> bool" where
  "holds_read s t \<longleftrightarrow> 0 < th_reads (sy_thread s t)"

section \<open>What is documented of the slim locks\<close>

text \<open>
  A slim lock is free, held by one exclusively or shared by a number of holders. Only what a
  successful call does is assumed; a call may block for any other reason.
\<close>

definition srw_documented :: "'l srw \<Rightarrow> 'l \<Rightarrow> ('l \<Rightarrow> bool) \<Rightarrow> ('l \<Rightarrow> nat) \<Rightarrow> bool" where
  "srw_documented api new_lock exclusive sharers \<longleftrightarrow>
     \<not> exclusive new_lock \<and> sharers new_lock = 0 \<and>
     (\<forall>l l'. AcquireSRWLockExclusive api l = Some l' \<longrightarrow>
        \<not> exclusive l \<and> sharers l = 0 \<and> exclusive l' \<and> sharers l' = 0) \<and>
     (\<forall>l l'. AcquireSRWLockShared api l = Some l' \<longrightarrow>
        \<not> exclusive l \<and> \<not> exclusive l' \<and> sharers l' = sharers l + 1) \<and>
     (\<forall>l. exclusive l \<longrightarrow> \<not> exclusive (ReleaseSRWLockExclusive api l) \<and>
        sharers (ReleaseSRWLockExclusive api l) = 0) \<and>
     (\<forall>l. \<not> exclusive l \<and> 0 < sharers l \<longrightarrow> \<not> exclusive (ReleaseSRWLockShared api l) \<and>
        sharers (ReleaseSRWLockShared api l) = sharers l - 1)"

section \<open>The invariant\<close>

definition owns :: "thread \<Rightarrow> bool" where
  "owns th \<longleftrightarrow> 0 < th_writes th \<or>
     th_pc th \<in> {Write_got, Write_set, Unwrite_enter, Unwrite_test, Unwrite_unlock}"

definition settled :: "thread \<Rightarrow> bool" where
  "settled th \<longleftrightarrow> 0 < th_writes th \<or> th_pc th \<in> {Unwrite_enter, Unwrite_test}"

definition inside :: "thread \<Rightarrow> bool" where
  "inside th \<longleftrightarrow> th_pc th \<in> {Write_test, Write_set, Unwrite_test, Unwrite_unlock, Unwrite_leave, Read_test, Unread_test}"

definition shares :: "thread \<Rightarrow> nat" where
  "shares th = th_reads th +
     (if th_pc th \<in> {Unread_enter, Unread_test, Unread_unlock} \<and> th_writes th = 0 then 1 else 0)"

definition write_depth :: "thread \<Rightarrow> nat" where
  "write_depth th = th_writes th + (if th_pc th \<in> {Unwrite_enter, Unwrite_test} then 1 else 0)"

definition read_depth :: "thread \<Rightarrow> nat" where
  "read_depth th = th_inner th + (if th_pc th \<in> {Unread_enter, Unread_test} \<and> 0 < th_writes th then 1 else 0)"

definition thread_ok :: "thread \<Rightarrow> bool" where
  "thread_ok th \<longleftrightarrow> (th_writes th = 0 \<longrightarrow> th_inner th = 0) \<and>
     (th_pc th \<in> {Write_wait, Write_got, Write_set, Unwrite_unlock, Unwrite_leave, Read_wait, Unread_unlock} \<longrightarrow>
        th_writes th = 0) \<and>
     write_depth th < 2 ^ 64 \<and> read_depth th < 2 ^ 64 \<and>
     (th_pc th \<in> {Write_enter, Write_test} \<longrightarrow> th_writes th + 1 < 2 ^ 64) \<and>
     (th_pc th \<in> {Read_enter, Read_test} \<longrightarrow> th_inner th + 1 < 2 ^ 64)"

lemmas thread_defs = owns_def settled_def inside_def shares_def write_depth_def read_depth_def thread_ok_def

text \<open>\<open>own\<close> is the thread that has the lock for writing, \<open>ins\<close> the one that has the internal lock.\<close>

definition owner_field :: "(nat \<Rightarrow> thread) \<Rightarrow> nat option \<Rightarrow> (nat \<Rightarrow> thread \<Rightarrow> nat) \<Rightarrow> nat" where
  "owner_field thr own f = (case own of None \<Rightarrow> 0 | Some t \<Rightarrow> if settled (thr t) then f t (thr t) else 0)"

definition rw_inv ::
  "('l \<Rightarrow> bool) \<Rightarrow> ('l \<Rightarrow> nat) \<Rightarrow> (nat \<Rightarrow> nat) \<Rightarrow> nat \<Rightarrow> 'l lockinfo \<Rightarrow> (nat \<Rightarrow> thread) \<Rightarrow> nat option \<Rightarrow> nat option \<Rightarrow> bool" where
  "rw_inv exclusive sharers cur n info thr own ins \<longleftrightarrow>
     (\<forall>t. owns (thr t) \<longleftrightarrow> own = Some t) \<and> (\<forall>t. inside (thr t) \<longleftrightarrow> ins = Some t) \<and>
     (\<forall>t. thread_ok (thr t)) \<and>
     (exclusive (rw_lock info) \<longleftrightarrow> own \<noteq> None) \<and> (exclusive (internallock info) \<longleftrightarrow> ins \<noteq> None) \<and>
     sharers (rw_lock info) = (\<Sum>t<n. shares (thr t)) \<and> (own \<noteq> None \<longrightarrow> sharers (rw_lock info) = 0) \<and>
     (\<forall>t. n \<le> t \<longrightarrow> shares (thr t) = 0) \<and>
     write_thread info = owner_field thr own (\<lambda>t th. cur t) \<and>
     writelock_depth info = owner_field thr own (\<lambda>t th. write_depth th) \<and>
     readlock_depth info = owner_field thr own (\<lambda>t th. read_depth th)"

text \<open>How the two holders change when the thread \<open>t\<close> changes to \<open>th'\<close>.\<close>

definition holder_after :: "(thread \<Rightarrow> bool) \<Rightarrow> nat \<Rightarrow> thread \<Rightarrow> nat option \<Rightarrow> nat option" where
  "holder_after P t th' h = (if P th' then Some t else if h = Some t then None else h)"

lemma holder_after_iff:
  assumes "\<forall>u. P (thr u) \<longleftrightarrow> h = Some u" and "P th' \<Longrightarrow> h = None \<or> h = Some t"
  shows "P ((thr(t := th')) u) \<longleftrightarrow> holder_after P t th' h = Some u"
  using assms by (auto simp: holder_after_def)

lemma sum_update:
  assumes "t < (n :: nat)"
  shows "(\<Sum>u<n. f ((thr(t := th')) u)) + f (thr t) = (\<Sum>u<n. f (thr u)) + (f th' :: nat)"
proof -
  have "(\<Sum>u<n. f ((thr(t := th')) u)) = f th' + (\<Sum>u\<in>{..<n} - {t}. f (thr u))"
    using assms by (simp add: sum.remove [of "{..<n}" t])
  moreover have "(\<Sum>u<n. f (thr u)) = f (thr t) + (\<Sum>u\<in>{..<n} - {t}. f (thr u))"
    using assms by (simp add: sum.remove [of "{..<n}" t])
  ultimately show ?thesis by simp
qed

lemma rw_inv_update:
  assumes inv: "rw_inv exclusive sharers cur n info thr own ins" and t: "t < n"
    and ok: "thread_ok th'"
    and own: "owns th' \<Longrightarrow> own = None \<or> own = Some t" and ins: "inside th' \<Longrightarrow> ins = None \<or> ins = Some t"
    and ex: "exclusive (rw_lock info') \<longleftrightarrow> holder_after owns t th' own \<noteq> None"
      "exclusive (internallock info') \<longleftrightarrow> holder_after inside t th' ins \<noteq> None"
    and sh: "sharers (rw_lock info') + shares (thr t) = sharers (rw_lock info) + shares th'"
      "holder_after owns t th' own \<noteq> None \<Longrightarrow> sharers (rw_lock info') = 0"
    and fields: "write_thread info' = owner_field (thr(t := th')) (holder_after owns t th' own) (\<lambda>t th. cur t)"
      "writelock_depth info' = owner_field (thr(t := th')) (holder_after owns t th' own) (\<lambda>t th. write_depth th)"
      "readlock_depth info' = owner_field (thr(t := th')) (holder_after owns t th' own) (\<lambda>t th. read_depth th)"
  shows "\<exists>own' ins'. rw_inv exclusive sharers cur n info' (thr(t := th')) own' ins'"
proof -
  have "\<forall>u. owns ((thr(t := th')) u) \<longleftrightarrow> holder_after owns t th' own = Some u"
    using inv own by (intro allI holder_after_iff) (auto simp: rw_inv_def)
  moreover have "\<forall>u. inside ((thr(t := th')) u) \<longleftrightarrow> holder_after inside t th' ins = Some u"
    using inv ins by (intro allI holder_after_iff) (auto simp: rw_inv_def)
  moreover have "sharers (rw_lock info') = (\<Sum>u<n. shares ((thr(t := th')) u))"
    using sum_update [OF t, of shares thr th'] sh(1) inv unfolding rw_inv_def by linarith
  moreover have "\<forall>u. thread_ok ((thr(t := th')) u)" "\<forall>u. n \<le> u \<longrightarrow> shares ((thr(t := th')) u) = 0"
    using inv ok t by (auto simp: rw_inv_def)
  ultimately show ?thesis
    using ex sh(2) fields unfolding rw_inv_def by blast
qed

text \<open>The owner's fields, seen from the thread that changes.\<close>

lemma owner_field_update:
  "owner_field (thr(t := th')) own f =
     (if own = Some t then if settled th' then f t th' else 0 else owner_field thr own f)"
  by (auto simp: owner_field_def split: option.split)

lemma owner_field_None [simp]: "owner_field thr None f = 0"
  by (simp add: owner_field_def)

lemma owner_field_Some: "owner_field thr (Some t) f = (if settled (thr t) then f t (thr t) else 0)"
  by (simp add: owner_field_def)

lemma settled_owns: "settled th \<Longrightarrow> owns th"
  by (auto simp: settled_def owns_def)

text \<open>What the invariant says of one thread, and of the fields.\<close>

lemma rw_inv_at:
  assumes "rw_inv exclusive sharers cur n info thr own ins"
  shows "owns (thr t) \<longleftrightarrow> own = Some t" and "inside (thr t) \<longleftrightarrow> ins = Some t" and "thread_ok (thr t)"
  using assms unfolding rw_inv_def by blast+

lemma rw_inv_info:
  assumes "rw_inv exclusive sharers cur n info thr own ins"
  shows "exclusive (rw_lock info) \<longleftrightarrow> own \<noteq> None" and "exclusive (internallock info) \<longleftrightarrow> ins \<noteq> None"
    and "own \<noteq> None \<Longrightarrow> sharers (rw_lock info) = 0"
    and "write_thread info = owner_field thr own (\<lambda>t th. cur t)"
    and "writelock_depth info = owner_field thr own (\<lambda>t th. write_depth th)"
    and "readlock_depth info = owner_field thr own (\<lambda>t th. read_depth th)"
  using assms unfolding rw_inv_def by blast+

text \<open>The test for recursion is right: the owner field names this thread exactly when it has settled.\<close>

lemma write_thread_me:
  assumes "rw_inv exclusive sharers cur n info thr own ins" and "inj cur" and "\<forall>t. 0 < cur t"
  shows "write_thread info = cur t \<longleftrightarrow> settled (thr t)"
proof (cases own)
  case None
  with rw_inv_at(1) [OF assms(1), of t] rw_inv_info(4) [OF assms(1)]
  have "write_thread info = 0" "\<not> owns (thr t)" by simp_all
  moreover have "cur t \<noteq> 0" using assms(3) by simp
  ultimately show ?thesis using settled_owns [of "thr t"] by auto
next
  case (Some u)
  with rw_inv_at(1) [OF assms(1), of t] rw_inv_info(4) [OF assms(1)]
  have "write_thread info = (if settled (thr u) then cur u else 0)" "owns (thr t) \<longleftrightarrow> u = t"
    by (simp_all add: owner_field_Some)
  moreover have "cur t \<noteq> 0" using assms(3) by simp
  ultimately show ?thesis using settled_owns [of "thr t"] assms(2) by (auto simp: inj_eq)
qed

lemma dec64_Suc [simp]: "Suc n < 2 ^ 64 \<Longrightarrow> dec64 (Suc n) = n"
  by (simp add: dec64_def)

lemma inc64_less [simp]: "Suc n < 2 ^ 64 \<Longrightarrow> inc64 n = Suc n"
  by (simp add: inc64_def)

text \<open>A step that changes neither what the thread holds nor how deep.\<close>

definition same_hold :: "thread \<Rightarrow> thread \<Rightarrow> bool" where
  "same_hold th th' \<longleftrightarrow> owns th' = owns th \<and> settled th' = settled th \<and> shares th' = shares th \<and>
     write_depth th' = write_depth th \<and> read_depth th' = read_depth th \<and> thread_ok th'"

lemma same_hold_fields:
  assumes "same_hold (thr t) th'" and "owns (thr t) \<longleftrightarrow> own = Some t"
  shows "holder_after owns t th' own = own"
    and "owner_field (thr(t := th')) own (\<lambda>t th. cur t) = owner_field thr own (\<lambda>t th. cur t)"
    and "owner_field (thr(t := th')) own (\<lambda>t th. write_depth th) = owner_field thr own (\<lambda>t th. write_depth th)"
    and "owner_field (thr(t := th')) own (\<lambda>t th. read_depth th) = owner_field thr own (\<lambda>t th. read_depth th)"
  using assms by (auto simp: same_hold_def holder_after_def owner_field_update owner_field_Some)

lemma same_hold_inv:
  assumes inv: "rw_inv exclusive sharers cur n info thr own ins" and t: "t < n"
    and same: "same_hold (thr t) th'" and ins: "inside th' \<Longrightarrow> ins = None \<or> ins = Some t"
    and info': "info' = info\<lparr>internallock := l\<rparr>" "exclusive l \<longleftrightarrow> holder_after inside t th' ins \<noteq> None"
  shows "\<exists>own' ins'. rw_inv exclusive sharers cur n info' (thr(t := th')) own' ins'"
proof -
  note i = rw_inv_at [OF inv, of t] rw_inv_info [OF inv]
  note f = same_hold_fields [where thr = thr and t = t, OF same i(1)]
  have "own = None \<or> own = Some t" if "owns th'" using that same i(1) by (simp add: same_hold_def)
  then show ?thesis
    using same f i ins info'
    by (intro rw_inv_update [OF inv t]) (simp_all add: same_hold_def)
qed

lemma enter_inv:
  assumes doc: "srw_documented api new_lock exclusive sharers"
    and inv: "rw_inv exclusive sharers cur n info thr own ins" and t: "t < n"
    and same: "same_hold (thr t) th'" and ins: "inside th'" and e: "enter_internal api info = Some info'"
  shows "\<exists>own' ins'. rw_inv exclusive sharers cur n info' (thr(t := th')) own' ins'"
proof -
  from e doc obtain l where l: "info' = info\<lparr>internallock := l\<rparr>" "exclusive l" "\<not> exclusive (internallock info)"
    by (auto simp: enter_internal_def srw_documented_def)
  with rw_inv_info(2) [OF inv] have "ins = None" by simp
  with l ins show ?thesis
    by (intro same_hold_inv [OF inv t same _ l(1)]) (simp_all add: holder_after_def)
qed

lemma leave_inv:
  assumes doc: "srw_documented api new_lock exclusive sharers"
    and inv: "rw_inv exclusive sharers cur n info thr own ins" and t: "t < n"
    and same: "same_hold (thr t) th'" and ins: "inside (thr t)" "\<not> inside th'"
  shows "\<exists>own' ins'. rw_inv exclusive sharers cur n (leave_internal api info) (thr(t := th')) own' ins'"
proof -
  have "ins = Some t" using rw_inv_at(2) [OF inv, of t] ins(1) by simp
  moreover have "\<not> exclusive (ReleaseSRWLockExclusive api (internallock info))"
    using doc rw_inv_info(2) [OF inv] \<open>ins = Some t\<close> by (simp add: srw_documented_def)
  ultimately show ?thesis
    using ins(2) by (intro same_hold_inv [OF inv t same _ leave_internal_def]) (simp_all add: holder_after_def)
qed

text \<open>A step of the owner that leaves the internal lock with new depths, still the owner.\<close>

lemma owner_leave_inv:
  assumes doc: "srw_documented api new_lock exclusive sharers"
    and inv: "rw_inv exclusive sharers cur n info thr own ins" and t: "t < n"
    and th: "owns (thr t)" "inside (thr t)" and th': "settled th'" "\<not> inside th'" "thread_ok th'"
      "shares th' = shares (thr t)"
    and info': "write_thread info' = cur t" "writelock_depth info' = write_depth th'"
      "readlock_depth info' = read_depth th'" "rw_lock info' = rw_lock info"
      "internallock info' = ReleaseSRWLockExclusive api (internallock info)"
  shows "\<exists>own' ins'. rw_inv exclusive sharers cur n info' (thr(t := th')) own' ins'"
proof -
  note i = rw_inv_at [OF inv, of t] rw_inv_info [OF inv]
  have own: "own = Some t" and ins: "ins = Some t" using th i(1,2) by simp_all
  have "\<not> exclusive (ReleaseSRWLockExclusive api (internallock info))"
    using doc i(5) ins by (simp add: srw_documented_def)
  then show ?thesis
    using own ins th' info' i settled_owns [OF th'(1)]
    by (intro rw_inv_update [OF inv t]) (simp_all add: holder_after_def owner_field_update)
qed

lemma client_call_inv:
  assumes inv: "rw_inv exclusive sharers cur n info thr own ins" and t: "t < n" and c: "client_call (thr t) th'"
  shows "\<exists>own' ins'. rw_inv exclusive sharers cur n info (thr(t := th')) own' ins'"
proof -
  note i = rw_inv_at [OF inv, of t] rw_inv_info [OF inv]
  from c i(3) have same: "same_hold (thr t) th'" and ins: "inside th' = inside (thr t)"
    by (cases; auto simp: same_hold_def thread_defs)+
  have "exclusive (internallock info) \<longleftrightarrow> holder_after inside t th' ins \<noteq> None"
    using i(2,5) ins by (simp add: holder_after_def)
  then show ?thesis
    using i(2) ins by (intro same_hold_inv [OF inv t same, where l = "internallock info"]) simp_all
qed

lemma thread_code_simps:
  "thread_code api me Idle info = None"
  "thread_code api me Write_enter info = map_option (Pair Write_test) (enter_internal api info)"
  "thread_code api me Write_test info =
     (if write_thread info = me
      then Some (Idle, leave_internal api (info\<lparr>writelock_depth := inc64 (writelock_depth info)\<rparr>))
      else Some (Write_wait, leave_internal api info))"
  "thread_code api me Write_wait info =
     map_option (\<lambda>l. (Write_got, info\<lparr>rw_lock := l\<rparr>)) (AcquireSRWLockExclusive api (rw_lock info))"
  "thread_code api me Write_got info = map_option (Pair Write_set) (enter_internal api info)"
  "thread_code api me Write_set info =
     Some (Idle, leave_internal api (info\<lparr>write_thread := me, writelock_depth := 1\<rparr>))"
  "thread_code api me Unwrite_enter info = map_option (Pair Unwrite_test) (enter_internal api info)"
  "thread_code api me Unwrite_test info = cflare_rwmutex_write_unlock api me Unwrite_test info"
  "thread_code api me Unwrite_unlock info =
     Some (Unwrite_leave, info\<lparr>rw_lock := ReleaseSRWLockExclusive api (rw_lock info)\<rparr>)"
  "thread_code api me Unwrite_leave info = Some (Idle, leave_internal api info)"
  "thread_code api me Read_enter info = map_option (Pair Read_test) (enter_internal api info)"
  "thread_code api me Read_test info =
     (if write_thread info = me
      then Some (Idle, leave_internal api (info\<lparr>readlock_depth := inc64 (readlock_depth info)\<rparr>))
      else Some (Read_wait, leave_internal api info))"
  "thread_code api me Read_wait info =
     map_option (\<lambda>l. (Idle, info\<lparr>rw_lock := l\<rparr>)) (AcquireSRWLockShared api (rw_lock info))"
  "thread_code api me Unread_enter info = map_option (Pair Unread_test) (enter_internal api info)"
  "thread_code api me Unread_test info =
     (if write_thread info = me
      then Some (Idle, leave_internal api (info\<lparr>readlock_depth := dec64 (readlock_depth info)\<rparr>))
      else Some (Unread_unlock, leave_internal api info))"
  "thread_code api me Unread_unlock info =
     Some (Idle, info\<lparr>rw_lock := ReleaseSRWLockShared api (rw_lock info)\<rparr>)"
  by (simp_all add: thread_code_def)

lemma leave_internal_fields [simp]:
  "write_thread (leave_internal api info) = write_thread info"
  "writelock_depth (leave_internal api info) = writelock_depth info"
  "readlock_depth (leave_internal api info) = readlock_depth info"
  "rw_lock (leave_internal api info) = rw_lock info"
  "internallock (leave_internal api info) = ReleaseSRWLockExclusive api (internallock info)"
  by (simp_all add: leave_internal_def)

text \<open>Taking the internal lock changes nothing that a thread holds.\<close>

lemma enter_steps_hold:
  assumes "thread_ok th" and
    "(th_pc th, pc') \<in> {(Write_enter, Write_test), (Write_got, Write_set), (Unwrite_enter, Unwrite_test),
       (Read_enter, Read_test), (Unread_enter, Unread_test)}"
  shows "same_hold th (after_step th pc')" and "inside (after_step th pc')"
  using assms by (elim insertE emptyE; simp add: same_hold_def thread_defs after_step_def)+

text \<open>Nor does leaving it, where the thread does not hold the lock for writing.\<close>

lemma leave_steps_hold:
  assumes "thread_ok th" and "\<not> settled th" and
    "(th_pc th, pc') \<in> {(Write_test, Write_wait), (Unwrite_leave, Idle), (Read_test, Read_wait),
       (Unread_test, Unread_unlock)}"
  shows "same_hold th (after_step th pc')" and "inside th" and "\<not> inside (after_step th pc')"
  using assms by (elim insertE emptyE; simp add: same_hold_def thread_defs after_step_def)+

lemma enter_run_inv:
  assumes "srw_documented api new_lock exclusive sharers"
    and inv: "rw_inv exclusive sharers cur n info thr own ins" and "t < n"
    and "map_option (Pair pc) (enter_internal api info) = Some (pc', info')"
    and "(th_pc (thr t), pc) \<in> {(Write_enter, Write_test), (Write_got, Write_set), (Unwrite_enter, Unwrite_test),
       (Read_enter, Read_test), (Unread_enter, Unread_test)}"
  shows "\<exists>own' ins'. rw_inv exclusive sharers cur n info' (thr(t := after_step (thr t) pc')) own' ins'"
  using enter_inv [OF assms(1) inv assms(3) enter_steps_hold [OF rw_inv_at(3) [OF inv] assms(5)]] assms(4)
  by auto

text \<open>Taking and giving back the lock itself.\<close>

lemma write_acquired_inv:
  assumes doc: "srw_documented api new_lock exclusive sharers"
    and inv: "rw_inv exclusive sharers cur n info thr own ins" and t: "t < n"
    and pc: "th_pc (thr t) = Write_wait" and l: "AcquireSRWLockExclusive api (rw_lock info) = Some l"
  shows "\<exists>own' ins'. rw_inv exclusive sharers cur n (info\<lparr>rw_lock := l\<rparr>)
    (thr(t := after_step (thr t) Write_got)) own' ins'"
proof -
  note i = rw_inv_at [OF inv, of t] rw_inv_info [OF inv]
  let ?th = "after_step (thr t) Write_got"
  have free: "\<not> exclusive (rw_lock info)" "sharers (rw_lock info) = 0" "exclusive l" "sharers l = 0"
    using doc l by (auto simp: srw_documented_def)
  then have none: "own = None" using i(4) by simp
  have th: "owns ?th" "\<not> settled ?th" "\<not> inside ?th" "\<not> inside (thr t)" "shares ?th = shares (thr t)" "thread_ok ?th"
    using i(3) pc by (auto simp: after_step_def thread_defs)
  then show ?thesis
    using none free i
    by (intro rw_inv_update [OF inv t]) (auto simp: holder_after_def owner_field_update)
qed

lemma write_settled_inv:
  assumes doc: "srw_documented api new_lock exclusive sharers"
    and inv: "rw_inv exclusive sharers cur n info thr own ins" and t: "t < n" and pc: "th_pc (thr t) = Write_set"
  shows "\<exists>own' ins'. rw_inv exclusive sharers cur n
    (leave_internal api (info\<lparr>write_thread := cur t, writelock_depth := 1\<rparr>)) (thr(t := after_step (thr t) Idle)) own' ins'"
proof -
  note i = rw_inv_at [OF inv, of t] rw_inv_info [OF inv]
  let ?th = "after_step (thr t) Idle"
  have th: "owns (thr t)" "inside (thr t)" "\<not> settled (thr t)" "settled ?th" "\<not> inside ?th" "thread_ok ?th"
      "shares ?th = shares (thr t)" "write_depth ?th = 1" "read_depth ?th = 0"
    using i(3) pc by (auto simp: after_step_def thread_defs)
  then have "own = Some t" using i(1) by simp
  then have "readlock_depth info = 0" using i(9) th(3) by (simp add: owner_field_Some)
  with th show ?thesis
    by (intro owner_leave_inv [OF doc inv t]) simp_all
qed

lemma write_unsettled_inv:
  assumes inv: "rw_inv exclusive sharers cur n info thr own ins" and t: "t < n"
    and pc: "th_pc (thr t) = Unwrite_test" and w: "th_writes (thr t) = 0"
  shows "\<exists>own' ins'. rw_inv exclusive sharers cur n (info\<lparr>writelock_depth := 0, write_thread := 0\<rparr>)
    (thr(t := after_step (thr t) Unwrite_unlock)) own' ins'"
proof -
  note i = rw_inv_at [OF inv, of t] rw_inv_info [OF inv]
  let ?th = "after_step (thr t) Unwrite_unlock"
  have th: "owns (thr t)" "inside (thr t)" "settled (thr t)" "owns ?th" "\<not> settled ?th" "inside ?th" "thread_ok ?th"
      "shares ?th = shares (thr t)" "read_depth (thr t) = 0"
    using i(3) pc w by (auto simp: after_step_def thread_defs)
  then have "own = Some t" "ins = Some t" using i(1,2) by simp_all
  moreover have "readlock_depth info = 0"
    using i(9) th by (simp add: owner_field_Some \<open>own = Some t\<close>)
  ultimately show ?thesis
    using th i by (intro rw_inv_update [OF inv t]) (auto simp: holder_after_def owner_field_update)
qed

lemma write_released_inv:
  assumes doc: "srw_documented api new_lock exclusive sharers"
    and inv: "rw_inv exclusive sharers cur n info thr own ins" and t: "t < n" and pc: "th_pc (thr t) = Unwrite_unlock"
  shows "\<exists>own' ins'. rw_inv exclusive sharers cur n
    (info\<lparr>rw_lock := ReleaseSRWLockExclusive api (rw_lock info)\<rparr>) (thr(t := after_step (thr t) Unwrite_leave)) own' ins'"
proof -
  note i = rw_inv_at [OF inv, of t] rw_inv_info [OF inv]
  let ?th = "after_step (thr t) Unwrite_leave"
  have th: "owns (thr t)" "inside (thr t)" "\<not> settled (thr t)" "\<not> owns ?th" "inside ?th" "thread_ok ?th"
      "shares ?th = shares (thr t)"
    using i(3) pc by (auto simp: after_step_def thread_defs)
  then have own: "own = Some t" and ins: "ins = Some t" using i(1,2) by simp_all
  have rel: "\<not> exclusive (ReleaseSRWLockExclusive api (rw_lock info))"
      "sharers (ReleaseSRWLockExclusive api (rw_lock info)) = 0" "sharers (rw_lock info) = 0"
    using doc i(4,6) own by (simp_all add: srw_documented_def)
  show ?thesis
    using th own ins rel i
    by (intro rw_inv_update [OF inv t]) (auto simp: holder_after_def owner_field_Some)
qed

lemma rw_inv_shares_le:
  assumes "rw_inv exclusive sharers cur n info thr own ins" and "t < n"
  shows "shares (thr t) \<le> sharers (rw_lock info)"
proof -
  have "sharers (rw_lock info) = (\<Sum>t<n. shares (thr t))" using assms(1) unfolding rw_inv_def by blast
  then show ?thesis using assms(2) member_le_sum [of t "{..<n}" "\<lambda>t. shares (thr t)"] by simp
qed

lemma shares_changed_inv:
  assumes inv: "rw_inv exclusive sharers cur n info thr own ins" and t: "t < n" and none: "own = None"
    and th': "\<not> owns th'" "inside th' = inside (thr t)" "thread_ok th'"
    and l: "\<not> exclusive l" "sharers l + shares (thr t) = sharers (rw_lock info) + shares th'"
  shows "\<exists>own' ins'. rw_inv exclusive sharers cur n (info\<lparr>rw_lock := l\<rparr>) (thr(t := th')) own' ins'"
proof -
  note i = rw_inv_at [OF inv, of t] rw_inv_info [OF inv]
  have "holder_after inside t th' ins = ins" using i(2) th'(2) by (auto simp: holder_after_def)
  then show ?thesis
    using none th' l i by (intro rw_inv_update [OF inv t]) (auto simp: holder_after_def)
qed

lemma read_acquired_inv:
  assumes doc: "srw_documented api new_lock exclusive sharers"
    and inv: "rw_inv exclusive sharers cur n info thr own ins" and t: "t < n"
    and pc: "th_pc (thr t) = Read_wait" and l: "AcquireSRWLockShared api (rw_lock info) = Some l"
  shows "\<exists>own' ins'. rw_inv exclusive sharers cur n (info\<lparr>rw_lock := l\<rparr>)
    (thr(t := after_step (thr t) Idle)) own' ins'"
proof -
  have d: "\<not> exclusive (rw_lock info)" "\<not> exclusive l" "sharers l = sharers (rw_lock info) + 1"
    using doc l by (auto simp: srw_documented_def)
  then have "own = None" using rw_inv_info(1) [OF inv] by simp
  moreover have "\<not> owns (after_step (thr t) Idle)" "inside (after_step (thr t) Idle) = inside (thr t)"
    "thread_ok (after_step (thr t) Idle)" "shares (after_step (thr t) Idle) = shares (thr t) + 1"
    using pc rw_inv_at(3) [OF inv, of t] by (auto simp: after_step_def thread_defs)
  ultimately show ?thesis
    using d by (intro shares_changed_inv [OF inv t]) simp_all
qed

lemma read_released_inv:
  assumes doc: "srw_documented api new_lock exclusive sharers"
    and inv: "rw_inv exclusive sharers cur n info thr own ins" and t: "t < n" and pc: "th_pc (thr t) = Unread_unlock"
  shows "\<exists>own' ins'. rw_inv exclusive sharers cur n
    (info\<lparr>rw_lock := ReleaseSRWLockShared api (rw_lock info)\<rparr>) (thr(t := after_step (thr t) Idle)) own' ins'"
proof -
  have th: "\<not> owns (after_step (thr t) Idle)" "inside (after_step (thr t) Idle) = inside (thr t)"
    "thread_ok (after_step (thr t) Idle)" "shares (thr t) = shares (after_step (thr t) Idle) + 1"
    using pc rw_inv_at(3) [OF inv, of t] by (auto simp: after_step_def thread_defs)
  then have pos: "0 < sharers (rw_lock info)" using rw_inv_shares_le [OF inv t] by simp
  then have none: "own = None" using rw_inv_info(3) [OF inv] by fastforce
  then have "\<not> exclusive (rw_lock info)" using rw_inv_info(1) [OF inv] by simp
  with pos doc have "\<not> exclusive (ReleaseSRWLockShared api (rw_lock info))"
    "sharers (ReleaseSRWLockShared api (rw_lock info)) = sharers (rw_lock info) - 1"
    by (simp_all add: srw_documented_def)
  with th pos none show ?thesis
    by (intro shares_changed_inv [OF inv t]) simp_all
qed

text \<open>A recursive lock or unlock of the owner.\<close>

lemma recursive_steps:
  assumes "thread_ok th" and "settled th" and "th_pc th \<in> {Write_test, Read_test, Unread_test} \<or>
      th_pc th = Unwrite_test \<and> 0 < th_writes th"
  shows "settled (after_step th Idle)" and "\<not> inside (after_step th Idle)" and "thread_ok (after_step th Idle)"
    and "shares (after_step th Idle) = shares th" and "inside th"
    and "write_depth (after_step th Idle) = (if th_pc th = Write_test then inc64 (write_depth th)
       else if th_pc th = Unwrite_test then dec64 (write_depth th) else write_depth th)"
    and "read_depth (after_step th Idle) = (if th_pc th = Read_test then inc64 (read_depth th)
       else if th_pc th = Unread_test then dec64 (read_depth th) else read_depth th)"
  using assms by (elim disjE insertE emptyE conjE; simp add: thread_defs after_step_def)+

lemma recursive_inv:
  assumes doc: "srw_documented api new_lock exclusive sharers"
    and inv: "rw_inv exclusive sharers cur n info thr own ins" and t: "t < n" and me: "settled (thr t)"
    and pc: "th_pc (thr t) \<in> {Write_test, Read_test, Unread_test} \<or>
      th_pc (thr t) = Unwrite_test \<and> 0 < th_writes (thr t)"
    and info': "info' = leave_internal api (info\<lparr>
      writelock_depth := (if th_pc (thr t) = Write_test then inc64 (writelock_depth info)
        else if th_pc (thr t) = Unwrite_test then dec64 (writelock_depth info) else writelock_depth info),
      readlock_depth := (if th_pc (thr t) = Read_test then inc64 (readlock_depth info)
        else if th_pc (thr t) = Unread_test then dec64 (readlock_depth info) else readlock_depth info)\<rparr>)"
  shows "\<exists>own' ins'. rw_inv exclusive sharers cur n info' (thr(t := after_step (thr t) Idle)) own' ins'"
proof -
  note i = rw_inv_at [OF inv, of t] rw_inv_info [OF inv]
  note r = recursive_steps [OF i(3) me pc]
  have own: "own = Some t" using i(1) settled_owns [OF me] by simp
  have f: "write_thread info = cur t" "writelock_depth info = write_depth (thr t)"
    "readlock_depth info = read_depth (thr t)"
    using i(7-9) me by (simp_all add: own owner_field_Some)
  show ?thesis
    unfolding info'
    by (intro owner_leave_inv [OF doc inv t settled_owns [OF me] r(5) r(1-4)]) (simp_all add: f r(6,7))
qed

lemma leave_run_inv:
  assumes "srw_documented api new_lock exclusive sharers"
    and inv: "rw_inv exclusive sharers cur n info thr own ins" and "t < n" and "\<not> settled (thr t)"
    and "(th_pc (thr t), pc') \<in> {(Write_test, Write_wait), (Unwrite_leave, Idle), (Read_test, Read_wait),
       (Unread_test, Unread_unlock)}"
  shows "\<exists>own' ins'. rw_inv exclusive sharers cur n (leave_internal api info)
    (thr(t := after_step (thr t) pc')) own' ins'"
  by (rule leave_inv [OF assms(1-3) leave_steps_hold [OF rw_inv_at(3) [OF inv] assms(4,5)]])

text \<open>The three tests for recursion: one outcome for the owner, one for everybody else.\<close>

lemma test_run_inv:
  assumes doc: "srw_documented api new_lock exclusive sharers" and cur: "inj cur" "\<forall>t. 0 < cur t"
    and inv: "rw_inv exclusive sharers cur n info thr own ins" and t: "t < n"
    and run: "thread_code api (cur t) (th_pc (thr t)) info = Some (pc', info')"
    and pc: "th_pc (thr t) \<in> {Write_test, Read_test, Unread_test}"
  shows "\<exists>own' ins'. rw_inv exclusive sharers cur n info' (thr(t := after_step (thr t) pc')) own' ins'"
proof (cases "settled (thr t)")
  case True
  with write_thread_me [OF inv cur, of t] have "write_thread info = cur t" by simp
  with run pc have "pc' = Idle" and "info' = leave_internal api (info\<lparr>
      writelock_depth := (if th_pc (thr t) = Write_test then inc64 (writelock_depth info)
        else if th_pc (thr t) = Unwrite_test then dec64 (writelock_depth info) else writelock_depth info),
      readlock_depth := (if th_pc (thr t) = Read_test then inc64 (readlock_depth info)
        else if th_pc (thr t) = Unread_test then dec64 (readlock_depth info) else readlock_depth info)\<rparr>)"
    by (auto simp: thread_code_simps)
  with recursive_inv [OF doc inv t True] pc show ?thesis by auto
next
  case False
  with write_thread_me [OF inv cur, of t] have "write_thread info \<noteq> cur t" by simp
  with run pc have "info' = leave_internal api info"
    "(th_pc (thr t), pc') \<in> {(Write_test, Write_wait), (Unwrite_leave, Idle), (Read_test, Read_wait),
       (Unread_test, Unread_unlock)}"
    by (auto simp: thread_code_simps)
  with leave_run_inv [OF doc inv t False] show ?thesis by simp
qed

lemma unwrite_test_inv:
  assumes doc: "srw_documented api new_lock exclusive sharers" and cur: "inj cur" "\<forall>t. 0 < cur t"
    and inv: "rw_inv exclusive sharers cur n info thr own ins" and t: "t < n"
    and run: "thread_code api (cur t) (th_pc (thr t)) info = Some (pc', info')"
    and pc: "th_pc (thr t) = Unwrite_test"
  shows "\<exists>own' ins'. rw_inv exclusive sharers cur n info' (thr(t := after_step (thr t) pc')) own' ins'"
proof -
  note i = rw_inv_at [OF inv, of t] rw_inv_info [OF inv]
  have s: "settled (thr t)" using pc by (simp add: settled_def)
  have me: "write_thread info = cur t" using write_thread_me [OF inv cur, of t] s by simp
  have "own = Some t" using i(1) settled_owns [OF s] by simp
  then have d: "writelock_depth info = th_writes (thr t) + 1" "write_depth (thr t) < 2 ^ 64"
    using i(3,8) s pc by (simp_all add: owner_field_Some write_depth_def thread_ok_def)
  then have dec: "dec64 (writelock_depth info) = th_writes (thr t)"
    using pc by (simp add: write_depth_def)
  show ?thesis
  proof (cases "th_writes (thr t) = 0")
    case True
    with run pc me dec have "pc' = Unwrite_unlock" "info' = info\<lparr>writelock_depth := 0, write_thread := 0\<rparr>"
      by (simp_all add: thread_code_simps Let_def)
    with write_unsettled_inv [OF inv t pc True] show ?thesis by simp
  next
    case False
    with run pc me dec have "pc' = Idle"
      "info' = leave_internal api (info\<lparr>writelock_depth := dec64 (writelock_depth info)\<rparr>)"
      by (simp_all add: thread_code_simps Let_def)
    with pc False show ?thesis by (simp only:) (rule recursive_inv [OF doc inv t s]; simp)
  qed
qed

lemma run_inv:
  assumes doc: "srw_documented api new_lock exclusive sharers" and cur: "inj cur" "\<forall>t. 0 < cur t"
    and inv: "rw_inv exclusive sharers cur n info thr own ins" and t: "t < n"
    and run: "thread_code api (cur t) (th_pc (thr t)) info = Some (pc', info')"
  shows "\<exists>own' ins'. rw_inv exclusive sharers cur n info' (thr(t := after_step (thr t) pc')) own' ins'"
proof (cases "th_pc (thr t)")
  case Unwrite_leave
  with rw_inv_at(3) [OF inv, of t] have "\<not> settled (thr t)" by (simp add: settled_def thread_ok_def)
  with run Unwrite_leave leave_run_inv [OF doc inv t, of Idle] show ?thesis by (simp add: thread_code_simps)
next
  case Unwrite_test
  with run show ?thesis by (rule unwrite_test_inv [OF doc cur inv t])
next
  case Write_set
  with run write_settled_inv [OF doc inv t] show ?thesis by (auto simp: thread_code_simps)
next
  case Unwrite_unlock
  with run write_released_inv [OF doc inv t] show ?thesis by (auto simp: thread_code_simps)
next
  case Unread_unlock
  with run read_released_inv [OF doc inv t] show ?thesis by (auto simp: thread_code_simps)
next
  case Write_wait
  with run show ?thesis by (auto simp: thread_code_simps intro: write_acquired_inv [OF doc inv t])
next
  case Read_wait
  with run show ?thesis by (auto simp: thread_code_simps intro: read_acquired_inv [OF doc inv t])
next
  case Write_enter
  with run show ?thesis by (intro enter_run_inv [OF doc inv t, of Write_test]) (simp_all add: thread_code_simps)
next
  case Write_got
  with run show ?thesis by (intro enter_run_inv [OF doc inv t, of Write_set]) (simp_all add: thread_code_simps)
next
  case Unwrite_enter
  with run show ?thesis by (intro enter_run_inv [OF doc inv t, of Unwrite_test]) (simp_all add: thread_code_simps)
next
  case Read_enter
  with run show ?thesis by (intro enter_run_inv [OF doc inv t, of Read_test]) (simp_all add: thread_code_simps)
next
  case Unread_enter
  with run show ?thesis by (intro enter_run_inv [OF doc inv t, of Unread_test]) (simp_all add: thread_code_simps)
next
  case Idle
  with run show ?thesis by (simp add: thread_code_simps)
next
  case Write_test
  then show ?thesis by (intro test_run_inv [OF doc cur inv t run]) simp
next
  case Read_test
  then show ?thesis by (intro test_run_inv [OF doc cur inv t run]) simp
next
  case Unread_test
  then show ?thesis by (intro test_run_inv [OF doc cur inv t run]) simp
qed

text \<open>The invariant holds at the start and every step of any thread keeps it.\<close>

lemma start_inv:
  assumes "srw_documented api new_lock exclusive sharers"
  shows "rw_inv exclusive sharers cur n (sy_info (start_system new_lock i)) (sy_thread (start_system new_lock i)) None None"
  using assms
  by (simp add: rw_inv_def srw_documented_def start_system_def init_info_def idle_thread_def thread_defs)

lemma reachable_inv:
  assumes "rw_reachable api cur n new_lock s" and doc: "srw_documented api new_lock exclusive sharers"
    and cur: "inj cur" "\<forall>t. 0 < cur t"
  shows "\<exists>own ins. rw_inv exclusive sharers cur n (sy_info s) (sy_thread s) own ins"
  using assms(1)
proof (induction rule: rw_reachable.induct)
  case (start i)
  show ?case using start_inv [OF doc] by blast
next
  case (step s s')
  then obtain own ins where inv: "rw_inv exclusive sharers cur n (sy_info s) (sy_thread s) own ins" by blast
  from step.hyps(2) show ?case
  proof (rule rw_stepE)
    fix t th'
    assume "t < n" "client_call (sy_thread s t) th'" "s' = s\<lparr>sy_thread := (sy_thread s)(t := th')\<rparr>"
    with client_call_inv [OF inv] show ?case by (simp del: fun_upd_apply)
  next
    fix t pc' info'
    assume "t < n" "thread_code api (cur t) (th_pc (sy_thread s t)) (sy_info s) = Some (pc', info')"
      "s' = s\<lparr>sy_info := info', sy_thread := (sy_thread s)(t := after_step (sy_thread s t) pc')\<rparr>"
    with run_inv [OF doc cur inv] show ?case by (simp del: fun_upd_apply)
  qed
qed

section \<open>Properties\<close>


text \<open>
  Runs that can be evaluated: a schedule says which thread calls what and which thread takes a step. The
  slim locks are the ones their documentation describes, with no other reason to block.
\<close>

definition slim :: "(bool \<times> nat) srw" where
  "slim = \<lparr>AcquireSRWLockExclusive = (\<lambda>(e, k). if \<not> e \<and> k = 0 then Some (True, 0) else None),
     ReleaseSRWLockExclusive = (\<lambda>(e, k). (False, 0)),
     AcquireSRWLockShared = (\<lambda>(e, k). if \<not> e then Some (False, k + 1) else None),
     ReleaseSRWLockShared = (\<lambda>(e, k). (e, k - 1))\<rparr>"

lemma slim_documented: "srw_documented slim (False, 0) fst snd"
  by (auto simp: srw_documented_def slim_def split: if_splits)

datatype action = Lock_write nat | Run nat

fun perform :: "'l srw \<Rightarrow> (nat \<Rightarrow> nat) \<Rightarrow> 'l rw_system \<Rightarrow> action \<Rightarrow> 'l rw_system option" where
  "perform api cur s (Lock_write t) =
     (let th = sy_thread s t in
      if th_pc th = Idle \<and> th_writes th + 1 < 2 ^ 64
      then Some (s\<lparr>sy_thread := (sy_thread s)(t := th\<lparr>th_pc := Write_enter\<rparr>)\<rparr>) else None)"
| "perform api cur s (Run t) =
     (case thread_code api (cur t) (th_pc (sy_thread s t)) (sy_info s) of None \<Rightarrow> None
      | Some (pc', info') \<Rightarrow> Some (s\<lparr>sy_info := info',
          sy_thread := (sy_thread s)(t := after_step (sy_thread s t) pc')\<rparr>))"

fun perform_all :: "'l srw \<Rightarrow> (nat \<Rightarrow> nat) \<Rightarrow> 'l rw_system \<Rightarrow> action list \<Rightarrow> 'l rw_system option" where
  "perform_all api cur s [] = Some s"
| "perform_all api cur s (a # as) =
     (case perform api cur s a of None \<Rightarrow> None | Some s' \<Rightarrow> perform_all api cur s' as)"

fun actor :: "action \<Rightarrow> nat" where
  "actor (Lock_write t) = t" | "actor (Run t) = t"

lemma perform_step: "perform api cur s a = Some s' \<Longrightarrow> actor a < n \<Longrightarrow> rw_step api cur n s s'"
proof (cases a)
  case (Lock_write t)
  assume "perform api cur s a = Some s'" and "actor a < n"
  then show ?thesis
    using rw_step.call [OF _ client_call.write_lock, of t n s api cur]
    by (auto simp: Lock_write Let_def split: if_splits)
next
  case (Run t)
  assume "perform api cur s a = Some s'" and "actor a < n"
  then show ?thesis by (auto simp: Run split: option.splits intro: rw_step.run)
qed

lemma perform_all_reachable:
  "perform_all api cur s as = Some s' \<Longrightarrow> \<forall>a \<in> set as. actor a < n \<Longrightarrow> rw_reachable api cur n new_lock s \<Longrightarrow>
   rw_reachable api cur n new_lock s'"
proof (induction as arbitrary: s)
  case (Cons a as)
  then obtain s1 where "perform api cur s a = Some s1" "perform_all api cur s1 as = Some s'" "actor a < n"
    by (auto split: option.splits)
  with Cons show ?case by (auto intro: rw_reachable.step [OF Cons.prems(3)] perform_step)
qed simp

lemmas run_simps = perform.simps thread_code_simps slim_def enter_internal_def leave_internal_def after_step_def
  start_system_def idle_thread_def init_info_def inc64_def

definition take_write :: "nat \<Rightarrow> action list" where
  "take_write t = [Lock_write t, Run t, Run t, Run t, Run t, Run t]"

lemma one_writer:
  "\<exists>s. perform_all slim Suc (start_system (False, 0) 0) (take_write 0) = Some s \<and> holds_write s 0 \<and>
     th_pc (sy_thread s 0) = Idle \<and> th_writes (sy_thread s 0) = 1"
  by (simp add: take_write_def run_simps holds_write_def)


text \<open>
  C37: the documentation of \<open>GetCurrentThread()\<close> says that it returns one constant, the same in every thread. The
  test for recursion then takes every thread for the owner: while one thread holds the lock for writing, a second one
  that asks for it gets it at once.
\<close>

theorem rwlock_pseudo_handle_breaks:
  "\<exists>s. rw_reachable slim (\<lambda>t. Suc h) 2 (False, 0) s \<and> holds_write s 0 \<and> th_pc (sy_thread s 0) = Idle \<and>
     holds_write s 1 \<and> th_pc (sy_thread s 1) = Idle"
proof -
  have "\<exists>s. perform_all slim (\<lambda>t. Suc h) (start_system (False, 0) 0)
      (take_write 0 @ [Lock_write 1, Run 1, Run 1]) = Some s \<and> holds_write s 0 \<and> th_pc (sy_thread s 0) = Idle \<and>
     holds_write s 1 \<and> th_pc (sy_thread s 1) = Idle"
    by (simp add: take_write_def run_simps holds_write_def)
  then obtain s where s: "perform_all slim (\<lambda>t. Suc h) (start_system (False, 0) 0)
      (take_write 0 @ [Lock_write 1, Run 1, Run 1]) = Some s" "holds_write s 0" "th_pc (sy_thread s 0) = Idle"
     "holds_write s 1" "th_pc (sy_thread s 1) = Idle" by blast
  have "rw_reachable slim (\<lambda>t. Suc h) 2 (False, 0) s"
    by (rule perform_all_reachable [OF s(1) _ rw_reachable.start]) (auto simp: take_write_def)
  with s(2-5) show ?thesis by blast
qed

end
