(* ===== verification/Float64.thy ===== *)
theory Float64
  imports Util
begin

text \<open>
  Time-outs in seconds: what the code does with a \<open>float64_t\<close>, which is a double. It compares one with 0 and -1,
  multiplies it by 1000, splits it into whole seconds and the rest, and converts it to an integer.

  A finite double is its sign and a natural number below \<open>2 ^ 53\<close> times a power of two. A product is rounded
  to 53 significant bits, ties to even; the model keeps the power of two, so that the number in front of it is
  rounded. Since the factors are whole numbers no product becomes subnormal that was not exact before, and one that is
  too large for a double is too large for every integer type as well. Converting a number that does not fit is undefined.
\<close>

section \<open>Doubles\<close>

datatype float64 = Finite bool nat int | Infinite bool | Not_a_number

definition float_zero :: "float64 \<Rightarrow> bool" where
  "float_zero x = (case x of Finite s m e \<Rightarrow> m = 0 | _ \<Rightarrow> False)"

definition float_negative :: "float64 \<Rightarrow> bool" where
  "float_negative x = (case x of Finite s m e \<Rightarrow> s \<and> m \<noteq> 0 | Infinite s \<Rightarrow> s | Not_a_number \<Rightarrow> False)"

definition float_positive :: "float64 \<Rightarrow> bool" where
  "float_positive x = (case x of Finite s m e \<Rightarrow> \<not> s \<and> m \<noteq> 0 | Infinite s \<Rightarrow> \<not> s | Not_a_number \<Rightarrow> False)"

definition float_minus_one :: "float64 \<Rightarrow> bool" where
  "float_minus_one x = (case x of
       Finite s m e \<Rightarrow> s \<and> (if 0 \<le> e then m * 2 ^ nat e = 1 else m = 2 ^ nat (- e))
     | _ \<Rightarrow> False)"

text \<open>The product by a positive whole number.\<close>

definition float_times :: "float64 \<Rightarrow> nat \<Rightarrow> float64" where
  "float_times x k = (case x of Finite s m e \<Rightarrow> Finite s (round53 (m * k)) e | _ \<Rightarrow> x)"

text \<open>Conversion to an integer cuts the digits behind the point.\<close>

definition float_trunc :: "float64 \<Rightarrow> int option" where
  "float_trunc x = (case x of
       Finite s m e \<Rightarrow> Some ((if s then -1 else 1) *
         (if 0 \<le> e then int m * 2 ^ nat e else int m div 2 ^ nat (- e)))
     | _ \<Rightarrow> None)"

definition float_to_uint64 :: "float64 \<Rightarrow> 64 word res" where
  "float_to_uint64 x = (case float_trunc x of
       None \<Rightarrow> Inl Int_overflow
     | Some i \<Rightarrow> if 0 \<le> i \<and> i < 2 ^ 64 then Inr (word_of_int i) else Inl Int_overflow)"

definition float_to_long :: "float64 \<Rightarrow> int res" where
  "float_to_long x = (case float_trunc x of
       None \<Rightarrow> Inl Int_overflow
     | Some i \<Rightarrow> if - (2 ^ 63) \<le> i \<and> i < 2 ^ 63 then Inr i else Inl Int_overflow)"

text \<open>What is left after the whole part, cut towards zero, has been subtracted; this is exact.\<close>

definition float_fraction :: "float64 \<Rightarrow> float64" where
  "float_fraction x = (case x of
       Finite s m e \<Rightarrow> Finite s (if 0 \<le> e then 0 else m mod 2 ^ nat (- e)) e
     | _ \<Rightarrow> Not_a_number)"

text \<open>
  The conversion to milliseconds for the waits of lthread, for which 0 means to wait for ever.
\<close>

definition wait_timeout :: "float64 \<Rightarrow> 64 word res" where
  "wait_timeout timeout =
     (if float_negative timeout then Inr 0
      else if float_zero timeout then Inr 1
      else float_to_uint64 (float_times timeout 1000))"

section \<open>Rounding keeps the order\<close>

lemma bit_length_bounds: "0 < x \<Longrightarrow> 2 ^ (bit_length x - 1) \<le> x \<and> x < 2 ^ bit_length x \<and> 0 < bit_length x"
proof (induction x rule: bit_length.induct)
  case (1 n)
  show ?case
  proof (cases "n = 1")
    case True
    then show ?thesis by (simp add: bit_length.simps)
  next
    case False
    with 1 have h: "2 ^ (bit_length (n div 2) - 1) \<le> n div 2" "n div 2 < 2 ^ bit_length (n div 2)" "0 < bit_length (n div 2)"
      by auto
    then obtain k where k: "bit_length (n div 2) = Suc k" by (cases "bit_length (n div 2)") auto
    from h(1,2) have "2 * 2 ^ k \<le> n" "n < 2 * (2 * 2 ^ k)" by (simp_all add: k)
    then show ?thesis using "1.prems" by (simp add: bit_length.simps [of n] k)
  qed
qed

lemma bit_length_mono: "x \<le> y \<Longrightarrow> bit_length x \<le> bit_length y"
proof (induction x arbitrary: y rule: bit_length.induct)
  case (1 n)
  then show ?case using "1.IH" [of "y div 2"]
    by (cases "n = 0") (auto simp: bit_length.simps [of 0] bit_length.simps [of n] bit_length.simps [of y] div_le_mono)
qed

text \<open>Above \<open>2 ^ 53\<close>, rounding picks one of the two neighbours among the multiples of a power of two.\<close>

definition ulp :: "nat \<Rightarrow> nat" where
  "ulp x = 2 ^ (bit_length x - 53)"

definition rounds_up :: "nat \<Rightarrow> bool" where
  "rounds_up x \<longleftrightarrow> (let r = x mod ulp x; h = 2 ^ (bit_length x - 53 - 1) in r > h \<or> r = h \<and> odd (x div ulp x))"

lemma round53_cases:
  assumes "2 ^ 53 \<le> x"
  shows "round53 x = (if rounds_up x then x div ulp x + 1 else x div ulp x) * ulp x"
  using assms by (simp add: round53_def rounds_up_def ulp_def Let_def)

lemma round53_binade:
  assumes "2 ^ 53 \<le> x"
  shows "2 ^ (bit_length x - 1) \<le> round53 x" and "round53 x \<le> 2 ^ bit_length x" and "54 \<le> bit_length x"
proof -
  from assms have x: "2 ^ (bit_length x - 1) \<le> x" "x < 2 ^ bit_length x"
    using bit_length_bounds [of x] by auto
  have "(2 :: nat) ^ 53 < 2 ^ bit_length x" using assms x(2) by linarith
  then have "53 < bit_length x" by (rule power_less_imp_less_exp [of "2 :: nat", rotated]) simp
  then show b: "54 \<le> bit_length x" by simp
  then obtain k where k: "bit_length x = 53 + Suc k" using le_Suc_ex [of 54 "bit_length x"] by auto
  have u: "ulp x = 2 ^ Suc k" by (simp add: ulp_def k)
  have "2 ^ 52 * ulp x \<le> x" using x(1) by (simp add: k u power_add)
  then have low: "2 ^ 52 \<le> x div ulp x" by (simp add: u less_eq_div_iff_mult_less_eq)
  have "x < 2 ^ 53 * ulp x" using x(2) by (simp add: k u power_add)
  then have high: "x div ulp x < 2 ^ 53" by (simp add: u less_mult_imp_div_less)
  have "2 ^ 52 * ulp x \<le> round53 x \<and> round53 x \<le> 2 ^ 53 * ulp x"
    unfolding round53_cases [OF assms] using low high by (intro conjI mult_le_mono1) auto
  then show "2 ^ (bit_length x - 1) \<le> round53 x" "round53 x \<le> 2 ^ bit_length x"
    by (simp_all add: k u power_add)
qed

lemma round53_mono:
  assumes "x \<le> y"
  shows "round53 x \<le> round53 y"
proof (cases "x < 2 ^ 53")
  case x: True
  show ?thesis
  proof (cases "y < 2 ^ 53")
    case False
    then have y: "2 ^ (bit_length y - 1) \<le> round53 y" "54 \<le> bit_length y" using round53_binade [of y] by simp_all
    have "(2 :: nat) ^ 53 \<le> 2 ^ (bit_length y - 1)" using y(2) by (intro power_increasing) auto
    with x y(1) show ?thesis by simp
  qed (use assms x in simp)
next
  case False
  then have xy: "2 ^ 53 \<le> x" "2 ^ 53 \<le> y" using assms by auto
  consider "bit_length x < bit_length y" | "bit_length x = bit_length y" using bit_length_mono [OF assms] by linarith
  then show ?thesis
  proof cases
    case 1
    then have "(2 :: nat) ^ bit_length x \<le> 2 ^ (bit_length y - 1)" by (intro power_increasing) auto
    with round53_binade(2) [OF xy(1)] round53_binade(1) [OF xy(2)] show ?thesis by linarith
  next
    case 2
    then have u: "ulp x = ulp y" by (simp add: ulp_def)
    have q: "x div ulp y \<le> y div ulp y" using assms by (rule div_le_mono)
    show ?thesis
    proof (cases "x div ulp y = y div ulp y")
      case True
      then have "x mod ulp y \<le> y mod ulp y"
        using assms div_mult_mod_eq [of x "ulp y"] div_mult_mod_eq [of y "ulp y"] by (metis add_le_cancel_left)
      then have "rounds_up x \<longrightarrow> rounds_up y" using True 2 u by (auto simp: rounds_up_def Let_def)
      then show ?thesis unfolding round53_cases [OF xy(1)] round53_cases [OF xy(2)] u using True by (intro mult_le_mono1) simp
    next
      case False
      with q show ?thesis unfolding round53_cases [OF xy(1)] round53_cases [OF xy(2)] u by (intro mult_le_mono1) simp
    qed
  qed
qed

text \<open>A number of at most 53 significant bits is not changed.\<close>

lemma round53_shift:
  assumes "n < 2 ^ 53"
  shows "round53 (n * 2 ^ k) = n * 2 ^ k"
proof (cases "n * 2 ^ k < 2 ^ 53")
  case False
  let ?x = "n * 2 ^ k"
  have x: "2 ^ 53 \<le> ?x" using False by simp
  have "n \<noteq> 0" using False by (intro notI) simp
  then have "0 < ?x" by simp
  from bit_length_bounds [OF this] have "2 ^ (bit_length ?x - 1) \<le> ?x" by (rule conjunct1)
  also have "?x < 2 ^ (53 + k)" using assms by (simp add: power_add)
  finally have "bit_length ?x - 1 < 53 + k" by (rule power_less_imp_less_exp [rotated]) simp
  then have "ulp ?x dvd 2 ^ k" unfolding ulp_def by (intro le_imp_power_dvd) simp
  then have d: "ulp ?x dvd ?x" by simp
  then have "\<not> rounds_up ?x" by (simp add: rounds_up_def Let_def dvd_imp_mod_0)
  with d show ?thesis by (simp add: round53_cases [OF x] dvd_div_mult_self)
qed simp

text \<open>So a rounded number lies between the same whole numbers as the exact one.\<close>

lemma round53_div_between:
  assumes "x < 2 ^ 53 * 2 ^ k"
  shows "x div 2 ^ k \<le> round53 x div 2 ^ k" and "n < 2 ^ 53 \<Longrightarrow> x \<le> n * 2 ^ k \<Longrightarrow> round53 x div 2 ^ k \<le> n"
proof -
  have "x div 2 ^ k < 2 ^ 53" using assms by (simp add: less_mult_imp_div_less)
  then have "round53 (x div 2 ^ k * 2 ^ k) = x div 2 ^ k * 2 ^ k" by (rule round53_shift)
  moreover have "round53 (x div 2 ^ k * 2 ^ k) \<le> round53 x" by (rule round53_mono) simp
  ultimately show "x div 2 ^ k \<le> round53 x div 2 ^ k" by (simp add: less_eq_div_iff_mult_less_eq)
  show "round53 x div 2 ^ k \<le> n" if "n < 2 ^ 53" "x \<le> n * 2 ^ k"
  proof -
    have "round53 x \<le> n * 2 ^ k" using round53_mono [OF that(2)] round53_shift [OF that(1)] by simp
    then show ?thesis using div_le_mono [of "round53 x" "n * 2 ^ k" "2 ^ k"] by simp
  qed
qed

text \<open>Rounding does not depend on the power of two in front.\<close>

lemma bit_length_shift: "0 < x \<Longrightarrow> bit_length (x * 2 ^ j) = bit_length x + j"
proof (induction j)
  case (Suc j)
  then show ?case using bit_length.simps [of "x * 2 ^ Suc j"] by (simp add: mult.left_commute [of x])
qed simp

lemma round53_scale: "round53 (x * 2 ^ j) = round53 x * 2 ^ j"
proof (cases "x < 2 ^ 53")
  case True
  then show ?thesis using round53_shift [OF True] by simp
next
  case False
  then have x: "2 ^ 53 \<le> x" by simp
  have pos: "0 < x" using x by (cases x) auto
  have xj: "2 ^ 53 \<le> x * 2 ^ j" using x by (rule order_trans) simp
  note b = bit_length_shift [OF pos, of j]
  from round53_binade(3) [OF x] obtain e where e: "bit_length x = 54 + e" using le_Suc_ex by blast
  have u: "ulp (x * 2 ^ j) = ulp x * 2 ^ j" by (simp add: ulp_def b e power_add)
  have q: "x * 2 ^ j div ulp (x * 2 ^ j) = x div ulp x" "x * 2 ^ j mod ulp (x * 2 ^ j) = x mod ulp x * 2 ^ j"
    by (simp_all add: u mult_mod_left)
  have h: "(2 :: nat) ^ (bit_length (x * 2 ^ j) - 53 - 1) = 2 ^ (bit_length x - 53 - 1) * 2 ^ j"
    by (simp add: b e power_add)
  have "rounds_up (x * 2 ^ j) = rounds_up x"
    unfolding rounds_up_def Let_def q h by simp
  then show ?thesis unfolding round53_cases [OF x] round53_cases [OF xj] q by (simp add: u)
qed

text \<open>
  What is behind the point, in thousandths two or three times over, never reaches the next whole number: the
  roundings of the largest fraction stay below it.
\<close>

definition thousandths2 :: "nat \<Rightarrow> nat" where
  "thousandths2 f = round53 (round53 (f * 1000) * 1000)"

definition thousandths3 :: "nat \<Rightarrow> nat" where
  "thousandths3 f = round53 (thousandths2 f * 1000)"

lemma thousandths_mono: "f \<le> g \<Longrightarrow> thousandths2 f \<le> thousandths2 g \<and> thousandths3 f \<le> thousandths3 g"
  unfolding thousandths2_def thousandths3_def by (intro conjI round53_mono mult_le_mono1)

lemma thousandths_scale: "thousandths2 (f * 2 ^ j) = thousandths2 f * 2 ^ j" "thousandths3 (f * 2 ^ j) = thousandths3 f * 2 ^ j"
proof -
  have e: "x * 2 ^ j * 1000 = x * 1000 * 2 ^ j" for x :: nat by (simp only: ac_simps)
  show t: "thousandths2 (f * 2 ^ j) = thousandths2 f * 2 ^ j"
    unfolding thousandths2_def e round53_scale ..
  show "thousandths3 (f * 2 ^ j) = thousandths3 f * 2 ^ j"
    unfolding thousandths3_def t e round53_scale ..
qed

lemma largest_fraction: "thousandths2 (2 ^ 53 - 1) < 10 ^ 6 * 2 ^ 53" "thousandths3 (2 ^ 53 - 1) < 10 ^ 9 * 2 ^ 53"
  by (simp_all add: thousandths2_def thousandths3_def round53_def bit_length.simps Let_def)

lemma thousandths_below:
  assumes "f < 2 ^ k" and "f < 2 ^ 53"
  shows "thousandths2 f < 10 ^ 6 * 2 ^ k \<and> thousandths3 f < 10 ^ 9 * 2 ^ k"
proof (cases "k \<le> 53")
  case True
  then obtain j where j: "53 = k + j" using le_Suc_ex by blast
  have p: "(2 :: nat) ^ 53 = 2 ^ k * 2 ^ j" unfolding j by (simp add: power_add)
  have "f * 2 ^ j < 2 ^ 53" unfolding p using assms(1) by simp
  then have "f * 2 ^ j \<le> 2 ^ 53 - 1" by simp
  from thousandths_mono [OF this] largest_fraction
  have "thousandths2 f * 2 ^ j < 10 ^ 6 * 2 ^ 53" "thousandths3 f * 2 ^ j < 10 ^ 9 * 2 ^ 53"
    unfolding thousandths_scale by linarith+
  then show ?thesis unfolding p by simp
next
  case False
  then obtain j where k: "k = 53 + j" by (metis le_Suc_ex nat_le_linear)
  have "f \<le> 2 ^ 53 - 1" using assms(2) by simp
  from thousandths_mono [OF this] largest_fraction
  have "thousandths2 f < 10 ^ 6 * 2 ^ 53" "thousandths3 f < 10 ^ 9 * 2 ^ 53" by linarith+
  moreover have "(2 :: nat) ^ 53 \<le> 2 ^ k" by (simp add: k power_add)
  ultimately show ?thesis by (meson less_le_trans mult_le_mono2)
qed

lemma float_to_long_fraction:
  assumes "e < 0" and "x div 2 ^ nat (- e) < 10 ^ 9"
  shows "float_to_long (Finite False x e) = Inr (int (x div 2 ^ nat (- e)))"
proof -
  have "float_trunc (Finite False x e) = Some (int (x div 2 ^ nat (- e)))"
    using assms(1) by (simp add: float_trunc_def zdiv_int)
  moreover have "int n < 2 ^ 63" if "n < 10 ^ 9" for n using that by simp
  note this [OF assms(2)]
  ultimately show ?thesis unfolding float_to_long_def by (simp del: of_nat_div)
qed

lemma fraction_below:
  assumes "m < 2 ^ 53"
  shows "\<exists>u < 10 ^ 6. float_to_long (float_times (float_times (float_fraction (Finite False m e)) 1000) 1000) = Inr (int u)"
    and "\<exists>u < 10 ^ 9. float_to_long (float_times (float_times (float_times (float_fraction (Finite False m e)) 1000) 1000) 1000) =
      Inr (int u)"
proof -
  have "(\<exists>u < 10 ^ 6. float_to_long (float_times (float_times (float_fraction (Finite False m e)) 1000) 1000) = Inr (int u)) \<and>
    (\<exists>u < 10 ^ 9. float_to_long (float_times (float_times (float_times (float_fraction (Finite False m e)) 1000) 1000) 1000) =
      Inr (int u))"
  proof (cases "0 \<le> e")
    case True
    then show ?thesis by (simp add: float_fraction_def float_times_def float_to_long_def float_trunc_def exI [of _ 0])
  next
    case False
    let ?f = "m mod 2 ^ nat (- e)"
    have "?f < 2 ^ nat (- e)" "?f < 2 ^ 53" using assms by (auto intro: le_less_trans [OF mod_less_eq_dividend])
    then have "thousandths2 ?f < 10 ^ 6 * 2 ^ nat (- e)" "thousandths3 ?f < 10 ^ 9 * 2 ^ nat (- e)"
      using thousandths_below by blast+
    then have u: "thousandths2 ?f div 2 ^ nat (- e) < 10 ^ 6" "thousandths3 ?f div 2 ^ nat (- e) < 10 ^ 9"
      by (simp_all only: less_mult_imp_div_less)
    have "float_to_long (float_times (float_times (float_fraction (Finite False m e)) 1000) 1000) =
        Inr (int (thousandths2 ?f div 2 ^ nat (- e)))"
      "float_to_long (float_times (float_times (float_times (float_fraction (Finite False m e)) 1000) 1000) 1000) =
        Inr (int (thousandths3 ?f div 2 ^ nat (- e)))"
      using float_to_long_fraction [of e "thousandths2 ?f"] float_to_long_fraction [of e "thousandths3 ?f"] False u
      by (simp_all add: float_fraction_def float_times_def thousandths2_def thousandths3_def)
    with u show ?thesis by blast
  qed
  then show "\<exists>u < 10 ^ 6. float_to_long (float_times (float_times (float_fraction (Finite False m e)) 1000) 1000) = Inr (int u)"
    "\<exists>u < 10 ^ 9. float_to_long (float_times (float_times (float_times (float_fraction (Finite False m e)) 1000) 1000) 1000) =
      Inr (int u)" by simp_all
qed

end
