(* ===== verification/PosixThread.thy ===== *)
theory PosixThread
  imports Float64
begin

text \<open>
  Mutexes, conditions and threads over pthreads: \<open>src/cflare-posix/mutex.c\<close> and
  \<open>src/cflare-posix/thread.c\<close>.

  The code is a thin layer over calls of the pthread library. A function here is the list of the calls it
  makes, in order; what a call answers is an argument where the code looks at it. \<open>calls_ok\<close> is what the
  standard asks of such a list: an object is initialised before it is used, with attributes that are
  initialised, and destroyed once. \<open>assert\<close> is an argument too (\<open>ndebug\<close>), because the calls that
  initialise are written inside it.
\<close>

section \<open>Mutexes and conditions\<close>

datatype mutex_kind = PTHREAD_MUTEX_DEFAULT | PTHREAD_MUTEX_NORMAL | PTHREAD_MUTEX_TIMED_NP | PTHREAD_MUTEX_RECURSIVE

datatype pthread_call =
    Attr_init | Attr_settype mutex_kind | Attr_destroy
  | Object_init | Object_destroy
  | Lock | Unlock | Rdlock | Wrlock | Cond_wait | Cond_signal

definition CFLARE_MUTEX_PLAIN :: "32 word" where "CFLARE_MUTEX_PLAIN = push_bit 0 1"
definition CFLARE_MUTEX_RECURSIVE :: "32 word" where "CFLARE_MUTEX_RECURSIVE = push_bit 1 1"
definition CFLARE_MUTEX_TIMED :: "32 word" where "CFLARE_MUTEX_TIMED = push_bit 2 1"
definition CFLARE_MUTEX_TRY :: "32 word" where "CFLARE_MUTEX_TRY = push_bit 3 1"

text \<open>\<open>assert(init(...) == 0)\<close>: without assertions the call is not made at all.\<close>

definition assert_init :: "bool \<Rightarrow> bool \<Rightarrow> pthread_call list res" where
  "assert_init ndebug init_ok =
     (if ndebug then Inr [] else if init_ok then Inr [Object_init] else Inl Assert_failed)"

text \<open>\<open>timed_np\<close>: whether the system has \<open>PTHREAD_MUTEX_TIMED_NP\<close>.\<close>

definition cflare_mutex_new :: "bool \<Rightarrow> bool \<Rightarrow> bool \<Rightarrow> 32 word \<Rightarrow> pthread_call list res" where
  "cflare_mutex_new ndebug timed_np init_ok type =
     bindE (assert_init ndebug init_ok) (\<lambda>init.
       Inr ([Attr_init] @
         (if type AND CFLARE_MUTEX_TRY \<noteq> 0 then [Attr_settype PTHREAD_MUTEX_NORMAL] else []) @
         (if type AND CFLARE_MUTEX_TIMED \<noteq> 0
          then (if timed_np then [Attr_settype PTHREAD_MUTEX_TIMED_NP] else []) else []) @
         (if type AND CFLARE_MUTEX_RECURSIVE \<noteq> 0 then [Attr_settype PTHREAD_MUTEX_RECURSIVE] else []) @
         init @ [Attr_destroy]))"

definition cflare_mutex_delete :: "pthread_call list" where
  "cflare_mutex_delete = [Object_destroy]"

definition cflare_mutex_lock :: "pthread_call list" where
  "cflare_mutex_lock = [Lock]"

definition cflare_mutex_unlock :: "pthread_call list" where
  "cflare_mutex_unlock = [Unlock]"

text \<open>The type of a read-write mutex is not looked at.\<close>

definition cflare_rwmutex_new :: "bool \<Rightarrow> bool \<Rightarrow> 32 word \<Rightarrow> pthread_call list res" where
  "cflare_rwmutex_new ndebug init_ok type =
     bindE (assert_init ndebug init_ok) (\<lambda>init. Inr ([Attr_init] @ init @ [Attr_destroy]))"

definition cflare_rwmutex_delete :: "pthread_call list" where
  "cflare_rwmutex_delete = [Object_destroy]"

definition cflare_rwmutex_read_lock :: "pthread_call list" where
  "cflare_rwmutex_read_lock = [Rdlock]"

definition cflare_rwmutex_read_unlock :: "pthread_call list" where
  "cflare_rwmutex_read_unlock = [Unlock]"

definition cflare_rwmutex_write_lock :: "pthread_call list" where
  "cflare_rwmutex_write_lock = [Wrlock]"

definition cflare_rwmutex_write_unlock :: "pthread_call list" where
  "cflare_rwmutex_write_unlock = [Unlock]"

definition cflare_condition_new :: "bool \<Rightarrow> bool \<Rightarrow> pthread_call list res" where
  "cflare_condition_new ndebug init_ok =
     bindE (assert_init ndebug init_ok) (\<lambda>init. Inr ([Attr_init] @ init @ [Attr_destroy]))"

definition cflare_condition_delete :: "pthread_call list" where
  "cflare_condition_delete = [Object_destroy]"

definition cflare_condition_wait :: "pthread_call list" where
  "cflare_condition_wait = [Cond_wait]"

definition cflare_condition_signal :: "pthread_call list" where
  "cflare_condition_signal = [Cond_signal]"

section \<open>What the standard asks\<close>

record pthread_state =
  ps_attr :: "mutex_kind option"
  ps_object :: "mutex_kind option"

definition nothing_there :: pthread_state where
  "nothing_there = \<lparr>ps_attr = None, ps_object = None\<rparr>"

fun call_ok :: "pthread_state \<Rightarrow> pthread_call \<Rightarrow> pthread_state option" where
  "call_ok s Attr_init = (if ps_attr s = None then Some (s\<lparr>ps_attr := Some PTHREAD_MUTEX_DEFAULT\<rparr>) else None)"
| "call_ok s (Attr_settype k) = (if ps_attr s = None then None else Some (s\<lparr>ps_attr := Some k\<rparr>))"
| "call_ok s Attr_destroy = (if ps_attr s = None then None else Some (s\<lparr>ps_attr := None\<rparr>))"
| "call_ok s Object_init =
     (if ps_attr s = None \<or> ps_object s \<noteq> None then None else Some (s\<lparr>ps_object := ps_attr s\<rparr>))"
| "call_ok s Object_destroy = (if ps_object s = None then None else Some (s\<lparr>ps_object := None\<rparr>))"
| "call_ok s _ = (if ps_object s = None then None else Some s)"

fun calls_ok :: "pthread_state \<Rightarrow> pthread_call list \<Rightarrow> pthread_state option" where
  "calls_ok s [] = Some s"
| "calls_ok s (c # cs) = (case call_ok s c of None \<Rightarrow> None | Some s' \<Rightarrow> calls_ok s' cs)"

lemma calls_ok_append:
  "calls_ok s (cs @ ds) = (case calls_ok s cs of None \<Rightarrow> None | Some s' \<Rightarrow> calls_ok s' ds)"
  by (induction cs arbitrary: s) (simp_all split: option.split)

lemma calls_ok_uses:
  assumes "ps_object s \<noteq> None" and "set cs \<subseteq> {Lock, Unlock, Rdlock, Wrlock, Cond_wait, Cond_signal}"
  shows "calls_ok s cs = Some s"
  using assms(2) by (induction cs) (use assms(1) in auto)

section \<open>Threads\<close>

datatype thread_event = Created nat | Joined nat | Detached nat

record cflare_thread =
  native :: nat
  owns :: bool

text \<open>Creating a thread: \<open>None\<close> where \<open>pthread_create\<close> fails.\<close>

definition cflare_thread_new :: "nat option \<Rightarrow> (cflare_thread \<times> thread_event list) res" where
  "cflare_thread_new create = (case create of
       None \<Rightarrow> Inl (Fatal ''failed to create thread!'')
     | Some n \<Rightarrow> Inr (\<lparr>native = n, owns = True\<rparr>, [Created n]))"

definition cflare_thread_detach :: "cflare_thread \<Rightarrow> cflare_thread \<times> thread_event list" where
  "cflare_thread_detach th = (th\<lparr>owns := False\<rparr>, [Detached (native th)])"

definition cflare_thread_delete :: "cflare_thread \<Rightarrow> thread_event list" where
  "cflare_thread_delete th = (if owns th then snd (cflare_thread_detach th) else [])"

text \<open>\<open>answer\<close> is what the thread returned, \<open>None\<close> where \<open>pthread_join\<close> fails.\<close>

definition cflare_thread_join :: "'r option \<Rightarrow> cflare_thread \<Rightarrow> cflare_thread \<times> 'r option \<times> thread_event list" where
  "cflare_thread_join answer th = (th\<lparr>owns := False\<rparr>, answer, [Joined (native th)])"

definition cflare_thread_id :: "cflare_thread \<Rightarrow> nat" where
  "cflare_thread_id th = native th"

definition cflare_thread_running :: "bool \<Rightarrow> cflare_thread \<Rightarrow> bool" where
  "cflare_thread_running alive th = (if \<not> owns th then False else alive)"

text \<open>What a client does with a thread between its creation and its deletion.\<close>

datatype 'r thread_use = Join "'r option" | Detach | Ask

fun use_thread :: "cflare_thread \<Rightarrow> 'r thread_use list \<Rightarrow> cflare_thread \<times> thread_event list" where
  "use_thread th [] = (th, [])"
| "use_thread th (Join a # us) =
     (case cflare_thread_join a th of (th1, _, evs) \<Rightarrow>
        case use_thread th1 us of (th2, evs') \<Rightarrow> (th2, evs @ evs'))"
| "use_thread th (Detach # us) =
     (case cflare_thread_detach th of (th1, evs) \<Rightarrow>
        case use_thread th1 us of (th2, evs') \<Rightarrow> (th2, evs @ evs'))"
| "use_thread th (Ask # us) = use_thread th us"

definition releases :: "nat \<Rightarrow> thread_event list \<Rightarrow> nat" where
  "releases n evs = length (filter (\<lambda>e. e = Joined n \<or> e = Detached n) evs)"

definition is_release :: "'r thread_use \<Rightarrow> bool" where
  "is_release u = (case u of Ask \<Rightarrow> False | _ \<Rightarrow> True)"

lemma releases_simps [simp]:
  "releases n [] = 0" "releases n (e # evs) = (if e = Joined n \<or> e = Detached n then 1 else 0) + releases n evs"
  "releases n (evs @ evs') = releases n evs + releases n evs'"
  by (simp_all add: releases_def)

lemma use_thread_releases:
  "native (fst (use_thread th us)) = native th \<and>
   releases (native th) (snd (use_thread th us)) = length (filter is_release us) \<and>
   (owns (fst (use_thread th us)) \<longleftrightarrow> owns th \<and> filter is_release us = [])"
proof (induction us arbitrary: th)
  case (Cons u us)
  from Cons.IH [of "th\<lparr>owns := False\<rparr>"] Cons.IH [of th] show ?case
    by (cases u) (simp_all add: is_release_def cflare_thread_join_def cflare_thread_detach_def split_beta)
qed simp

section \<open>Properties\<close>

lemma mutex_type_bits:
  "(type AND CFLARE_MUTEX_RECURSIVE \<noteq> 0) = bit type 1" "(type AND CFLARE_MUTEX_TIMED \<noteq> 0) = bit type 2"
  "(type AND CFLARE_MUTEX_TRY \<noteq> 0) = bit type 3"
  unfolding CFLARE_MUTEX_RECURSIVE_def CFLARE_MUTEX_TIMED_def CFLARE_MUTEX_TRY_def by (rule and_push_bit)+

lemma new_initialised:
  assumes "cflare_mutex_new False timed_np init_ok type = Inr cs"
  shows "calls_ok nothing_there cs = Some \<lparr>ps_attr = None, ps_object = Some
      (if bit type 1 then PTHREAD_MUTEX_RECURSIVE else if bit type 2 \<and> timed_np then PTHREAD_MUTEX_TIMED_NP
       else if bit type 3 then PTHREAD_MUTEX_NORMAL else PTHREAD_MUTEX_DEFAULT)\<rparr>"
  using assms
  by (auto simp: cflare_mutex_new_def assert_init_def mutex_type_bits nothing_there_def split: if_splits)

text \<open>
  the life of a mutex uses pthreads as the standard asks: it is initialised with the attributes its
  type asks for, recursion before all others, it can be locked and unlocked any number of times, and deleting it leaves neither
  the mutex nor its attributes behind. Compiled without assertions it is never initialised, and the first lock is undefined.
\<close>

theorem posix_mutex_life:
  assumes "cflare_mutex_new ndebug timed_np init_ok type = Inr cs"
    and "set us \<subseteq> {cflare_mutex_lock, cflare_mutex_unlock}" and "us \<noteq> []"
  shows "if ndebug then calls_ok nothing_there (cs @ concat us) = None
    else map_option ps_object (calls_ok nothing_there cs) = Some (Some
        (if bit type 1 then PTHREAD_MUTEX_RECURSIVE else if bit type 2 \<and> timed_np then PTHREAD_MUTEX_TIMED_NP
         else if bit type 3 then PTHREAD_MUTEX_NORMAL else PTHREAD_MUTEX_DEFAULT)) \<and>
      calls_ok nothing_there (cs @ concat us @ cflare_mutex_delete) = Some nothing_there"
proof (cases ndebug)
  case True
  with assms(1) have "calls_ok nothing_there cs = Some nothing_there"
    by (auto simp: cflare_mutex_new_def assert_init_def nothing_there_def split: if_splits)
  moreover obtain u us' where "us = u # us'" "u = [Lock] \<or> u = [Unlock]"
    using assms(2,3) by (cases us) (auto simp: cflare_mutex_lock_def cflare_mutex_unlock_def)
  ultimately show ?thesis using True by (auto simp: calls_ok_append nothing_there_def)
next
  case False
  have "set (concat us) \<subseteq> {Lock, Unlock, Rdlock, Wrlock, Cond_wait, Cond_signal}"
    using assms(2) by (auto simp: cflare_mutex_lock_def cflare_mutex_unlock_def)
  with False assms(1) show ?thesis
    using new_initialised [of timed_np init_ok type cs]
    by (simp add: calls_ok_append calls_ok_uses cflare_mutex_delete_def nothing_there_def)
qed

lemma posix_mutex_life_witness:
  "calls_ok nothing_there ([Attr_init, Attr_settype PTHREAD_MUTEX_RECURSIVE, Object_init, Attr_destroy] @
     [Lock, Unlock] @ cflare_mutex_delete) = Some nothing_there"
proof -
  have "cflare_mutex_new False True True 2 =
      Inr [Attr_init, Attr_settype PTHREAD_MUTEX_RECURSIVE, Object_init, Attr_destroy]"
    by (simp add: cflare_mutex_new_def assert_init_def CFLARE_MUTEX_RECURSIVE_def CFLARE_MUTEX_TIMED_def
        CFLARE_MUTEX_TRY_def)
  from posix_mutex_life [OF this, of "[cflare_mutex_lock, cflare_mutex_unlock]"] show ?thesis
    by (simp add: cflare_mutex_lock_def cflare_mutex_unlock_def)
qed

text \<open>
  a thread's resources are given back exactly once: a client that joins or detaches its thread at most
  once, and then deletes the object, has it joined or detached exactly once, since the deletion detaches a thread that nobody has.
\<close>

theorem thread_released_once:
  assumes "cflare_thread_new (Some n) = Inr (th, evs0)" and "use_thread th us = (th', evs)"
    and "length (filter is_release us) \<le> 1"
  shows "releases n (evs0 @ evs @ cflare_thread_delete th') = 1 \<and>
    (\<not> cflare_thread_running True th' \<longleftrightarrow> filter is_release us \<noteq> [])"
proof -
  from assms(1) have th: "native th = n" "owns th" "releases n evs0 = 0"
    by (auto simp: cflare_thread_new_def)
  with use_thread_releases [of th us] assms(2,3) show ?thesis
    by (cases "filter is_release us")
      (auto simp: cflare_thread_delete_def cflare_thread_detach_def cflare_thread_running_def)
qed

lemma thread_released_once_witness:
  "releases 7 ([Created 7] @ [] @ cflare_thread_delete \<lparr>native = 7, owns = True\<rparr>) = 1"
  using thread_released_once [of 7 "\<lparr>native = 7, owns = True\<rparr>" "[Created 7]" "[Ask] :: nat thread_use list"]
  by (simp add: cflare_thread_new_def is_release_def)

section \<open>Sleeping\<close>

text \<open>What \<open>nanosleep\<close> is called with: the seconds and the nanoseconds.\<close>

definition cflare_thread_sleep :: "float64 \<Rightarrow> (int \<times> int) res" where
  "cflare_thread_sleep seconds =
     bindE (float_to_long seconds) (\<lambda>sec.
     bindE (float_to_long (float_times (float_times (float_times (float_fraction seconds) 1000) 1000) 1000)) (\<lambda>nsec.
       Inr (sec, nsec)))"

text \<open>
  However the products are rounded, the nanoseconds stay below a billion, so that \<open>nanosleep\<close> accepts every
  time that is not negative and has seconds that fit.
\<close>

lemma thread_sleep_valid:
  assumes "m < 2 ^ 53" and "float_to_long (Finite False m e) = Inr sec"
  shows "\<exists>nsec. cflare_thread_sleep (Finite False m e) = Inr (sec, nsec) \<and> 0 \<le> nsec \<and> nsec < 10 ^ 9"
  using fraction_below(2) [OF assms(1), of e] assms(2) by (auto simp: cflare_thread_sleep_def)

end
