(* ===== verification/Worker.thy ===== *)
theory Worker
  imports RequestProps
begin

text \<open>
  What a worker of \<open>src/main.c\<close> does with a connection it is handed: requests are processed, with one
  request object for all of them, until one is not to be kept alive; then the socket is closed and
  deleted. The loop has no bound of its own and takes fuel here; how the worker is handed its
  connections is in \<open>Server\<close>.
\<close>

section \<open>The loop over a connection\<close>

fun serve_loop ::
  "nat \<Rightarrow> (addr \<Rightarrow> 'f cflare_hookstack option \<Rightarrow> 'f world \<Rightarrow> ptr \<Rightarrow> 'f world \<times> bool) \<Rightarrow> ('p, 'f) server
   \<Rightarrow> cflare_request \<Rightarrow> cflare_socket \<Rightarrow> net \<Rightarrow> (cflare_request \<times> cflare_socket \<times> net) res" where
  "serve_loop 0 run sv req sk n = Inl Out_of_fuel"
| "serve_loop (Suc fuel) run sv req sk n =
     bindE (cflare_request_process_socket run sv req sk n) (\<lambda>(req1, sk1, n1, again).
       if again then serve_loop fuel run sv req1 sk1 n1 else Inr (req1, sk1, n1))"

definition serve_connection ::
  "nat \<Rightarrow> (addr \<Rightarrow> 'f cflare_hookstack option \<Rightarrow> 'f world \<Rightarrow> ptr \<Rightarrow> 'f world \<times> bool) \<Rightarrow> ('p, 'f) server
   \<Rightarrow> cflare_request \<Rightarrow> cflare_socket \<Rightarrow> net \<Rightarrow> (cflare_request \<times> net) res" where
  "serve_connection fuel run sv req sk n =
     bindE (serve_loop fuel run sv req sk n) (\<lambda>(req1, sk1, n1).
       case cflare_socket_close sk1 n1 of (sk2, n2) \<Rightarrow> Inr (req1, cflare_socket_delete sk2 n2))"

section \<open>Requests that come one after the other\<close>

text \<open>Fragments that make up a text and nothing behind it leave the rest of the network as it is.\<close>

lemma read_head_fragments:
  assumes "sk_ok sk" and "sk_connected sk" and "requeued sk = []" and "net_incoming n = map Data cs @ es"
    and "\<forall>c \<in> set cs. c \<noteq> []" and "cs \<noteq> []" and "ends_exactly (concat cs) newlines"
    and "nbytes + length (concat cs) < freespace" and "freespace \<le> length buffer"
  shows "\<exists>b. read_head sk n buffer freespace nbytes newlines =
    Inr (sk, n\<lparr>net_incoming := es\<rparr>, b, Inr (nbytes + length (concat cs)))"
  using assms(3-)
proof (induction cs arbitrary: n buffer nbytes newlines)
  case (Cons c cs)
  let ?n1 = "n\<lparr>net_incoming := map Data cs @ es\<rparr>" and ?b = "take nbytes buffer @ c @ drop (nbytes + length c) buffer"
  have "sk_requeue_length sk = 0" using length_requeued [OF assms(1)] Cons.prems(1) by simp
  then have read: "cflare_socket_read sk n (freespace - nbytes) = Inr (sk, ?n1, True, c)"
    using assms(2) Cons.prems(2,3,6) by (simp add: cflare_socket_read_def lthread_recv_def assertE_def)
  have w: "memcpy_at buffer nbytes c = Inr ?b" "length ?b = length buffer"
    using Cons.prems(6,7) by (simp_all add: memcpy_at_def)
  obtain k ended where scan: "scan_newlines c newlines = (k, ended)" by fastforce
  have step: "read_head sk n buffer freespace nbytes newlines =
      (if ended then Inr (sk, ?n1, ?b, Inr (nbytes + length c)) else read_head sk ?n1 ?b freespace (nbytes + length c) k)"
    using read w scan Cons.prems(6) by (simp add: read_head.simps [of sk n])
  show ?case
  proof (cases ended)
    case True
    have "cs = []"
    proof (rule ccontr)
      assume "cs \<noteq> []"
      then have "length c < length (concat (c # cs))" using Cons.prems(3) by (cases cs) auto
      moreover have "take (length c) (concat (c # cs)) = c" by simp
      ultimately show False using Cons.prems(5) scan True unfolding ends_exactly_def by (metis snd_conv)
    qed
    with step True show ?thesis by auto
  next
    case False
    have "cs \<noteq> []" using Cons.prems(5) scan False by (auto simp: ends_exactly_def)
    have "ends_exactly (concat cs) k"
      unfolding ends_exactly_def
    proof (intro conjI allI impI)
      show "snd (scan_newlines (concat cs) k)"
        using Cons.prems(5) scan False by (simp add: ends_exactly_def scan_newlines_append)
      fix j
      assume "j < length (concat cs)"
      then have "\<not> snd (scan_newlines (take (length c + j) (c @ concat cs)) newlines)"
        using Cons.prems(5) by (simp add: ends_exactly_def del: take_append)
      then show "\<not> snd (scan_newlines (take j (concat cs)) k)"
        using scan False by (simp add: scan_newlines_append)
    qed
    with Cons.IH [of ?n1 k "nbytes + length c" ?b] Cons.prems \<open>cs \<noteq> []\<close> w(2) step False show ?thesis
      by (auto simp: add.assoc)
  qed
qed simp

text \<open>
  A request as a client sends it: the end of line it uses, the words of its first line, its headers, and
  the fragments the network makes of it.
\<close>

record client_request =
  cr_eol :: string
  cr_method :: string
  cr_path :: string
  cr_query :: "string option"
  cr_version :: string
  cr_headers :: "(string \<times> string) list"
  cr_fragments :: "string list"

definition cr_text :: "client_request \<Rightarrow> string" where
  "cr_text r = head_text (cr_eol r) (cr_method r) (cr_path r) (cr_query r) (cr_version r) (cr_headers r)"

definition cr_ok :: "('p, 'f) server \<Rightarrow> client_request \<Rightarrow> bool" where
  "cr_ok sv r = (head_ok sv (cr_eol r) (cr_method r) (cr_path r) (cr_query r) (cr_version r) (cr_headers r) \<and>
     concat (cr_fragments r) = cr_text r \<and> (\<forall>c \<in> set (cr_fragments r). c \<noteq> []) \<and> cr_fragments r \<noteq> [] \<and>
     length (cr_text r) < 4096)"

definition cr_open :: "client_request \<Rightarrow> bool" where
  "cr_open r = stays_open (cr_version r) (cr_headers r)"

definition sent_by :: "client_request list \<Rightarrow> recv_event list" where
  "sent_by rs = concat (map (\<lambda>r. map Data (cr_fragments r)) rs)"

definition all_text :: "client_request list \<Rightarrow> string" where
  "all_text rs = concat (map cr_text rs)"

lemma sent_by_stream: "\<forall>r \<in> set rs. cr_ok sv r \<Longrightarrow> stream (sent_by rs) = all_text rs"
proof (induction rs)
  case (Cons r rs)
  have "stream (map Data cs @ es) = concat cs @ stream es" for cs es
    by (induction cs) simp_all
  with Cons show ?case by (simp add: sent_by_def all_text_def cr_ok_def)
qed (simp add: sent_by_def all_text_def)

lemma process_client_request:
  assumes sv: "idle_server sv ln sn dn cn" and ok: "\<forall>r \<in> set (r # rs). cr_ok sv r" and req: "request_ok req"
    and sk: "sk_ok sk" "sk_connected sk" "requeued sk = []"
    and n: "net_incoming n = sent_by (r # rs)" "accepting n (k + 5000)"
  shows "\<exists>req' sk' n'. cflare_request_process_socket run sv req sk n = Inr (req', sk', n', cr_open r) \<and>
    net_sent n' = net_sent n @ unhandled_text sv ln sn dn cn (cr_open r) \<and> net_incoming n' = sent_by rs \<and>
    request_ok req' \<and> sk_ok sk' \<and> sk_connected sk' \<and> requeued sk' = [] \<and> same_socket sk sk' \<and> accepting n' k \<and>
    net_closed n' = net_closed n"
proof -
  let ?text = "cr_text r" and ?n1 = "n\<lparr>net_incoming := sent_by rs\<rparr>"
  have r: "head_ok sv (cr_eol r) (cr_method r) (cr_path r) (cr_query r) (cr_version r) (cr_headers r)"
    "concat (cr_fragments r) = ?text" "\<forall>c \<in> set (cr_fragments r). c \<noteq> []" "cr_fragments r \<noteq> []"
    "length ?text < 4096"
    using ok by (simp_all add: cr_ok_def)
  have inc: "net_incoming n = map Data (cr_fragments r) @ sent_by rs" using n(1) by (simp add: sent_by_def)
  have pend: "pending sk n = ?text @ all_text rs"
    using sent_by_stream [of "r # rs" sv] ok n(1) sk(3) by (simp add: pending_def all_text_def)
  have "complete_head ?text"
    using r(1) head_text_complete unfolding cr_text_def head_ok_def by blast
  then have "ends_exactly (concat (cr_fragments r)) 0"
    unfolding r(2) by (simp add: complete_head_def ends_exactly_def)
  moreover have "0 + length (concat (cr_fragments r)) < 4096" "4096 \<le> length (rq_buffer req)"
    using req r(5) unfolding r(2) by (simp_all add: request_ok_def)
  ultimately obtain b where "read_head sk n (rq_buffer req) 4096 0 0 =
      Inr (sk, ?n1, b, Inr (0 + length (concat (cr_fragments r))))"
    using read_head_fragments [OF sk inc r(3,4)] by blast
  then have rec: "received sk n req (head_text (cr_eol r) (cr_method r) (cr_path r) (cr_query r) (cr_version r)
      (cr_headers r) @ all_text rs) sk ?n1"
    using sk(1,2) pend unfolding received_def cr_text_def by blast
  from process_unhandled [OF sv r(1) req rec n(2), of run] obtain req' sk' n' rest where
    p: "cflare_request_process_socket run sv req sk n = Inr (req', sk', n', cr_open r)"
      "net_sent n' = net_sent n @ unhandled_text sv ln sn dn cn (cr_open r)"
      "all_text rs = rest @ pending sk ?n1" "net_incoming n' = sent_by rs"
      "requeued sk' = (if cr_open r then rest else []) @ requeued sk"
      "request_ok req'" "sk_ok sk'" "sk_connected sk'" "same_socket sk sk'" "accepting n' k" "net_closed n' = net_closed n"
    unfolding cr_open_def by auto
  have "rest = []" using p(3) sent_by_stream [of rs sv] ok sk(3) by (simp add: pending_def)
  with p sk(3) show ?thesis by (intro exI [of _ req'] exI [of _ sk'] exI [of _ n']) simp
qed

text \<open>The answers to a sequence of requests.\<close>

definition answers :: "('p, 'f) server \<Rightarrow> string \<Rightarrow> string \<Rightarrow> string \<Rightarrow> string \<Rightarrow> client_request list \<Rightarrow> string" where
  "answers sv ln sn dn cn rs = concat (map (\<lambda>r. unhandled_text sv ln sn dn cn (cr_open r)) rs)"

lemma serve_loop_answers:
  assumes sv: "idle_server sv ln sn dn cn"
  shows "\<forall>r \<in> set rs. cr_ok sv r \<and> cr_open r \<Longrightarrow> cr_ok sv final \<Longrightarrow> \<not> cr_open final \<Longrightarrow> request_ok req \<Longrightarrow>
    sk_ok sk \<Longrightarrow> sk_connected sk \<Longrightarrow> requeued sk = [] \<Longrightarrow> net_incoming n = sent_by (rs @ [final]) \<Longrightarrow>
    accepting n (5000 * length (rs @ [final])) \<Longrightarrow> length rs < fuel \<Longrightarrow>
    \<exists>req' sk' n'. serve_loop fuel run sv req sk n = Inr (req', sk', n') \<and> request_ok req' \<and>
      net_sent n' = net_sent n @ answers sv ln sn dn cn (rs @ [final]) \<and> net_incoming n' = [] \<and>
      same_socket sk sk' \<and> net_closed n' = net_closed n"
proof (induction rs arbitrary: fuel req sk n)
  case Nil
  then obtain f where f: "fuel = Suc f" by (cases fuel) auto
  from Nil have "accepting n (0 + 5000)" by simp
  with process_client_request [OF sv, of final "[]" req sk n 0 run] Nil f show ?case
    by (fastforce simp: answers_def sent_by_def)
next
  case (Cons r rs)
  then obtain f where f: "fuel = Suc f" "length rs < f" by (cases fuel) auto
  have "accepting n (5000 * length (rs @ [final]) + 5000)" using Cons.prems(9) by (simp add: accepting_def)
  with process_client_request [OF sv, of r "rs @ [final]" req sk n "5000 * length (rs @ [final])" run] Cons.prems
  obtain req1 sk1 n1 where p: "cflare_request_process_socket run sv req sk n = Inr (req1, sk1, n1, True)"
    "net_sent n1 = net_sent n @ unhandled_text sv ln sn dn cn True" "net_incoming n1 = sent_by (rs @ [final])"
    "request_ok req1" "sk_ok sk1" "sk_connected sk1" "requeued sk1 = []" "same_socket sk sk1"
    "accepting n1 (5000 * length (rs @ [final]))" "net_closed n1 = net_closed n" by auto
  from Cons.IH [OF _ Cons.prems(2,3) p(4-7,3,9) f(2)] Cons.prems(1) obtain req' sk' n' where
    "serve_loop f run sv req1 sk1 n1 = Inr (req', sk', n')" "request_ok req'"
    "net_sent n' = net_sent n1 @ answers sv ln sn dn cn (rs @ [final])" "net_incoming n' = []"
    "same_socket sk1 sk'" "net_closed n' = net_closed n1" by auto
  with p f(1) Cons.prems(1) same_trans(2) [OF p(8)] show ?case by (simp add: answers_def)
qed

lemma serve_connection_answers:
  assumes "idle_server sv len_name server_name date_name connection_name"
    and "\<forall>r \<in> set rs. cr_ok sv r \<and> cr_open r" and "cr_ok sv final" and "\<not> cr_open final"
    and "request_ok req" and "sk_ok sk" and "sk_connected sk" and "requeued sk = []" and "0 \<le> sk_fd sk"
    and "net_incoming n = sent_by (rs @ [final])" and "accepting n (5000 * length (rs @ [final]))"
    and "length (rs @ [final]) \<le> fuel"
  shows "\<exists>req' n'. serve_connection fuel run sv req sk n = Inr (req', n') \<and> request_ok req' \<and>
    net_sent n' = net_sent n @ answers sv len_name server_name date_name connection_name (rs @ [final]) \<and>
    net_incoming n' = [] \<and> net_closed n' = net_closed n @ [sk_fd sk]"
proof -
  have "length rs < fuel" using assms(12) by simp
  from serve_loop_answers [OF assms(1-8,10,11) this, of run] obtain req' sk' n' where
    "serve_loop fuel run sv req sk n = Inr (req', sk', n')" "request_ok req'"
    "net_sent n' = net_sent n @ answers sv len_name server_name date_name connection_name (rs @ [final])"
    "net_incoming n' = []" "same_socket sk sk'" "net_closed n' = net_closed n" by blast
  with assms(9) show ?thesis
    by (simp add: serve_connection_def cflare_socket_close_def cflare_socket_delete_def same_socket_def)
qed

section \<open>Properties\<close>

text \<open>
  C2: A worker answers every request of a connection, in order and once, with one request object for all
  of them, until the first that does not keep the connection open, and then closes the descriptor once:
  a client that sends one request after the other, each in as many fragments as the network makes of
  it and each with a head that fits the buffer, gets one answer to each of them. One turn of the loop for
  each request is enough.
\<close>

theorem worker_answers_in_order:
  assumes "idle_server sv len_name server_name date_name connection_name"
    and "\<forall>r \<in> set rs. cr_ok sv r \<and> cr_open r" and "cr_ok sv final" and "\<not> cr_open final"
    and "request_ok req" and "sk_ok sk" and "sk_connected sk" and "requeued sk = []" and "0 \<le> sk_fd sk"
    and "net_incoming n = sent_by (rs @ [final])" and "accepting n (5000 * length (rs @ [final]))"
    and "length (rs @ [final]) \<le> fuel"
  shows "\<exists>req' n'. serve_connection fuel run sv req sk n = Inr (req', n') \<and> request_ok req' \<and>
    net_sent n' = net_sent n @ answers sv len_name server_name date_name connection_name (rs @ [final]) \<and>
    net_incoming n' = [] \<and> net_closed n' = net_closed n @ [sk_fd sk]"
  by (rule serve_connection_answers [OF assms])

definition first_client :: client_request where
  "first_client = \<lparr>cr_eol = [LF], cr_method = ''GET'', cr_path = ''/a'', cr_query = Some ''x=1'', cr_version = ''HTTP/1.1'',
     cr_headers = [(''Host'', ''h'')], cr_fragments = [take 9 sample_text, drop 9 sample_text]\<rparr>"

definition last_client :: client_request where
  "last_client = \<lparr>cr_eol = [LF], cr_method = ''GET'', cr_path = ''/'', cr_query = None, cr_version = ''HTTP/1.0'',
     cr_headers = [], cr_fragments = [''GET / HTTP/1.0'' @ [LF, LF]]\<rparr>"

lemma clients_ok:
  assumes "server_ok sv"
  shows "cr_ok sv first_client" "cr_open first_client" "cr_ok sv last_client" "\<not> cr_open last_client"
proof -
  show "cr_ok sv first_client"
    using sample_head [OF assms]
    by (simp add: cr_ok_def first_client_def cr_text_def sample_text_def [symmetric]) (simp add: sample_text)
  show "cr_open first_client"
    using common_distinct
    by (simp add: cr_open_def first_client_def stays_open_def wants_keepalive_def content_length_of_def to_size_def)
  show "cr_ok sv last_client"
    by (simp add: cr_ok_def last_client_def cr_text_def head_ok_def eol_ok_def head_words_ok_def header_fields_ok_def
        content_lengths_ok_def version_ok_def head_text_def uri_def)
  show "\<not> cr_open last_client" by (simp add: cr_open_def last_client_def stays_open_def)
qed

lemma worker_answers_in_order_witness:
  "\<exists>sv :: (int, int) server. \<exists>ln sn dn cn. \<forall>run. \<exists>req' n'.
    serve_connection 2 run sv cflare_request_new sample_socket
      (sample_net (sent_by [first_client, last_client]) (replicate 10000 (Accepts 9))) = Inr (req', n') \<and>
    net_sent n' = unhandled_text sv ln sn dn cn True @ unhandled_text sv ln sn dn cn False \<and> net_closed n' = [3]"
proof -
  obtain sv :: "(int, int) server" where sv: "server_ok sv" "sc_inv (sv_statuses sv)" "sv_hooks sv = no_hooks"
    "sv_date sv = []" "reason_of (sv_statuses sv) 500 = Some ''Error''" using server_exists by blast
  from idle_exists [OF sv] obtain ln sn dn cn where idle: "idle_server sv ln sn dn cn" .
  note c = clients_ok [OF sv(1)]
  let ?n = "sample_net (sent_by ([first_client] @ [last_client])) (replicate 10000 (Accepts 9))"
  have first: "\<forall>r \<in> set [first_client]. cr_ok sv r \<and> cr_open r" using c(1,2) by simp
  have "0 \<le> sk_fd sample_socket" by (simp add: sample_socket_def)
  moreover have "net_incoming ?n = sent_by ([first_client] @ [last_client])" by (simp add: sample_net_def)
  moreover have "accepting ?n (5000 * length ([first_client] @ [last_client]))"
    by (simp add: accepting_def sample_net_def)
  moreover have "length ([first_client] @ [last_client]) \<le> 2" by simp
  ultimately have served: "\<exists>req' n'. serve_connection 2 run sv cflare_request_new sample_socket ?n = Inr (req', n') \<and>
      request_ok req' \<and> net_sent n' = net_sent ?n @ answers sv ln sn dn cn ([first_client] @ [last_client]) \<and>
      net_incoming n' = [] \<and> net_closed n' = net_closed ?n @ [sk_fd sample_socket]" for run
    by (rule worker_answers_in_order [OF idle first c(3,4) new_request_ok sample_socket])
  have "\<exists>req' n'. serve_connection 2 run sv cflare_request_new sample_socket ?n = Inr (req', n') \<and>
      net_sent n' = unhandled_text sv ln sn dn cn True @ unhandled_text sv ln sn dn cn False \<and> net_closed n' = [3]" for run
    using served [of run] c(2,4) by (auto simp: answers_def sample_net_def sample_socket_def)
  then show ?thesis
    by (intro exI [of _ sv] exI [of _ ln] exI [of _ sn] exI [of _ dn] exI [of _ cn] allI) simp
qed

end
