(* ===== verification/Listener.thy ===== *)
theory Listener
  imports Socket Float64
begin

text \<open>
  Listening, accepting and connecting, and the time-outs and options of descriptors: the rest of
  \<open>src/cflare-posix/socket.c\<close>.

  What the operating system answers is an argument of every call: \<open>getaddrinfo\<close> gives an error or a
  list of addresses, each with what \<open>socket\<close> and \<open>bind\<close> will say for it; \<open>getnameinfo\<close> is a function of
  the address. What the code does to the system is recorded as events in order: the descriptors
  opened and closed, the socket options set, the lists of addresses freed. \<open>'a\<close> is the type of a socket
  address, which the code only passes on.
\<close>

section \<open>The operating system\<close>

datatype gai_error =
    EAI_ADDRFAMILY | EAI_AGAIN | EAI_BADFLAGS | EAI_FAIL | EAI_NONAME | EAI_FAMILY | EAI_MEMORY | EAI_NODATA
  | EAI_SERVICE | EAI_SOCKTYPE | EAI_SYSTEM | EAI_other int

datatype sock_event =
    Getaddrinfo "string option" string
  | Opened int
  | Setsockopt int string
  | Closed_fd int
  | Freeaddrinfo

text \<open>An entry of the list that \<open>getaddrinfo\<close> gives; a failed \<open>socket\<close> answers a negative number.\<close>

record 'a addrinfo =
  ai_addr :: 'a
  ai_socket :: int
  ai_bind :: "errno option"

text \<open>
  Where \<open>getaddrinfo\<close> fails, the list is what it has left in its result. \<open>os_errno\<close> is \<open>errno\<close>
  as the system sets it before an error is looked at.
\<close>

record 'a os =
  os_getaddrinfo :: "gai_error option \<times> 'a addrinfo list"
  os_getnameinfo :: "'a \<Rightarrow> gai_error + string \<times> string"
  os_listen :: "int \<Rightarrow> errno option"
  os_connect :: "'a \<Rightarrow> 64 word \<Rightarrow> errno option"
  os_accept :: "errno + int \<times> 'a"
  os_is_sock :: "int \<Rightarrow> bool"
  os_errno :: errno

text \<open>Outcome of a call: the object, or \<open>None\<close> for a null pointer; \<open>errno\<close>; and the events.\<close>

type_synonym 'r sock_result = "('r option \<times> errno \<times> sock_event list) res"

section \<open>Operations\<close>

record cflare_listener =
  li_fd :: int
  li_listening :: bool
  li_addr :: string
  li_port :: "16 word"

definition CFLARE_SOCKET_OPT_REUSEADDR :: "64 word" where
  "CFLARE_SOCKET_OPT_REUSEADDR = push_bit 0 1"

definition CFLARE_SOCKET_OPT_REUSEPORT :: "64 word" where
  "CFLARE_SOCKET_OPT_REUSEPORT = push_bit 1 1"

fun gaierr_to_errno :: "errno \<Rightarrow> gai_error \<Rightarrow> errno" where
  "gaierr_to_errno e EAI_ADDRFAMILY = EHOSTUNREACH"
| "gaierr_to_errno e EAI_AGAIN = EAGAIN"
| "gaierr_to_errno e EAI_BADFLAGS = EIO"
| "gaierr_to_errno e EAI_FAIL = ENXIO"
| "gaierr_to_errno e EAI_NONAME = ENXIO"
| "gaierr_to_errno e EAI_FAMILY = EAFNOSUPPORT"
| "gaierr_to_errno e EAI_MEMORY = ENOMEM"
| "gaierr_to_errno e EAI_NODATA = ENODATA"
| "gaierr_to_errno e EAI_SERVICE = EPROTONOSUPPORT"
| "gaierr_to_errno e EAI_SOCKTYPE = ESOCKTNOSUPPORT"
| "gaierr_to_errno e EAI_SYSTEM = e"
| "gaierr_to_errno e (EAI_other _) = Errno 0"

text \<open>\<open>sscanf(s, "%d", &i)\<close>: \<open>None\<close> where nothing is converted; a value that does not fit is undefined.\<close>

fun digits_value :: "nat \<Rightarrow> string \<Rightarrow> nat" where
  "digits_value n [] = n"
| "digits_value n (c # cs) = (if isdigit c then digits_value (n * 10 + (of_char c - 48)) cs else n)"

definition sscanf_d :: "string \<Rightarrow> int option res" where
  "sscanf_d s =
     (let t = dropWhile isspace s;
          neg = (case t of c # _ \<Rightarrow> c = CHR ''-'' | [] \<Rightarrow> False);
          u = (case t of c # cs \<Rightarrow> if c = CHR ''-'' \<or> c = CHR ''+'' then cs else t | [] \<Rightarrow> []);
          v = (if neg then - int (digits_value 0 u) else int (digits_value 0 u))
      in if u = [] \<or> \<not> isdigit (u ! 0) then Inr None
         else if v < - (2 ^ 31) \<or> 2 ^ 31 \<le> v then Inl Int_overflow else Inr (Some v))"

text \<open>
  The loop of \<open>cflare_socket_listen\<close> over the addresses: the first that can be bound is kept with its
  descriptor, every descriptor opened before it is closed.
\<close>

definition set_options :: "64 word \<Rightarrow> int \<Rightarrow> sock_event list" where
  "set_options opts fd =
     (if opts AND CFLARE_SOCKET_OPT_REUSEADDR \<noteq> 0 then [Setsockopt fd ''SO_REUSEADDR''] else []) @
     (if opts AND CFLARE_SOCKET_OPT_REUSEPORT \<noteq> 0 then [Setsockopt fd ''SO_REUSEPORT''] else [])"

fun bind_first :: "64 word \<Rightarrow> 'a addrinfo list \<Rightarrow> (int \<times> 'a) option \<times> sock_event list" where
  "bind_first opts [] = (None, [])"
| "bind_first opts (info # infos) =
     (let fd = ai_socket info in
      if fd < 0 then bind_first opts infos
      else let evs = Opened fd # set_options opts fd in
        if ai_bind info \<noteq> None
        then (case bind_first opts infos of (r, evs') \<Rightarrow> (r, evs @ Closed_fd fd # evs'))
        else (Some (fd, ai_addr info), evs))"

definition cflare_socket_listen ::
  "'a os \<Rightarrow> string option \<Rightarrow> 16 word \<Rightarrow> 64 word \<Rightarrow> cflare_listener sock_result" where
  "cflare_socket_listen os address port opts =
     (let address' = (if address = Some ''*'' then None else address);
          look = [Getaddrinfo address' (decimal (unat port))]
      in case os_getaddrinfo os of
          (Some err, resv) \<Rightarrow>
            Inr (None, gaierr_to_errno (os_errno os) err, look @ (if resv \<noteq> [] then [Freeaddrinfo] else []))
        | (None, resv) \<Rightarrow>
            (case bind_first opts resv of
                (None, evs) \<Rightarrow> Inr (None, EHOSTUNREACH, look @ evs @ [Freeaddrinfo])
              | (Some (fd, addr), evs) \<Rightarrow>
                  (case os_getnameinfo os addr of
                      Inl err \<Rightarrow> Inr (None, gaierr_to_errno (os_errno os) err,
                        look @ evs @ [Freeaddrinfo, Closed_fd fd])
                    | Inr (ip, strport) \<Rightarrow>
                        bindE (sscanf_d strport) (\<lambda>conv.
                          let port' = (case conv of None \<Rightarrow> port | Some iport \<Rightarrow> word_of_int iport);
                              evs1 = look @ evs @ [Freeaddrinfo]
                          in case os_listen os fd of
                              Some e \<Rightarrow> Inr (None, e, evs1 @ [Closed_fd fd])
                            | None \<Rightarrow> Inr (Some \<lparr>li_fd = fd, li_listening = True, li_addr = ip, li_port = port'\<rparr>,
                                os_errno os, evs1)))))"

definition cflare_listener_close :: "cflare_listener \<Rightarrow> cflare_listener \<times> sock_event list" where
  "cflare_listener_close l =
     (if \<not> li_listening l then (l, [])
      else (l\<lparr>li_fd := -1, li_listening := False\<rparr>, [Closed_fd (li_fd l)]))"

definition cflare_listener_delete :: "cflare_listener \<Rightarrow> sock_event list" where
  "cflare_listener_delete l = snd (cflare_listener_close l)"

definition cflare_listener_port :: "cflare_listener \<Rightarrow> 16 word" where
  "cflare_listener_port l = li_port l"

definition cflare_listener_address :: "cflare_listener \<Rightarrow> string" where
  "cflare_listener_address l = li_addr l"

text \<open>Where nothing is converted the port stays 0.\<close>

definition cflare_listener_accept :: "'a os \<Rightarrow> cflare_listener \<Rightarrow> cflare_socket sock_result" where
  "cflare_listener_accept os l =
     (case os_accept os of
         Inl e \<Rightarrow> Inr (None, e, [])
       | Inr (remote_fd, remote_addr) \<Rightarrow>
           (case os_getnameinfo os remote_addr of
               Inl err \<Rightarrow> Inr (None, gaierr_to_errno (os_errno os) err, [Opened remote_fd])
             | Inr (ip, strport) \<Rightarrow>
                 bindE (sscanf_d strport) (\<lambda>conv.
                 let port = (case conv of None \<Rightarrow> 0 | Some p \<Rightarrow> p) in
                 bindE (assertE (0 \<le> port \<and> port \<le> 65535) Assert_failed) (\<lambda>_.
                 bindE (cflare_socket_new (os_is_sock os) remote_fd ip (word_of_int port)) (\<lambda>sock.
                   Inr (Some sock, os_errno os, [Opened remote_fd, Setsockopt remote_fd ''SO_KEEPALIVE'']))))))"

definition cflare_socket_connect ::
  "'a os \<Rightarrow> string option \<Rightarrow> 16 word \<Rightarrow> float64 \<Rightarrow> cflare_socket sock_result" where
  "cflare_socket_connect os host port timeout =
     (let look = [Getaddrinfo host (decimal (unat port))] in
      case os_getaddrinfo os of
          (Some err, resv) \<Rightarrow>
            Inr (None, gaierr_to_errno (os_errno os) err, look @ (if resv \<noteq> [] then [Freeaddrinfo] else []))
        | (None, []) \<Rightarrow> Inl Null_deref
        | (None, info # infos) \<Rightarrow>
            (case os_getnameinfo os (ai_addr info) of
                Inl err \<Rightarrow> Inr (None, gaierr_to_errno (os_errno os) err, look @ [Freeaddrinfo])
              | Inr (ip, _) \<Rightarrow>
                  let fd = ai_socket info in
                  if fd < 0 then Inr (None, os_errno os, look @ [Freeaddrinfo])
                  else bindE (float_to_uint64 (float_times timeout 1000)) (\<lambda>to. case os_connect os (ai_addr info) to of
                      Some e \<Rightarrow> Inr (None, if e = EINPROGRESS then ETIMEDOUT else e,
                        look @ [Opened fd, Freeaddrinfo, Closed_fd fd])
                    | None \<Rightarrow>
                        bindE (cflare_socket_new (os_is_sock os) fd ip port) (\<lambda>sock.
                          Inr (Some sock, os_errno os,
                            look @ [Opened fd, Freeaddrinfo, Setsockopt fd ''SO_KEEPALIVE''])))))"

text \<open>Time-outs and options of an open descriptor: what \<open>fcntl\<close> and \<open>setsockopt\<close> are called with.\<close>

datatype sockopt_call =
    Fcntl_setfl int "32 word" | Rcvtimeo int int int | Sndtimeo int int int | Tcp_nodelay int int

text \<open>\<open>getfl\<close> is the answer of \<open>F_GETFL\<close> and \<open>nonblock\<close> the value of \<open>O_NONBLOCK\<close>.\<close>

definition set_blocking ::
  "(int \<Rightarrow> 32 word option) \<Rightarrow> (int \<Rightarrow> bool) \<Rightarrow> 32 word \<Rightarrow> int \<Rightarrow> bool \<Rightarrow> sockopt_call list res" where
  "set_blocking getfl setfl_ok nonblock fd block =
     bindE (derefE (getfl fd) Assert_failed) (\<lambda>flags.
       let newflags = (if block then flags AND NOT nonblock else flags OR nonblock) in
       if newflags \<noteq> flags
       then bindE (assertE (setfl_ok fd) Assert_failed) (\<lambda>_. Inr [Fcntl_setfl fd newflags])
       else Inr [])"

definition set_socket_timeout ::
  "(int \<Rightarrow> 32 word option) \<Rightarrow> (int \<Rightarrow> bool) \<Rightarrow> 32 word \<Rightarrow> int \<Rightarrow> float64 \<Rightarrow> sockopt_call list res" where
  "set_socket_timeout getfl setfl_ok nonblock fd timeout =
     bindE (set_blocking getfl setfl_ok nonblock fd (\<not> float_zero timeout)) (\<lambda>calls.
     bindE (if float_positive timeout
            then bindE (float_to_long timeout) (\<lambda>sec.
                 bindE (float_to_long (float_times (float_times (float_fraction timeout) 1000) 1000)) (\<lambda>usec.
                   Inr (sec, usec)))
            else Inr (0, 0)) (\<lambda>(sec, usec).
       Inr (calls @ [Rcvtimeo fd sec usec, Sndtimeo fd sec usec])))"

definition cflare_listener_timeout ::
  "(int \<Rightarrow> 32 word option) \<Rightarrow> (int \<Rightarrow> bool) \<Rightarrow> 32 word \<Rightarrow> cflare_listener \<Rightarrow> float64 \<Rightarrow> sockopt_call list res" where
  "cflare_listener_timeout getfl setfl_ok nonblock l timeout = set_socket_timeout getfl setfl_ok nonblock (li_fd l) timeout"

definition cflare_socket_timeout :: "cflare_socket \<Rightarrow> float64 \<Rightarrow> cflare_socket res" where
  "cflare_socket_timeout sk timeout =
     (if float_minus_one timeout then Inr (sk\<lparr>sk_timeout := - 1\<rparr>)
      else if float_zero timeout then Inr (sk\<lparr>sk_timeout := 0\<rparr>)
      else bindE (float_to_uint64 (float_times timeout 1000)) (\<lambda>to. Inr (sk\<lparr>sk_timeout := to\<rparr>)))"

definition cflare_socket_flush :: "cflare_socket \<Rightarrow> sockopt_call list" where
  "cflare_socket_flush sk = [Tcp_nodelay (sk_fd sk) 1, Tcp_nodelay (sk_fd sk) 0]"

text \<open>The result has what lthread answers, and what it was asked: the descriptor and the milliseconds.\<close>

definition cflare_socket_wait_write :: "cflare_socket \<Rightarrow> float64 \<Rightarrow> net \<Rightarrow> (net \<times> int \<times> int \<times> 64 word) res" where
  "cflare_socket_wait_write sk timeout n =
     bindE (wait_timeout timeout) (\<lambda>to.
     bindE (lthread_wait_write n) (\<lambda>(n', answer). Inr (n', answer, sk_fd sk, to)))"

text \<open>Waiting for something to read waits until the socket can be written.\<close>

definition cflare_socket_wait_read :: "cflare_socket \<Rightarrow> float64 \<Rightarrow> net \<Rightarrow> (net \<times> int \<times> int \<times> 64 word) res" where
  "cflare_socket_wait_read sk timeout n =
     bindE (wait_timeout timeout) (\<lambda>to.
     bindE (lthread_wait_write n) (\<lambda>(n', answer). Inr (n', answer, sk_fd sk, to)))"

section \<open>What stays open\<close>

text \<open>The descriptors open after a sequence of events, as a list, and the lists of addresses not yet freed.\<close>

fun open_after :: "int list \<Rightarrow> sock_event list \<Rightarrow> int list" where
  "open_after fds [] = fds"
| "open_after fds (Opened fd # evs) = open_after (fd # fds) evs"
| "open_after fds (Closed_fd fd # evs) = open_after (remove1 fd fds) evs"
| "open_after fds (e # evs) = open_after fds evs"

definition frees :: "sock_event list \<Rightarrow> nat" where
  "frees evs = length (filter (\<lambda>e. e = Freeaddrinfo) evs)"

lemma open_after_append: "open_after fds (evs @ evs') = open_after (open_after fds evs) evs'"
  by (induction fds evs rule: open_after.induct) simp_all

lemma set_options_open [simp]: "open_after fds (set_options opts fd) = fds" "frees (set_options opts fd) = 0"
  by (simp_all add: set_options_def frees_def)

lemma frees_simps [simp]:
  "frees [] = 0" "frees (e # evs) = (if e = Freeaddrinfo then 1 else 0) + frees evs"
  "frees (evs @ evs') = frees evs + frees evs'"
  by (simp_all add: frees_def)

lemma bind_first_open:
  "bind_first opts infos = (r, evs) \<Longrightarrow> frees evs = 0 \<and>
     open_after fds evs = (case r of None \<Rightarrow> fds | Some (fd, addr) \<Rightarrow> fd # fds)"
  by (induction opts infos arbitrary: r evs fds rule: bind_first.induct)
    (auto simp: Let_def open_after_append split: prod.splits if_splits)

text \<open>Which address is taken: the first for which a socket can be opened and bound.\<close>

definition bindable :: "'a addrinfo \<Rightarrow> bool" where
  "bindable info \<longleftrightarrow> 0 \<le> ai_socket info \<and> ai_bind info = None"

lemma bind_first_find:
  "fst (bind_first opts infos) = map_option (\<lambda>info. (ai_socket info, ai_addr info)) (List.find bindable infos)"
  by (induction opts infos rule: bind_first.induct) (auto simp: Let_def bindable_def split: prod.splits)

section \<open>Port numbers\<close>

lemma of_digit_char: "d < 10 \<Longrightarrow> (of_char (digit_char d) :: nat) = 48 + d"
  by (simp add: digit_char_def)

lemma isdigit_digit_char: "d < 10 \<Longrightarrow> isdigit (digit_char d)"
  by (simp add: isdigit_def of_digit_char)

lemma digits_value_append:
  "\<forall>c \<in> set s. isdigit c \<Longrightarrow> digits_value n (s @ t) = digits_value (digits_value n s) t"
  by (induction s arbitrary: n) simp_all

lemma decimal_isdigit: "\<forall>c \<in> set (decimal n). isdigit c"
proof (induction n rule: decimal.induct)
  case (1 n)
  then show ?case by (subst decimal.simps) (auto simp: isdigit_digit_char)
qed

lemma digits_value_decimal: "digits_value 0 (decimal n) = n"
proof (induction n rule: decimal.induct)
  case (1 n)
  then show ?case
    by (subst decimal.simps) (simp add: digits_value_append decimal_isdigit isdigit_digit_char of_digit_char)
qed

lemma decimal_not_empty: "decimal n \<noteq> []"
  by (subst decimal.simps) simp

lemma digit_not_special: "isdigit c \<Longrightarrow> \<not> isspace c \<and> c \<noteq> CHR ''-'' \<and> c \<noteq> CHR ''+''"
  by (auto simp: isdigit_def isspace_def)

lemma sscanf_decimal:
  assumes "n < 2 ^ 31"
  shows "sscanf_d (decimal n) = Inr (Some (int n))"
proof -
  obtain c cs where d: "decimal n = c # cs" using decimal_not_empty by (cases "decimal n") auto
  then have "isdigit c" using decimal_isdigit [of n] by simp
  with digit_not_special [OF this] digits_value_decimal [of n] assms d show ?thesis
    by (simp add: sscanf_d_def Let_def)
qed

section \<open>Properties\<close>

lemma connect_closes:
  assumes "cflare_socket_connect os host port timeout = Inr (sk, e, evs)" and "os_getaddrinfo os = (err, resv)"
  shows "open_after [] evs = (case sk of None \<Rightarrow> [] | Some sk \<Rightarrow> [sk_fd sk]) \<and>
    frees evs = (if err = None \<or> resv \<noteq> [] then 1 else 0)"
proof (cases err)
  case (Some a)
  with assms show ?thesis by (auto simp: cflare_socket_connect_def Let_def)
next
  case None
  with assms obtain info infos where r: "resv = info # infos" by (cases resv) (auto simp: cflare_socket_connect_def Let_def)
  show ?thesis
  proof (cases "os_getnameinfo os (ai_addr info)")
    case (Inl a)
    with assms None r show ?thesis by (auto simp: cflare_socket_connect_def Let_def)
  next
    case (Inr names)
    obtain ip p where "names = (ip, p)" by fastforce
    with assms None r Inr show ?thesis
      by (cases "ai_socket info < 0"; cases "float_to_uint64 (float_times timeout 1000)")
        (auto simp: cflare_socket_connect_def Let_def cflare_socket_new_def split: option.splits)
  qed
qed

text \<open>
  C23: listening and connecting leave nothing behind. Whatever the system answers at each step, every
  descriptor opened is either the one of the object that is returned or closed again, and a list of
  addresses is freed exactly once, when there is one; deleting a listener closes its descriptor, once, also
  after it has been closed.
\<close>

theorem sockets_no_descriptor_leak:
  assumes "cflare_socket_listen os address port opts = Inr (l, e, evs)"
    and "cflare_socket_connect os host port' timeout = Inr (sk, e', evs')"
  shows "open_after [] evs = (case l of None \<Rightarrow> [] | Some l \<Rightarrow> [li_fd l]) \<and>
    open_after [] evs' = (case sk of None \<Rightarrow> [] | Some sk \<Rightarrow> [sk_fd sk]) \<and>
    frees evs = (if fst (os_getaddrinfo os) = None \<or> snd (os_getaddrinfo os) \<noteq> [] then 1 else 0) \<and>
    frees evs' = frees evs \<and>
    (case l of None \<Rightarrow> True | Some l \<Rightarrow> open_after [] (evs @ cflare_listener_delete l) = [] \<and>
       cflare_listener_delete (fst (cflare_listener_close l)) = [])"
proof -
  obtain err resv where g: "os_getaddrinfo os = (err, resv)" by fastforce
  have l: "open_after [] evs = (case l of None \<Rightarrow> [] | Some l \<Rightarrow> [li_fd l]) \<and>
    frees evs = (if err = None \<or> resv \<noteq> [] then 1 else 0) \<and> (\<forall>l'. l = Some l' \<longrightarrow> li_listening l')"
  proof (cases err)
    case None
    obtain r bevs where b: "bind_first opts resv = (r, bevs)" by fastforce
    with bind_first_open [OF b, of "[]"] assms(1) show ?thesis
      by (auto simp: cflare_socket_listen_def Let_def g None open_after_append
          split: option.splits prod.splits sum.splits)
  next
    case (Some a)
    with assms(1) show ?thesis
      by (auto simp: cflare_socket_listen_def Let_def g)
  qed
  moreover have "open_after [] evs' = (case sk of None \<Rightarrow> [] | Some sk \<Rightarrow> [sk_fd sk]) \<and>
    frees evs' = (if err = None \<or> resv \<noteq> [] then 1 else 0)"
    by (rule connect_closes [OF assms(2) g])
  ultimately show ?thesis
    by (auto simp: g open_after_append cflare_listener_delete_def cflare_listener_close_def split: option.splits)
qed

definition sample_os :: "nat os" where
  "sample_os = \<lparr>os_getaddrinfo = (None,
       [\<lparr>ai_addr = 1, ai_socket = -1, ai_bind = None\<rparr>, \<lparr>ai_addr = 2, ai_socket = 5, ai_bind = Some (Errno 98)\<rparr>,
        \<lparr>ai_addr = 3, ai_socket = 5, ai_bind = None\<rparr>]),
     os_getnameinfo = (\<lambda>a. Inr (''::1'', decimal 80)), os_listen = (\<lambda>_. None), os_connect = (\<lambda>_ _. Some EINPROGRESS),
     os_accept = Inr (6, 4), os_is_sock = (\<lambda>_. True), os_errno = Errno 0\<rparr>"

lemma sample_listen:
  "cflare_socket_listen sample_os (Some ''*'') 80 1 =
     Inr (Some \<lparr>li_fd = 5, li_listening = True, li_addr = ''::1'', li_port = 80\<rparr>, Errno 0,
       [Getaddrinfo None (decimal 80), Opened 5, Setsockopt 5 ''SO_REUSEADDR'', Closed_fd 5,
        Opened 5, Setsockopt 5 ''SO_REUSEADDR'', Freeaddrinfo])"
  "cflare_socket_connect sample_os None 80 (Finite False 1 0) = Inr (None, Errno 0, [Getaddrinfo None (decimal 80), Freeaddrinfo])"
  by (simp_all add: cflare_socket_listen_def cflare_socket_connect_def sample_os_def set_options_def
      CFLARE_SOCKET_OPT_REUSEADDR_def CFLARE_SOCKET_OPT_REUSEPORT_def sscanf_decimal Let_def)

lemma sockets_no_descriptor_leak_witness:
  "\<exists>l e evs. cflare_socket_listen sample_os (Some ''*'') 80 1 = Inr (Some l, e, evs) \<and>
     open_after [] evs = [5] \<and> frees evs = 1 \<and> open_after [] (evs @ cflare_listener_delete l) = []"
  using sockets_no_descriptor_leak [OF sample_listen] sample_listen(1) by auto



text \<open>
  accepting a connection gives a socket with the descriptor, the address and the port of the peer. When the
  name of the peer cannot be found the answer is a null pointer, and the descriptor of the connection stays open for ever.
\<close>

theorem accept_outcome:
  assumes "os_accept os = Inr (fd, addr)" and "0 \<le> fd" and "os_is_sock os fd"
    and "os_getnameinfo os addr = Inl err \<or> os_getnameinfo os addr = Inr (ip, decimal p) \<and> p < 65536"
  shows "\<exists>r e evs. cflare_listener_accept os l = Inr (r, e, evs) \<and> open_after [] evs = [fd] \<and>
    (case os_getnameinfo os addr of
       Inl err \<Rightarrow> r = None \<and> e = gaierr_to_errno (os_errno os) err
     | Inr _ \<Rightarrow> \<exists>sk. r = Some sk \<and> sk_fd sk = fd \<and> sk_connected sk \<and> sk_ip sk = ip \<and>
         unat (sk_port sk) = p)"
  using assms(4)
proof
  assume "os_getnameinfo os addr = Inl err"
  with assms(1) show ?thesis by (simp add: cflare_listener_accept_def)
next
  assume n: "os_getnameinfo os addr = Inr (ip, decimal p) \<and> p < 65536"
  then have "sscanf_d (decimal p) = Inr (Some (int p))" by (intro sscanf_decimal) simp
  moreover have "unat (word_of_nat p :: 16 word) = p" using n by (simp add: unat_of_nat)
  ultimately show ?thesis
    using assms(1-3) n by (simp add: cflare_listener_accept_def cflare_socket_new_def assertE_def)
qed

lemma accept_outcome_witness:
  "\<forall>l. \<exists>evs. cflare_listener_accept (sample_os\<lparr>os_getnameinfo := \<lambda>_. Inl EAI_AGAIN\<rparr>) l = Inr (None, EAGAIN, evs) \<and>
     open_after [] evs = [6]"
  using accept_outcome [of "sample_os\<lparr>os_getnameinfo := \<lambda>_. Inl EAI_AGAIN\<rparr>" 6 4 EAI_AGAIN "[]" 0]
  by (simp add: sample_os_def)

text \<open>
  A listener asked for any port keeps the port 0: the name that is looked up is that of the address
  asked for, not the one the system has bound.
\<close>

lemma port_any_stays_zero:
  assumes "\<forall>a. os_getnameinfo os a = Inr (ip a, decimal 0)"
    and "cflare_socket_listen os address 0 opts = Inr (Some l, e, evs)"
  shows "cflare_listener_port l = 0"
proof -
  have "\<forall>a. os_getnameinfo os a = Inr (ip a, decimal ((\<lambda>_. 0) a)) \<and> (0 :: nat) < 65536" using assms(1) by simp
  then have conv: "sscanf_d (decimal 0) = Inr (Some 0)" using sscanf_decimal [of 0] by simp
  with assms show ?thesis
    by (auto simp: cflare_socket_listen_def Let_def cflare_listener_port_def split: prod.splits option.splits)
qed

section \<open>Time-outs\<close>

lemma float_to_uint64_fraction:
  "x < 2 ^ 64 * 2 ^ k \<Longrightarrow> float_to_uint64 (Finite False x (- int k)) = Inr (word_of_nat (x div 2 ^ k))"
proof -
  assume "x < 2 ^ 64 * 2 ^ k"
  then have "x div 2 ^ k < 2 ^ 64" by (rule less_mult_imp_div_less)
  then have "int (x div 2 ^ k) < 2 ^ 64" using of_nat_less_iff [of "x div 2 ^ k" "2 ^ 64", where ?'a = int] by simp
  moreover have "float_trunc (Finite False x (- int k)) = Some (int (x div 2 ^ k))"
    by (cases k) (simp_all add: float_trunc_def zdiv_int nat_add_distrib)
  ultimately show ?thesis by (simp add: float_to_uint64_def)
qed

lemma wait_timeout_between:
  assumes "0 < m" and "1000 * m < 2 ^ 53 * 2 ^ k"
  shows "\<exists>ms. wait_timeout (Finite False m (- int k)) = Inr (word_of_nat ms) \<and> 1000 * m div 2 ^ k \<le> ms \<and> ms < 2 ^ 64 \<and>
    (\<forall>n < 2 ^ 53. 1000 * m \<le> n * 2 ^ k \<longrightarrow> ms \<le> n) \<and> (2000 * m \<le> 2 ^ k \<longrightarrow> ms = 0)"
proof (intro exI [of _ "round53 (1000 * m) div 2 ^ k"] conjI)
  let ?x = "1000 * m"
  note b = round53_div_between [OF assms(2)]
  have "2 ^ 53 * 2 ^ k = round53 (2 ^ 53 * 2 ^ k)" using round53_shift [of 1 "53 + k"] by (simp add: power_add)
  then have "round53 ?x \<le> 2 ^ 53 * 2 ^ k" using round53_mono [of ?x "2 ^ 53 * 2 ^ k"] assms(2) by simp
  then have lt: "round53 ?x < 2 ^ 64 * 2 ^ k" by (rule le_less_trans) simp
  then show "wait_timeout (Finite False m (- int k)) = Inr (word_of_nat (round53 ?x div 2 ^ k))"
    using float_to_uint64_fraction [OF lt] assms(1)
    by (simp add: wait_timeout_def float_negative_def float_zero_def float_times_def mult.commute)
  show "?x div 2 ^ k \<le> round53 ?x div 2 ^ k" by (rule b(1))
  show "round53 ?x div 2 ^ k < 2 ^ 64" using lt by (rule less_mult_imp_div_less)
  show "\<forall>n < 2 ^ 53. ?x \<le> n * 2 ^ k \<longrightarrow> round53 ?x div 2 ^ k \<le> n" using b(2) by blast
  show "2000 * m \<le> 2 ^ k \<longrightarrow> round53 ?x div 2 ^ k = 0"
  proof
    assume "2000 * m \<le> 2 ^ k"
    moreover from this assms(1) obtain j where j: "k = Suc j" by (cases k) auto
    ultimately have "?x \<le> 1 * 2 ^ j" by simp
    then have "round53 ?x \<le> 2 ^ j" using round53_mono [of ?x "1 * 2 ^ j"] round53_shift [of 1 j] by simp
    also have "(2 :: nat) ^ j < 2 ^ k" by (simp add: j)
    finally show "round53 ?x div 2 ^ k = 0" by simp
  qed
qed

text \<open>
  C39: the milliseconds a wait hands to lthread. A positive time-out of m / 2 ^ k seconds becomes a whole number of
  milliseconds between the next one below and the next one above; zero becomes one millisecond. A negative one becomes 0, with
  which lthread waits for ever, and so does every time-out of half a millisecond or less. Whether the wait is for reading
  or for writing makes no difference at all.
\<close>

theorem wait_milliseconds:
  assumes "0 < m" and "1000 * m < 2 ^ 53 * 2 ^ k" and "lthread_wait_write n = Inr (n', answer)"
  shows "(\<exists>ms. cflare_socket_wait_write sk (Finite False m (- int k)) n = Inr (n', answer, sk_fd sk, word_of_nat ms) \<and>
      1000 * m div 2 ^ k \<le> ms \<and> ms < 2 ^ 64 \<and> (\<forall>above < 2 ^ 53. 1000 * m \<le> above * 2 ^ k \<longrightarrow> ms \<le> above) \<and>
      (2000 * m \<le> 2 ^ k \<longrightarrow> ms = 0)) \<and>
    cflare_socket_wait_write sk (Finite s 0 e) n = Inr (n', answer, sk_fd sk, 1) \<and>
    cflare_socket_wait_write sk (Finite True m e) n = Inr (n', answer, sk_fd sk, 0) \<and>
    cflare_socket_wait_read sk timeout n = cflare_socket_wait_write sk timeout n"
proof (intro conjI)
  show "\<exists>ms. cflare_socket_wait_write sk (Finite False m (- int k)) n = Inr (n', answer, sk_fd sk, word_of_nat ms) \<and>
      1000 * m div 2 ^ k \<le> ms \<and> ms < 2 ^ 64 \<and> (\<forall>above < 2 ^ 53. 1000 * m \<le> above * 2 ^ k \<longrightarrow> ms \<le> above) \<and>
      (2000 * m \<le> 2 ^ k \<longrightarrow> ms = 0)"
    using wait_timeout_between [OF assms(1,2)] assms(3) by (auto simp: cflare_socket_wait_write_def)
qed (use assms in \<open>simp_all add: cflare_socket_wait_write_def cflare_socket_wait_read_def wait_timeout_def
    float_negative_def float_zero_def\<close>)

text \<open>A quarter of a second, and a quarter of a millisecond or so (2 ^ -12 seconds).\<close>

lemma wait_milliseconds_witness:
  "\<exists>n'. cflare_socket_wait_read sample_socket (Finite False 1 (-2)) (sample_net [] []) = Inr (n', 0, 3, 250) \<and>
     cflare_socket_wait_write sample_socket (Finite False 1 (-12)) (sample_net [] []) = Inr (n', 0, 3, 0)"
proof -
  have w: "lthread_wait_write (sample_net [] []) = Inr (sample_net [] []\<lparr>net_waits := []\<rparr>, 0)"
    by (simp add: lthread_wait_write_def sample_net_def)
  have "\<exists>ms. cflare_socket_wait_read sample_socket (Finite False 1 (-2)) (sample_net [] []) =
      Inr (sample_net [] []\<lparr>net_waits := []\<rparr>, 0, 3, word_of_nat ms) \<and> 250 \<le> ms \<and> (\<forall>above < 2 ^ 53. 1000 \<le> above * 2 ^ 2 \<longrightarrow> ms \<le> above)"
    using wait_milliseconds [of 1 2, OF _ _ w, of sample_socket False 0 "Finite False 1 (-2)"]
    by (auto simp: sample_socket_def)
  then have "cflare_socket_wait_read sample_socket (Finite False 1 (-2)) (sample_net [] []) =
      Inr (sample_net [] []\<lparr>net_waits := []\<rparr>, 0, 3, 250)"
    by (auto dest!: spec [of _ 250])
  moreover have "cflare_socket_wait_write sample_socket (Finite False 1 (-12)) (sample_net [] []) =
      Inr (sample_net [] []\<lparr>net_waits := []\<rparr>, 0, 3, 0)"
    using wait_milliseconds [of 1 12, OF _ _ w, of sample_socket False 0 Not_a_number] by (auto simp: sample_socket_def)
  ultimately show ?thesis by blast
qed

text \<open>
  Connecting with the time-out that stands for waiting for ever, -1, converts -1000 to an unsigned number, which is undefined.
\<close>

lemma connect_forever_undefined:
  assumes "os_getaddrinfo os = (None, info # infos)" and "os_getnameinfo os (ai_addr info) = Inr (ip, strport)"
    and "0 \<le> ai_socket info"
  shows "cflare_socket_connect os host port (Finite True 1 0) = Inl Int_overflow"
  using assms by (simp add: cflare_socket_connect_def float_times_def float_to_uint64_def float_trunc_def Let_def)

text \<open>The time-out of a listener is a valid time: its microseconds are below a million.\<close>

lemma set_socket_timeout_valid:
  assumes "set_socket_timeout getfl setfl_ok nonblock fd (Finite s m e) = Inr calls" and "m < 2 ^ 53"
    and "Rcvtimeo fd sec usec \<in> set calls"
  shows "0 \<le> sec \<and> 0 \<le> usec \<and> usec < 10 ^ 6"
proof -
  have "0 \<le> usec \<and> usec < 10 ^ 6"
    if "float_to_long (float_times (float_times (float_fraction (Finite False m e)) 1000) 1000) = Inr usec"
    using that fraction_below(1) [OF assms(2), of e] by auto
  moreover have "0 \<le> sec" if "float_to_long (Finite False m e) = Inr sec"
    using that by (auto simp: float_to_long_def float_trunc_def pos_imp_zdiv_nonneg_iff split: if_splits)
  ultimately show ?thesis
    using assms(1,3) by (cases s) (auto simp: set_socket_timeout_def set_blocking_def Let_def float_positive_def
        derefE_def assertE_def split: if_splits option.splits sum.splits)
qed

end
