(* ===== verification/Options.thy ===== *)
theory Options
  imports Hashtable Util
begin

text \<open>
  The command line of \<open>src/cflare/options.c\<close>: \<open>-abc\<close> sets three flags, \<open>--name=value\<close> an option,
  \<open>--\<close> ends the options, and everything else is an argument.

  \<open>argv\<close> is the list of its strings. An option's value is stored as the block of exactly its
  characters, without a terminator, as the hash table copies it; a function that reads the block as a
  null-terminated string therefore runs off its end.
\<close>

section \<open>Loading\<close>

record options_state =
  opt_hashtable :: "string cflare_hashtable"
  env_hashtable :: "string cflare_hashtable"
  opt_args :: "string list"
  opt_self :: "string option"

definition put_option ::
  "string cflare_hashtable \<Rightarrow> string \<Rightarrow> string \<Rightarrow> string cflare_hashtable res" where
  "put_option tbl name value =
     bindE (cflare_hashtable_set tbl (cflare_hash_compute name) (Some value)) (\<lambda>(tbl', calls). Inr tbl')"

fun set_flags :: "string cflare_hashtable \<Rightarrow> string \<Rightarrow> string cflare_hashtable res" where
  "set_flags tbl [] = Inr tbl"
| "set_flags tbl (c # cs) = bindE (put_option tbl [c] []) (\<lambda>tbl'. set_flags tbl' cs)"

text \<open>The length of an option's name: up to the first \<open>=\<close> or the end.\<close>

fun name_length :: "string \<Rightarrow> nat" where
  "name_length [] = 0"
| "name_length (c # cs) = (if c = CHR ''='' then 0 else Suc (name_length cs))"

definition set_long :: "string cflare_hashtable \<Rightarrow> string \<Rightarrow> string cflare_hashtable res" where
  "set_long tbl arg =
     (let name_len = name_length arg;
          value = (if length arg = name_len then [] else drop (name_len + 1) arg)
      in put_option tbl (take name_len arg) value)"

fun options_loop ::
  "string list \<Rightarrow> bool \<Rightarrow> string cflare_hashtable \<Rightarrow> string list \<Rightarrow> (string cflare_hashtable \<times> string list) res"
  where
  "options_loop [] parsing_options tbl args = Inr (tbl, args)"
| "options_loop (arg # argv) parsing_options tbl args =
     (if parsing_options \<and> arg \<noteq> [] \<and> hd arg = CHR ''-'' then
        if \<not> (length arg > 1 \<and> arg ! 1 = CHR ''-'') then
          bindE (set_flags tbl (tl arg)) (\<lambda>tbl'. options_loop argv parsing_options tbl' args)
        else if length arg = 2 then options_loop argv False tbl args
        else bindE (set_long tbl (drop 2 arg)) (\<lambda>tbl'. options_loop argv parsing_options tbl' args)
      else options_loop argv parsing_options tbl (args @ [arg]))"

definition cflare_options_load :: "string list \<Rightarrow> options_state res" where
  "cflare_options_load argv =
     bindE (options_loop (tl argv) True cflare_hashtable_new []) (\<lambda>(tbl, args).
       Inr \<lparr>opt_hashtable = tbl, env_hashtable = cflare_hashtable_new, opt_args = args,
            opt_self = (if argv = [] then None else Some (hd argv))\<rparr>)"

definition cflare_options_unload :: "options_state \<Rightarrow> string deleter_call list res" where
  "cflare_options_unload st =
     bindE (cflare_hashtable_delete (opt_hashtable st)) (\<lambda>calls1.
     bindE (cflare_hashtable_delete (env_hashtable st)) (\<lambda>calls2. Inr (calls1 @ calls2)))"

section \<open>Asking\<close>

text \<open>\<open>strcmp(block, lit) == 0\<close>, reading both as null-terminated strings.\<close>

fun strcmp_equal :: "string \<Rightarrow> string \<Rightarrow> bool res" where
  "strcmp_equal [] lit = Inl Out_of_bounds"
| "strcmp_equal (a # A) [] = Inl Out_of_bounds"
| "strcmp_equal (a # A) (b # B) =
     (if a \<noteq> b then Inr False else if a = NUL then Inr True else strcmp_equal A B)"

fun strcmp_any :: "string \<Rightarrow> string list \<Rightarrow> bool res" where
  "strcmp_any block [] = Inr False"
| "strcmp_any block (lit # lits) =
     bindE (strcmp_equal block (lit @ [NUL])) (\<lambda>eq. if eq then Inr True else strcmp_any block lits)"

definition get_option :: "options_state \<Rightarrow> string \<Rightarrow> string option res" where
  "get_option st name = cflare_hashtable_get (opt_hashtable st) (cflare_hash_compute name)"

definition cflare_options_boolean :: "options_state \<Rightarrow> string \<Rightarrow> bool \<Rightarrow> bool res" where
  "cflare_options_boolean st name fallback =
     bindE (get_option st name) (\<lambda>found. case found of
         None \<Rightarrow> Inr fallback
       | Some value \<Rightarrow>
           if length value = 0 then Inr True
           else if length value = 1 then Inr (value ! 0 \<noteq> CHR ''0'')
           else bindE (strcmp_any value [''false'', ''0'', ''no'', ''off'']) (\<lambda>off. Inr (\<not> off)))"

definition cflare_options_integer :: "options_state \<Rightarrow> string \<Rightarrow> int \<Rightarrow> int res" where
  "cflare_options_integer st name fallback =
     bindE (get_option st name) (\<lambda>found. case found of
         None \<Rightarrow> Inr fallback
       | Some value \<Rightarrow> bindE (cflare_tointeger value) (\<lambda>r. Inr (case r of None \<Rightarrow> fallback | Some i \<Rightarrow> i)))"

text \<open>\<open>cflare_tonumber\<close> is not implemented: it aborts.\<close>

definition cflare_tonumber :: "string \<Rightarrow> 'f option res" where
  "cflare_tonumber str = Inl (Fatal ''cflare_tonumber(): not implemented'')"

definition cflare_options_number :: "options_state \<Rightarrow> string \<Rightarrow> 'f \<Rightarrow> 'f res" where
  "cflare_options_number st name fallback =
     bindE (get_option st name) (\<lambda>found. case found of
         None \<Rightarrow> Inr fallback
       | Some value \<Rightarrow> bindE (cflare_tonumber value) (\<lambda>r. Inr (case r of None \<Rightarrow> fallback | Some i \<Rightarrow> i)))"

text \<open>The pointer that \<open>cflare_options_string\<close> returns, as the block it points to.\<close>

definition cflare_options_string :: "options_state \<Rightarrow> string \<Rightarrow> string \<Rightarrow> string res" where
  "cflare_options_string st name fallback =
     bindE (get_option st name) (\<lambda>found. Inr (case found of None \<Rightarrow> fallback | Some value \<Rightarrow> value))"

definition cflare_options_argument_count :: "options_state \<Rightarrow> nat" where
  "cflare_options_argument_count st = length (opt_args st)"

definition cflare_options_executable :: "options_state \<Rightarrow> string option" where
  "cflare_options_executable st = opt_self st"

definition cflare_options_argument :: "options_state \<Rightarrow> nat \<Rightarrow> string option" where
  "cflare_options_argument st position =
     (if position \<ge> length (opt_args st) then None else Some (opt_args st ! position))"

section \<open>What a command line means\<close>

text \<open>
  Declaratively: the words before the first \<open>--\<close> that start with a dash are settings, in order; all
  other words, with what follows the \<open>--\<close>, are the arguments.
\<close>

definition dashed :: "string \<Rightarrow> bool" where
  "dashed w = (take 1 w = ''-'')"

definition word_settings :: "string \<Rightarrow> (string \<times> string) list" where
  "word_settings w =
     (if take 2 w = ''--''
      then [(takeWhile (\<lambda>c. c \<noteq> CHR ''='') (drop 2 w), tl (dropWhile (\<lambda>c. c \<noteq> CHR ''='') (drop 2 w)))]
      else if dashed w then map (\<lambda>c. ([c], [])) (tl w) else [])"

definition settings :: "string list \<Rightarrow> (string \<times> string) list" where
  "settings argv = concat (map word_settings (takeWhile (\<lambda>w. w \<noteq> ''--'') argv))"

definition arguments :: "string list \<Rightarrow> string list" where
  "arguments argv = filter (\<lambda>w. \<not> dashed w) (takeWhile (\<lambda>w. w \<noteq> ''--'') argv) @
     tl (dropWhile (\<lambda>w. w \<noteq> ''--'') argv)"

fun apply_settings :: "(string \<rightharpoonup> string) \<Rightarrow> (string \<times> string) list \<Rightarrow> string \<rightharpoonup> string" where
  "apply_settings m [] = m"
| "apply_settings m ((k, v) # kvs) = apply_settings (m(k \<mapsto> v)) kvs"

definition option_map :: "string cflare_hashtable \<Rightarrow> string \<rightharpoonup> string" where
  "option_map tbl name = ht_map tbl (cflare_hash_compute name)"

lemma apply_settings_append: "apply_settings m (xs @ ys) = apply_settings (apply_settings m xs) ys"
  by (induction m xs rule: apply_settings.induct) (simp_all del: fun_upd_apply)

lemma put_option_ok:
  assumes "ht_ok tbl"
  shows "\<exists>tbl'. put_option tbl name value = Inr tbl' \<and> ht_ok tbl' \<and>
    option_map tbl' = (option_map tbl)(name \<mapsto> value)"
  using ht.put_some [OF assms, of "cflare_hash_compute name" "value"]
  by (auto simp: put_option_def option_map_def fun_eq_iff)

lemma set_flags_ok:
  assumes "ht_ok tbl"
  shows "\<exists>tbl'. set_flags tbl cs = Inr tbl' \<and> ht_ok tbl' \<and>
    option_map tbl' = apply_settings (option_map tbl) (map (\<lambda>c. ([c], [])) cs)"
  using assms
proof (induction cs arbitrary: tbl)
  case (Cons c cs)
  from put_option_ok [OF Cons.prems, of "[c]" "[]"] obtain tbl1 where
    t: "put_option tbl [c] [] = Inr tbl1" "ht_ok tbl1" "option_map tbl1 = (option_map tbl)([c] \<mapsto> [])" by blast
  from Cons.IH [OF t(2)] t(1) show ?case unfolding t(3) by (simp del: fun_upd_apply)
qed simp

lemma name_length_split:
  "take (name_length s) s = takeWhile (\<lambda>c. c \<noteq> CHR ''='') s"
  "(if length s = name_length s then [] else drop (name_length s + 1) s) = tl (dropWhile (\<lambda>c. c \<noteq> CHR ''='') s)"
  by (induction s) auto

lemma set_long_ok:
  assumes "ht_ok tbl"
  shows "\<exists>tbl'. set_long tbl arg = Inr tbl' \<and> ht_ok tbl' \<and>
    option_map tbl' = (option_map tbl)(takeWhile (\<lambda>c. c \<noteq> CHR ''='') arg \<mapsto> tl (dropWhile (\<lambda>c. c \<noteq> CHR ''='') arg))"
  using put_option_ok [OF assms] unfolding set_long_def Let_def name_length_split .

lemma long_dashed: "take 2 w = ''--'' \<Longrightarrow> dashed w"
proof -
  assume "take 2 w = ''--''"
  then have "take 1 (take 2 w) = ''-''" by simp
  then show "dashed w" by (simp add: dashed_def)
qed

lemma options_loop_args: "ht_ok tbl \<Longrightarrow> options_loop argv False tbl args = Inr (tbl, args @ argv)"
  by (induction argv arbitrary: args) simp_all

lemma options_loop_ok:
  assumes "ht_ok tbl"
  shows "\<exists>tbl'. options_loop argv True tbl args = Inr (tbl', args @ arguments argv) \<and> ht_ok tbl' \<and>
    option_map tbl' = apply_settings (option_map tbl) (settings argv)"
  using assms
proof (induction argv arbitrary: tbl args)
  case Nil
  then show ?case by (simp add: arguments_def settings_def)
next
  case (Cons w argv)
  consider (arg) "\<not> dashed w" | (flags) "dashed w" "take 2 w \<noteq> ''--''" | (stop) "w = ''--''"
    | (long) "take 2 w = ''--''" "w \<noteq> ''--''" by blast
  then show ?case
  proof cases
    case arg
    then have "\<not> (w \<noteq> [] \<and> hd w = CHR ''-'')" "take 2 w \<noteq> ''--''"
      using long_dashed [of w] by (auto simp: dashed_def neq_Nil_conv)
    moreover from this have "w \<noteq> ''--''" by auto
    ultimately show ?thesis using arg Cons.IH [OF Cons.prems, of "args @ [w]"]
      by (auto simp: arguments_def settings_def word_settings_def)
  next
    case flags
    then obtain cs where w: "w = CHR ''-'' # cs" by (cases w) (auto simp: dashed_def)
    with flags have "\<not> (length w > 1 \<and> w ! 1 = CHR ''-'')" "w \<noteq> ''--''"
      by (cases cs; auto simp: numeral_2_eq_2)+
    moreover from set_flags_ok [OF Cons.prems, of cs] obtain tbl1 where
      t: "set_flags tbl cs = Inr tbl1" "ht_ok tbl1"
        "option_map tbl1 = apply_settings (option_map tbl) (map (\<lambda>c. ([c], [])) cs)" by blast
    ultimately show ?thesis using Cons.IH [OF t(2), of args] flags w
      by (auto simp: arguments_def settings_def word_settings_def apply_settings_append)
  next
    case stop
    with Cons.prems show ?thesis by (simp add: options_loop_args arguments_def settings_def)
  next
    case long
    then obtain cs where w: "w = ''--'' @ cs" "cs \<noteq> []"
      by (metis append_take_drop_id append_Nil2)
    from set_long_ok [OF Cons.prems, of cs] obtain tbl1 where
      t: "set_long tbl cs = Inr tbl1" "ht_ok tbl1"
        "option_map tbl1 = (option_map tbl)(takeWhile (\<lambda>c. c \<noteq> CHR ''='') cs \<mapsto> tl (dropWhile (\<lambda>c. c \<noteq> CHR ''='') cs))"
      by blast
    then show ?thesis using Cons.IH [OF t(2), of args] w
      by (auto simp: arguments_def settings_def word_settings_def apply_settings_append dashed_def
          simp del: fun_upd_apply)
  qed
qed

section \<open>Properties\<close>

text \<open>
  C30: Loading a command line always returns, and the state means what the command line says: every
  option has the value its last setting gives it, or none, the arguments are the other words in
  order, and an argument beyond the last is the null pointer.
\<close>

theorem options_load_meaning:
  "\<exists>st. cflare_options_load (exe # argv) = Inr st \<and>
    (\<forall>name. get_option st name = Inr (apply_settings Map.empty (settings argv) name)) \<and>
    cflare_options_executable st = Some exe \<and> cflare_options_argument_count st = length (arguments argv) \<and>
    (\<forall>i. cflare_options_argument st i =
       (if i < length (arguments argv) then Some (arguments argv ! i) else None))"
proof -
  have new: "ht_ok (cflare_hashtable_new :: string cflare_hashtable)"
    and empty: "option_map (cflare_hashtable_new :: string cflare_hashtable) = Map.empty"
    by (auto simp: ht_ok_def ht_inv_def buckets_ok_def load_ok_def cflare_hashtable_new_def
        option_map_def ht_map_def entries_map_def)
  from options_loop_ok [OF new, of argv "[]"] empty obtain tbl where
    "options_loop argv True cflare_hashtable_new [] = Inr (tbl, arguments argv)" "ht_ok tbl"
    "option_map tbl = apply_settings Map.empty (settings argv)" by auto
  moreover from this(2) have "cflare_hashtable_get tbl (cflare_hash_compute n) = Inr (option_map tbl n)" for n
    by (simp add: ht.get_view option_map_def)
  ultimately show ?thesis
    by (auto simp: cflare_options_load_def get_option_def cflare_options_executable_def
        cflare_options_argument_count_def cflare_options_argument_def)
qed

text \<open>
  Reading any option that was set to a value without a null character as an integer reads past the
  value, whatever the value is, because it is stored without its terminator.
\<close>

theorem options_integer_overreads:
  assumes "get_option st name = Inr (Some value)" and "NUL \<notin> set value"
  shows "cflare_options_integer st name fallback = Inl Out_of_bounds"
  using assms by (simp add: cflare_options_integer_def cflare_tointeger_def cstr_unterminated)

lemma options_integer_overreads_witness:
  "\<exists>st. cflare_options_load [''main'', ''--port=8080''] = Inr st \<and>
    cflare_options_integer st ''port'' 80 = Inl Out_of_bounds"
proof -
  have s: "apply_settings Map.empty (settings [''--port=8080'']) ''port'' = Some ''8080''"
    by (simp add: settings_def word_settings_def)
  from options_loop_ok [of cflare_hashtable_new "[''--port=8080'']" "[]"] obtain tbl where
    t: "options_loop [''--port=8080''] True cflare_hashtable_new [] = Inr (tbl, arguments [''--port=8080''])"
    "ht_ok tbl" "option_map tbl = apply_settings (option_map cflare_hashtable_new) (settings [''--port=8080''])"
    by (auto simp: ht_ok_def ht_inv_def buckets_ok_def load_ok_def cflare_hashtable_new_def)
  have "option_map tbl ''port'' = Some ''8080''"
    by (simp add: t(3) settings_def word_settings_def)
  then have g: "cflare_hashtable_get tbl (cflare_hash_compute ''port'') = Inr (Some ''8080'')"
    using ht.get_view [OF t(2)] by (simp add: option_map_def)
  let ?st = "\<lparr>opt_hashtable = tbl, env_hashtable = cflare_hashtable_new,
    opt_args = arguments [''--port=8080''], opt_self = Some ''main''\<rparr>"
  have "cflare_options_load [''main'', ''--port=8080''] = Inr ?st"
    using t(1) by (simp add: cflare_options_load_def del: options_loop.simps)
  moreover have "get_option ?st ''port'' = Inr (Some ''8080'')" using g by (simp add: get_option_def)
  with options_integer_overreads [of ?st "''port''" "''8080''" 80]
  have "cflare_options_integer ?st ''port'' 80 = Inl Out_of_bounds" by simp
  ultimately show ?thesis by blast
qed

end
