(* ===== verification/Server.thy ===== *)
theory Server
  imports Worker Listener Options
begin

text \<open>
  The program of \<open>src/main.c\<close> around the connections: what a worker coroutine does from its start to its
  end, what the coroutine that accepts connections does, the handler of signals and the choice \<open>main\<close> makes.

  The two coroutines talk through one message (\<open>msg\<close>) and two conditions of lthread. Each of them is
  modelled by itself: what a wait for a condition answers (0 for a signal, -2 for a timeout) and what the
  message holds then is an argument, and the signals it sends are recorded. The theory \<open>Handover\<close> interleaves
  them.
\<close>

section \<open>A worker\<close>

datatype server_event =
    Signal_read | Signal_write | Broadcast_read | New_worker | Msg_socket "int option" | Sleep_a_while | Free_conditions

text \<open>
  One turn of the worker's loop: what the wait answers, the socket in the message with its network,
  and what \<open>cflare_socket_wait_write\<close> answers for it.
\<close>

record turn =
  tn_why :: int
  tn_socket :: "(cflare_socket \<times> net) option"
  tn_writable :: int

text \<open>
  The result is the request object, the networks of the connections the worker has taken, in order,
  and the signals. A socket that is not writable is abandoned with the worker: it is neither closed nor deleted.
\<close>

fun worker_turns ::
  "nat \<Rightarrow> (addr \<Rightarrow> 'f cflare_hookstack option \<Rightarrow> 'f world \<Rightarrow> ptr \<Rightarrow> 'f world \<times> bool) \<Rightarrow> ('p, 'f) server
   \<Rightarrow> cflare_request \<Rightarrow> turn list \<Rightarrow> (cflare_request \<times> net list \<times> server_event list) res" where
  "worker_turns fuel run sv req [] = Inl Blocked"
| "worker_turns fuel run sv req (tn # tns) =
     (if tn_why tn \<noteq> 0 then Inr (req, [], [])
      else case tn_socket tn of
          None \<Rightarrow> Inr (req, [], [Signal_write])
        | Some (sk, n) \<Rightarrow>
            if tn_writable tn = -1 then Inr (req, [n], [Signal_write])
            else bindE (serve_connection fuel run sv req sk n) (\<lambda>(req1, n1).
                 bindE (worker_turns fuel run sv req1 tns) (\<lambda>(req2, ns, evs).
                   Inr (req2, n1 # ns, Signal_write # evs))))"

text \<open>The number of workers goes up at the start and down at the end.\<close>

definition worker_thread ::
  "nat \<Rightarrow> (addr \<Rightarrow> 'f cflare_hookstack option \<Rightarrow> 'f world \<Rightarrow> ptr \<Rightarrow> 'f world \<times> bool) \<Rightarrow> ('p, 'f) server
   \<Rightarrow> int \<Rightarrow> turn list \<Rightarrow> (int \<times> net list \<times> server_event list) res" where
  "worker_thread fuel run sv workers tns =
     (let req = cflare_request_new; workers1 = workers + 1 in
      bindE (worker_turns fuel run sv req tns) (\<lambda>(req1, ns, evs). Inr (workers1 - 1, ns, evs)))"

section \<open>Accepting connections\<close>

text \<open>Waiting until some worker has signalled that it has the socket, signalling again after every timeout.\<close>

fun until_taken :: "int list \<Rightarrow> server_event list res" where
  "until_taken [] = Inl Blocked"
| "until_taken (w # ws) =
     (if w = -2 then bindE (until_taken ws) (\<lambda>evs. Inr (Signal_read # evs)) else Inr [])"

text \<open>Each entry is what \<open>accept\<close> gives (a descriptor, here) and what the waits after it answer.\<close>

fun accept_loop :: "(int option \<times> int list) list \<Rightarrow> server_event list res" where
  "accept_loop [] = Inl Blocked"
| "accept_loop ((accepted, waits) # rest) = (case accepted of
       None \<Rightarrow> Inr [Msg_socket None]
     | Some sock \<Rightarrow> (case waits of
           [] \<Rightarrow> Inl Blocked
         | w # ws \<Rightarrow>
             bindE (if w = -2 then bindE (until_taken ws) (\<lambda>evs. Inr (New_worker # evs))
                    else Inr [Msg_socket None]) (\<lambda>evs.
             bindE (accept_loop rest) (\<lambda>evs'.
               Inr (Msg_socket (Some sock) # Signal_read # evs @ evs')))))"

text \<open>Waiting for the workers to end: each entry is the number of workers seen.\<close>

fun wait_for_workers :: "int list \<Rightarrow> server_event list res" where
  "wait_for_workers [] = Inl Blocked"
| "wait_for_workers (workers # seen) =
     (if workers > 0 then bindE (wait_for_workers seen) (\<lambda>evs. Inr (Sleep_a_while # evs)) else Inr [])"

definition main_listen_thread ::
  "cflare_listener \<Rightarrow> (int option \<times> int list) list \<Rightarrow> int list \<Rightarrow> (server_event list \<times> sock_event list) res" where
  "main_listen_thread listener accepts seen =
     bindE (accept_loop accepts) (\<lambda>evs.
     bindE (wait_for_workers seen) (\<lambda>evs'.
       Inr (evs @ [Msg_socket None, Broadcast_read] @ evs' @ [Free_conditions], cflare_listener_delete listener)))"

section \<open>Signals and the command line\<close>

text \<open>The signal handler closes the listener and exits; before there is one it aborts.\<close>

definition on_signal :: "bool \<Rightarrow> cflare_listener option \<Rightarrow> (cflare_listener option \<times> sock_event list \<times> nat option) res" where
  "on_signal is_sigint listener =
     (if \<not> is_sigint then Inr (listener, [], None)
      else case listener of
          None \<Rightarrow> Inl (Fatal ''unknown how to handle signal'')
        | Some l \<Rightarrow> (case cflare_listener_close l of (l', evs) \<Rightarrow> Inr (Some l', evs, Some 0)))"

datatype main_action = Print_version | Unit_test | Listen | Demonstration

definition main_choice :: "options_state \<Rightarrow> main_action res" where
  "main_choice st =
     bindE (cflare_options_boolean st ''version'' False) (\<lambda>version.
       Inr (if version then Print_version
            else case cflare_options_argument st 0 of
                None \<Rightarrow> Demonstration
              | Some a \<Rightarrow> if a = ''unit-test'' then Unit_test else if a = ''listen'' then Listen else Demonstration))"

section \<open>Properties\<close>

text \<open>A connection as the theorem wants it: requests that keep it open, one that does not, and its socket.\<close>

record client =
  cl_requests :: "client_request list"
  cl_last :: client_request
  cl_socket :: cflare_socket
  cl_net :: net

definition client_ok :: "('p, 'f) server \<Rightarrow> nat \<Rightarrow> client \<Rightarrow> bool" where
  "client_ok sv fuel c \<longleftrightarrow>
     (\<forall>r \<in> set (cl_requests c). cr_ok sv r \<and> cr_open r) \<and> cr_ok sv (cl_last c) \<and> \<not> cr_open (cl_last c) \<and>
     sk_ok (cl_socket c) \<and> sk_connected (cl_socket c) \<and> requeued (cl_socket c) = [] \<and> 0 \<le> sk_fd (cl_socket c) \<and>
     net_incoming (cl_net c) = sent_by (cl_requests c @ [cl_last c]) \<and>
     accepting (cl_net c) (5000 * length (cl_requests c @ [cl_last c])) \<and>
     length (cl_requests c @ [cl_last c]) \<le> fuel"

text \<open>What a client has to see: an answer to every request in order, and the end of the connection.\<close>

definition served :: "('p, 'f) server \<Rightarrow> string \<Rightarrow> string \<Rightarrow> string \<Rightarrow> string \<Rightarrow> client \<Rightarrow> net \<Rightarrow> bool" where
  "served sv ln sn dn cn c n \<longleftrightarrow>
     net_sent n = net_sent (cl_net c) @ answers sv ln sn dn cn (cl_requests c @ [cl_last c]) \<and>
     net_incoming n = [] \<and> net_closed n = net_closed (cl_net c) @ [sk_fd (cl_socket c)]"

definition take_turn :: "client \<Rightarrow> turn" where
  "take_turn c = \<lparr>tn_why = 0, tn_socket = Some (cl_socket c, cl_net c), tn_writable = 0\<rparr>"

definition no_work :: turn where
  "no_work = \<lparr>tn_why = -2, tn_socket = None, tn_writable = 0\<rparr>"

lemma worker_turns_serve:
  assumes sv: "idle_server sv ln sn dn cn"
  shows "\<forall>c \<in> set cs. client_ok sv fuel c \<Longrightarrow> request_ok req \<Longrightarrow>
    \<exists>req' ns. worker_turns fuel run sv req (map take_turn cs @ [no_work]) =
      Inr (req', ns, replicate (length cs) Signal_write) \<and> list_all2 (served sv ln sn dn cn) cs ns"
proof (induction cs arbitrary: req)
  case Nil
  show ?case by (simp add: no_work_def)
next
  case (Cons c cs)
  then have c: "client_ok sv fuel c" by simp
  from c Cons.prems(2) have ok: "\<forall>r \<in> set (cl_requests c). cr_ok sv r \<and> cr_open r" "cr_ok sv (cl_last c)"
    "\<not> cr_open (cl_last c)" "request_ok req" "sk_ok (cl_socket c)" "sk_connected (cl_socket c)"
    "requeued (cl_socket c) = []" "0 \<le> sk_fd (cl_socket c)"
    "net_incoming (cl_net c) = sent_by (cl_requests c @ [cl_last c])"
    "accepting (cl_net c) (5000 * length (cl_requests c @ [cl_last c]))"
    "length (cl_requests c @ [cl_last c]) \<le> fuel"
    unfolding client_ok_def by blast+
  from serve_connection_answers [OF sv ok, of run] obtain req1 n1 where
    "serve_connection fuel run sv req (cl_socket c) (cl_net c) = Inr (req1, n1)" "request_ok req1" "served sv ln sn dn cn c n1"
    unfolding served_def by blast
  moreover from Cons.IH [OF _ this(2)] Cons.prems(1) obtain req' ns where
    "worker_turns fuel run sv req1 (map take_turn cs @ [no_work]) = Inr (req', ns, replicate (length cs) Signal_write)"
    "list_all2 (served sv ln sn dn cn) cs ns" by auto
  ultimately show ?case
    by (intro exI [of _ req'] exI [of _ "n1 # ns"]) (simp add: take_turn_def [of c])
qed

text \<open>
  C8: a worker serves one connection after the other, whatever was left in its request object: every client gets
  the answers to its own requests, in order, and has its connection closed once, and the acceptor is told once for each that
  its socket has been taken. When no more work comes the worker ends and the number of workers is what it was before.
\<close>

theorem worker_serves_connections:
  assumes "idle_server sv len_name server_name date_name connection_name" and "\<forall>c \<in> set cs. client_ok sv fuel c"
  shows "\<exists>ns. worker_thread fuel run sv workers (map take_turn cs @ [no_work]) =
      Inr (workers, ns, replicate (length cs) Signal_write) \<and>
    list_all2 (served sv len_name server_name date_name connection_name) cs ns"
  using worker_turns_serve [OF assms new_request_ok, of run] by (auto simp: worker_thread_def Let_def)

lemma worker_serves_connections_witness:
  "\<exists>sv :: (int, int) server. \<exists>ln sn dn cn. \<forall>run. \<exists>n1 n2.
    worker_thread 2 run sv 0 (map take_turn
      [\<lparr>cl_requests = [first_client], cl_last = last_client, cl_socket = sample_socket,
         cl_net = sample_net (sent_by [first_client, last_client]) (replicate 10000 (Accepts 9))\<rparr>,
       \<lparr>cl_requests = [], cl_last = last_client, cl_socket = sample_socket,
         cl_net = sample_net (sent_by [last_client]) (replicate 5000 (Accepts 9))\<rparr>] @ [no_work]) =
      Inr (0, [n1, n2], [Signal_write, Signal_write]) \<and>
    net_sent n1 = unhandled_text sv ln sn dn cn True @ unhandled_text sv ln sn dn cn False \<and>
    net_sent n2 = unhandled_text sv ln sn dn cn False"
proof -
  obtain sv :: "(int, int) server" where sv: "server_ok sv" "sc_inv (sv_statuses sv)" "sv_hooks sv = no_hooks"
    "sv_date sv = []" "reason_of (sv_statuses sv) 500 = Some ''Error''" using server_exists by blast
  from idle_exists [OF sv] obtain ln sn dn cn where idle: "idle_server sv ln sn dn cn" .
  note c = clients_ok [OF sv(1)]
  let ?c1 = "\<lparr>cl_requests = [first_client], cl_last = last_client, cl_socket = sample_socket,
         cl_net = sample_net (sent_by [first_client, last_client]) (replicate 10000 (Accepts 9))\<rparr>"
  let ?c2 = "\<lparr>cl_requests = [], cl_last = last_client, cl_socket = sample_socket,
         cl_net = sample_net (sent_by [last_client]) (replicate 5000 (Accepts 9))\<rparr>"
  have "\<forall>c \<in> set [?c1, ?c2]. client_ok sv 2 c"
    using c sample_socket
    by (auto simp: client_ok_def accepting_def sample_net_def) (simp_all add: sample_socket_def)
  then have w: "\<exists>ns. worker_thread 2 run sv 0 (map take_turn [?c1, ?c2] @ [no_work]) =
      Inr (0, ns, replicate (length [?c1, ?c2]) Signal_write) \<and> list_all2 (served sv ln sn dn cn) [?c1, ?c2] ns" for run
    by (rule worker_serves_connections [OF idle])
  have "\<exists>n1 n2. worker_thread 2 run sv 0 (map take_turn [?c1, ?c2] @ [no_work]) =
      Inr (0, [n1, n2], [Signal_write, Signal_write]) \<and>
    net_sent n1 = unhandled_text sv ln sn dn cn True @ unhandled_text sv ln sn dn cn False \<and>
    net_sent n2 = unhandled_text sv ln sn dn cn False" for run
  proof -
    from w [of run] obtain ns where ns: "worker_thread 2 run sv 0 (map take_turn [?c1, ?c2] @ [no_work]) =
      Inr (0, ns, [Signal_write, Signal_write])" "list_all2 (served sv ln sn dn cn) [?c1, ?c2] ns"
      by auto
    then obtain n1 n2 where "ns = [n1, n2]" "served sv ln sn dn cn ?c1 n1" "served sv ln sn dn cn ?c2 n2"
      by (auto simp: list_all2_Cons1)
    with ns(1) c(2,4) show ?thesis
      by (auto simp: served_def answers_def sample_net_def)
  qed
  then show ?thesis
    by (intro exI [of _ sv] exI [of _ ln] exI [of _ sn] exI [of _ dn] exI [of _ cn] allI)
qed

text \<open>
  The acceptor: where every socket is taken in the end, it goes on until the listener is closed, and
  makes a new worker exactly for the sockets that no worker has taken before the first wait ran out.
\<close>

lemma until_taken_ends: "\<exists>w \<in> set ws. w \<noteq> -2 \<Longrightarrow> \<exists>k. until_taken ws = Inr (replicate k Signal_read)"
proof (induction ws)
  case (Cons w ws)
  show ?case
  proof (cases "w = -2")
    case True
    with Cons obtain k where "until_taken ws = Inr (replicate k Signal_read)" by auto
    with True show ?thesis by (intro exI [of _ "Suc k"]) simp
  qed (auto intro: exI [of _ 0])
qed simp

lemma accept_loop_ends:
  assumes "\<forall>(sock, w, ws) \<in> set conns. w = -2 \<longrightarrow> (\<exists>w' \<in> set ws. w' \<noteq> -2)"
  shows "\<exists>evs. accept_loop (map (\<lambda>(sock, w, ws). (Some sock, w # ws)) conns @ [(None, [])]) = Inr (evs @ [Msg_socket None]) \<and>
    length (filter (\<lambda>e. e = New_worker) evs) = length (filter (\<lambda>(sock, w, ws). w = -2) conns)"
  using assms
proof (induction conns)
  case (Cons c conns)
  obtain sock w ws where c: "c = (sock, w, ws)" by (cases c) auto
  from Cons obtain evs where evs: "accept_loop (map (\<lambda>(sock, w, ws). (Some sock, w # ws)) conns @ [(None, [])]) =
      Inr (evs @ [Msg_socket None])"
    "length (filter (\<lambda>e. e = New_worker) evs) = length (filter (\<lambda>(sock, w, ws). w = -2) conns)" by auto
  show ?case
  proof (cases "w = -2")
    case True
    with Cons.prems c until_taken_ends [of ws] obtain k where "until_taken ws = Inr (replicate k Signal_read)" by auto
    with True evs c show ?thesis
      by (intro exI [of _ "Msg_socket (Some sock) # Signal_read # New_worker # replicate k Signal_read @ evs"]) simp
  next
    case False
    with evs c show ?thesis
      by (intro exI [of _ "Msg_socket (Some sock) # Signal_read # Msg_socket None # evs"]) simp
  qed
qed simp

end
