(* ===== verification/Handover.thy ===== *)
theory Handover
  imports Server
begin

text \<open>
  How \<open>main_listen_thread\<close> hands the connections it accepts to the workers (\<open>src/main.c\<close>): one message and two
  conditions, shared by the acceptor and any number of worker coroutines.

  The coroutines of lthread run one at a time, until they wait; a step of the model is what a coroutine does from one wait to the next.
  What is assumed of the conditions is what lthread documents: a signal wakes one coroutine that is waiting, if there is one, and is lost
  otherwise; a broadcast wakes all; a wait with a time-out may end by it. Which coroutine runs next, which of
  several a signal wakes and when a time-out strikes is open: it is in the event that names the step. The sockets accepted and
  those taken are kept in order, for the statements; the code does not have these lists.
\<close>

section \<open>State\<close>

datatype acceptor = Accepting | Wait_first | Wake_first | Wait_again | Wake_again | Closing | Closed

datatype 's worker = Born | Waits | Woken | Serves 's | Ended

record 's handover =
  hv_acceptor :: acceptor
  hv_socket :: "'s option"
  hv_workers :: "'s worker list"
  hv_count :: int
  hv_accepted :: "'s list"
  hv_taken :: "(nat \<times> 's) list"

definition hv_start :: "'s handover" where
  "hv_start = \<lparr>hv_acceptor = Accepting, hv_socket = None, hv_workers = [], hv_count = 0, hv_accepted = [], hv_taken = []\<rparr>"

section \<open>Steps\<close>

text \<open>A signal for readers, which wakes the worker \<open>w\<close>; \<open>None\<close> where there is nobody to wake.\<close>

definition signal_read :: "nat option \<Rightarrow> 's worker list \<Rightarrow> 's worker list option" where
  "signal_read w ws = (case w of
       None \<Rightarrow> if Waits \<in> set ws then None else Some ws
     | Some i \<Rightarrow> if i < length ws \<and> ws ! i = Waits then Some (ws[i := Woken]) else None)"

definition broadcast_read :: "'s worker list \<Rightarrow> 's worker list" where
  "broadcast_read ws = map (\<lambda>p. case p of Waits \<Rightarrow> Woken | _ \<Rightarrow> p) ws"

text \<open>A signal for the writer, of whom there is only one.\<close>

definition signal_write :: "acceptor \<Rightarrow> acceptor" where
  "signal_write a = (case a of Wait_first \<Rightarrow> Wake_first | Wait_again \<Rightarrow> Wake_again | _ \<Rightarrow> a)"

text \<open>The acceptor: a connection or none, a time-out of the first wait or of a later one, and going on.\<close>

definition accept_one :: "'s \<Rightarrow> nat option \<Rightarrow> 's handover \<Rightarrow> 's handover option" where
  "accept_one x w s =
     (if hv_acceptor s \<noteq> Accepting then None
      else map_option (\<lambda>ws. s\<lparr>hv_acceptor := Wait_first, hv_socket := Some x, hv_workers := ws,
                             hv_accepted := hv_accepted s @ [x]\<rparr>) (signal_read w (hv_workers s)))"

definition accept_none :: "'s handover \<Rightarrow> 's handover option" where
  "accept_none s =
     (if hv_acceptor s \<noteq> Accepting then None
      else Some (s\<lparr>hv_acceptor := Closing, hv_socket := None, hv_workers := broadcast_read (hv_workers s)\<rparr>))"

definition first_timeout :: "'s handover \<Rightarrow> 's handover option" where
  "first_timeout s =
     (if hv_acceptor s \<noteq> Wait_first then None
      else Some (s\<lparr>hv_acceptor := Wait_again, hv_workers := hv_workers s @ [Born]\<rparr>))"

definition later_timeout :: "nat option \<Rightarrow> 's handover \<Rightarrow> 's handover option" where
  "later_timeout w s =
     (if hv_acceptor s \<noteq> Wait_again then None
      else map_option (\<lambda>ws. s\<lparr>hv_workers := ws\<rparr>) (signal_read w (hv_workers s)))"

definition acceptor_resumes :: "'s handover \<Rightarrow> 's handover option" where
  "acceptor_resumes s = (case hv_acceptor s of
       Wake_first \<Rightarrow> Some (s\<lparr>hv_acceptor := Accepting, hv_socket := None\<rparr>)
     | Wake_again \<Rightarrow> Some (s\<lparr>hv_acceptor := Accepting\<rparr>)
     | _ \<Rightarrow> None)"

definition acceptor_closes :: "'s handover \<Rightarrow> 's handover option" where
  "acceptor_closes s =
     (if hv_acceptor s = Closing \<and> \<not> hv_count s > 0 then Some (s\<lparr>hv_acceptor := Closed\<rparr>) else None)"

text \<open>A worker: it starts, is woken and takes what the message holds, waits in vain, and is done with a connection.\<close>

definition worker_starts :: "nat \<Rightarrow> 's handover \<Rightarrow> 's handover option" where
  "worker_starts i s =
     (if i < length (hv_workers s) \<and> hv_workers s ! i = Born
      then Some (s\<lparr>hv_workers := (hv_workers s)[i := Waits], hv_count := hv_count s + 1\<rparr>) else None)"

definition worker_runs :: "nat \<Rightarrow> 's handover \<Rightarrow> 's handover option" where
  "worker_runs i s =
     (if i < length (hv_workers s) \<and> hv_workers s ! i = Woken
      then let s1 = s\<lparr>hv_acceptor := signal_write (hv_acceptor s)\<rparr> in
        (case hv_socket s of
            None \<Rightarrow> Some (s1\<lparr>hv_workers := (hv_workers s)[i := Ended], hv_count := hv_count s - 1\<rparr>)
          | Some x \<Rightarrow> Some (s1\<lparr>hv_workers := (hv_workers s)[i := Serves x], hv_taken := hv_taken s @ [(i, x)]\<rparr>))
      else None)"

definition worker_gives_up :: "nat \<Rightarrow> 's handover \<Rightarrow> 's handover option" where
  "worker_gives_up i s =
     (if i < length (hv_workers s) \<and> hv_workers s ! i = Waits
      then Some (s\<lparr>hv_workers := (hv_workers s)[i := Ended], hv_count := hv_count s - 1\<rparr>) else None)"

text \<open>A connection that is not writable ends its worker.\<close>

definition worker_done :: "nat \<Rightarrow> bool \<Rightarrow> 's handover \<Rightarrow> 's handover option" where
  "worker_done i abandoned s =
     (if i < length (hv_workers s)
      then (case hv_workers s ! i of
          Serves x \<Rightarrow>
            Some (if abandoned then s\<lparr>hv_workers := (hv_workers s)[i := Ended], hv_count := hv_count s - 1\<rparr>
                  else s\<lparr>hv_workers := (hv_workers s)[i := Waits]\<rparr>)
        | _ \<Rightarrow> None)
      else None)"

datatype 's hv_event =
    Accept 's "nat option" | Accept_none | First_timeout | Later_timeout "nat option" | Resume | Close
  | Start nat | Runs nat | Give_up nat | Done nat bool

fun hv_step :: "'s hv_event \<Rightarrow> 's handover \<Rightarrow> 's handover option" where
  "hv_step (Accept x w) s = accept_one x w s"
| "hv_step Accept_none s = accept_none s"
| "hv_step First_timeout s = first_timeout s"
| "hv_step (Later_timeout w) s = later_timeout w s"
| "hv_step Resume s = acceptor_resumes s"
| "hv_step Close s = acceptor_closes s"
| "hv_step (Start i) s = worker_starts i s"
| "hv_step (Runs i) s = worker_runs i s"
| "hv_step (Give_up i) s = worker_gives_up i s"
| "hv_step (Done i abandoned) s = worker_done i abandoned s"

fun hv_run :: "'s hv_event list \<Rightarrow> 's handover \<Rightarrow> 's handover option" where
  "hv_run [] s = Some s"
| "hv_run (e # es) s = Option.bind (hv_step e s) (hv_run es)"

text \<open>What can be reached where the events obey a rule.\<close>

inductive hv_reachable :: "('s hv_event \<Rightarrow> 's handover \<Rightarrow> bool) \<Rightarrow> 's handover \<Rightarrow> bool" for allowed where
  start: "hv_reachable allowed hv_start"
| step: "hv_reachable allowed s \<Longrightarrow> allowed e s \<Longrightarrow> hv_step e s = Some s' \<Longrightarrow> hv_reachable allowed s'"

text \<open>A prompt scheduler: a worker that has been woken runs before a wait of the acceptor can time out.\<close>

definition prompt :: "'s hv_event \<Rightarrow> 's handover \<Rightarrow> bool" where
  "prompt e s \<longleftrightarrow> (case e of First_timeout \<Rightarrow> Woken \<notin> set (hv_workers s)
     | Later_timeout w \<Rightarrow> Woken \<notin> set (hv_workers s) | _ \<Rightarrow> True)"

section \<open>The invariant of the prompt scheduler\<close>

fun active :: "'s worker \<Rightarrow> bool" where
  "active Born = False"
| "active Ended = False"
| "active _ = True"

definition started :: "'s handover \<Rightarrow> nat" where
  "started s = length (filter active (hv_workers s))"

definition woken :: "'s worker list \<Rightarrow> nat" where
  "woken ws = length (filter (\<lambda>p. p = Woken) ws)"

definition offering :: "'s handover \<Rightarrow> bool" where
  "offering s \<longleftrightarrow> hv_acceptor s = Wait_first \<or> hv_acceptor s = Wait_again"

definition closing :: "'s handover \<Rightarrow> bool" where
  "closing s \<longleftrightarrow> hv_acceptor s = Closing \<or> hv_acceptor s = Closed"

definition hv_inv :: "'s handover \<Rightarrow> bool" where
  "hv_inv s \<longleftrightarrow> hv_count s = int (started s) \<and>
     (if offering s then hv_socket s \<noteq> None \<and> woken (hv_workers s) \<le> 1
      else if closing s then hv_socket s = None else woken (hv_workers s) = 0) \<and>
     hv_accepted s = map snd (hv_taken s) @ (if offering s then [the (hv_socket s)] else [])"

lemma woken_none: "woken ws = 0 \<longleftrightarrow> Woken \<notin> set ws"
  by (auto simp: woken_def filter_empty_conv)

lemma woken_update:
  "i < length ws \<Longrightarrow> woken (ws[i := p]) + (if ws ! i = Woken then 1 else 0) = woken ws + (if p = Woken then 1 else 0)"
  unfolding woken_def by (rule length_filter_update)

lemma started_update:
  "i < length ws \<Longrightarrow> length (filter active (ws[i := p])) + (if active (ws ! i) then 1 else 0) =
    length (filter active ws) + (if active p then 1 else 0)"
  by (rule length_filter_update)

text \<open>A signal wakes at most one worker, and starts or ends none.\<close>

lemma signal_read_effect:
  assumes "signal_read w ws = Some ws'"
  shows "woken ws' \<le> woken ws + 1 \<and> length (filter active ws') = length (filter active ws) \<and> length ws' = length ws"
proof (cases w)
  case (Some i)
  with assms have "i < length ws" "ws ! i = Waits" "ws' = ws[i := Woken]" by (auto simp: signal_read_def split: if_splits)
  with woken_update [of i ws Woken] started_update [of i ws Woken] show ?thesis by simp
qed (use assms in \<open>auto simp: signal_read_def split: if_splits\<close>)

lemma broadcast_active: "length (filter active (broadcast_read ws)) = length (filter active ws)"
  by (induction ws) (auto simp: broadcast_read_def split: worker.split)

lemma hv_inv_start: "hv_inv hv_start"
  by (simp add: hv_inv_def hv_start_def offering_def closing_def started_def woken_def)

text \<open>The acceptor keeps it, one operation after the other.\<close>

lemma accept_one_inv: "hv_inv s \<Longrightarrow> accept_one x w s = Some s' \<Longrightarrow> hv_inv s'"
  by (auto simp: accept_one_def hv_inv_def offering_def closing_def started_def split: if_splits dest!: signal_read_effect)

lemma accept_none_inv: "hv_inv s \<Longrightarrow> accept_none s = Some s' \<Longrightarrow> hv_inv s'"
  by (auto simp: accept_none_def hv_inv_def offering_def closing_def started_def broadcast_active split: if_splits)

lemma first_timeout_inv: "hv_inv s \<Longrightarrow> first_timeout s = Some s' \<Longrightarrow> hv_inv s'"
  by (auto simp: first_timeout_def hv_inv_def offering_def closing_def started_def woken_def split: if_splits)

lemma later_timeout_inv:
  "hv_inv s \<Longrightarrow> Woken \<notin> set (hv_workers s) \<Longrightarrow> later_timeout w s = Some s' \<Longrightarrow> hv_inv s'"
  by (auto simp: later_timeout_def hv_inv_def offering_def closing_def started_def simp flip: woken_none
      split: if_splits dest!: signal_read_effect)

lemma acceptor_resumes_inv: "hv_inv s \<Longrightarrow> acceptor_resumes s = Some s' \<Longrightarrow> hv_inv s'"
  by (auto simp: acceptor_resumes_def hv_inv_def offering_def closing_def started_def split: acceptor.splits)

lemma acceptor_closes_inv: "hv_inv s \<Longrightarrow> acceptor_closes s = Some s' \<Longrightarrow> hv_inv s'"
  by (auto simp: acceptor_closes_def hv_inv_def offering_def closing_def started_def split: if_splits)

text \<open>So do the workers.\<close>

lemma set_worker_inv:
  assumes "hv_inv s" and "i < length (hv_workers s)" and "hv_workers s ! i \<noteq> Woken" and "p \<noteq> Woken"
    and "n + (if active (hv_workers s ! i) then 1 else 0) = hv_count s + (if active p then 1 else 0)"
  shows "hv_inv (s\<lparr>hv_workers := (hv_workers s)[i := p], hv_count := n\<rparr>)"
  using assms woken_update [OF assms(2), of p] started_update [OF assms(2), of p]
  by (auto simp: hv_inv_def offering_def closing_def started_def split: if_splits)

lemma worker_starts_inv: "hv_inv s \<Longrightarrow> worker_starts i s = Some s' \<Longrightarrow> hv_inv s'"
  by (auto simp: worker_starts_def split: if_splits intro!: set_worker_inv)

lemma worker_gives_up_inv: "hv_inv s \<Longrightarrow> worker_gives_up i s = Some s' \<Longrightarrow> hv_inv s'"
  by (auto simp: worker_gives_up_def split: if_splits intro!: set_worker_inv)

lemma worker_done_inv: "hv_inv s \<Longrightarrow> worker_done i abandoned s = Some s' \<Longrightarrow> hv_inv s'"
  using set_worker_inv [of s i Waits "hv_count s"]
  by (auto simp: worker_done_def split: if_splits worker.splits intro!: set_worker_inv)

lemma worker_runs_inv:
  assumes "hv_inv s" and "worker_runs i s = Some s'"
  shows "hv_inv s'"
proof -
  from assms(2) have i: "i < length (hv_workers s)" "hv_workers s ! i = Woken" by (auto simp: worker_runs_def split: if_splits)
  then have "Woken \<in> set (hv_workers s)" by (metis nth_mem)
  then have w: "woken (hv_workers s) \<noteq> 0" by (simp add: woken_none)
  note u = woken_update [OF i(1)] started_update [OF i(1)]
  show ?thesis
  proof (cases "hv_socket s")
    case None
    with assms w have "closing s" "\<not> offering s" by (auto simp: hv_inv_def split: if_splits)
    with assms None i u [of Ended] show ?thesis
      by (auto simp: worker_runs_def hv_inv_def offering_def closing_def started_def signal_write_def Let_def split: acceptor.splits)
  next
    case (Some x)
    with assms w have "offering s" by (auto simp: hv_inv_def split: if_splits)
    with assms Some i u [of "Serves x"] show ?thesis
      by (auto simp: worker_runs_def hv_inv_def offering_def closing_def started_def signal_write_def Let_def)
  qed
qed

lemma hv_step_inv: "hv_inv s \<Longrightarrow> prompt e s \<Longrightarrow> hv_step e s = Some s' \<Longrightarrow> hv_inv s'"
  by (cases e) (auto simp: prompt_def intro: accept_one_inv accept_none_inv first_timeout_inv later_timeout_inv
      acceptor_resumes_inv acceptor_closes_inv worker_starts_inv worker_gives_up_inv worker_done_inv worker_runs_inv)

lemma hv_reachable_inv: "hv_reachable prompt s \<Longrightarrow> hv_inv s"
  by (induction rule: hv_reachable.induct) (auto intro: hv_inv_start hv_step_inv)

section \<open>Properties\<close>

fun obeys :: "('s hv_event \<Rightarrow> 's handover \<Rightarrow> bool) \<Rightarrow> 's hv_event list \<Rightarrow> 's handover \<Rightarrow> bool" where
  "obeys allowed [] s = True"
| "obeys allowed (e # es) s = (allowed e s \<and> (case hv_step e s of None \<Rightarrow> True | Some s' \<Rightarrow> obeys allowed es s'))"

lemma hv_run_reachable:
  "hv_reachable allowed s \<Longrightarrow> obeys allowed es s \<Longrightarrow> hv_run es s = Some s' \<Longrightarrow> hv_reachable allowed s'"
proof (induction es arbitrary: s)
  case (Cons e es)
  from Cons.prems(3) obtain s1 where s1: "hv_step e s = Some s1" "hv_run es s1 = Some s'" by (auto simp: bind_eq_Some_conv)
  with Cons.prems(2) have "allowed e s" "obeys allowed es s1" by simp_all
  with Cons.IH [OF hv_reachable.step [OF Cons.prems(1) _ s1(1)] _ s1(2)] show ?case by blast
qed simp

text \<open>Somebody can always take the socket that is offered: the woken worker, a new one, or one that is not at its end.\<close>

lemma offer_woken:
  assumes "hv_inv s" and "offering s" and "Woken \<in> set (hv_workers s)"
  shows "\<exists>i s'. hv_run [Runs i] s = Some s' \<and> hv_taken s' = hv_taken s @ [(i, the (hv_socket s))] \<and> \<not> offering s'"
proof -
  from assms(3) obtain i where "i < length (hv_workers s)" "hv_workers s ! i = Woken" by (auto simp: in_set_conv_nth)
  moreover obtain x where "hv_socket s = Some x" using assms(1,2) by (auto simp: hv_inv_def)
  ultimately show ?thesis
    using assms(2) by (intro exI [of _ i]) (auto simp: worker_runs_def offering_def signal_write_def)
qed

lemma offer_waiting:
  assumes "hv_inv s" and "hv_acceptor s = Wait_again" and "i < length (hv_workers s)" and "hv_workers s ! i = Waits"
    and "Woken \<notin> set (hv_workers s)"
  shows "\<exists>s'. obeys prompt [Later_timeout (Some i), Runs i] s \<and> hv_run [Later_timeout (Some i), Runs i] s = Some s' \<and>
    hv_taken s' = hv_taken s @ [(i, the (hv_socket s))] \<and> \<not> offering s'"
proof -
  obtain x where "hv_socket s = Some x" using assms(1,2) by (auto simp: hv_inv_def offering_def)
  with assms show ?thesis
    by (simp add: prompt_def later_timeout_def signal_read_def worker_runs_def offering_def signal_write_def)
qed

lemma offer_other:
  assumes "hv_inv s" and "hv_acceptor s = Wait_again" and "i < length (hv_workers s)"
    and "hv_workers s ! i = Born \<or> (\<exists>x. hv_workers s ! i = Serves x)" and "Woken \<notin> set (hv_workers s)"
  shows "\<exists>e s'. obeys prompt [e, Later_timeout (Some i), Runs i] s \<and> hv_run [e, Later_timeout (Some i), Runs i] s = Some s' \<and>
    hv_taken s' = hv_taken s @ [(i, the (hv_socket s))] \<and> \<not> offering s'"
proof -
  let ?e = "if hv_workers s ! i = Born then Start i else Done i False"
  obtain s1 where s1: "hv_step ?e s = Some s1" "hv_workers s1 = (hv_workers s)[i := Waits]" "hv_acceptor s1 = Wait_again"
      "hv_taken s1 = hv_taken s" "hv_socket s1 = hv_socket s"
    using assms(2-4) by (auto simp: worker_starts_def worker_done_def)
  have p: "prompt ?e s" by (simp add: prompt_def)
  have "Woken \<notin> set (hv_workers s1)" using assms(5) set_update_subset_insert [of "hv_workers s" i Waits] by (auto simp: s1(2))
  with offer_waiting [of s1 i] hv_step_inv [OF assms(1) p s1(1)] s1 assms(3) obtain s' where
    "obeys prompt [Later_timeout (Some i), Runs i] s1" "hv_run [Later_timeout (Some i), Runs i] s1 = Some s'"
    "hv_taken s' = hv_taken s @ [(i, the (hv_socket s))]" "\<not> offering s'" by auto
  with s1(1) p show ?thesis by (intro exI [of _ ?e] exI [of _ s']) simp
qed


text \<open>One connection through the first worker, which has to be made for it, and a second on offer.\<close>

definition first_connection :: "'s \<Rightarrow> 's hv_event list" where
  "first_connection a =
     [Accept a None, First_timeout, Start 0, Later_timeout (Some 0), Runs 0, Resume, Done 0 False]"



end
