(* ===== verification/Handle.thy ===== *)
theory Handle
  imports Cflare_Prelude
begin

text \<open>
  The reference-counted handles of \<open>src/cflare/handle.c\<close>: a fixed array of 255 slots. A slot is free
  when its id is 0; ids are handed out by a counter of type \<open>size_t\<close> that must not wrap. The mutex
  makes every operation one critical section and is not part of the state. The deleter runs when
  the last reference goes; its calls are recorded in order.
\<close>

section \<open>State and operations\<close>

record 'd reference =
  ref_type :: string
  ref_id :: nat
  ref_data :: "'d option"
  ref_count :: nat
  ref_deleter :: ptr
  ref_deleter_context :: ptr

record 'd handles =
  refs :: "'d reference list"
  curid :: nat
  loaded :: bool

definition MAX_REFS :: nat where "MAX_REFS = 255"

fun find_slot :: "('r \<Rightarrow> bool) \<Rightarrow> 'r list \<Rightarrow> nat \<Rightarrow> nat option" where
  "find_slot P [] i = None"
| "find_slot P (r # rs) i = (if P r then Some i else find_slot P rs (Suc i))"

definition find_handle :: "'d handles \<Rightarrow> nat \<Rightarrow> nat option" where
  "find_handle st h = find_slot (\<lambda>ref. ref_id ref = h) (refs st) 0"

text \<open>The slot a new handle gets, with its id set; \<open>None\<close> where every slot is taken.\<close>

definition new_handle :: "'d handles \<Rightarrow> ('d handles \<times> nat option) res" where
  "new_handle st = (case find_slot (\<lambda>ref. ref_id ref = 0) (refs st) 0 of
       None \<Rightarrow> Inr (st, None)
     | Some i \<Rightarrow>
         let cur = (curid st + 1) mod 2 ^ 64
         in bindE (assertE (cur \<noteq> 0) Assert_failed) (\<lambda>_.
              Inr (st\<lparr>curid := cur, refs := (refs st)[i := (refs st ! i)\<lparr>ref_id := cur\<rparr>]\<rparr>, Some i)))"

definition free_reference :: "'d reference" where
  "free_reference = \<lparr>ref_type = [], ref_id = 0, ref_data = None, ref_count = 0,
     ref_deleter = None, ref_deleter_context = None\<rparr>"

definition cflare_handle_load :: "'d handles \<Rightarrow> 'd handles res" where
  "cflare_handle_load st =
     bindE (assertE (\<not> loaded st) Assert_failed) (\<lambda>_.
       Inr (st\<lparr>refs := map (\<lambda>_. free_reference) [0..<MAX_REFS], loaded := True\<rparr>))"

text \<open>Unloading reports the handles that are still referenced.\<close>

definition cflare_handle_unload :: "'d handles \<Rightarrow> ('d handles \<times> (string \<times> nat \<times> nat) list) res" where
  "cflare_handle_unload st =
     bindE (assertE (loaded st) Assert_failed) (\<lambda>_.
       Inr (st\<lparr>loaded := False\<rparr>,
            map (\<lambda>ref. (ref_type ref, ref_id ref, ref_count ref)) (filter (\<lambda>ref. ref_id ref \<noteq> 0) (refs st))))"

text \<open>\<open>strcpy\<close> into the 32 bytes of \<open>type\<close> needs room for the terminator.\<close>

definition cflare_handle_new ::
  "'d handles \<Rightarrow> string \<Rightarrow> 'd option \<Rightarrow> ptr \<Rightarrow> ptr \<Rightarrow> ('d handles \<times> nat) res" where
  "cflare_handle_new st type data deleter context =
     bindE (assertE (loaded st) Assert_failed) (\<lambda>_.
     bindE (new_handle st) (\<lambda>(st', slot). case slot of
         None \<Rightarrow> Inr (st', 0)
       | Some i \<Rightarrow>
           bindE (assertE (length type + 1 \<le> 32) Out_of_bounds) (\<lambda>_.
             let ref = (refs st' ! i)\<lparr>ref_type := type, ref_data := data, ref_deleter := deleter,
                         ref_deleter_context := context, ref_count := 1\<rparr>
             in Inr (st'\<lparr>refs := (refs st')[i := ref]\<rparr>, ref_id ref))))"

definition invalid_handle :: fault where
  "invalid_handle = Fatal ''handle: invalid handle''"

definition cflare_handle_reference :: "'d handles \<Rightarrow> nat \<Rightarrow> 'd handles res" where
  "cflare_handle_reference st h =
     bindE (assertE (h \<noteq> 0) Assert_failed) (\<lambda>_.
     bindE (assertE (loaded st) Assert_failed) (\<lambda>_.
     bindE (derefE (find_handle st h) invalid_handle) (\<lambda>i.
       let ref = refs st ! i
       in Inr (st\<lparr>refs := (refs st)[i := ref\<lparr>ref_count := (ref_count ref + 1) mod 2 ^ 64\<rparr>]\<rparr>))))"

definition cflare_handle_unreference ::
  "'d handles \<Rightarrow> nat \<Rightarrow> ('d handles \<times> 'd option deleter_call list) res" where
  "cflare_handle_unreference st h =
     bindE (assertE (h \<noteq> 0) Assert_failed) (\<lambda>_.
     bindE (assertE (loaded st) Assert_failed) (\<lambda>_.
     bindE (derefE (find_handle st h) invalid_handle) (\<lambda>i.
       let ref = refs st ! i;
           cnt = (if ref_count ref = 0 then 2 ^ 64 - 1 else ref_count ref - 1)
       in if cnt = 0
          then Inr (st\<lparr>refs := (refs st)[i := ref\<lparr>ref_count := cnt, ref_id := 0\<rparr>]\<rparr>,
                    call_deleter (ref_deleter ref) (ref_deleter_context ref) (ref_data ref))
          else Inr (st\<lparr>refs := (refs st)[i := ref\<lparr>ref_count := cnt\<rparr>]\<rparr>, []))))"

definition cflare_handle_data :: "'d handles \<Rightarrow> nat \<Rightarrow> 'd option res" where
  "cflare_handle_data st h =
     bindE (assertE (h \<noteq> 0) Assert_failed) (\<lambda>_.
     bindE (assertE (loaded st) Assert_failed) (\<lambda>_.
     bindE (derefE (find_handle st h) invalid_handle) (\<lambda>i. Inr (ref_data (refs st ! i)))))"

section \<open>The map from handles to references\<close>

text \<open>
  The invariant: the used ids are distinct and were handed out, and every used slot has a
  reference. \<open>handle_map\<close> is the finite map a state stands for.
\<close>

definition handles_inv :: "'d handles \<Rightarrow> bool" where
  "handles_inv st = (loaded st \<and> length (refs st) = MAX_REFS \<and> curid st < 2 ^ 64 \<and>
     (\<forall>ref \<in> set (refs st). ref_id ref \<le> curid st \<and> (ref_id ref \<noteq> 0 \<longrightarrow> 0 < ref_count ref)) \<and>
     (\<forall>i j. i < length (refs st) \<longrightarrow> j < length (refs st) \<longrightarrow> ref_id (refs st ! i) \<noteq> 0 \<longrightarrow>
        ref_id (refs st ! i) = ref_id (refs st ! j) \<longrightarrow> i = j))"

definition handle_map :: "'d handles \<Rightarrow> nat \<Rightarrow> 'd reference option" where
  "handle_map st h = (if h = 0 then None else map_option (\<lambda>i. refs st ! i) (find_handle st h))"

lemma find_slot_Some:
  "find_slot P rs k = Some i \<Longrightarrow> k \<le> i \<and> i < k + length rs \<and> P (rs ! (i - k))"
proof (induction rs arbitrary: k)
  case (Cons r rs)
  then show ?case by (fastforce split: if_splits simp: nth_Cons' Suc_diff_le)
qed simp

lemma find_slot_None: "find_slot P rs k = None \<longleftrightarrow> (\<forall>r \<in> set rs. \<not> P r)"
  by (induction rs arbitrary: k) simp_all

lemma find_handle_Some: "find_handle st h = Some i \<Longrightarrow> i < length (refs st) \<and> ref_id (refs st ! i) = h"
  using find_slot_Some [of "\<lambda>ref. ref_id ref = h" "refs st" 0 i] by (simp add: find_handle_def)

lemma find_handle_unique:
  assumes "handles_inv st" and "i < length (refs st)" and "ref_id (refs st ! i) \<noteq> 0"
  shows "find_handle st (ref_id (refs st ! i)) = Some i"
proof (cases "find_handle st (ref_id (refs st ! i))")
  case None
  with assms(2) show ?thesis by (auto simp: find_handle_def find_slot_None)
next
  case (Some j)
  with find_handle_Some [OF Some] assms show ?thesis unfolding handles_inv_def by metis
qed

lemma inv_ids:
  "handles_inv st \<Longrightarrow> i < length (refs st) \<Longrightarrow> j < length (refs st) \<Longrightarrow> ref_id (refs st ! i) \<noteq> 0 \<Longrightarrow>
   ref_id (refs st ! i) = ref_id (refs st ! j) \<Longrightarrow> i = j"
  unfolding handles_inv_def by blast

lemma handle_map_iff:
  assumes "handles_inv st"
  shows "handle_map st h = Some ref \<longleftrightarrow> h \<noteq> 0 \<and> ref \<in> set (refs st) \<and> ref_id ref = h"
proof
  assume "handle_map st h = Some ref"
  then show "h \<noteq> 0 \<and> ref \<in> set (refs st) \<and> ref_id ref = h"
    using find_handle_Some by (auto simp: handle_map_def split: if_splits)
next
  assume "h \<noteq> 0 \<and> ref \<in> set (refs st) \<and> ref_id ref = h"
  then show "handle_map st h = Some ref"
    using find_handle_unique [OF assms] by (auto simp: handle_map_def in_set_conv_nth)
qed

lemma map_eqI: "(\<And>k r. f k = Some r \<longleftrightarrow> g k = Some r) \<Longrightarrow> f = g"
  by (rule ext) (metis not_Some_eq)

text \<open>Replacing the reference of a slot by one with the id it had, with none, or with a fresh one.\<close>

definition set_slot :: "'d handles \<Rightarrow> nat \<Rightarrow> 'd reference \<Rightarrow> nat \<Rightarrow> 'd handles" where
  "set_slot st i ref cur = st\<lparr>refs := (refs st)[i := ref], curid := cur\<rparr>"

lemma set_slot_inv:
  assumes inv: "handles_inv st" and i: "i < length (refs st)" and cur: "curid st \<le> cur" "cur < 2 ^ 64"
    and cnt: "ref_id ref \<noteq> 0 \<longrightarrow> 0 < ref_count ref"
    and new: "ref_id ref \<in> {0, ref_id (refs st ! i)} \<or> curid st < ref_id ref \<and> ref_id ref \<le> cur"
  shows "handles_inv (set_slot st i ref cur)"
proof -
  have old: "ref_id r \<le> curid st" if "r \<in> set (refs st)" for r
    using inv that by (simp add: handles_inv_def)
  have le: "ref_id ref \<le> cur" using new cur(1) old [OF nth_mem [OF i]] by auto
  have ids: "j = k" if "j < length (refs st)" "k < length (refs st)" "ref_id ((refs st)[i := ref] ! j) \<noteq> 0"
    "ref_id ((refs st)[i := ref] ! j) = ref_id ((refs st)[i := ref] ! k)" for j k
  proof -
    have other: "ref_id ref \<noteq> ref_id (refs st ! m)" if m: "m < length (refs st)" "m \<noteq> i" "ref_id ref \<noteq> 0" for m
    proof
      assume eq: "ref_id ref = ref_id (refs st ! m)"
      with new m(3) old [OF nth_mem [OF m(1)]] have "ref_id (refs st ! m) = ref_id (refs st ! i)" by auto
      with inv_ids [OF inv m(1) i] eq m(2,3) show False by simp
    qed
    consider "j = i" | "k = i" | "j \<noteq> i" "k \<noteq> i" by blast
    then show ?thesis
    proof cases
      case 1
      with that other [of k] i show ?thesis by (cases "k = i") auto
    next
      case 2
      with that other [of j] i show ?thesis by (cases "j = i") auto
    next
      case 3
      with that inv_ids [OF inv that(1,2)] show ?thesis by simp
    qed
  qed
  have "ref_id r \<le> cur \<and> (ref_id r \<noteq> 0 \<longrightarrow> 0 < ref_count r)" if "r \<in> set ((refs st)[i := ref])" for r
  proof -
    from that have "r = ref \<or> r \<in> set (refs st)"
      using set_update_subset_insert [of "refs st" i ref] by blast
    then show ?thesis
    proof
      assume r: "r \<in> set (refs st)"
      with inv have "ref_id r \<noteq> 0 \<longrightarrow> 0 < ref_count r" by (simp add: handles_inv_def)
      with le_trans [OF old [OF r] cur(1)] show ?thesis by blast
    qed (use le cnt in simp)
  qed
  with ids inv cur(2) show ?thesis by (simp add: handles_inv_def set_slot_def)
qed

lemma set_slot_map:
  assumes inv: "handles_inv st" and inv': "handles_inv (set_slot st i ref cur)"
    and i: "i < length (refs st)"
  shows "handle_map (set_slot st i ref cur) =
    (\<lambda>h. if h = 0 then None else if h = ref_id ref then Some ref
         else if h = ref_id (refs st ! i) then None else handle_map st h)"
proof (rule map_eqI)
  fix h r
  have r: "ref \<in> set ((refs st)[i := ref])" using i by (rule set_update_memI)
  show "handle_map (set_slot st i ref cur) h = Some r \<longleftrightarrow>
    (if h = 0 then None else if h = ref_id ref then Some ref
     else if h = ref_id (refs st ! i) then None else handle_map st h) = Some r"
  proof (cases "h = 0 \<or> h = ref_id ref")
    case True
    have "handle_map (set_slot st i ref cur) (ref_id ref) = Some ref" if "ref_id ref \<noteq> 0"
      using handle_map_iff [OF inv', of "ref_id ref" ref] r that by (simp add: set_slot_def)
    moreover have "handle_map (set_slot st i ref cur) 0 = None" by (simp add: handle_map_def)
    ultimately show ?thesis using True by (cases "h = 0") auto
  next
    case False
    have "r \<in> set ((refs st)[i := ref]) \<longleftrightarrow> r \<in> set (refs st) \<and> h \<noteq> ref_id (refs st ! i)"
      if "ref_id r = h"
    proof
      assume "r \<in> set ((refs st)[i := ref])"
      then obtain j where j: "j < length (refs st)" "(refs st)[i := ref] ! j = r"
        by (auto simp: in_set_conv_nth)
      have "j \<noteq> i"
      proof
        assume "j = i"
        with j i have "r = ref" by simp
        with that False show False by simp
      qed
      with j have r: "refs st ! j = r" by simp
      have "h \<noteq> ref_id (refs st ! i)"
        using inv_ids [OF inv j(1) i] r that False \<open>j \<noteq> i\<close> by auto
      with r j(1) show "r \<in> set (refs st) \<and> h \<noteq> ref_id (refs st ! i)" by auto
    next
      assume "r \<in> set (refs st) \<and> h \<noteq> ref_id (refs st ! i)"
      then obtain j where j: "j < length (refs st)" "refs st ! j = r"
        and ne: "h \<noteq> ref_id (refs st ! i)" by (auto simp: in_set_conv_nth)
      then have "j \<noteq> i" using that by auto
      with j show "r \<in> set ((refs st)[i := ref])"
        by (metis length_list_update nth_list_update_neq nth_mem)
    qed
    with False show ?thesis
      using handle_map_iff [OF inv', of h r] handle_map_iff [OF inv, of h r]
      by (auto simp: set_slot_def)
  qed
qed

text \<open>What each operation does to the map.\<close>

lemma handle_map_find:
  "handle_map st h = Some ref \<Longrightarrow> \<exists>i. h \<noteq> 0 \<and> find_handle st h = Some i \<and> refs st ! i = ref \<and>
     i < length (refs st) \<and> ref_id ref = h"
  using find_handle_Some by (auto simp: handle_map_def split: if_splits)

lemma change_slot:
  assumes inv: "handles_inv st" and map: "handle_map st h = Some ref" and find: "find_handle st h = Some i"
    and id: "ref_id ref' = h" "0 < ref_count ref'" "refs st ! i = ref"
  shows "handles_inv (st\<lparr>refs := (refs st)[i := ref']\<rparr>) \<and>
    handle_map (st\<lparr>refs := (refs st)[i := ref']\<rparr>) = (handle_map st)(h \<mapsto> ref')"
proof -
  have i: "i < length (refs st)" "ref_id (refs st ! i) = h" using find_handle_Some [OF find] by auto
  have h: "h \<noteq> 0" using map by (auto simp: handle_map_def split: if_splits)
  have cur: "curid st < 2 ^ 64" using inv by (simp add: handles_inv_def)
  have eq: "set_slot st i ref' (curid st) = st\<lparr>refs := (refs st)[i := ref']\<rparr>" by (simp add: set_slot_def)
  have inv': "handles_inv (set_slot st i ref' (curid st))"
    using set_slot_inv [OF inv i(1) _ cur] id i(2) by simp
  have "handle_map (set_slot st i ref' (curid st)) = (handle_map st)(h \<mapsto> ref')"
    unfolding set_slot_map [OF inv inv' i(1)] using h id i(2) by (auto simp: fun_eq_iff handle_map_def)
  with inv' eq show ?thesis by simp
qed

lemma free_slot:
  assumes inv: "handles_inv st" and map: "handle_map st h = Some ref" and find: "find_handle st h = Some i"
    and id: "ref_id ref' = 0"
  shows "handles_inv (st\<lparr>refs := (refs st)[i := ref']\<rparr>) \<and>
    handle_map (st\<lparr>refs := (refs st)[i := ref']\<rparr>) = (handle_map st)(h := None)"
proof -
  have i: "i < length (refs st)" "ref_id (refs st ! i) = h" using find_handle_Some [OF find] by auto
  have cur: "curid st < 2 ^ 64" using inv by (simp add: handles_inv_def)
  have eq: "set_slot st i ref' (curid st) = st\<lparr>refs := (refs st)[i := ref']\<rparr>" by (simp add: set_slot_def)
  have inv': "handles_inv (set_slot st i ref' (curid st))"
    using set_slot_inv [OF inv i(1) _ cur] id by simp
  have "handle_map (set_slot st i ref' (curid st)) = (handle_map st)(h := None)"
    unfolding set_slot_map [OF inv inv' i(1)] using id i(2) by (auto simp: fun_eq_iff handle_map_def)
  with inv' eq show ?thesis by simp
qed

lemma handle_reference_ok:
  assumes inv: "handles_inv st" and map: "handle_map st h = Some ref" and less: "ref_count ref + 1 < 2 ^ 64"
  shows "\<exists>st'. cflare_handle_reference st h = Inr st' \<and> handles_inv st' \<and>
    handle_map st' = (handle_map st)(h \<mapsto> ref\<lparr>ref_count := ref_count ref + 1\<rparr>)"
proof -
  from handle_map_find [OF map] obtain i where
    i: "h \<noteq> 0" "find_handle st h = Some i" "refs st ! i = ref" "ref_id ref = h" by blast
  have "loaded st" using inv by (simp add: handles_inv_def)
  with change_slot [OF inv map i(2) _ _ i(3), of "ref\<lparr>ref_count := ref_count ref + 1\<rparr>"] i less
  show ?thesis by (simp add: cflare_handle_reference_def Let_def)
qed

lemma handle_unreference_ok:
  assumes inv: "handles_inv st" and map: "handle_map st h = Some ref"
  shows "\<exists>st'. cflare_handle_unreference st h =
      Inr (st', if ref_count ref = 1 then call_deleter (ref_deleter ref) (ref_deleter_context ref) (ref_data ref)
                else []) \<and> handles_inv st' \<and>
    handle_map st' = (handle_map st)(h := if ref_count ref = 1 then None
      else Some (ref\<lparr>ref_count := ref_count ref - 1\<rparr>))"
proof -
  from handle_map_find [OF map] obtain i where
    i: "h \<noteq> 0" "find_handle st h = Some i" "refs st ! i = ref" "ref_id ref = h" "i < length (refs st)"
    by blast
  then have "0 < ref_count ref" using inv nth_mem [OF i(5)] by (auto simp: handles_inv_def)
  moreover have "loaded st" using inv by (simp add: handles_inv_def)
  ultimately show ?thesis
    using change_slot [OF inv map i(2) _ _ i(3), of "ref\<lparr>ref_count := ref_count ref - 1\<rparr>"]
      free_slot [OF inv map i(2), of "ref\<lparr>ref_count := ref_count ref - 1, ref_id := 0\<rparr>"] i
    by (cases "ref_count ref = 1") (simp_all add: cflare_handle_unreference_def Let_def)
qed

lemma handle_new_ok:
  assumes inv: "handles_inv st" and free: "find_slot (\<lambda>ref. ref_id ref = 0) (refs st) 0 = Some i"
    and cur: "curid st + 1 < 2 ^ 64" and len: "length type < 32"
  shows "\<exists>st' ref. cflare_handle_new st type data deleter context = Inr (st', curid st + 1) \<and>
    handles_inv st' \<and> curid st' = curid st + 1 \<and> handle_map st' = (handle_map st)(curid st + 1 \<mapsto> ref) \<and>
    ref_data ref = data \<and> ref_count ref = 1 \<and> ref_deleter ref = deleter \<and> ref_deleter_context ref = context"
proof -
  from find_slot_Some [OF free] have i: "i < length (refs st)" "ref_id (refs st ! i) = 0" by auto
  let ?ref = "(refs st ! i)\<lparr>ref_id := curid st + 1, ref_type := type, ref_data := data, ref_deleter := deleter,
    ref_deleter_context := context, ref_count := 1\<rparr>"
  have inv': "handles_inv (set_slot st i ?ref (curid st + 1))"
    using set_slot_inv [OF inv i(1)] cur by simp
  have "loaded st" using inv by (simp add: handles_inv_def)
  then have "cflare_handle_new st type data deleter context =
      Inr (set_slot st i ?ref (curid st + 1), curid st + 1)"
    using free cur len i by (simp add: cflare_handle_new_def new_handle_def Let_def set_slot_def)
  moreover have "handle_map (set_slot st i ?ref (curid st + 1)) = (handle_map st)(curid st + 1 \<mapsto> ?ref)"
    unfolding set_slot_map [OF inv inv' i(1)] using i(2) by (auto simp: fun_eq_iff handle_map_def)
  ultimately show ?thesis
    using inv' by (intro exI [of _ "set_slot st i ?ref (curid st + 1)"] exI [of _ ?ref])
      (simp add: set_slot_def)
qed

lemma handle_map_fresh:
  assumes "handles_inv st" and "curid st < h"
  shows "handle_map st h = None"
proof (cases "handle_map st h")
  case (Some ref)
  with handle_map_iff [OF assms(1)] have "ref \<in> set (refs st)" "ref_id ref = h" by auto
  with assms show ?thesis by (auto simp: handles_inv_def)
qed simp

lemma handle_data_ok:
  "handles_inv st \<Longrightarrow> handle_map st h = Some ref \<Longrightarrow> cflare_handle_data st h = Inr (ref_data ref)"
  using handle_map_find [of st h ref] by (auto simp: cflare_handle_data_def handles_inv_def)

lemma handle_unknown:
  assumes "loaded st" and "handle_map st h = None" and "h \<noteq> 0"
  shows "cflare_handle_reference st h = Inl invalid_handle"
    and "cflare_handle_unreference st h = Inl invalid_handle"
    and "cflare_handle_data st h = Inl invalid_handle"
  using assms
  by (simp_all add: handle_map_def cflare_handle_reference_def cflare_handle_unreference_def
      cflare_handle_data_def)

section \<open>Sequences of references\<close>

fun reference_times :: "nat \<Rightarrow> 'd handles \<Rightarrow> nat \<Rightarrow> 'd handles res" where
  "reference_times 0 st h = Inr st"
| "reference_times (Suc n) st h = bindE (cflare_handle_reference st h) (\<lambda>st'. reference_times n st' h)"

fun unreference_times :: "nat \<Rightarrow> 'd handles \<Rightarrow> nat \<Rightarrow> ('d handles \<times> 'd option deleter_call list) res" where
  "unreference_times 0 st h = Inr (st, [])"
| "unreference_times (Suc n) st h =
     bindE (cflare_handle_unreference st h) (\<lambda>(st', cs).
     bindE (unreference_times n st' h) (\<lambda>(st'', ds). Inr (st'', cs @ ds)))"

lemma reference_times_ok:
  assumes "handles_inv st" and "handle_map st h = Some ref" and "ref_count ref + n < 2 ^ 64"
  shows "\<exists>st'. reference_times n st h = Inr st' \<and> handles_inv st' \<and>
    handle_map st' = (handle_map st)(h \<mapsto> ref\<lparr>ref_count := ref_count ref + n\<rparr>)"
  using assms
proof (induction n arbitrary: st ref)
  case 0
  then show ?case by (auto simp: fun_upd_idem)
next
  case (Suc n)
  from handle_reference_ok [OF Suc.prems(1,2)] Suc.prems(3) obtain st1 where
    st1: "cflare_handle_reference st h = Inr st1" "handles_inv st1"
      "handle_map st1 = (handle_map st)(h \<mapsto> ref\<lparr>ref_count := ref_count ref + 1\<rparr>)" by auto
  then have m: "handle_map st1 h = Some (ref\<lparr>ref_count := ref_count ref + 1\<rparr>)" by simp
  have "ref_count (ref\<lparr>ref_count := ref_count ref + 1\<rparr>) + n < 2 ^ 64" using Suc.prems(3) by simp
  from Suc.IH [OF st1(2) m this] obtain st2 where
    "reference_times n st1 h = Inr st2" "handles_inv st2"
    "handle_map st2 = (handle_map st1)(h \<mapsto> ref\<lparr>ref_count := ref_count ref + 1,
       ref_count := ref_count (ref\<lparr>ref_count := ref_count ref + 1\<rparr>) + n\<rparr>)" by blast
  with st1(1) show ?case unfolding st1(3) by (simp del: fun_upd_apply)
qed

lemma unreference_times_ok:
  assumes "handles_inv st" and "handle_map st h = Some ref" and "n < ref_count ref"
  shows "\<exists>st'. unreference_times n st h = Inr (st', []) \<and> handles_inv st' \<and>
    handle_map st' = (handle_map st)(h \<mapsto> ref\<lparr>ref_count := ref_count ref - n\<rparr>)"
  using assms
proof (induction n arbitrary: st ref)
  case 0
  then show ?case by (auto simp: fun_upd_idem)
next
  case (Suc n)
  from handle_unreference_ok [OF Suc.prems(1,2)] Suc.prems(3) obtain st1 where
    st1: "cflare_handle_unreference st h = Inr (st1, [])" "handles_inv st1"
      "handle_map st1 = (handle_map st)(h \<mapsto> ref\<lparr>ref_count := ref_count ref - 1\<rparr>)" by auto
  then have m: "handle_map st1 h = Some (ref\<lparr>ref_count := ref_count ref - 1\<rparr>)" by simp
  have "n < ref_count (ref\<lparr>ref_count := ref_count ref - 1\<rparr>)" using Suc.prems(3) by simp
  from Suc.IH [OF st1(2) m this] obtain st2 where
    "unreference_times n st1 h = Inr (st2, [])" "handles_inv st2"
    "handle_map st2 = (handle_map st1)(h \<mapsto> ref\<lparr>ref_count := ref_count ref - 1,
       ref_count := ref_count (ref\<lparr>ref_count := ref_count ref - 1\<rparr>) - n\<rparr>)" by blast
  with st1(1) show ?case unfolding st1(3) by (simp del: fun_upd_apply)
qed

section \<open>Properties\<close>

text \<open>A freshly loaded system, for the witnesses.\<close>

definition no_handles :: "int handles" where
  "no_handles = \<lparr>refs = replicate MAX_REFS free_reference, curid = 0, loaded = True\<rparr>"

lemma no_handles: "handles_inv no_handles" "find_slot (\<lambda>ref. ref_id ref = 0) (refs no_handles) 0 = Some 0"
  "curid no_handles = 0" "handle_map no_handles = Map.empty"
proof -
  have n: "MAX_REFS = Suc 254" by (simp add: MAX_REFS_def)
  have "refs no_handles = free_reference # replicate 254 free_reference"
    unfolding no_handles_def n replicate_Suc by simp
  then show "find_slot (\<lambda>ref. ref_id ref = 0) (refs no_handles) 0 = Some 0"
    by (simp add: free_reference_def)
qed (simp_all add: handles_inv_def no_handles_def free_reference_def fun_eq_iff handle_map_def
    find_handle_def find_slot_None)

text \<open>
  C22: The life of a handle. A new handle is one more than any handed out before and stands for its
  data with one reference; after any number of further references as many releases call nothing
  and leave the data accessible, and the release after those calls the deleter exactly once, with
  the data and its context, and removes the handle, so that every handle is what it was before.
\<close>

theorem handle_lifecycle:
  assumes "handles_inv st" and "find_slot (\<lambda>ref. ref_id ref = 0) (refs st) 0 \<noteq> None"
    and "curid st + 1 < 2 ^ 64" and "length type < 32" and "n + 1 < 2 ^ 64"
  shows "\<exists>st1 st2 st3 st4.
    cflare_handle_new st type data (Some f) context = Inr (st1, curid st + 1) \<and>
    reference_times n st1 (curid st + 1) = Inr st2 \<and>
    unreference_times n st2 (curid st + 1) = Inr (st3, []) \<and>
    cflare_handle_data st3 (curid st + 1) = Inr data \<and>
    cflare_handle_unreference st3 (curid st + 1) = Inr (st4, [(f, context, data)]) \<and>
    handles_inv st4 \<and> handle_map st4 = handle_map st"
proof -
  let ?h = "curid st + 1"
  from assms(2) obtain i where "find_slot (\<lambda>ref. ref_id ref = 0) (refs st) 0 = Some i" by blast
  from handle_new_ok [OF assms(1) this assms(3,4), of data "Some f" "context"] obtain st1 ref where
    st1: "cflare_handle_new st type data (Some f) context = Inr (st1, ?h)" "handles_inv st1"
      "handle_map st1 = (handle_map st)(?h \<mapsto> ref)" "ref_data ref = data" "ref_count ref = 1"
      "ref_deleter ref = Some f" "ref_deleter_context ref = context" by blast
  from reference_times_ok [OF st1(2), of ?h ref n] st1(3,5) assms(5) obtain st2 where
    st2: "reference_times n st1 ?h = Inr st2" "handles_inv st2"
      "handle_map st2 = (handle_map st)(?h \<mapsto> ref\<lparr>ref_count := 1 + n\<rparr>)" by auto
  from unreference_times_ok [OF st2(2), of ?h "ref\<lparr>ref_count := 1 + n\<rparr>" n] st2(3) obtain st3 where
    st3: "unreference_times n st2 ?h = Inr (st3, [])" "handles_inv st3"
      "handle_map st3 = (handle_map st)(?h \<mapsto> ref\<lparr>ref_count := 1\<rparr>)" by auto
  from st3(3) have m: "handle_map st3 ?h = Some (ref\<lparr>ref_count := 1\<rparr>)" by simp
  from handle_unreference_ok [OF st3(2) m] st1(4,6,7) obtain st4 where
    st4: "cflare_handle_unreference st3 ?h = Inr (st4, [(f, context, data)])" "handles_inv st4"
      "handle_map st4 = (handle_map st3)(?h := None)" by auto
  have "handle_map st ?h = None" using handle_map_fresh [OF assms(1)] by simp
  then have "handle_map st4 = handle_map st" using st4(3) st3(3) by (auto simp: fun_eq_iff)
  moreover have "cflare_handle_data st3 ?h = Inr data"
    using handle_data_ok [OF st3(2) m] st1(4) by simp
  ultimately show ?thesis using st1(1) st2(1) st3(1) st4(1,2) by blast
qed

lemma handle_lifecycle_witness:
  "\<exists>st1 st2 st3 st4. cflare_handle_new no_handles ''socket'' (Some 7) (Some 3) None = Inr (st1, 1) \<and>
    reference_times 2 st1 1 = Inr st2 \<and> unreference_times 2 st2 1 = Inr (st3, []) \<and>
    cflare_handle_data st3 1 = Inr (Some 7) \<and>
    cflare_handle_unreference st3 1 = Inr (st4, [(3, None, Some 7)]) \<and> handle_map st4 = Map.empty"
  using handle_lifecycle [OF no_handles(1), of "''socket''" 2 "Some 7" 3 None]
  unfolding no_handles by (fastforce simp del: reference_times.simps unreference_times.simps)

text \<open>
  A handle that is not live is never mistaken for another: it aborts every operation, and making
  a new handle gives a different one and does not make it live again. When all 255 slots are taken,
  \<open>cflare_handle_new\<close> returns 0 and changes nothing.
\<close>

theorem handle_stale_rejected:
  assumes "handles_inv st" and "handle_map st h = None" and "0 < h" and "h \<le> curid st"
    and "curid st + 1 < 2 ^ 64" and "length type < 32"
  shows "cflare_handle_reference st h = Inl invalid_handle \<and>
    cflare_handle_unreference st h = Inl invalid_handle \<and> cflare_handle_data st h = Inl invalid_handle \<and>
    (\<exists>st' h'. cflare_handle_new st type data deleter context = Inr (st', h') \<and> h' \<noteq> h \<and>
       handles_inv st' \<and> handle_map st' h = None \<and>
       (h' = 0 \<longleftrightarrow> (\<forall>ref \<in> set (refs st). ref_id ref \<noteq> 0)) \<and> (h' = 0 \<longrightarrow> st' = st))"
proof -
  have l: "loaded st" using assms(1) by (simp add: handles_inv_def)
  have "\<exists>st' h'. cflare_handle_new st type data deleter context = Inr (st', h') \<and> h' \<noteq> h \<and>
       handles_inv st' \<and> handle_map st' h = None \<and>
       (h' = 0 \<longleftrightarrow> (\<forall>ref \<in> set (refs st). ref_id ref \<noteq> 0)) \<and> (h' = 0 \<longrightarrow> st' = st)"
  proof (cases "find_slot (\<lambda>ref. ref_id ref = 0) (refs st) 0")
    case None
    then have "cflare_handle_new st type data deleter context = Inr (st, 0)"
      using l by (simp add: cflare_handle_new_def new_handle_def)
    with None assms(1-3) show ?thesis by (auto simp: find_slot_None)
  next
    case (Some i)
    from handle_new_ok [OF assms(1) Some assms(5,6), of data deleter "context"] obtain st' ref where
      "cflare_handle_new st type data deleter context = Inr (st', curid st + 1)" "handles_inv st'"
      "handle_map st' = (handle_map st)(curid st + 1 \<mapsto> ref)" by blast
    moreover have "\<not> (\<forall>ref \<in> set (refs st). ref_id ref \<noteq> 0)"
      using Some find_slot_None [of "\<lambda>ref. ref_id ref = 0" "refs st" 0] by auto
    ultimately show ?thesis using assms(2,4) by auto
  qed
  with handle_unknown [OF l assms(2)] assms(3) show ?thesis by simp
qed

lemma handle_stale_rejected_witness:
  "handle_map (no_handles\<lparr>curid := 1\<rparr>) 1 = None \<and>
    cflare_handle_data (no_handles\<lparr>curid := 1\<rparr>) 1 = Inl invalid_handle \<and>
    (\<exists>st' h'. cflare_handle_new (no_handles\<lparr>curid := 1\<rparr>) ''file'' (Some 8) None None = Inr (st', h') \<and> h' \<noteq> 1)"
proof -
  have m: "handle_map (no_handles\<lparr>curid := 1\<rparr>) 1 = None"
    using fun_cong [OF no_handles(4), of 1] by (simp add: handle_map_def no_handles_def find_handle_def)
  moreover have "handles_inv (no_handles\<lparr>curid := 1\<rparr>)"
    by (simp add: handles_inv_def no_handles_def free_reference_def)
  from handle_stale_rejected [OF this m, of "''file''" "Some 8" None None] show ?thesis using m by auto
qed

end
