(* ===== verification/Library.thy ===== *)
theory Library
  imports Hook Handle Options HttpStatus Headers
begin

text \<open>
  What stands on the components of the library: the logging functions of \<open>src/cflare/util.c\<close>, which hand
  every message to the hooks of the event \<open>Log\<close>, and the loading and unloading of \<open>src/cflare/cflare.c\<close>.
\<close>

section \<open>Logging\<close>

text \<open>
  What a hook does is an argument (\<open>run\<close>), as for \<open>cflare_hook_call\<close>: it gets the stack of arguments and
  the state \<open>'s\<close> of everything the hooks can change; the stack of results is a null pointer here. The
  text printed is the pair of a stream and the characters.
\<close>

datatype stream = Stdout | Stderr

type_synonym ('f, 's) hook_runner = "addr \<Rightarrow> 'f cflare_hookstack option \<Rightarrow> 's \<Rightarrow> ptr \<Rightarrow> 's \<times> bool"

text \<open>The result is the state after the hooks and the calls that free the arguments.\<close>

definition call_log_hook ::
  "('f, 's) hook_runner \<Rightarrow> 'f cflare_hookstack_elm \<Rightarrow> 'p hook_state \<Rightarrow> 's \<Rightarrow> string \<Rightarrow> string
   \<Rightarrow> ('s \<times> 'f hookstack_data deleter_call list) res" where
  "call_log_hook run junk st world level str =
     bindE (cflare_hookstack_push_string junk (Some cflare_hookstack_new) str) (\<lambda>args.
     bindE (cflare_hookstack_push_string junk args level) (\<lambda>args'.
     bindE (cflare_hook_call run st ''Log'' args' world) (\<lambda>(world', stopped).
     bindE (cflare_hookstack_delete args') (\<lambda>freed. Inr (world', freed)))))"

definition log_with ::
  "string \<Rightarrow> stream \<Rightarrow> string \<Rightarrow> ('f, 's) hook_runner \<Rightarrow> 'f cflare_hookstack_elm \<Rightarrow> 'p hook_state \<Rightarrow> 's \<Rightarrow> string
   \<Rightarrow> ('s \<times> (stream \<times> string)) res" where
  "log_with level stream prefix run junk st world str =
     bindE (call_log_hook run junk st world level str) (\<lambda>(world', freed).
       Inr (world', stream, prefix @ str @ [LF]))"

definition cflare_debug_c ::
  "('f, 's) hook_runner \<Rightarrow> 'f cflare_hookstack_elm \<Rightarrow> 'p hook_state \<Rightarrow> 's \<Rightarrow> string \<Rightarrow> ('s \<times> (stream \<times> string)) res" where
  "cflare_debug_c = log_with ''debug'' Stderr ''debug: ''"

definition cflare_info_c ::
  "('f, 's) hook_runner \<Rightarrow> 'f cflare_hookstack_elm \<Rightarrow> 'p hook_state \<Rightarrow> 's \<Rightarrow> string \<Rightarrow> ('s \<times> (stream \<times> string)) res" where
  "cflare_info_c = log_with ''info'' Stdout ''info: ''"

definition cflare_log_c ::
  "('f, 's) hook_runner \<Rightarrow> 'f cflare_hookstack_elm \<Rightarrow> 'p hook_state \<Rightarrow> 's \<Rightarrow> string \<Rightarrow> ('s \<times> (stream \<times> string)) res" where
  "cflare_log_c = log_with ''log'' Stdout []"

definition cflare_warn_c ::
  "('f, 's) hook_runner \<Rightarrow> 'f cflare_hookstack_elm \<Rightarrow> 'p hook_state \<Rightarrow> 's \<Rightarrow> string \<Rightarrow> ('s \<times> (stream \<times> string)) res" where
  "cflare_warn_c = log_with ''warn'' Stderr ''warning: ''"

text \<open>A fatal message is logged like the others; then the program is aborted.\<close>

definition cflare_fatal_c ::
  "('f, 's) hook_runner \<Rightarrow> 'f cflare_hookstack_elm \<Rightarrow> 'p hook_state \<Rightarrow> 's \<Rightarrow> string \<Rightarrow> unit res" where
  "cflare_fatal_c run junk st world str =
     bindE (log_with ''fatal'' Stderr ''fatal: '' run junk st world str) (\<lambda>_. Inl (Fatal str))"

section \<open>Loading and unloading\<close>

record ('d, 'p) library =
  lib_handles :: "'d handles"
  lib_hooks :: "'p hook_state"
  lib_options :: "options_state option"
  lib_statuses :: "status_cache option"
  lib_headers :: "(headers_state \<times> cflare_header list) option"

text \<open>\<open>status_files\<close> and \<open>header_files\<close> are the files found below the directory of the configuration.\<close>

definition cflare_load ::
  "(nat \<Rightarrow> char) \<Rightarrow> string option list \<Rightarrow> string option list \<Rightarrow> ('d, 'p) library \<Rightarrow> string list
   \<Rightarrow> ('d, 'p) library res" where
  "cflare_load junk status_files header_files lib argv =
     bindE (cflare_handle_load (lib_handles lib)) (\<lambda>handles.
     bindE (cflare_hook_load (lib_hooks lib)) (\<lambda>hooks.
     bindE (cflare_options_load argv) (\<lambda>opts.
     bindE (cflare_httpstatus_load junk status_files) (\<lambda>statuses.
     bindE (cflare_headers_load junk header_files) (\<lambda>headers.
       Inr (lib\<lparr>lib_handles := handles, lib_hooks := hooks, lib_options := Some opts,
         lib_statuses := Some statuses, lib_headers := Some headers\<rparr>))))))"

definition cflare_unload :: "('d, 'p) library \<Rightarrow> ('d, 'p) library res" where
  "cflare_unload lib =
     bindE (derefE (lib_headers lib) Null_deref) (\<lambda>headers.
     bindE (cflare_headers_unload (fst headers)) (\<lambda>_.
     bindE (derefE (lib_statuses lib) Null_deref) (\<lambda>statuses.
     bindE (cflare_httpstatus_unload statuses) (\<lambda>_.
     bindE (derefE (lib_options lib) Null_deref) (\<lambda>opts.
     bindE (cflare_options_unload opts) (\<lambda>_.
     bindE (cflare_hook_unload (lib_hooks lib)) (\<lambda>(hooks, _).
     bindE (cflare_handle_unload (lib_handles lib)) (\<lambda>(handles, leaked).
       Inr (lib\<lparr>lib_handles := handles, lib_hooks := hooks, lib_options := None,
         lib_statuses := None, lib_headers := None\<rparr>)))))))))"

text \<open>The numbers of the version are set by the build; without all of them the version is unknown.\<close>

definition version_number :: "nat option \<Rightarrow> nat" where
  "version_number v = (case v of None \<Rightarrow> 0 | Some n \<Rightarrow> n)"

definition cflare_version :: "string option \<Rightarrow> string option \<Rightarrow> string option \<Rightarrow> string" where
  "cflare_version major minor patch = (case (major, minor, patch) of
       (Some a, Some b, Some c) \<Rightarrow> a @ ''.'' @ b @ ''.'' @ c
     | _ \<Rightarrow> ''unknown'')"

definition cflare_cfgpath :: string where "cflare_cfgpath = ''./''"
definition cflare_libpath :: string where "cflare_libpath = ''./''"

section \<open>Properties\<close>

definition string_elm :: "string \<Rightarrow> 'f cflare_hookstack_elm" where
  "string_elm s = \<lparr>elm_type = HOOKSTACK_STRING, elm_data = Data_string s,
     elm_deleter = free_string_ptr, elm_deleter_context = None\<rparr>"

lemma log_arguments:
  "\<exists>args1 args. cflare_hookstack_push_string junk (Some cflare_hookstack_new) str = Inr (Some args1) \<and>
     cflare_hookstack_push_string junk (Some args1) level = Inr (Some args) \<and> ll_wf args \<and>
     ll_contents args = [string_elm str, string_elm level] \<and>
     cflare_hookstack_delete (Some args) =
       Inr [(the free_string_ptr, None, Data_string str), (the free_string_ptr, None, Data_string level)]"
proof -
  have new: "ll_wf (cflare_hookstack_new :: 'a cflare_hookstack)" "ll_contents (cflare_hookstack_new :: 'a cflare_hookstack) = []"
    "ll_conf (cflare_hookstack_new :: 'a cflare_hookstack) = (free_element_ptr, None)"
    by (simp_all add: cflare_hookstack_new_def) (simp add: ll_conf_def cflare_linkedlist_ondelete_def)
  from push_elm_ok [OF new(1), of junk "string_elm str"] new obtain l1 where
    l1: "push_elm (Some cflare_hookstack_new) junk (string_elm str) = Inr (Some l1)" "ll_wf l1"
      "ll_contents l1 = [string_elm str]" "ll_conf l1 = (free_element_ptr, None)" by auto
  from push_elm_ok [OF l1(2), of junk "string_elm level"] l1(3,4) obtain l2 where
    l2: "push_elm (Some l1) junk (string_elm level) = Inr (Some l2)" "ll_wf l2"
      "ll_contents l2 = [string_elm str, string_elm level]" "ll_conf l2 = (free_element_ptr, None)" by auto
  have "cflare_linkedlist_delete l2 = Inr (map (\<lambda>x. (13, ll_deleter_context l2, x)) (ll_contents l2))"
    using l2(2,4) by (intro linkedlist_delete_calls) (simp_all add: ll_conf_def free_element_ptr_def)
  then have "cflare_hookstack_delete (Some l2) =
      Inr [(the free_string_ptr, None, Data_string str), (the free_string_ptr, None, Data_string level)]"
    by (simp add: cflare_hookstack_delete_def l2(3) free_element_def string_elm_def free_string_ptr_def)
  with l1(1) l2(1-3) show ?thesis
    by (auto simp: cflare_hookstack_push_string_def string_elm_def)
qed

lemma call_log_hook_ok:
  assumes "hook_inv st \<or> \<not> hs_loaded st"
  shows "\<exists>args. ll_wf args \<and> ll_contents args = [string_elm str, string_elm level] \<and>
    call_log_hook run junk st world level str =
      Inr (fst (run_hooks run (Some args) (if hs_loaded st then hooks_of st ''Log'' else []) world),
        [(the free_string_ptr, None, Data_string str), (the free_string_ptr, None, Data_string level)])"
  using log_arguments [of junk str level] hook_call_ok [OF assms, of run "''Log''" _ world]
  by (fastforce simp: call_log_hook_def split_beta)

text \<open>No index gives a hook one of the two strings back.\<close>

lemma nth_elm_mem: "nth_elm es index = Some e \<Longrightarrow> e \<in> set es"
proof -
  assume "nth_elm es index = Some e"
  then have "e \<in> set (if index \<ge> 0 then es else rev es)"
    by (auto simp: nth_elm_def Let_def simp del: set_rev split: if_splits)
  then show ?thesis by (simp split: if_splits)
qed

lemma log_strings_hidden:
  assumes "ll_wf args" and "ll_contents args = [string_elm str, string_elm level]"
  shows "cflare_hookstack_get_string (Some args) index = Inr None"
  using assms(2) nth_elm_mem [of "ll_contents args" index]
  by (auto simp: cflare_hookstack_get_string_def get_elm_nth [OF assms(1)] string_elm_def split: option.split)



text \<open>
  a library that has been loaded is ready: no hook is registered and the hook system is well formed, every
  slot for handles is free, and the options are those of the command line. Loading it again aborts.
\<close>

theorem load_ready:
  assumes "cflare_load junk status_files header_files lib (exe # argv) = Inr lib'"
  shows "hook_inv (lib_hooks lib') \<and> (\<forall>name. hooks_of (lib_hooks lib') name = []) \<and>
    loaded (lib_handles lib') \<and> refs (lib_handles lib') = replicate MAX_REFS free_reference \<and>
    map_option opt_args (lib_options lib') = Some (arguments argv) \<and>
    cflare_load junk status_files header_files lib' (exe # argv) = Inl Assert_failed"
proof -
  from assms obtain handles hooks opts where
    h: "cflare_handle_load (lib_handles lib) = Inr handles" "lib_handles lib' = handles"
    and k: "cflare_hook_load (lib_hooks lib) = Inr hooks" "lib_hooks lib' = hooks"
    and o: "cflare_options_load (exe # argv) = Inr opts" "lib_options lib' = Some opts"
    by (auto simp: cflare_load_def)
  have hooks: "hook_inv hooks \<and> (\<forall>name. hooks_of hooks name = [])"
    using k(1) by (auto simp: cflare_hook_load_def hook_inv_def hooks_of_def split: if_splits)
  have handles: "loaded handles" "refs handles = replicate MAX_REFS free_reference"
    using h(1) by (auto simp: cflare_handle_load_def map_replicate_const)
  obtain tbl where "options_loop argv True cflare_hashtable_new [] = Inr (tbl, opt_args opts)"
    using o(1) by (auto simp: cflare_options_load_def)
  moreover have "ht_ok (cflare_hashtable_new :: string cflare_hashtable)"
    by (simp add: ht_ok_def ht_inv_def buckets_ok_def load_ok_def cflare_hashtable_new_def)
  ultimately have "opt_args opts = arguments argv"
    using options_loop_ok [of "cflare_hashtable_new" argv "[]"] by auto
  moreover have "cflare_load junk status_files header_files lib' (exe # argv) = Inl Assert_failed"
    using handles(1) h(2) by (simp add: cflare_load_def cflare_handle_load_def assertE_def)
  ultimately show ?thesis using hooks handles h(2) k(2) o(2) by simp
qed

definition unloaded :: "(int, int) library" where
  "unloaded = \<lparr>lib_handles = \<lparr>refs = [], curid = 0, loaded = False\<rparr>, lib_hooks = no_hooks\<lparr>hs_loaded := False\<rparr>,
     lib_options = None, lib_statuses = None, lib_headers = None\<rparr>"

lemma headers_load_nothing: "\<exists>hs. cflare_headers_load junk [] = Inr (no_headers, hs)"
proof -
  have "\<exists>hs. get_all no_headers ns = Inr hs" if "\<forall>n \<in> set ns. NUL \<notin> set n" for ns
    using that by (induction ns) (auto simp: get_header [OF no_headers_inv])
  moreover have "\<forall>n \<in> set common_headers. NUL \<notin> set n" by (simp add: common_headers_def)
  ultimately obtain hs where "get_all no_headers common_headers = Inr hs" by blast
  then show ?thesis by (simp add: cflare_headers_load_def)
qed

lemma load_ready_witness:
  "\<exists>lib. cflare_load junk [] [] unloaded [''cflare'', ''listen''] = Inr lib \<and> hook_inv (lib_hooks lib) \<and>
     map_option opt_args (lib_options lib) = Some [''listen'']"
proof -
  obtain hs where hs: "cflare_headers_load junk [] = Inr (no_headers, hs)" using headers_load_nothing by blast
  have "\<exists>lib. cflare_load junk [] [] unloaded [''cflare'', ''listen''] = Inr lib"
    by (simp add: cflare_load_def hs unloaded_def cflare_handle_load_def cflare_hook_load_def
        cflare_options_load_def cflare_httpstatus_load_def)
  then obtain lib where l: "cflare_load junk [] [] unloaded [''cflare'', ''listen''] = Inr lib" by blast
  have "arguments [''listen''] = [''listen'']" by (simp add: arguments_def dashed_def)
  with load_ready [OF l] l show ?thesis by simp
qed

end
