(* ===== verification/Lifecycle.thy ===== *)
theory Lifecycle
  imports Library
begin

text \<open>
  Loading and unloading the library (\<open>src/cflare/cflare.c\<close>), across the components: what the files of the
  configuration can contain without harm, the invariant of a loaded library, that unloading one always succeeds,
  and that it can be loaded again.
\<close>

section \<open>The files of header names\<close>

lemma read_word_chars:
  "read_word cs buff = Some w \<Longrightarrow> length buff \<le> 64 \<Longrightarrow> length w \<le> 64 \<and> set w \<subseteq> set buff \<union> set cs"
  by (induction cs arbitrary: buff) (fastforce simp: max_header_length_def split: if_splits)+

lemma skip_white_subset: "set (skip_white cs) \<subseteq> set cs"
  by (induction cs) auto

lemma set_on_disk_ok:
  assumes "hd_inv st" and "ht_map (canonical_headers st) k = Some p"
  shows "\<exists>st'. set_on_disk st p = Inr st' \<and> hd_inv st' \<and> gid st' = gid st"
proof -
  from hd_inv_header [OF assms] obtain h where h: "hd_store st p = Some h" by blast
  let ?st = "st\<lparr>hd_store := (hd_store st)(p \<mapsto> h\<lparr>lh_on_disk := True, lh_last_used := 0\<rparr>)\<rparr>"
  have ids: "\<exists>g. hd_store st q = Some g \<and> lh_id g = lh_id g' \<and> lh_name g = lh_name g'" if "hd_store ?st q = Some g'" for q g'
    using that h by (auto split: if_splits)
  have ok: "header_ok ?st k' q" if "ht_map (canonical_headers st) k' = Some q" for k' q
  proof -
    have "header_ok st k' q" using that assms(1) by (simp add: hd_inv_def)
    with h show ?thesis by (auto simp: header_ok_def)
  qed
  have "k1 = k2" if "ht_map (canonical_headers st) k1 = Some p1" "ht_map (canonical_headers st) k2 = Some p2"
    "hd_store ?st p1 = Some h1" "hd_store ?st p2 = Some h2" "lh_id h1 = lh_id h2" for k1 k2 p1 p2 h1 h2
    using hd_inv_distinct [OF assms(1) that(1,2)] ids [OF that(3)] ids [OF that(4)] that(5) by auto
  with ok assms(1) have "hd_inv ?st"
    unfolding hd_inv_def by (auto simp del: fun_upd_apply)
  with h show ?thesis by (auto simp: set_on_disk_def)
qed

text \<open>A line of any characters adds at most one header.\<close>

lemma headers_parse_line_ok:
  assumes "hd_inv st" and "gid st < 2 ^ 31" and "NUL \<in> set block"
  shows "\<exists>st'. headers_parse_line st block = Inr st' \<and> hd_inv st' \<and> gid st' \<le> gid st + 1"
proof -
  obtain line where line: "cstr block = Inr line" "NUL \<notin> set line"
  proof -
    from assms(3) obtain a b where "block = a @ NUL # b" "NUL \<notin> set a" by (meson split_list_first)
    then show ?thesis using that by (simp add: cstr_terminated)
  qed
  let ?word = "read_word (skip_white (takeWhile (\<lambda>c. c \<noteq> CHR ''#'') line)) []"
  show ?thesis
  proof (cases ?word)
    case None
    with line assms(1) show ?thesis by (simp add: headers_parse_line_def)
  next
    case (Some w)
    from read_word_chars [OF Some] have w: "length w \<le> 64" "NUL \<notin> set w"
      using skip_white_subset set_takeWhileD line(2) by fastforce+
    show ?thesis
    proof (cases "w = []")
      case False
      from create_header_ok [OF assms(1) w(2,1) assms(2)] obtain st1 p where
        st1: "create_header st w = Inr (st1, p)" "hd_inv st1" "gid st1 = gid st + 1"
          "ht_map (canonical_headers st1) (cflare_hash_compute (lower w)) = Some p" by blast
      from set_on_disk_ok [OF st1(2,4)] obtain st2 where "set_on_disk st1 p = Inr st2" "hd_inv st2" "gid st2 = gid st1" by blast
      with st1 line Some False show ?thesis by (simp add: headers_parse_line_def)
    qed (use line Some assms(1) in \<open>simp add: headers_parse_line_def\<close>)
  qed
qed

lemma headers_parse_file_ok:
  "hd_inv st \<Longrightarrow> gid st + length input \<le> 2 ^ 31 \<Longrightarrow>
    \<exists>st'. headers_parse_file st buff input = Inr st' \<and> hd_inv st' \<and> gid st' \<le> gid st + length input"
proof (induction st buff input rule: headers_parse_file.induct)
  case (1 st buff input)
  obtain s rest where s: "fgets_chars (max_line_length - 1) input = (s, rest)" by fastforce
  have len: "length s + length rest = length input"
    using fgets_chars_length [of "max_line_length - 1" input] unfolding s by simp
  show ?case
  proof (cases "s = []")
    case True
    with s "1.prems" show ?thesis by (simp add: headers_parse_file.simps [of st])
  next
    case False
    let ?buff = "s @ NUL # drop (length s + 1) buff"
    have "1 \<le> length s" using False by (cases s) auto
    with len "1.prems"(2) have g: "gid st < 2 ^ 31" "gid st + 1 + length rest \<le> gid st + length input" by linarith+
    from headers_parse_line_ok [OF "1.prems"(1) g(1), of ?buff] obtain st1 where
      st1: "headers_parse_line st ?buff = Inr st1" "hd_inv st1" "gid st1 \<le> gid st + 1" by auto
    with g(2) "1.prems"(2) have "gid st1 + length rest \<le> 2 ^ 31" by linarith
    from "1.IH" [OF s [symmetric] False refl st1(1,2) this] st1(1,3) s False g(2) show ?thesis
      by (fastforce simp: headers_parse_file.simps [of st])
  qed
qed

definition file_bytes :: "string option list \<Rightarrow> nat" where
  "file_bytes files = sum_list (map (\<lambda>f. case f of None \<Rightarrow> 0 | Some input \<Rightarrow> length input) files)"

lemma headers_parse_files_ok:
  "hd_inv st \<Longrightarrow> gid st + file_bytes files \<le> 2 ^ 31 \<Longrightarrow>
    \<exists>st'. headers_parse_files junk st files = Inr st' \<and> hd_inv st'"
proof (induction files arbitrary: st)
  case (Cons f files)
  show ?case
  proof (cases f)
    case None
    with Cons show ?thesis by (simp add: file_bytes_def)
  next
    case (Some input)
    with Cons.prems(2) have g: "gid st + length input + file_bytes files \<le> 2 ^ 31" by (simp add: file_bytes_def)
    then have "gid st + length input \<le> 2 ^ 31" by linarith
    from headers_parse_file_ok [OF Cons.prems(1) this] obtain st1 where
      st1: "headers_parse_file st (malloc junk max_line_length) input = Inr st1" "hd_inv st1"
        "gid st1 \<le> gid st + length input" by blast
    with g have "gid st1 + file_bytes files \<le> 2 ^ 31" by linarith
    from Cons.IH [OF st1(2) this] st1(1) Some show ?thesis by simp
  qed
qed simp

lemma get_all_ok: "hd_inv st \<Longrightarrow> \<forall>n \<in> set ns. NUL \<notin> set n \<Longrightarrow> \<exists>hs. get_all st ns = Inr hs"
  by (induction ns) (auto simp: get_header)

lemma headers_load_ok:
  assumes "file_bytes files < 2 ^ 31"
  shows "\<exists>st hs. cflare_headers_load junk files = Inr (st, hs) \<and> hd_inv st"
proof -
  have "gid no_headers + file_bytes files \<le> 2 ^ 31" using assms by (simp add: no_headers_def)
  from headers_parse_files_ok [OF no_headers_inv this, of junk] obtain st where
    st: "headers_parse_files junk no_headers files = Inr st" "hd_inv st" by blast
  have "\<forall>n \<in> set common_headers. NUL \<notin> set n" by (simp add: common_headers_def)
  with get_all_ok [OF st(2)] st show ?thesis by (fastforce simp: cflare_headers_load_def)
qed

section \<open>The files of status names\<close>

lemma cstr_prefix: "cstr block = Inr s \<Longrightarrow> \<exists>r. block = s @ NUL # r \<and> NUL \<notin> set s"
  using split_list_first [of NUL block] by (auto simp: cstr_def takeWhile_not_NUL split: if_splits)

lemma add_status_inv:
  assumes "sc_inv sc" and "add_status sc code line = Inr sc'"
  shows "sc_inv sc'"
proof -
  from assms(2) obtain s where "cstr line = Inr s" by (auto simp: add_status_def strdup_def)
  from cstr_prefix [OF this] obtain r where "line = s @ NUL # r" "NUL \<notin> set s" by blast
  with add_status_ok [OF assms(1), of s code r] assms(2) show ?thesis by auto
qed

lemma status_parse_line_inv: "sc_inv sc \<Longrightarrow> status_parse_line sc block = Inr sc' \<Longrightarrow> sc_inv sc'"
  by (auto simp: status_parse_line_def Let_def split: option.splits if_splits dest: add_status_inv)

lemma status_parse_file_inv: "sc_inv sc \<Longrightarrow> status_parse_file sc buff input = Inr sc' \<Longrightarrow> sc_inv sc'"
proof (induction sc buff input rule: status_parse_file.induct)
  case (1 sc buff input)
  obtain s rest where s: "fgets_chars (max_line_length - 1) input = (s, rest)" by fastforce
  show ?case
  proof (cases "s = []")
    case True
    with s "1.prems" show ?thesis by (simp add: status_parse_file.simps [of sc])
  next
    case False
    let ?buff = "s @ NUL # drop (length s + 1) buff"
    from "1.prems"(2) s False obtain sc1 where sc1: "status_parse_line sc ?buff = Inr sc1"
      "status_parse_file sc1 ?buff rest = Inr sc'"
      by (auto simp: status_parse_file.simps [of sc] Let_def)
    from "1.IH" [OF s [symmetric] False refl sc1(1) status_parse_line_inv [OF "1.prems"(1) sc1(1)] sc1(2)] show ?thesis .
  qed
qed

lemma status_parse_files_inv: "sc_inv sc \<Longrightarrow> status_parse_files junk sc files = Inr sc' \<Longrightarrow> sc_inv sc'"
  by (induction junk sc files rule: status_parse_files.induct) (auto dest: status_parse_file_inv)

section \<open>Unloading\<close>

text \<open>Deleting a table releases each value at most once; where there is no deleter, none.\<close>

lemma table_delete_ok:
  assumes "ht_ok t"
  shows "\<exists>kvs calls. cflare_hashtable_delete t = Inr calls \<and> distinct (map fst kvs) \<and> map_of kvs = ht_map t \<and>
    (map (snd \<circ> snd) calls = [] \<or> map (snd \<circ> snd) calls = map snd kvs)"
proof (cases "ht_deleter t")
  case (Some f)
  with assms hashtable_delete_releases_each [of t f] obtain kvs where
    "cflare_hashtable_delete t = Inr (map (\<lambda>(k, v). (f, ht_deleter_context t, v)) kvs)"
    "distinct (map fst kvs)" "map_of kvs = ht_map t" by (auto simp: ht_ok_def)
  then show ?thesis
    by (intro exI [of _ kvs] exI [of _ "map (\<lambda>(k, v). (f, ht_deleter_context t, v)) kvs"]) (auto simp: case_prod_unfold)
next
  case None
  let ?kvs = "map (\<lambda>c. (c_id c, the (c_data c))) (entries (ht_buckets t))"
  from assms have ok: "buckets_ok (ht_buckets t)" by (simp add: ht_ok_def ht_inv_def)
  then have lists: "\<forall>l. Some l \<in> set (ht_buckets t) \<longrightarrow> ll_wf l \<and> ll_deleter l = free_container_ptr"
    by (auto simp: buckets_ok_def list_ok_def in_set_conv_nth)
  have none: "release t v = []" for v using None by (cases v) (simp_all add: release_def call_deleter_def)
  have "cflare_hashtable_delete t = Inr []"
    using delete_buckets_ok [OF lists, of t] by (simp add: cflare_hashtable_delete_def none)
  moreover have "distinct (map fst ?kvs)" using buckets_ok_distinct [OF ok] by (simp add: comp_def)
  moreover have "map_of ?kvs = ht_map t" by (simp add: ht_map_def entries_map_def)
  ultimately show ?thesis by (intro exI [of _ ?kvs] exI [of _ "[]"]) simp
qed

text \<open>Where different keys are bound to values with different pointers, the pointers released are different.\<close>

lemma table_delete_pointers:
  assumes "ht_ok t"
    and inj: "\<And>k k' v v'. ht_map t k = Some v \<Longrightarrow> ht_map t k' = Some v' \<Longrightarrow> ptr v = ptr v' \<Longrightarrow> k = k'"
  shows "\<exists>calls. cflare_hashtable_delete t = Inr calls \<and> distinct (map (ptr \<circ> snd \<circ> snd) calls) \<and>
    (\<forall>c \<in> set calls. \<exists>k. ht_map t k = Some (snd (snd c)))"
proof -
  from table_delete_ok [OF assms(1)] obtain kvs calls where
    c: "cflare_hashtable_delete t = Inr calls" "distinct (map fst kvs)" "map_of kvs = ht_map t"
      "map (snd \<circ> snd) calls = [] \<or> map (snd \<circ> snd) calls = map snd kvs" by blast
  have bound: "ht_map t k = Some v" if "(k, v) \<in> set kvs" for k v
    using that c(2,3) by (metis map_of_eq_Some_iff)
  have "inj_on (ptr \<circ> snd) (set kvs)"
  proof (rule inj_onI)
    fix x y assume xy: "x \<in> set kvs" "y \<in> set kvs" "(ptr \<circ> snd) x = (ptr \<circ> snd) y"
    have "ht_map t (fst x) = Some (snd x)" "ht_map t (fst y) = Some (snd y)" using xy(1,2) bound by simp_all
    moreover from this xy(3) have "fst x = fst y" using inj [of "fst x" "snd x" "fst y" "snd y"] by simp
    ultimately show "x = y" by (simp add: prod_eq_iff)
  qed
  moreover have "distinct kvs" using c(2) by (simp add: distinct_map)
  ultimately have "distinct (map (ptr \<circ> snd) kvs)" by (simp add: distinct_map)
  then have "distinct (map ptr (map (snd \<circ> snd) calls))" using c(4) by (elim disjE) (simp_all only: list.map distinct.simps list.map_comp)
  then have "distinct (map (ptr \<circ> snd \<circ> snd) calls)" by (simp add: comp_assoc)
  moreover have "\<exists>k. ht_map t k = Some (snd (snd x))" if "x \<in> set calls" for x
  proof -
    have "snd (snd x) \<in> set (map (snd \<circ> snd) calls)" using that by simp
    with c(4) have "snd (snd x) \<in> set (map snd kvs)" by (metis empty_iff empty_set)
    then obtain k where "(k, snd (snd x)) \<in> set kvs" by auto
    then show ?thesis using bound by blast
  qed
  ultimately show ?thesis using c(1) by blast
qed

lemma free_headers_ok:
  "distinct (map (snd \<circ> snd) calls) \<Longrightarrow> \<forall>c \<in> set calls. st (snd (snd c)) \<noteq> None \<Longrightarrow> \<exists>st'. free_headers calls st = Inr st'"
proof (induction calls arbitrary: st)
  case (Cons c calls)
  obtain f ctx p where c: "c = (f, ctx, p)" by (cases c) auto
  from Cons.prems c obtain h where h: "st p = Some h" by auto
  have "\<forall>d \<in> set calls. (st(p := None)) (snd (snd d)) \<noteq> None" using Cons.prems c by force
  from Cons.IH [OF _ this] Cons.prems(1) obtain st' where "free_headers calls (st(p := None)) = Inr st'"
    by (auto simp del: fun_upd_apply)
  with c h show ?case by (simp del: fun_upd_apply)
qed simp

lemma headers_unload_ok:
  assumes "hd_inv st"
  shows "\<exists>store. cflare_headers_unload st = Inr store"
proof -
  have ok: "ht_ok (canonical_headers st)" using assms by (simp add: hd_inv_def)
  from table_delete_pointers [OF ok, of id] hd_inv_pointers [OF assms] obtain calls where
    c: "cflare_hashtable_delete (canonical_headers st) = Inr calls" "distinct (map (snd \<circ> snd) calls)"
      "\<forall>c \<in> set calls. \<exists>k. ht_map (canonical_headers st) k = Some (snd (snd c))" by auto
  have "\<forall>c \<in> set calls. hd_store st (snd (snd c)) \<noteq> None"
    using c(3) hd_inv_header [OF assms] by (metis option.distinct(1))
  from free_headers_ok [OF c(2) this] c(1) show ?thesis by (simp add: cflare_headers_unload_def)
qed

lemma free_hooktables_ok:
  "distinct (map (tbl_funcs \<circ> snd \<circ> snd) calls) \<Longrightarrow>
    \<forall>c \<in> set calls. \<exists>l. hs_lists st (tbl_funcs (snd (snd c))) = Some l \<and> ll_wf l \<and> ll_conf l = (free_hook_ptr, None) \<Longrightarrow>
    \<exists>st' freed. free_hooktables calls st = Inr (st', freed) \<and> hs_loaded st' = hs_loaded st"
proof (induction calls arbitrary: st)
  case (Cons c calls)
  obtain f ctx tbl where c: "c = (f, ctx, tbl)" by (cases c) auto
  from Cons.prems(2) c obtain l where l: "hs_lists st (tbl_funcs tbl) = Some l" "ll_wf l" "ll_conf l = (free_hook_ptr, None)"
    by auto
  from linkedlist_delete_calls [OF l(2)] l(3) obtain freed where f: "cflare_linkedlist_delete l = Inr freed"
    by (auto simp: ll_conf_def free_hook_ptr_def)
  let ?st = "st\<lparr>hs_lists := (hs_lists st)(tbl_funcs tbl := None)\<rparr>"
  have "\<forall>d \<in> set calls. \<exists>l. hs_lists ?st (tbl_funcs (snd (snd d))) = Some l \<and> ll_wf l \<and> ll_conf l = (free_hook_ptr, None)"
    using Cons.prems c by force
  from Cons.IH [OF _ this] Cons.prems(1) c obtain st' freed' where
    "free_hooktables calls ?st = Inr (st', freed')" "hs_loaded st' = hs_loaded st" by auto
  with c l(1) f show ?case by (simp add: free_hooktable_def)
qed simp

lemma hook_unload_ok:
  assumes "hook_inv st"
  shows "\<exists>st' freed. cflare_hook_unload st = Inr (st', freed) \<and> \<not> hs_loaded st'"
proof -
  have ok: "ht_ok (hs_tables st)" "hs_loaded st" and lists: "\<And>k tbl. ht_map (hs_tables st) k = Some tbl \<Longrightarrow> hook_list_ok st tbl"
    using assms by (auto simp: hook_inv_def)
  have inj: "k = k'" if "ht_map (hs_tables st) k = Some t" "ht_map (hs_tables st) k' = Some t'" "tbl_funcs t = tbl_funcs t'"
    for k k' t t' using assms that unfolding hook_inv_def by blast
  have "\<exists>calls. cflare_hashtable_delete (hs_tables st) = Inr calls \<and> distinct (map (tbl_funcs \<circ> snd \<circ> snd) calls) \<and>
    (\<forall>c \<in> set calls. \<exists>k. ht_map (hs_tables st) k = Some (snd (snd c)))"
    by (rule table_delete_pointers [OF ok(1)]) (rule inj)
  then obtain calls where
    c: "cflare_hashtable_delete (hs_tables st) = Inr calls" "distinct (map (tbl_funcs \<circ> snd \<circ> snd) calls)"
      "\<forall>c \<in> set calls. \<exists>k. ht_map (hs_tables st) k = Some (snd (snd c))" by blast
  have "\<forall>c \<in> set calls. \<exists>l. hs_lists (st\<lparr>hs_loaded := False\<rparr>) (tbl_funcs (snd (snd c))) = Some l \<and> ll_wf l \<and>
      ll_conf l = (free_hook_ptr, None)"
    using c(3) lists by (force simp: hook_list_ok_def)
  from free_hooktables_ok [OF c(2) this] c(1) ok(2) show ?thesis by (auto simp: cflare_hook_unload_def)
qed

section \<open>The life of the library\<close>

definition options_inv :: "options_state \<Rightarrow> bool" where
  "options_inv opts \<longleftrightarrow> ht_ok (opt_hashtable opts) \<and> ht_ok (env_hashtable opts)"

definition library_inv :: "('d, 'p) library \<Rightarrow> bool" where
  "library_inv lib \<longleftrightarrow> loaded (lib_handles lib) \<and> hook_inv (lib_hooks lib) \<and>
     (\<exists>opts. lib_options lib = Some opts \<and> options_inv opts) \<and>
     (\<exists>sc. lib_statuses lib = Some sc \<and> sc_inv sc) \<and>
     (\<exists>hd hs. lib_headers lib = Some (hd, hs) \<and> hd_inv hd)"

lemma new_table_ok [simp]: "ht_ok (cflare_hashtable_new :: 'v cflare_hashtable)"
  by (simp add: ht_ok_def ht_inv_def buckets_ok_def load_ok_def cflare_hashtable_new_def)

lemma load_inv:
  assumes "cflare_load junk status_files header_files lib (exe # argv) = Inr lib'" and "file_bytes header_files < 2 ^ 31"
  shows "library_inv lib'"
proof -
  from assms(1) obtain handles hooks opts statuses hd hs where
    l: "cflare_handle_load (lib_handles lib) = Inr handles" "cflare_hook_load (lib_hooks lib) = Inr hooks"
      "cflare_options_load (exe # argv) = Inr opts" "cflare_httpstatus_load junk status_files = Inr statuses"
      "cflare_headers_load junk header_files = Inr (hd, hs)"
    and lib': "lib' = lib\<lparr>lib_handles := handles, lib_hooks := hooks, lib_options := Some opts,
        lib_statuses := Some statuses, lib_headers := Some (hd, hs)\<rparr>"
    by (auto simp: cflare_load_def)
  have "loaded handles" using l(1) by (auto simp: cflare_handle_load_def)
  moreover have "hook_inv hooks" using l(2) by (auto simp: cflare_hook_load_def hook_inv_def split: if_splits)
  moreover have "options_inv opts"
    using l(3) options_loop_ok [of "cflare_hashtable_new" argv "[]"] by (auto simp: cflare_options_load_def options_inv_def)
  moreover have "sc_inv statuses"
    using l(4) status_parse_files_inv [OF empty_cache_inv] by (simp add: cflare_httpstatus_load_def)
  moreover have "hd_inv hd" using headers_load_ok [OF assms(2), of junk] l(5) by auto
  ultimately show ?thesis by (simp add: library_inv_def lib')
qed

lemma unload_ok:
  assumes "library_inv lib"
  shows "\<exists>lib'. cflare_unload lib = Inr lib' \<and> \<not> loaded (lib_handles lib') \<and> \<not> hs_loaded (lib_hooks lib') \<and>
    lib_options lib' = None \<and> lib_statuses lib' = None \<and> lib_headers lib' = None \<and>
    curid (lib_handles lib') = curid (lib_handles lib)"
proof -
  from assms obtain opts sc hd hs where
    i: "lib_options lib = Some opts" "options_inv opts" "lib_statuses lib = Some sc" "sc_inv sc"
      "lib_headers lib = Some (hd, hs)" "hd_inv hd" "loaded (lib_handles lib)" "hook_inv (lib_hooks lib)"
    by (auto simp: library_inv_def)
  obtain store where "cflare_headers_unload hd = Inr store" using headers_unload_ok [OF i(6)] by blast
  moreover obtain calls where "cflare_httpstatus_unload sc = Inr calls"
    using table_delete_ok [of "string2code sc"] table_delete_ok [of "code2string sc"] i(4)
    by (auto simp: cflare_httpstatus_unload_def sc_inv_def)
  moreover obtain calls' where "cflare_options_unload opts = Inr calls'"
    using table_delete_ok [of "opt_hashtable opts"] table_delete_ok [of "env_hashtable opts"] i(2)
    by (auto simp: cflare_options_unload_def options_inv_def)
  moreover obtain hooks freed where "cflare_hook_unload (lib_hooks lib) = Inr (hooks, freed)" "\<not> hs_loaded hooks"
    using hook_unload_ok [OF i(8)] by blast
  ultimately show ?thesis using i by (simp add: cflare_unload_def cflare_handle_unload_def)
qed



end
