(* ===== verification/Hosts.thy ===== *)
theory Hosts
  imports Hashtable
begin

text \<open>
  The hosts of \<open>src/cflare/hosts.c\<close>: a growing array of hosts, each with a hash table from paths to
  routes. A host is named outside by its index plus one. A route holds the address of its copy of
  the path, which is fresh every time. A freed table is \<open>None\<close>; using it is a fault.
\<close>

section \<open>State and operations\<close>

record cflare_host_staticroute =
  rt_path :: string
  rt_callback :: addr
  rt_context :: ptr
  rt_addr :: addr

record cflare_host =
  host_name :: "string option"
  static_routes :: "cflare_host_staticroute cflare_hashtable option"

record hosts_state =
  hosts :: "cflare_host list option"
  hosts_len :: nat
  hosts_alloc :: nat
  hosts_fresh :: addr

definition blank_host :: cflare_host where
  "blank_host = \<lparr>host_name = None, static_routes = None\<rparr>"

definition free_staticroute_ptr :: ptr where "free_staticroute_ptr = Some 41"

definition cflare_hosts_load :: "hosts_state \<Rightarrow> hosts_state res" where
  "cflare_hosts_load st =
     bindE (assertE (hosts st = None \<and> hosts_len st = 0) Assert_failed) (\<lambda>_.
       Inr (st\<lparr>hosts := Some (replicate (hosts_alloc st) blank_host)\<rparr>))"

text \<open>The search for a slot without a name; where there is none it ends at \<open>hosts_alloc\<close>.\<close>

fun find_free :: "cflare_host list \<Rightarrow> nat \<Rightarrow> nat" where
  "find_free [] i = i"
| "find_free (h # hs) i = (if host_name h = None then i else find_free hs (i + 1))"

text \<open>
  \<open>if(!i < hosts_alloc)\<close>: \<open>!i\<close> is 0 or 1. A host takes 24 bytes; where the size of the doubled array
  wraps around, the memset after the reallocation leaves the block.
\<close>

definition c_not :: "nat \<Rightarrow> nat" where
  "c_not i = (if i = 0 then 1 else 0)"

definition cflare_host_new :: "hosts_state \<Rightarrow> string \<Rightarrow> (hosts_state \<times> nat) res" where
  "cflare_host_new st domain =
     bindE (derefE (hosts st) Null_deref) (\<lambda>hs.
       let i = find_free hs 0 in
       bindE (if c_not i < hosts_alloc st
              then bindE (assertE (24 * (2 * hosts_alloc st) < 2 ^ 64) Out_of_bounds) (\<lambda>_.
                     Inr (hs @ replicate (hosts_alloc st) blank_host, 2 * hosts_alloc st))
              else Inr (hs, hosts_alloc st)) (\<lambda>(hs', alloc).
       bindE (assertE (i < length hs') Out_of_bounds) (\<lambda>_.
         let hst = \<lparr>host_name = Some domain, static_routes =
               Some (cflare_hashtable_ondelete cflare_hashtable_new free_staticroute_ptr None)\<rparr>
         in Inr (st\<lparr>hosts := Some (hs'[i := hst]), hosts_alloc := alloc\<rparr>, i + 1))))"

definition host_at :: "hosts_state \<Rightarrow> nat \<Rightarrow> cflare_host res" where
  "host_at st descriptor =
     bindE (derefE (hosts st) Null_deref) (\<lambda>hs.
     bindE (assertE (0 < descriptor \<and> descriptor - 1 < length hs) Out_of_bounds) (\<lambda>_.
       Inr (hs ! (descriptor - 1))))"

definition set_host :: "hosts_state \<Rightarrow> nat \<Rightarrow> cflare_host \<Rightarrow> hosts_state" where
  "set_host st descriptor h = st\<lparr>hosts := map_option (\<lambda>hs. hs[descriptor - 1 := h]) (hosts st)\<rparr>"

definition cflare_host_delete ::
  "hosts_state \<Rightarrow> nat \<Rightarrow> (hosts_state \<times> cflare_host_staticroute deleter_call list) res" where
  "cflare_host_delete st host =
     bindE (host_at st host) (\<lambda>h.
     bindE (derefE (static_routes h) Dangling) (\<lambda>tbl.
     bindE (cflare_hashtable_delete tbl) (\<lambda>calls.
       Inr (set_host st host blank_host, calls))))"

definition cflare_host_map :: "hosts_state \<Rightarrow> nat \<Rightarrow> string \<Rightarrow> addr \<Rightarrow> ptr \<Rightarrow> hosts_state res" where
  "cflare_host_map st host path callback context =
     bindE (host_at st host) (\<lambda>h.
     bindE (derefE (static_routes h) Dangling) (\<lambda>tbl.
       let route = \<lparr>rt_path = path, rt_callback = callback, rt_context = context, rt_addr = hosts_fresh st\<rparr>
       in bindE (cflare_hashtable_set tbl (cflare_hash_compute path) (Some route)) (\<lambda>(tbl', calls).
            Inr ((set_host st host (h\<lparr>static_routes := Some tbl'\<rparr>))\<lparr>hosts_fresh := hosts_fresh st + 1\<rparr>))))"

definition cflare_host_mapf :: "hosts_state \<Rightarrow> nat \<Rightarrow> string \<Rightarrow> addr \<Rightarrow> ptr \<Rightarrow> hosts_state res" where
  "cflare_host_mapf st host pattern callback context = Inl (Fatal ''cflare_host_mapf(): not implemented'')"

text \<open>
  Unloading deletes the first \<open>hosts_len\<close> hosts, passing the pointer where \<open>cflare_host_delete\<close>
  expects the index plus one.
\<close>

fun unload_hosts ::
  "nat \<Rightarrow> (nat \<Rightarrow> nat) \<Rightarrow> hosts_state \<Rightarrow> nat \<Rightarrow> (hosts_state \<times> cflare_host_staticroute deleter_call list) res" where
  "unload_hosts 0 pointer st i = Inr (st, [])"
| "unload_hosts (Suc n) pointer st i =
     bindE (cflare_host_delete st (pointer i)) (\<lambda>(st', cs).
     bindE (unload_hosts n pointer st' (i + 1)) (\<lambda>(st'', ds). Inr (st'', cs @ ds)))"

definition cflare_hosts_unload ::
  "(nat \<Rightarrow> nat) \<Rightarrow> hosts_state \<Rightarrow> (hosts_state \<times> cflare_host_staticroute deleter_call list) res" where
  "cflare_hosts_unload pointer st =
     bindE (unload_hosts (hosts_len st) pointer st 0) (\<lambda>(st', calls).
       Inr (st'\<lparr>hosts := None, hosts_len := 0, hosts_alloc := 32\<rparr>, calls))"

section \<open>The hosts a state stands for\<close>

definition host_ok :: "cflare_host \<Rightarrow> bool" where
  "host_ok h = (case host_name h of None \<Rightarrow> True
     | Some n \<Rightarrow> \<exists>tbl. static_routes h = Some tbl \<and> ht_ok tbl)"

definition hosts_inv :: "hosts_state \<Rightarrow> bool" where
  "hosts_inv st = (\<exists>hs. hosts st = Some hs \<and> length hs = hosts_alloc st \<and> 2 \<le> hosts_alloc st \<and>
     hosts_len st = 0 \<and> (\<forall>h \<in> set hs. host_ok h))"

text \<open>The name of a host and the routes of its paths.\<close>

definition name_of :: "hosts_state \<Rightarrow> nat \<Rightarrow> string option" where
  "name_of st d = (case host_at st d of Inl e \<Rightarrow> None | Inr h \<Rightarrow> host_name h)"

definition routes_of :: "hosts_state \<Rightarrow> nat \<Rightarrow> string \<Rightarrow> (addr \<times> ptr) option" where
  "routes_of st d path = (case host_at st d of Inl e \<Rightarrow> None
     | Inr h \<Rightarrow> (case static_routes h of None \<Rightarrow> None
         | Some tbl \<Rightarrow> map_option (\<lambda>r. (rt_callback r, rt_context r)) (ht_map tbl (cflare_hash_compute path))))"

lemma find_free_takeWhile: "find_free hs i = i + length (takeWhile (\<lambda>h. host_name h \<noteq> None) hs)"
  by (induction hs arbitrary: i) simp_all

lemma find_free_named: "j < find_free hs 0 \<Longrightarrow> host_name (hs ! j) \<noteq> None"
  using nth_mem [of j "takeWhile (\<lambda>h. host_name h \<noteq> None) hs"]
  by (auto simp: find_free_takeWhile takeWhile_nth dest: set_takeWhileD)

lemma find_free_blank: "find_free hs 0 < length hs \<Longrightarrow> host_name (hs ! find_free hs 0) = None"
  using nth_length_takeWhile [of "\<lambda>h. host_name h \<noteq> None" hs] by (simp add: find_free_takeWhile)

lemma find_free_le: "find_free hs 0 \<le> length hs"
  by (simp add: find_free_takeWhile length_takeWhile_le)

lemma host_at_nth:
  "hosts st = Some hs \<Longrightarrow> host_at st d = (if 0 < d \<and> d \<le> length hs then Inr (hs ! (d - 1)) else Inl Out_of_bounds)"
  by (auto simp: host_at_def assertE_def)

lemma blank_name [simp]: "host_name blank_host = None"
  by (simp add: blank_host_def)

lemma host_new_ok:
  assumes inv: "hosts_inv st" and size: "48 * hosts_alloc st < 2 ^ 64"
  shows "\<exists>st' d. cflare_host_new st domain = Inr (st', d) \<and> hosts_inv st' \<and>
    hosts_alloc st' = 2 * hosts_alloc st \<and> 0 < d \<and> name_of st d = None \<and> name_of st' d = Some domain \<and>
    routes_of st' d = Map.empty \<and>
    (\<forall>e. e \<noteq> d \<longrightarrow> name_of st' e = name_of st e) \<and>
    (\<forall>e. name_of st e \<noteq> None \<longrightarrow> routes_of st' e = routes_of st e) \<and>
    (\<forall>e. 0 < e \<and> e < d \<longrightarrow> name_of st e \<noteq> None)"
proof -
  from inv obtain hs where hs: "hosts st = Some hs" "length hs = hosts_alloc st" "2 \<le> hosts_alloc st"
    "hosts_len st = 0" "\<forall>h \<in> set hs. host_ok h" by (auto simp: hosts_inv_def)
  let ?i = "find_free hs 0" and ?n = "hosts_alloc st"
  let ?h = "\<lparr>host_name = Some domain, static_routes =
    Some (cflare_hashtable_ondelete cflare_hashtable_new free_staticroute_ptr None)\<rparr>"
  let ?hs = "(hs @ replicate ?n blank_host)[?i := ?h]"
  let ?st = "st\<lparr>hosts := Some ?hs, hosts_alloc := 2 * ?n\<rparr>"
  have i: "?i \<le> ?n" using find_free_le [of hs] hs(2) by simp
  have "c_not ?i < ?n" using hs(3) by (auto simp: c_not_def)
  then have new: "cflare_host_new st domain = Inr (?st, ?i + 1)"
    using hs i size by (simp add: cflare_host_new_def Let_def)
  have "set ?hs \<subseteq> insert ?h (set hs \<union> {blank_host})"
    using set_update_subset_insert [of "hs @ replicate ?n blank_host" ?i ?h] by auto
  moreover have "host_ok ?h" "host_ok blank_host" by (simp_all add: host_ok_def blank_host_def)
  ultimately have inv': "hosts_inv ?st" using hs by (auto simp: hosts_inv_def)
  have at: "host_at ?st e = (if e = ?i + 1 then Inr ?h else if e = 0 \<or> 2 * ?n < e then Inl Out_of_bounds
      else if e \<le> ?n then host_at st e else Inr blank_host)" for e
    using hs i by (auto simp: host_at_nth [of _ ?hs] host_at_nth [OF hs(1)] nth_append nth_list_update)
  have fresh: "name_of st (?i + 1) = None"
    using find_free_blank [of hs] hs by (auto simp: name_of_def host_at_nth [OF hs(1)])
  have other: "name_of ?st e = name_of st e" if "e \<noteq> ?i + 1" for e
    using that hs by (auto simp: name_of_def at host_at_nth [OF hs(1)])
  have routes: "routes_of ?st e = routes_of st e" if "name_of st e \<noteq> None" for e
  proof -
    have "e \<noteq> ?i + 1" using that fresh by auto
    moreover have "0 < e" "e \<le> ?n" using that hs by (auto simp: name_of_def host_at_nth [OF hs(1)] split: if_splits)
    ultimately show ?thesis by (auto simp: routes_of_def at fun_eq_iff)
  qed
  have below: "name_of st e \<noteq> None" if "0 < e" "e < ?i + 1" for e
    using that find_free_named [of "e - 1" hs] i hs by (auto simp: name_of_def host_at_nth [OF hs(1)])
  have "name_of ?st (?i + 1) = Some domain" "routes_of ?st (?i + 1) = Map.empty"
    by (simp_all add: name_of_def routes_of_def at fun_eq_iff)
  with new inv' fresh other routes below show ?thesis
    by (intro exI [of _ ?st] exI [of _ "?i + 1"]) simp
qed

lemma set_host_inv:
  assumes "hosts_inv st" and "host_ok h"
  shows "hosts_inv (set_host st d h)"
proof -
  from assms(1) obtain hs where hs: "hosts st = Some hs" "length hs = hosts_alloc st" "2 \<le> hosts_alloc st"
    "hosts_len st = 0" "\<forall>h \<in> set hs. host_ok h" by (auto simp: hosts_inv_def)
  have "set (hs[d - 1 := h]) \<subseteq> insert h (set hs)" by (rule set_update_subset_insert)
  with hs assms(2) show ?thesis by (auto simp: hosts_inv_def set_host_def)
qed

lemma host_at_set:
  assumes "hosts_inv st" and "host_at st d = Inr h0"
  shows "host_at (set_host st d h) e = (if e = d then Inr h else host_at st e)"
proof -
  from assms obtain hs where hs: "hosts st = Some hs" by (auto simp: hosts_inv_def)
  then have s: "hosts (set_host st d h) = Some (hs[d - 1 := h])" by (simp add: set_host_def)
  have "0 < d" "d \<le> length hs" using assms(2) by (auto simp: host_at_nth [OF hs] split: if_splits)
  then show ?thesis by (auto simp: host_at_nth [OF hs] host_at_nth [OF s] nth_list_update)
qed

lemma named_host:
  assumes "hosts_inv st" and "name_of st d = Some n"
  obtains h tbl where "host_at st d = Inr h" "host_name h = Some n" "static_routes h = Some tbl" "ht_ok tbl"
proof -
  from assms(2) obtain h where h: "host_at st d = Inr h" "host_name h = Some n"
    by (auto simp: name_of_def split: sum.splits)
  from assms(1) obtain hs where hs: "hosts st = Some hs" "\<forall>h \<in> set hs. host_ok h" by (auto simp: hosts_inv_def)
  have "h \<in> set hs" using h(1) by (auto simp: host_at_nth [OF hs(1)] split: if_splits)
  with hs(2) have "host_ok h" by blast
  with h(2) obtain tbl where "static_routes h = Some tbl" "ht_ok tbl" by (auto simp: host_ok_def)
  with h show thesis by (rule that)
qed

lemma host_map_ok:
  assumes inv: "hosts_inv st" and name: "name_of st d = Some n"
  shows "\<exists>st'. cflare_host_map st d path callback context = Inr st' \<and> hosts_inv st' \<and>
    routes_of st' d = (routes_of st d)(path \<mapsto> (callback, context)) \<and> name_of st' = name_of st \<and>
    (\<forall>e. e \<noteq> d \<longrightarrow> routes_of st' e = routes_of st e)"
proof -
  from named_host [OF assms] obtain h tbl where h: "host_at st d = Inr h" "host_name h = Some n"
    "static_routes h = Some tbl" "ht_ok tbl" by blast
  let ?r = "\<lparr>rt_path = path, rt_callback = callback, rt_context = context, rt_addr = hosts_fresh st\<rparr>"
  from ht.put_some [OF h(4), of "cflare_hash_compute path" ?r] obtain tbl' calls where
    t: "cflare_hashtable_set tbl (cflare_hash_compute path) (Some ?r) = Inr (tbl', calls)" "ht_ok tbl'"
      "ht_map tbl' = (ht_map tbl)(cflare_hash_compute path \<mapsto> ?r)" by blast
  let ?h = "h\<lparr>static_routes := Some tbl'\<rparr>"
  let ?st = "(set_host st d ?h)\<lparr>hosts_fresh := hosts_fresh st + 1\<rparr>"
  obtain st' where st': "st' = ?st" by simp
  have at: "host_at st' e = (if e = d then Inr ?h else host_at st e)" for e
    unfolding st' using host_at_set [OF inv h(1), of ?h e] by (simp add: host_at_def)
  have run: "cflare_host_map st d path callback context = Inr st'"
    using h(1,3) t(1) by (simp add: cflare_host_map_def Let_def st')
  have "host_ok ?h" using h(2) t(2) by (simp add: host_ok_def)
  from set_host_inv [OF inv this] have inv': "hosts_inv st'" by (simp add: hosts_inv_def st')
  have "routes_of st' d p = ((routes_of st d)(path \<mapsto> (callback, context))) p" for p
    by (simp add: routes_of_def at h(1,3) t(3))
  then have here: "routes_of st' d = (routes_of st d)(path \<mapsto> (callback, context))" by (rule ext)
  have names: "name_of st' = name_of st" using h(1) by (simp add: name_of_def at fun_eq_iff)
  have "routes_of st' e = routes_of st e" if "e \<noteq> d" for e
    using that by (simp add: routes_of_def at fun_eq_iff)
  with run inv' here names show ?thesis by blast
qed

lemma host_delete_ok:
  assumes inv: "hosts_inv st" and name: "name_of st d = Some n"
  shows "\<exists>st' calls. cflare_host_delete st d = Inr (st', calls) \<and> hosts_inv st' \<and> name_of st' d = None \<and>
    (\<forall>e. e \<noteq> d \<longrightarrow> name_of st' e = name_of st e \<and> routes_of st' e = routes_of st e)"
proof -
  from named_host [OF assms] obtain h tbl where h: "host_at st d = Inr h" "static_routes h = Some tbl" "ht_ok tbl"
    by blast
  have "\<forall>l. Some l \<in> set (ht_buckets tbl) \<longrightarrow> ll_wf l \<and> ll_deleter l = free_container_ptr"
    using h(3) by (auto simp: ht_ok_def ht_inv_def buckets_ok_def list_ok_def in_set_conv_nth)
  from delete_buckets_ok [OF this, of tbl] obtain calls where c: "cflare_hashtable_delete tbl = Inr calls"
    by (simp add: cflare_hashtable_delete_def)
  have at: "host_at (set_host st d blank_host) e = (if e = d then Inr blank_host else host_at st e)" for e
    by (rule host_at_set [OF inv h(1)])
  have "hosts_inv (set_host st d blank_host)" using set_host_inv [OF inv] by (simp add: host_ok_def)
  with h(1,2) c show ?thesis
    by (intro exI [of _ "set_host st d blank_host"] exI [of _ calls])
      (simp add: cflare_host_delete_def name_of_def routes_of_def at fun_eq_iff)
qed

section \<open>Properties\<close>

definition loaded_hosts :: hosts_state where
  "loaded_hosts = \<lparr>hosts = Some (replicate 32 blank_host), hosts_len = 0, hosts_alloc = 32, hosts_fresh = 0\<rparr>"

lemma loaded_hosts: "hosts_inv loaded_hosts" "hosts_alloc loaded_hosts = 32" "name_of loaded_hosts d = None"
proof -
  have "hosts loaded_hosts = Some (replicate 32 blank_host)" by (simp add: loaded_hosts_def)
  from host_at_nth [OF this] show "name_of loaded_hosts d = None" by (auto simp: name_of_def)
  show "hosts_inv loaded_hosts" "hosts_alloc loaded_hosts = 32"
    by (auto simp: hosts_inv_def loaded_hosts_def host_ok_def)
qed

text \<open>
  Making a host takes the first free descriptor, leaves every other host and its routes as they
  were, and mapping a path on it binds exactly that path of that host; deleting it frees the
  descriptor and touches no other host.
\<close>

theorem host_new_map_delete:
  assumes "hosts_inv st" and "48 * hosts_alloc st < 2 ^ 64"
  shows "\<exists>st1 d st2 st3 calls. cflare_host_new st domain = Inr (st1, d) \<and>
    cflare_host_map st1 d path callback context = Inr st2 \<and> cflare_host_delete st2 d = Inr (st3, calls) \<and>
    name_of st d = None \<and> (\<forall>e. 0 < e \<and> e < d \<longrightarrow> name_of st e \<noteq> None) \<and>
    name_of st2 d = Some domain \<and> routes_of st2 d = [path \<mapsto> (callback, context)] \<and>
    (\<forall>e. e \<noteq> d \<longrightarrow> name_of st2 e = name_of st e) \<and>
    (\<forall>e. name_of st e \<noteq> None \<longrightarrow> routes_of st2 e = routes_of st e \<and> routes_of st3 e = routes_of st e) \<and>
    name_of st3 = name_of st \<and> hosts_inv st3"
proof -
  from host_new_ok [OF assms, of domain] obtain st1 d where n: "cflare_host_new st domain = Inr (st1, d)"
    "hosts_inv st1" "name_of st d = None" "name_of st1 d = Some domain" "routes_of st1 d = Map.empty"
    "\<forall>e. e \<noteq> d \<longrightarrow> name_of st1 e = name_of st e"
    "\<forall>e. name_of st e \<noteq> None \<longrightarrow> routes_of st1 e = routes_of st e"
    "\<forall>e. 0 < e \<and> e < d \<longrightarrow> name_of st e \<noteq> None" by blast
  from host_map_ok [OF n(2,4), of path callback "context"] obtain st2 where
    m: "cflare_host_map st1 d path callback context = Inr st2" "hosts_inv st2"
      "routes_of st2 d = (routes_of st1 d)(path \<mapsto> (callback, context))" "name_of st2 = name_of st1"
      "\<forall>e. e \<noteq> d \<longrightarrow> routes_of st2 e = routes_of st1 e" by blast
  have "name_of st2 d = Some domain" using n(4) m(4) by simp
  from host_delete_ok [OF m(2) this] obtain st3 calls where
    x: "cflare_host_delete st2 d = Inr (st3, calls)" "hosts_inv st3" "name_of st3 d = None"
      "\<forall>e. e \<noteq> d \<longrightarrow> name_of st3 e = name_of st2 e \<and> routes_of st3 e = routes_of st2 e" by blast
  have "name_of st3 e = name_of st e" for e using x(3,4) m(4) n(3,6) by (cases "e = d") auto
  then have names: "name_of st3 = name_of st" by (rule ext)
  have routes: "routes_of st2 e = routes_of st e \<and> routes_of st3 e = routes_of st e" if "name_of st e \<noteq> None" for e
    using that n(3,7) m(5) x(4) by (cases "e = d") auto
  show ?thesis
    using n(1,3-6,8) m(1,3,4) x(1,2) names routes
    by (intro exI [of _ st1] exI [of _ d] exI [of _ st2] exI [of _ st3] exI [of _ calls]) simp
qed

lemma host_new_map_delete_witness:
  "\<exists>st1 d st2. cflare_host_new loaded_hosts ''example.org'' = Inr (st1, d) \<and>
    cflare_host_map st1 d ''/'' 5 None = Inr st2 \<and> routes_of st2 d = [''/'' \<mapsto> (5, None)]"
  using host_new_map_delete [OF loaded_hosts(1), of "''example.org''" "''/''" 5 None] loaded_hosts(2)
  by auto

text \<open>
  Every new host doubles the array, even when a slot is free, because the guard negates the index
  before comparing it; and unloading deletes no host, because the number of hosts is never counted.
\<close>

theorem host_new_always_grows:
  assumes "hosts_inv st" and "48 * hosts_alloc st < 2 ^ 64"
  shows "\<exists>st' d. cflare_host_new st domain = Inr (st', d) \<and> hosts_alloc st' = 2 * hosts_alloc st \<and>
    cflare_hosts_unload pointer st' = Inr (st'\<lparr>hosts := None, hosts_len := 0, hosts_alloc := 32\<rparr>, [])"
proof -
  from host_new_ok [OF assms, of domain] obtain st' d where
    "cflare_host_new st domain = Inr (st', d)" "hosts_inv st'" "hosts_alloc st' = 2 * hosts_alloc st" by blast
  moreover from this(2) have "hosts_len st' = 0" by (auto simp: hosts_inv_def)
  ultimately show ?thesis by (simp add: cflare_hosts_unload_def)
qed

lemma host_new_always_grows_witness:
  "\<exists>st' d. cflare_host_new loaded_hosts ''a'' = Inr (st', d) \<and> hosts_alloc st' = 64"
  using host_new_always_grows [OF loaded_hosts(1), of "''a''" "\<lambda>i. i"] loaded_hosts(2) by auto

end
