(* ===== verification/Coroutine.thy ===== *)
theory Coroutine
  imports Float64
begin

text \<open>
  Coroutines: \<open>src/cflare/coroutine.c\<close>, a layer over the lthread library.

  The object of a coroutine is a block of memory that the coroutine and its creator share; this is what
  the model is about. \<open>None\<close> is a block that has been freed, so using it again is \<open>Dangling\<close>. What lthread
  answers is an argument: \<open>lthread_join\<close> gives, each time it is called, a reason (-2 for a timeout) and
  maybe a value for its result. What the entry point returns is an argument of the step that ends it.
  The calls made to lthread are recorded in order.
\<close>

section \<open>State\<close>

datatype lthread_call =
    Lthread_create | Lthread_set_data | Lthread_cancel | Lthread_sleep nat | Lthread_join_call | Lthread_detach
  | Lthread_detach2 | Lthread_wakeup | Lthread_set_funcname string | Lthread_run
  | Lthread_cond_create | Lthread_cond_wait addr "64 word" | Lthread_cond_signal addr | Lthread_cond_broadcast addr
  | Lthread_compute_begin | Lthread_compute_end

record 'r cflare_coroutine =
  co_running :: bool
  co_joined :: bool
  co_detached :: bool
  co_entry_context :: ptr
  co_return_data :: "'r option"

type_synonym 'r co_block = "'r cflare_coroutine option"

definition co_deref :: "'r co_block \<Rightarrow> 'r cflare_coroutine res" where
  "co_deref b = derefE b Dangling"

section \<open>Operations\<close>

definition cflare_coroutine_new :: "ptr \<Rightarrow> 'r co_block \<times> lthread_call list" where
  "cflare_coroutine_new context =
     (Some \<lparr>co_running = False, co_joined = False, co_detached = False, co_entry_context = context,
        co_return_data = None\<rparr>, [Lthread_create])"

text \<open>\<open>enter_entrypoint\<close>, cut where the entry point is called.\<close>

definition enter_begin :: "'r co_block \<Rightarrow> ('r co_block \<times> lthread_call list) res" where
  "enter_begin b = bindE (co_deref b) (\<lambda>co. Inr (Some (co\<lparr>co_running := True\<rparr>), [Lthread_set_data]))"

definition enter_end :: "'r \<Rightarrow> 'r co_block \<Rightarrow> ('r co_block \<times> lthread_call list) res" where
  "enter_end r b = bindE (co_deref b) (\<lambda>co.
     let co1 = co\<lparr>co_return_data := Some r, co_running := False\<rparr> in
     Inr (if co_detached co1 \<or> co_joined co1 then None else Some co1, []))"

definition enter_entrypoint :: "(ptr \<Rightarrow> 'r) \<Rightarrow> 'r co_block \<Rightarrow> ('r co_block \<times> lthread_call list) res" where
  "enter_entrypoint entry b =
     bindE (co_deref b) (\<lambda>co.
     bindE (enter_begin b) (\<lambda>(b1, cs).
     bindE (enter_end (entry (co_entry_context co)) b1) (\<lambda>(b2, cs'). Inr (b2, cs @ cs'))))"

definition cflare_coroutine_halt :: "'r co_block \<Rightarrow> ('r co_block \<times> lthread_call list) res" where
  "cflare_coroutine_halt b = bindE (co_deref b) (\<lambda>co. Inr (None, [Lthread_cancel]))"

definition cflare_coroutine_yield :: "lthread_call list" where
  "cflare_coroutine_yield = [Lthread_sleep 0]"

text \<open>
  The loop of a join: \<open>ret\<close> is a local variable that only lthread writes, through its address.
\<close>

fun join_loop :: "(int \<times> 'r option) list \<Rightarrow> 'r \<Rightarrow> ('r \<times> lthread_call list) res" where
  "join_loop [] ret = Inl Blocked"
| "join_loop ((reason, v) # answers) ret =
     (let ret' = (case v of None \<Rightarrow> ret | Some x \<Rightarrow> x) in
      if reason = -2 then bindE (join_loop answers ret') (\<lambda>(r, cs). Inr (r, Lthread_join_call # cs))
      else Inr (ret', [Lthread_join_call]))"

definition cflare_coroutine_join ::
  "(int \<times> 'r option) list \<Rightarrow> 'r \<Rightarrow> 'r co_block \<Rightarrow> ('r \<times> 'r co_block \<times> lthread_call list) res" where
  "cflare_coroutine_join answers junk b =
     bindE (co_deref b) (\<lambda>co. bindE (join_loop answers junk) (\<lambda>(r, cs). Inr (r, b, cs)))"

text \<open>\<open>self\<close> is the block \<open>lthread_get_data\<close> gives, the one the running coroutine has set.\<close>

definition cflare_coroutine_detach :: "'r co_block \<Rightarrow> ('r co_block \<times> lthread_call list) res" where
  "cflare_coroutine_detach self =
     bindE (co_deref self) (\<lambda>co. Inr (Some (co\<lparr>co_detached := True\<rparr>), [Lthread_detach]))"

definition cflare_coroutine_detach2 :: "'r co_block \<Rightarrow> ('r co_block \<times> lthread_call list) res" where
  "cflare_coroutine_detach2 b =
     bindE (co_deref b) (\<lambda>co. Inr (Some (co\<lparr>co_detached := True\<rparr>), [Lthread_detach2]))"

definition cflare_coroutine_wakeup :: "'r co_block \<Rightarrow> ('r co_block \<times> lthread_call list) res" where
  "cflare_coroutine_wakeup b = bindE (co_deref b) (\<lambda>co. Inr (b, [Lthread_wakeup]))"

definition cflare_coroutine_name :: "string \<Rightarrow> lthread_call list" where
  "cflare_coroutine_name name = [Lthread_set_funcname name]"

definition cflare_coroutine_scheduler_run :: "lthread_call list" where
  "cflare_coroutine_scheduler_run = [Lthread_run]"

definition cflare_coroutine_sleep :: "float64 \<Rightarrow> lthread_call list res" where
  "cflare_coroutine_sleep seconds =
     bindE (float_to_uint64 (float_times seconds 1000)) (\<lambda>ms. Inr [Lthread_sleep (unat ms)])"

definition cflare_coroutine_compute_begin :: "int \<Rightarrow> int \<times> lthread_call list" where
  "cflare_coroutine_compute_begin answer = (answer, [Lthread_compute_begin])"

definition cflare_coroutine_compute_end :: "lthread_call list" where
  "cflare_coroutine_compute_end = [Lthread_compute_end]"

section \<open>Conditions\<close>

text \<open>
  A condition is a block that points to one of lthread's. Both are freed together, the latter without a
  call of lthread; the result of the deletion has what is freed.
\<close>

record cflare_coroutinecondition =
  cc_c :: addr

type_synonym cond_block = "cflare_coroutinecondition option"

definition cflare_coroutinecondition_new :: "int \<Rightarrow> addr \<Rightarrow> (cond_block \<times> lthread_call list) res" where
  "cflare_coroutinecondition_new r c =
     bindE (assertE (r = 0) Assert_failed) (\<lambda>_. Inr (Some \<lparr>cc_c = c\<rparr>, [Lthread_cond_create]))"

definition cflare_coroutinecondition_delete :: "cond_block \<Rightarrow> (cond_block \<times> addr list) res" where
  "cflare_coroutinecondition_delete b = bindE (derefE b Dangling) (\<lambda>co. Inr (None, [cc_c co]))"

definition cflare_coroutinecondition_wait ::
  "int \<Rightarrow> cond_block \<Rightarrow> float64 \<Rightarrow> (int \<times> lthread_call list) res" where
  "cflare_coroutinecondition_wait answer b timeout =
     bindE (wait_timeout timeout) (\<lambda>to.
     bindE (derefE b Dangling) (\<lambda>co. Inr (answer, [Lthread_cond_wait (cc_c co) to])))"

definition cflare_coroutinecondition_signal :: "cond_block \<Rightarrow> lthread_call list res" where
  "cflare_coroutinecondition_signal b = bindE (derefE b Dangling) (\<lambda>co. Inr [Lthread_cond_signal (cc_c co)])"

definition cflare_coroutinecondition_broadcast :: "cond_block \<Rightarrow> lthread_call list res" where
  "cflare_coroutinecondition_broadcast b = bindE (derefE b Dangling) (\<lambda>co. Inr [Lthread_cond_broadcast (cc_c co)])"

section \<open>The life of a coroutine\<close>

text \<open>
  What can happen to the block after its creation: the scheduler starts and ends the entry point, the
  coroutine or its creator detaches it, the creator joins it, wakes it or halts it.
\<close>

datatype 'r co_event =
    Begin | End 'r | Detach_self | Detach_other | Joins "(int \<times> 'r option) list" 'r | Wakeup | Halt

definition co_step :: "'r co_block \<Rightarrow> 'r co_event \<Rightarrow> 'r co_block res" where
  "co_step b ev = (case ev of
       Begin \<Rightarrow> bindE (enter_begin b) (\<lambda>r. Inr (fst r))
     | End x \<Rightarrow> bindE (enter_end x b) (\<lambda>r. Inr (fst r))
     | Detach_self \<Rightarrow> bindE (cflare_coroutine_detach b) (\<lambda>r. Inr (fst r))
     | Detach_other \<Rightarrow> bindE (cflare_coroutine_detach2 b) (\<lambda>r. Inr (fst r))
     | Joins answers junk \<Rightarrow> bindE (cflare_coroutine_join answers junk b) (\<lambda>r. Inr (fst (snd r)))
     | Wakeup \<Rightarrow> bindE (cflare_coroutine_wakeup b) (\<lambda>r. Inr (fst r))
     | Halt \<Rightarrow> bindE (cflare_coroutine_halt b) (\<lambda>r. Inr (fst r)))"

fun co_run :: "'r co_block \<Rightarrow> 'r co_event list \<Rightarrow> 'r co_block res" where
  "co_run b [] = Inr b"
| "co_run b (ev # evs) = bindE (co_step b ev) (\<lambda>b'. co_run b' evs)"

definition is_detach :: "'r co_event \<Rightarrow> bool" where
  "is_detach ev = (ev = Detach_self \<or> ev = Detach_other)"

definition is_end :: "'r co_event \<Rightarrow> bool" where
  "is_end ev = (case ev of End _ \<Rightarrow> True | _ \<Rightarrow> False)"

lemma co_run_append: "co_run b (xs @ ys) = bindE (co_run b xs) (\<lambda>b'. co_run b' ys)"
  by (induction xs arbitrary: b) (simp_all add: bindE_assoc)

lemma co_step_freed [simp]: "co_step None ev = Inl Dangling"
  by (cases ev) (simp_all add: co_step_def co_deref_def enter_begin_def enter_end_def cflare_coroutine_detach_def
      cflare_coroutine_detach2_def cflare_coroutine_join_def cflare_coroutine_wakeup_def cflare_coroutine_halt_def)

text \<open>Every step but the end and the halt keeps the block; no step ever sets \<open>joined\<close>.\<close>

lemma co_step_alive:
  assumes "co_step (Some co) ev = Inr b" and "\<not> co_joined co"
  shows "case b of
      None \<Rightarrow> ev = Halt \<or> is_end ev \<and> co_detached co
    | Some co' \<Rightarrow> \<not> co_joined co' \<and> ev \<noteq> Halt \<and> (co_detached co' \<longleftrightarrow> co_detached co \<or> is_detach ev) \<and>
        (is_end ev \<longrightarrow> \<not> co_detached co) \<and> (\<not> is_end ev \<longrightarrow> co_return_data co' = co_return_data co)"
  using assms
  by (cases ev) (auto simp: co_step_def co_deref_def enter_begin_def enter_end_def cflare_coroutine_detach_def
      cflare_coroutine_detach2_def cflare_coroutine_join_def cflare_coroutine_wakeup_def cflare_coroutine_halt_def
      is_detach_def is_end_def Let_def split: if_splits)

text \<open>Before the end: the flag says whether one of the events was a detach.\<close>

lemma co_run_alive:
  assumes "\<not> co_joined co" and "\<not> co_detached co"
  shows "co_run (Some co) evs = Inr b \<Longrightarrow> \<forall>ev \<in> set evs. ev \<noteq> Halt \<and> \<not> is_end ev \<Longrightarrow>
    \<exists>co'. b = Some co' \<and> \<not> co_joined co' \<and> co_return_data co' = co_return_data co \<and>
      (co_detached co' \<longleftrightarrow> (\<exists>ev \<in> set evs. is_detach ev))"
proof (induction evs arbitrary: b rule: rev_induct)
  case Nil
  with assms show ?case by auto
next
  case (snoc ev evs)
  then obtain b1 where b1: "co_run (Some co) evs = Inr b1" "co_step b1 ev = Inr b"
    by (auto simp: co_run_append)
  with snoc.IH [OF b1(1)] snoc.prems(2) obtain co1 where
    co1: "b1 = Some co1" "\<not> co_joined co1" "co_return_data co1 = co_return_data co"
      "co_detached co1 \<longleftrightarrow> (\<exists>ev \<in> set evs. is_detach ev)"
    by auto
  with co_step_alive [of co1 ev b] b1(2) snoc.prems(2) show ?case
    by (cases b) auto
qed

lemma co_run_nothing_after: "co_run None evs = Inr b \<Longrightarrow> evs = [] \<and> b = None"
  by (cases evs) auto

lemma enter_end_step:
  "co_step (Some co) (End r) = Inr (if co_detached co \<or> co_joined co then None
     else Some (co\<lparr>co_return_data := Some r, co_running := False\<rparr>))"
  by (auto simp: co_step_def co_deref_def enter_end_def Let_def)

section \<open>Properties\<close>



text \<open>What a join returns does not depend on what the coroutine has returned, only on lthread.\<close>

lemma join_ignores_return_data:
  "cflare_coroutine_join answers junk (Some co) =
     bindE (join_loop answers junk) (\<lambda>(r, cs). Inr (r, Some co, cs))"
  by (simp add: cflare_coroutine_join_def co_deref_def)

text \<open>A join ends once lthread answers anything but a timeout, whatever number of timeouts come before.\<close>

lemma join_returns:
  assumes "\<forall>a \<in> set timeouts. fst a = -2" and "reason \<noteq> -2"
  shows "\<exists>r. join_loop (timeouts @ (reason, v) # answers) junk =
    Inr (r, replicate (length timeouts + 1) Lthread_join_call) \<and> (v = Some x \<longrightarrow> r = x)"
  using assms(1)
proof (induction timeouts arbitrary: junk)
  case Nil
  with assms(2) show ?case by (auto split: option.split)
next
  case (Cons a timeouts)
  obtain w where a: "a = (-2, w)" using Cons.prems by (cases a) auto
  from Cons show ?case by (fastforce simp: a Let_def)
qed

end
