(* ===== verification/Program.thy ===== *)
theory Program
  imports Server Lifecycle Hosts Coroutine
begin

text \<open>
  The function \<open>main\<close> of \<open>src/main.c\<close>: what the executable does from the loading of the library to its end, with
  the library, the options, the hooks, the hosts and the coroutines as the other theories model them.

  The two things \<open>main\<close> hands control to are arguments: what the unit tests return and leave behind, and what the library and
  the state of the hooks are when the scheduler of lthread has no coroutine left to run.
\<close>

record ('d, 'p, 's) surroundings =
  su_signal_ok :: bool
  su_junk :: "nat \<Rightarrow> char"
  su_status_files :: "string option list"
  su_header_files :: "string option list"
  su_version :: string
  su_unit_test :: "('d, 'p) library \<Rightarrow> 's \<Rightarrow> (int \<times> ('d, 'p) library \<times> 's) res"
  su_scheduler :: "('d, 'p) library \<Rightarrow> 's \<Rightarrow> (('d, 'p) library \<times> 's) res"

datatype main_event = Printed stream string | Lthread lthread_call

text \<open>The branches of \<open>main\<close>: the result, the library and the state of the hooks after it, and what can be seen of it.\<close>

definition main_action_run ::
  "('d, 'p, 's) surroundings \<Rightarrow> ('f, 's) hook_runner \<Rightarrow> 'f cflare_hookstack_elm \<Rightarrow> hosts_state \<Rightarrow> ('d, 'p) library \<Rightarrow> 's
   \<Rightarrow> main_action \<Rightarrow> (int \<times> ('d, 'p) library \<times> 's \<times> main_event list) res" where
  "main_action_run su run junk table lib world action = (case action of
       Print_version \<Rightarrow>
         bindE (cflare_log_c run junk (lib_hooks lib) world (''cflare '' @ su_version su)) (\<lambda>(world', stream, line).
           Inr (0, lib, world', [Printed stream line]))
     | Unit_test \<Rightarrow>
         bindE (su_unit_test su lib world) (\<lambda>(result, lib', world'). Inr (result, lib', world', []))
     | Listen \<Rightarrow>
         (case (cflare_coroutine_new None :: unit co_block \<times> lthread_call list) of (co, created) \<Rightarrow>
         bindE (cflare_coroutine_detach2 co) (\<lambda>(co', detached).
         bindE (su_scheduler su lib world) (\<lambda>(lib', world').
           Inr (0, lib', world', map Lthread (created @ detached @ cflare_coroutine_scheduler_run)))))
     | Demonstration \<Rightarrow>
         bindE (cflare_host_new table ''localhost'') (\<lambda>(hosts1, lh).
         bindE (cflare_host_mapf hosts1 lh ''/topic/%s/page/%f'' 1 None) (\<lambda>hosts2.
         bindE (cflare_host_delete hosts2 lh) (\<lambda>_. Inr (0, lib, world, [])))))"

definition main_end :: "('d, 'p) library \<Rightarrow> int \<Rightarrow> (int \<times> ('d, 'p) library) res" where
  "main_end lib result = bindE (cflare_unload lib) (\<lambda>lib'. Inr (result, lib'))"

definition main_program ::
  "('d, 'p, 's) surroundings \<Rightarrow> ('f, 's) hook_runner \<Rightarrow> 'f cflare_hookstack_elm \<Rightarrow> hosts_state \<Rightarrow> ('d, 'p) library \<Rightarrow> 's
   \<Rightarrow> string list \<Rightarrow> (int \<times> ('d, 'p) library \<times> 's \<times> main_event list) res" where
  "main_program su run junk table lib world argv =
     bindE (if su_signal_ok su then Inr (world, [])
            else bindE (cflare_warn_c run junk (lib_hooks lib) world (''couldn'' @ [CHR 0x27] @ ''t install SIGINT handler''))
              (\<lambda>(world', stream, line). Inr (world', [Printed stream line]))) (\<lambda>(world1, warned).
     bindE (cflare_load (su_junk su) (su_status_files su) (su_header_files su) lib argv) (\<lambda>lib1.
     bindE (cflare_hook_call run (lib_hooks lib1) ''Load'' None world1) (\<lambda>(world2, stopped).
     bindE (derefE (lib_options lib1) Null_deref) (\<lambda>opts.
     bindE (main_choice opts) (\<lambda>action.
     bindE (main_action_run su run junk table lib1 world2 action) (\<lambda>(result, lib2, world3, events).
     bindE (main_end lib2 result) (\<lambda>(result', lib3). Inr (result', lib3, world3, warned @ events))))))))"

section \<open>Properties\<close>

text \<open>The variables of the library and of the hosts when the process starts.\<close>

definition at_start :: "('d, 'p) library \<Rightarrow> hosts_state \<Rightarrow> bool" where
  "at_start lib table \<longleftrightarrow> \<not> loaded (lib_handles lib) \<and> \<not> hs_loaded (lib_hooks lib) \<and>
     hosts table = None \<and> hosts_alloc table = 32"

lemma load_succeeds:
  assumes "at_start lib table" and "cflare_httpstatus_load junk status_files = Inr sc" and "file_bytes header_files < 2 ^ 31"
  shows "\<exists>lib' opts. cflare_load junk status_files header_files lib (exe # argv) = Inr lib' \<and> library_inv lib' \<and>
    (\<forall>name. hooks_of (lib_hooks lib') name = []) \<and> lib_options lib' = Some opts \<and> opt_args opts = arguments argv \<and>
    (\<forall>name. get_option opts name = Inr (apply_settings Map.empty (settings argv) name))"
proof -
  have empty: "option_map (cflare_hashtable_new :: string cflare_hashtable) = Map.empty"
    by (auto simp: cflare_hashtable_new_def option_map_def ht_map_def entries_map_def)
  from options_loop_ok [OF new_table_ok, of argv "[]"] empty obtain tbl where
    t: "options_loop argv True cflare_hashtable_new [] = Inr (tbl, arguments argv)" "ht_ok tbl"
      "option_map tbl = apply_settings Map.empty (settings argv)" by auto
  let ?opts = "\<lparr>opt_hashtable = tbl, env_hashtable = cflare_hashtable_new, opt_args = arguments argv, opt_self = Some exe\<rparr>"
  have opts: "cflare_options_load (exe # argv) = Inr ?opts" using t(1) by (simp add: cflare_options_load_def)
  have get: "get_option ?opts name = Inr (apply_settings Map.empty (settings argv) name)" for name
    using ht.get_view [OF t(2)] t(3) by (simp add: get_option_def option_map_def fun_eq_iff)
  from headers_load_ok [OF assms(3), of junk] obtain hd hs where "cflare_headers_load junk header_files = Inr (hd, hs)" by blast
  with assms(1,2) opts obtain lib' where
    l: "cflare_load junk status_files header_files lib (exe # argv) = Inr lib'" "lib_options lib' = Some ?opts"
    by (simp add: cflare_load_def cflare_handle_load_def cflare_hook_load_def assertE_def at_start_def)
  with load_inv [OF l(1) assms(3)] load_ready [OF l(1)] get show ?thesis by auto
qed

lemma log_without_hooks:
  assumes "hook_inv st" and "\<forall>name. hooks_of st name = []"
  shows "cflare_log_c run junk st world str = Inr (world, Stdout, str @ [LF])"
proof -
  from call_log_hook_ok [of st str "''log''" run junk world] assms obtain freed where
    "call_log_hook run junk st world ''log'' str = Inr (world, freed)" by (auto simp: hook_inv_def)
  then show ?thesis by (simp add: cflare_log_c_def log_with_def)
qed

lemma main_reaches_choice:
  assumes "at_start lib table" and "su_signal_ok su" and "cflare_httpstatus_load (su_junk su) (su_status_files su) = Inr sc"
    and "file_bytes (su_header_files su) < 2 ^ 31"
  shows "\<exists>lib1 opts. library_inv lib1 \<and> (\<forall>name. hooks_of (lib_hooks lib1) name = []) \<and> opt_args opts = arguments argv \<and>
    (\<forall>name. get_option opts name = Inr (apply_settings Map.empty (settings argv) name)) \<and>
    main_program su run junk table lib world (exe # argv) =
      bindE (main_choice opts) (\<lambda>action. bindE (main_action_run su run junk table lib1 world action)
        (\<lambda>(result, lib2, world', events). bindE (main_end lib2 result) (\<lambda>(result', lib3). Inr (result', lib3, world', events))))"
proof -
  from load_succeeds [OF assms(1,3,4), of exe argv] obtain lib1 opts where
    l: "cflare_load (su_junk su) (su_status_files su) (su_header_files su) lib (exe # argv) = Inr lib1" "library_inv lib1"
      "\<forall>name. hooks_of (lib_hooks lib1) name = []" "lib_options lib1 = Some opts" "opt_args opts = arguments argv"
      "\<forall>name. get_option opts name = Inr (apply_settings Map.empty (settings argv) name)" by blast
  have "hook_inv (lib_hooks lib1)" using l(2) by (simp add: library_inv_def)
  then have "cflare_hook_call run (lib_hooks lib1) ''Load'' None world = Inr (world, False)"
    using hook_call_ok [of "lib_hooks lib1" run "''Load''" None world] l(3) by (simp add: hook_inv_def)
  with l assms(2) show ?thesis
    by (intro exI [of _ lib1] exI [of _ opts]) (simp add: main_program_def)
qed


text \<open>Surroundings in which nothing is found in the configuration, and nobody connects.\<close>

definition quiet :: "(int, int, nat) surroundings" where
  "quiet = \<lparr>su_signal_ok = True, su_junk = (\<lambda>_. CHR ''?''), su_status_files = [None], su_header_files = [],
     su_version = ''1.0.0'', su_unit_test = (\<lambda>l w. Inr (0, l, w)), su_scheduler = (\<lambda>l w. Inr (l, w + 1))\<rparr>"

definition no_table :: hosts_state where
  "no_table = \<lparr>hosts = None, hosts_len = 0, hosts_alloc = 32, hosts_fresh = 0\<rparr>"


end
