(* ===== verification/MutexTest.thy ===== *)
theory MutexTest
  imports Cflare_Prelude
begin

text \<open>
  The tests of the mutexes in \<open>src/unit-test.c\<close>, as threads that run in any order.

  A step is one access to what the threads share: a lock taken or released, a variable read or written. Taking a lock is
  possible only where it is free; this is all that is assumed of the locks of pthread. Which thread takes the next step is open.
\<close>

section \<open>Adding under a mutex\<close>

text \<open>Where a thread of \<open>test_mutex_adder\<close> is, with its \<open>i\<close>, and what it has read of \<open>*container->value\<close>.\<close>

datatype adder = Looping nat | Locked nat | Loaded nat int | Stored nat | Finished

record mutex_shared =
  ms_result :: int
  ms_owner :: "nat option"

fun test_mutex_adder :: "nat \<Rightarrow> nat \<Rightarrow> adder \<Rightarrow> mutex_shared \<Rightarrow> (adder \<times> mutex_shared) option" where
  "test_mutex_adder add t (Looping i) m =
     (if \<not> i < add then Some (Finished, m)
      else if ms_owner m \<noteq> None then None else Some (Locked i, m\<lparr>ms_owner := Some t\<rparr>))"
| "test_mutex_adder add t (Locked i) m = Some (Loaded i (ms_result m), m)"
| "test_mutex_adder add t (Loaded i v) m = Some (Stored i, m\<lparr>ms_result := v + 1\<rparr>)"
| "test_mutex_adder add t (Stored i) m = Some (Looping (i + 1), m\<lparr>ms_owner := None\<rparr>)"
| "test_mutex_adder add t Finished m = None"

text \<open>The test makes its threads one by one and joins them in the same order.\<close>

record mutexes_normal =
  mn_shared :: mutex_shared
  mn_threads :: "adder list"
  mn_joined :: nat

datatype main_step = Create | Join

datatype normal_event = Main main_step | Thread nat

definition mutexes_normal_start :: mutexes_normal where
  "mutexes_normal_start = \<lparr>mn_shared = \<lparr>ms_result = 0, ms_owner = None\<rparr>, mn_threads = [], mn_joined = 0\<rparr>"

fun mutexes_normal_step :: "nat \<Rightarrow> nat \<Rightarrow> normal_event \<Rightarrow> mutexes_normal \<Rightarrow> mutexes_normal option" where
  "mutexes_normal_step num_threads num_add (Main Create) s =
     (if length (mn_threads s) < num_threads then Some (s\<lparr>mn_threads := mn_threads s @ [Looping 0]\<rparr>) else None)"
| "mutexes_normal_step num_threads num_add (Main Join) s =
     (if length (mn_threads s) = num_threads \<and> mn_joined s < num_threads \<and> mn_threads s ! mn_joined s = Finished
      then Some (s\<lparr>mn_joined := mn_joined s + 1\<rparr>) else None)"
| "mutexes_normal_step num_threads num_add (Thread t) s =
     (if t < length (mn_threads s)
      then map_option (\<lambda>(p, m). s\<lparr>mn_shared := m, mn_threads := (mn_threads s)[t := p]\<rparr>)
             (test_mutex_adder num_add t (mn_threads s ! t) (mn_shared s))
      else None)"

fun mutexes_normal_run :: "nat \<Rightarrow> nat \<Rightarrow> normal_event list \<Rightarrow> mutexes_normal \<Rightarrow> mutexes_normal option" where
  "mutexes_normal_run num_threads num_add [] s = Some s"
| "mutexes_normal_run num_threads num_add (e # es) s =
     Option.bind (mutexes_normal_step num_threads num_add e s) (mutexes_normal_run num_threads num_add es)"

text \<open>The test has come to its end, and what it answers.\<close>

definition test_mutexes_normal :: "nat \<Rightarrow> nat \<Rightarrow> mutexes_normal \<Rightarrow> bool option" where
  "test_mutexes_normal num_threads num_add s =
     (if mn_joined s = num_threads then Some (ms_result (mn_shared s) = int num_threads * int num_add) else None)"

subsection \<open>The invariant\<close>

fun inside :: "adder \<Rightarrow> bool" where
  "inside (Looping i) = False"
| "inside Finished = False"
| "inside _ = True"

text \<open>What a thread has added so far, and the steps it has left.\<close>

fun added :: "nat \<Rightarrow> adder \<Rightarrow> nat" where
  "added n (Looping i) = i"
| "added n (Locked i) = i"
| "added n (Loaded i v) = i"
| "added n (Stored i) = i + 1"
| "added n Finished = n"

fun left :: "nat \<Rightarrow> adder \<Rightarrow> nat" where
  "left n (Looping i) = 4 * (n - i) + 1"
| "left n (Locked i) = 4 * (n - i)"
| "left n (Loaded i v) = 4 * (n - i) - 1"
| "left n (Stored i) = 4 * (n - i) - 2"
| "left n Finished = 0"

fun adder_ok :: "nat \<Rightarrow> int \<Rightarrow> adder \<Rightarrow> bool" where
  "adder_ok n r (Looping i) = (i \<le> n)"
| "adder_ok n r (Locked i) = (i < n)"
| "adder_ok n r (Loaded i v) = (i < n \<and> v = r)"
| "adder_ok n r (Stored i) = (i < n)"
| "adder_ok n r Finished = True"

definition adders_ok :: "nat \<Rightarrow> mutex_shared \<Rightarrow> adder list \<Rightarrow> bool" where
  "adders_ok n m ps \<longleftrightarrow> ms_result m = int (sum_list (map (added n) ps)) \<and>
     (\<forall>t < length ps. adder_ok n (ms_result m) (ps ! t) \<and> (inside (ps ! t) \<longleftrightarrow> ms_owner m = Some t)) \<and>
     (\<forall>t. ms_owner m = Some t \<longrightarrow> t < length ps)"

lemma adder_ok_outside: "\<not> inside p \<Longrightarrow> adder_ok n r p = adder_ok n r' p"
  by (cases p) simp_all

lemma adder_step_ok:
  assumes ok: "adders_ok n m ps" and t: "t < length ps" and step: "test_mutex_adder n t (ps ! t) m = Some (p, m')"
  shows "adders_ok n m' (ps[t := p]) \<and> left n (ps ! t) = left n p + 1"
proof -
  have sum: "sum_list (map (added n) (ps[t := p])) + added n (ps ! t) = sum_list (map (added n) ps) + added n p"
    by (rule sum_list_map_update [OF t])
  have here: "adder_ok n (ms_result m) (ps ! t)" "inside (ps ! t) \<longleftrightarrow> ms_owner m = Some t"
    and r: "ms_result m = int (sum_list (map (added n) ps))" using ok t unfolding adders_ok_def by blast+
  have result: "ms_result m' = int (sum_list (map (added n) (ps[t := p])))"
    using step sum here r by (cases "ps ! t") (auto split: if_splits)
  have self: "adder_ok n (ms_result m') p \<and> (inside p \<longleftrightarrow> ms_owner m' = Some t)"
    using step here by (cases "ps ! t") (auto split: if_splits)
  have owner: "\<forall>u. ms_owner m' = Some u \<longrightarrow> u < length ps" and moved: "u \<noteq> t \<Longrightarrow> (ms_owner m' = Some u) = (ms_owner m = Some u)" for u
    using ok t step here by (cases "ps ! t"; auto simp: adders_ok_def split: if_splits)+
  have other: "adder_ok n (ms_result m') (ps ! u) \<and> (inside (ps ! u) \<longleftrightarrow> ms_owner m' = Some u)"
    if u: "u < length ps" "u \<noteq> t" for u
  proof -
    have a: "adder_ok n (ms_result m) (ps ! u)" "inside (ps ! u) \<longleftrightarrow> ms_owner m = Some u"
      using ok u unfolding adders_ok_def by blast+
    have "adder_ok n (ms_result m') (ps ! u)"
    proof (cases "ms_owner m = Some t")
      case True
      with u(2) a(2) have "\<not> inside (ps ! u)" by simp
      with a(1) adder_ok_outside show ?thesis by blast
    next
      case False
      with here(2) step have "ms_result m' = ms_result m" by (cases "ps ! t") (auto split: if_splits)
      with a(1) show ?thesis by simp
    qed
    with a(2) moved [OF u(2)] show ?thesis by simp
  qed
  have "adders_ok n m' (ps[t := p])"
    using result owner self other t by (auto simp: adders_ok_def nth_list_update)
  moreover have "left n (ps ! t) = left n p + 1"
    using step here(1) by (cases "ps ! t") (auto split: if_splits)
  ultimately show ?thesis by blast
qed

lemma adders_ok_new: "adders_ok n m ps \<Longrightarrow> adders_ok n m (ps @ [Looping 0])"
  unfolding adders_ok_def by (auto simp: nth_append less_Suc_eq)

definition normal_inv :: "nat \<Rightarrow> nat \<Rightarrow> mutexes_normal \<Rightarrow> bool" where
  "normal_inv k n s \<longleftrightarrow> adders_ok n (mn_shared s) (mn_threads s) \<and> length (mn_threads s) \<le> k \<and> mn_joined s \<le> k \<and>
     (0 < mn_joined s \<longrightarrow> length (mn_threads s) = k) \<and> (\<forall>t < mn_joined s. mn_threads s ! t = Finished)"

text \<open>The steps that are left: each thread has to be made and joined, and the ones that exist have to come to their ends.\<close>

definition steps_left :: "nat \<Rightarrow> nat \<Rightarrow> mutexes_normal \<Rightarrow> nat" where
  "steps_left k n s = (k - length (mn_threads s)) * (4 * n + 2) + sum_list (map (left n) (mn_threads s)) + (k - mn_joined s)"

lemma normal_inv_start: "normal_inv k n mutexes_normal_start"
  by (simp add: normal_inv_def mutexes_normal_start_def adders_ok_def)

lemma normal_step_ok:
  assumes inv: "normal_inv k n s" and step: "mutexes_normal_step k n e s = Some s'"
  shows "normal_inv k n s' \<and> steps_left k n s = steps_left k n s' + 1"
proof (cases e)
  case (Main a)
  show ?thesis
  proof (cases a)
    case Create
    with Main step have s': "s' = s\<lparr>mn_threads := mn_threads s @ [Looping 0]\<rparr>" "length (mn_threads s) < k" by (auto split: if_splits)
    with inv have "mn_joined s = 0" by (auto simp: normal_inv_def)
    moreover obtain d where "k = length (mn_threads s) + Suc d" using s'(2) less_imp_Suc_add by auto
    ultimately show ?thesis using inv s' adders_ok_new by (simp add: normal_inv_def steps_left_def)
  next
    case Join
    with Main step inv show ?thesis by (auto simp: normal_inv_def steps_left_def less_Suc_eq split: if_splits)
  qed
next
  case (Thread t)
  with step obtain p m where t: "t < length (mn_threads s)"
    and p: "test_mutex_adder n t (mn_threads s ! t) (mn_shared s) = Some (p, m)"
    and s': "s' = s\<lparr>mn_shared := m, mn_threads := (mn_threads s)[t := p]\<rparr>" by (auto split: if_splits)
  from inv have "adders_ok n (mn_shared s) (mn_threads s)" by (simp add: normal_inv_def)
  from adder_step_ok [OF this t p] have ok: "adders_ok n m ((mn_threads s)[t := p])" "left n (mn_threads s ! t) = left n p + 1" by auto
  have "sum_list (map (left n) ((mn_threads s)[t := p])) + left n (mn_threads s ! t) = sum_list (map (left n) (mn_threads s)) + left n p"
    by (rule sum_list_map_update [OF t])
  moreover have "\<not> t < mn_joined s"
  proof
    assume "t < mn_joined s"
    with inv have "mn_threads s ! t = Finished" by (simp add: normal_inv_def)
    with p show False by simp
  qed
  ultimately show ?thesis using inv s' ok by (auto simp: normal_inv_def steps_left_def nth_list_update)
qed

lemma normal_run_ok:
  "normal_inv k n s \<Longrightarrow> mutexes_normal_run k n es s = Some s' \<Longrightarrow> normal_inv k n s' \<and> steps_left k n s = steps_left k n s' + length es"
proof (induction es arbitrary: s)
  case (Cons e es)
  from Cons.prems(2) obtain s1 where s1: "mutexes_normal_step k n e s = Some s1" "mutexes_normal_run k n es s1 = Some s'"
    by (auto simp: bind_eq_Some_conv)
  with normal_step_ok [OF Cons.prems(1) s1(1)] Cons.IH [OF _ s1(2)] show ?case by simp
qed simp

text \<open>Whoever holds the mutex can go on; where nobody does, everybody can.\<close>

lemma normal_progress:
  assumes inv: "normal_inv k n s" and going: "mn_joined s \<noteq> k"
  shows "\<exists>e s'. mutexes_normal_step k n e s = Some s'"
proof (cases "length (mn_threads s) < k")
  case True
  then show ?thesis by (intro exI [of _ "Main Create"]) simp
next
  case False
  with inv going have made: "length (mn_threads s) = k" "mn_joined s < k" by (auto simp: normal_inv_def)
  from inv have ok: "adders_ok n (mn_shared s) (mn_threads s)" by (simp add: normal_inv_def)
  let ?t = "case ms_owner (mn_shared s) of Some t \<Rightarrow> t | None \<Rightarrow> mn_joined s"
  have t: "?t < k" using ok made by (auto simp: adders_ok_def split: option.split)
  show ?thesis
  proof (cases "mn_threads s ! mn_joined s = Finished")
    case True
    with made show ?thesis by (intro exI [of _ "Main Join"]) simp
  next
    case False
    have "inside (mn_threads s ! ?t) \<longleftrightarrow> ms_owner (mn_shared s) = Some ?t" using ok t made(1) by (simp add: adders_ok_def)
    with False have "\<exists>r. test_mutex_adder n ?t (mn_threads s ! ?t) (mn_shared s) = Some r"
      by (cases "mn_threads s ! ?t") (auto split: option.splits)
    with t made(1) show ?thesis by (intro exI [of _ "Thread ?t"]) auto
  qed
qed

lemma normal_all_done:
  assumes inv: "normal_inv k n s" and joined: "mn_joined s = k"
  shows "mn_threads s = replicate k Finished"
proof (rule nth_equalityI)
  show l: "length (mn_threads s) = length (replicate k Finished)" using inv joined by (auto simp: normal_inv_def)
  show "mn_threads s ! t = replicate k Finished ! t" if "t < length (mn_threads s)" for t
    using inv joined l that by (simp add: normal_inv_def)
qed

lemma normal_answer:
  assumes inv: "normal_inv k n s" and joined: "mn_joined s = k"
  shows "test_mutexes_normal k n s = Some True"
proof -
  have "ms_result (mn_shared s) = int (sum_list (map (added n) (mn_threads s)))" using inv by (simp add: normal_inv_def adders_ok_def)
  then have "ms_result (mn_shared s) = int k * int n" by (simp add: normal_all_done [OF inv joined] sum_list_replicate)
  with joined show ?thesis by (simp add: test_mutexes_normal_def)
qed

text \<open>The end can be reached from wherever the test is.\<close>

lemma normal_end_reachable:
  "normal_inv k n s \<Longrightarrow> \<exists>es s'. mutexes_normal_run k n es s = Some s' \<and> mn_joined s' = k"
proof (induction "steps_left k n s" arbitrary: s rule: less_induct)
  case less
  show ?case
  proof (cases "mn_joined s = k")
    case True
    then show ?thesis by (intro exI [of _ "[]"] exI [of _ s]) simp
  next
    case False
    from normal_progress [OF less.prems False] obtain e s1 where e: "mutexes_normal_step k n e s = Some s1" by blast
    with normal_step_ok [OF less.prems e] less.hyps [of s1] obtain es s' where
      "mutexes_normal_run k n es s1 = Some s'" "mn_joined s' = k" by auto
    with e show ?thesis by (intro exI [of _ "e # es"] exI [of _ s']) simp
  qed
qed

text \<open>
  C12: however the threads that add under the mutex are interleaved, no two of them are between locking and unlocking at a time, the test never gets
  stuck, and it comes to its end after exactly as many steps as it has to take; there it answers true, since no addition is lost.
\<close>

theorem mutexes_normal_counts:
  assumes "mutexes_normal_run num_threads num_add es mutexes_normal_start = Some s"
  shows "(\<forall>t < length (mn_threads s). \<forall>u < length (mn_threads s). inside (mn_threads s ! t) \<longrightarrow> inside (mn_threads s ! u) \<longrightarrow> t = u) \<and>
    length es \<le> num_threads * (4 * num_add + 3) \<and>
    (length es = num_threads * (4 * num_add + 3) \<longleftrightarrow> mn_joined s = num_threads) \<and>
    (if mn_joined s = num_threads then test_mutexes_normal num_threads num_add s = Some True
     else \<exists>e s'. mutexes_normal_step num_threads num_add e s = Some s')"
proof -
  let ?k = num_threads let ?n = num_add
  from normal_run_ok [OF normal_inv_start assms] have inv: "normal_inv ?k ?n s"
    and left: "steps_left ?k ?n s + length es = ?k * (4 * ?n + 3)"
    by (auto simp: steps_left_def mutexes_normal_start_def algebra_simps)
  have ok: "adders_ok ?n (mn_shared s) (mn_threads s)" using inv by (simp add: normal_inv_def)
  have finished: "steps_left ?k ?n s = 0 \<longleftrightarrow> mn_joined s = ?k"
  proof
    assume "mn_joined s = ?k"
    with normal_all_done [OF inv] show "steps_left ?k ?n s = 0" by (simp add: steps_left_def sum_list_replicate)
  qed (use inv in \<open>simp add: steps_left_def normal_inv_def\<close>)
  have "t = u" if "t < length (mn_threads s)" "u < length (mn_threads s)" "inside (mn_threads s ! t)" "inside (mn_threads s ! u)" for t u
    using ok that by (auto simp: adders_ok_def)
  with left finished normal_answer [OF inv] normal_progress [OF inv] show ?thesis by auto
qed

lemma mutexes_normal_counts_witness:
  "\<exists>s. mutexes_normal_run 2 1 [Main Create, Main Create, Thread 1, Thread 1, Thread 1, Thread 1, Thread 0, Thread 0, Thread 0, Thread 0,
      Thread 1, Thread 0, Main Join, Main Join] mutexes_normal_start = Some s \<and> test_mutexes_normal 2 1 s = Some True"
proof -
  let ?es = "[Main Create, Main Create, Thread 1, Thread 1, Thread 1, Thread 1, Thread 0, Thread 0, Thread 0, Thread 0,
      Thread 1, Thread 0, Main Join, Main Join]"
  obtain s where s: "mutexes_normal_run 2 1 ?es mutexes_normal_start = Some s" by (simp add: mutexes_normal_start_def)
  from mutexes_normal_counts [OF s] s show ?thesis by auto
qed

section \<open>Reading and writing under a read-write mutex\<close>

text \<open>
  Where a thread of \<open>test_mutexes_reader\<close> or \<open>test_mutexes_writer\<close> is, with its \<open>okay\<close> and its count: at the test of the
  loop; about to take the lock; inside, before and after it has checked the value; a writer also after it has set the value to zero and after it has
  set it back. Then about to take the lock for the sum; inside, before and after it has read the sum; after it has stored it; and at its end.
\<close>

datatype rw_place = At_test | Wants | Enters | Checked | Zeroed | Restored | Wants_sum | Enters_sum | Read_sum nat | Stored_sum | Over

record rw_thread =
  rt_writer :: bool
  rt_place :: rw_place
  rt_okay :: bool
  rt_count :: nat

record test_mutexesrw_container =
  rc_value :: int
  rc_reads :: nat
  rc_writes :: nat
  rc_running :: bool
  rc_readers :: nat
  rc_writer :: "nat option"

definition lock_read :: "test_mutexesrw_container \<Rightarrow> test_mutexesrw_container option" where
  "lock_read c = (if rc_writer c = None then Some (c\<lparr>rc_readers := rc_readers c + 1\<rparr>) else None)"

definition lock_write :: "nat \<Rightarrow> test_mutexesrw_container \<Rightarrow> test_mutexesrw_container option" where
  "lock_write t c = (if rc_writer c = None \<and> rc_readers c = 0 then Some (c\<lparr>rc_writer := Some t\<rparr>) else None)"

text \<open>What both kinds of threads do after their loops; \<open>sum\<close> and \<open>set_sum\<close> are \<open>reads\<close> or \<open>writes\<close> of the container.\<close>

definition rw_sum :: "rw_thread \<Rightarrow> test_mutexesrw_container \<Rightarrow> nat" where
  "rw_sum p c = (if rt_writer p then rc_writes c else rc_reads c)"

definition set_rw_sum :: "rw_thread \<Rightarrow> nat \<Rightarrow> test_mutexesrw_container \<Rightarrow> test_mutexesrw_container" where
  "set_rw_sum p n c = (if rt_writer p then c\<lparr>rc_writes := n\<rparr> else c\<lparr>rc_reads := n\<rparr>)"

definition rw_sum_step :: "nat \<Rightarrow> rw_thread \<Rightarrow> test_mutexesrw_container \<Rightarrow> (rw_thread \<times> test_mutexesrw_container) option" where
  "rw_sum_step t p c = (case rt_place p of
       Wants_sum \<Rightarrow> map_option (Pair (p\<lparr>rt_place := Enters_sum\<rparr>)) (lock_write t c)
     | Enters_sum \<Rightarrow> Some (p\<lparr>rt_place := Read_sum (rw_sum p c)\<rparr>, c)
     | Read_sum n \<Rightarrow> Some (p\<lparr>rt_place := Stored_sum\<rparr>, set_rw_sum p (n + rt_count p) c)
     | Stored_sum \<Rightarrow> Some (p\<lparr>rt_place := Over\<rparr>, c\<lparr>rc_writer := None\<rparr>)
     | _ \<Rightarrow> None)"

definition rw_loop_test :: "rw_thread \<Rightarrow> test_mutexesrw_container \<Rightarrow> rw_thread" where
  "rw_loop_test p c = p\<lparr>rt_place := (if rc_running c \<and> rt_okay p then Wants else Wants_sum)\<rparr>"

definition test_mutexes_reader :: "nat \<Rightarrow> rw_thread \<Rightarrow> test_mutexesrw_container \<Rightarrow> (rw_thread \<times> test_mutexesrw_container) option" where
  "test_mutexes_reader t p c = (case rt_place p of
       At_test \<Rightarrow> Some (rw_loop_test p c, c)
     | Wants \<Rightarrow> map_option (Pair (p\<lparr>rt_place := Enters\<rparr>)) (lock_read c)
     | Enters \<Rightarrow> Some (p\<lparr>rt_place := Checked, rt_okay := rt_okay p \<and> rc_value c \<noteq> 0\<rparr>, c)
     | Checked \<Rightarrow> Some (p\<lparr>rt_place := At_test, rt_count := rt_count p + 1\<rparr>, c\<lparr>rc_readers := rc_readers c - 1\<rparr>)
     | _ \<Rightarrow> rw_sum_step t p c)"

text \<open>A writer sets the value back to the address of a variable of its own, which is not null.\<close>

definition test_mutexes_writer ::
  "(nat \<Rightarrow> int) \<Rightarrow> nat \<Rightarrow> rw_thread \<Rightarrow> test_mutexesrw_container \<Rightarrow> (rw_thread \<times> test_mutexesrw_container) option" where
  "test_mutexes_writer okay_at t p c = (case rt_place p of
       At_test \<Rightarrow> Some (rw_loop_test p c, c)
     | Wants \<Rightarrow> map_option (Pair (p\<lparr>rt_place := Enters\<rparr>)) (lock_write t c)
     | Enters \<Rightarrow> Some (p\<lparr>rt_place := Checked, rt_okay := rt_okay p \<and> rc_value c \<noteq> 0\<rparr>, c)
     | Checked \<Rightarrow> Some (p\<lparr>rt_place := Zeroed\<rparr>, c\<lparr>rc_value := 0\<rparr>)
     | Zeroed \<Rightarrow> Some (p\<lparr>rt_place := Restored\<rparr>, c\<lparr>rc_value := okay_at t\<rparr>)
     | Restored \<Rightarrow> Some (p\<lparr>rt_place := At_test, rt_count := rt_count p + 1\<rparr>, c\<lparr>rc_writer := None\<rparr>)
     | _ \<Rightarrow> rw_sum_step t p c)"

definition rw_thread_step ::
  "(nat \<Rightarrow> int) \<Rightarrow> nat \<Rightarrow> rw_thread \<Rightarrow> test_mutexesrw_container \<Rightarrow> (rw_thread \<times> test_mutexesrw_container) option" where
  "rw_thread_step okay_at t p c = (if rt_writer p then test_mutexes_writer okay_at t p c else test_mutexes_reader t p c)"

text \<open>The test makes the readers and then the writers, sleeps, ends the loops and joins everybody.\<close>

record mutexes_rw =
  rw_container :: test_mutexesrw_container
  rw_threads :: "rw_thread list"
  rw_joined :: nat

datatype rw_event = Make | End_loops | Await | Turn nat

definition mutexes_rw_start :: mutexes_rw where
  "mutexes_rw_start = \<lparr>rw_container = \<lparr>rc_value = 1, rc_reads = 0, rc_writes = 0, rc_running = True, rc_readers = 0, rc_writer = None\<rparr>,
     rw_threads = [], rw_joined = 0\<rparr>"

fun mutexes_rw_step :: "(nat \<Rightarrow> int) \<Rightarrow> nat \<Rightarrow> nat \<Rightarrow> rw_event \<Rightarrow> mutexes_rw \<Rightarrow> mutexes_rw option" where
  "mutexes_rw_step okay_at readers writers Make s =
     (let t = length (rw_threads s) in
      if t < readers + writers
      then Some (s\<lparr>rw_threads := rw_threads s @ [\<lparr>rt_writer = readers \<le> t, rt_place = At_test, rt_okay = True, rt_count = 0\<rparr>]\<rparr>)
      else None)"
| "mutexes_rw_step okay_at readers writers End_loops s =
     (if length (rw_threads s) = readers + writers \<and> rc_running (rw_container s)
      then Some (s\<lparr>rw_container := (rw_container s)\<lparr>rc_running := False\<rparr>\<rparr>) else None)"
| "mutexes_rw_step okay_at readers writers Await s =
     (if \<not> rc_running (rw_container s) \<and> rw_joined s < readers + writers \<and> rt_place (rw_threads s ! rw_joined s) = Over
      then Some (s\<lparr>rw_joined := rw_joined s + 1\<rparr>) else None)"
| "mutexes_rw_step okay_at readers writers (Turn t) s =
     (if t < length (rw_threads s)
      then map_option (\<lambda>(p, c). s\<lparr>rw_container := c, rw_threads := (rw_threads s)[t := p]\<rparr>)
             (rw_thread_step okay_at t (rw_threads s ! t) (rw_container s))
      else None)"

fun mutexes_rw_run :: "(nat \<Rightarrow> int) \<Rightarrow> nat \<Rightarrow> nat \<Rightarrow> rw_event list \<Rightarrow> mutexes_rw \<Rightarrow> mutexes_rw option" where
  "mutexes_rw_run okay_at readers writers [] s = Some s"
| "mutexes_rw_run okay_at readers writers (e # es) s =
     Option.bind (mutexes_rw_step okay_at readers writers e s) (mutexes_rw_run okay_at readers writers es)"

text \<open>What the test answers once it has joined everybody: \<open>!rerr && !werr\<close>.\<close>

definition test_mutexes_rw :: "nat \<Rightarrow> nat \<Rightarrow> mutexes_rw \<Rightarrow> bool option" where
  "test_mutexes_rw readers writers s =
     (if rw_joined s = readers + writers \<and> \<not> rc_running (rw_container s)
      then Some (let rerr = (\<exists>p \<in> set (take readers (rw_threads s)). \<not> rt_okay p);
                     werr = (\<exists>p \<in> set (drop readers (rw_threads s)). \<not> rt_okay p) in \<not> rerr \<and> \<not> werr)
      else None)"

subsection \<open>The invariant\<close>

definition reading :: "rw_thread \<Rightarrow> bool" where
  "reading p \<longleftrightarrow> \<not> rt_writer p \<and> (rt_place p = Enters \<or> rt_place p = Checked)"

definition writing :: "rw_thread \<Rightarrow> bool" where
  "writing p \<longleftrightarrow> (case rt_place p of Enters \<Rightarrow> rt_writer p | Checked \<Rightarrow> rt_writer p | Zeroed \<Rightarrow> True | Restored \<Rightarrow> True
     | Enters_sum \<Rightarrow> True | Read_sum n \<Rightarrow> True | Stored_sum \<Rightarrow> True | _ \<Rightarrow> False)"

definition contributed :: "bool \<Rightarrow> rw_thread \<Rightarrow> nat" where
  "contributed w p = (if rt_writer p = w \<and> (rt_place p = Stored_sum \<or> rt_place p = Over) then rt_count p else 0)"

definition rw_thread_ok :: "test_mutexesrw_container \<Rightarrow> nat \<Rightarrow> rw_thread \<Rightarrow> bool" where
  "rw_thread_ok c t p \<longleftrightarrow> rt_okay p \<and> (writing p \<longleftrightarrow> rc_writer c = Some t) \<and>
     (rt_place p = Zeroed \<or> rt_place p = Restored \<longrightarrow> rt_writer p) \<and> (\<forall>n. rt_place p = Read_sum n \<longrightarrow> n = rw_sum p c)"

definition rw_ok :: "test_mutexesrw_container \<Rightarrow> rw_thread list \<Rightarrow> bool" where
  "rw_ok c ps \<longleftrightarrow> rc_readers c = length (filter reading ps) \<and> (\<forall>t < length ps. rw_thread_ok c t (ps ! t)) \<and>
     (\<forall>t. rc_writer c = Some t \<longrightarrow> t < length ps \<and> rc_readers c = 0) \<and>
     (rc_value c = 0 \<longrightarrow> (\<exists>t < length ps. rc_writer c = Some t \<and> rt_place (ps ! t) = Zeroed)) \<and>
     rc_reads c = sum_list (map (contributed False) ps) \<and> rc_writes c = sum_list (map (contributed True) ps)"

lemmas rw_steps = rw_thread_step_def test_mutexes_writer_def test_mutexes_reader_def rw_sum_step_def lock_read_def lock_write_def
  rw_loop_test_def set_rw_sum_def

text \<open>What a step does to the shared state, as far as the other threads can see it.\<close>

lemma rw_step_frame:
  assumes step: "rw_thread_step okay_at t p c = Some (p', c')" and ok: "rw_thread_ok c t p" and counted: "reading p \<longrightarrow> 0 < rc_readers c"
  shows "(rc_writer c' = rc_writer c \<or> rc_writer c = None \<and> rc_readers c = 0 \<and> rc_writer c' = Some t \<or> rc_writer c = Some t \<and> rc_writer c' = None) \<and>
    (rc_reads c' = rc_reads c \<and> rc_writes c' = rc_writes c \<or> rc_writer c = Some t) \<and>
    rc_readers c' + (if reading p then 1 else 0) = rc_readers c + (if reading p' then 1 else 0) \<and>
    (reading p' \<longrightarrow> reading p \<or> rc_writer c = None \<and> rc_writer c' = None) \<and> rc_running c' = rc_running c"
  using step ok counted
  by (cases "rt_place p"; cases "rt_writer p"; auto simp: rw_steps rw_thread_ok_def writing_def reading_def split: if_splits)

lemma rw_step_self:
  assumes step: "rw_thread_step okay_at t p c = Some (p', c')" and ok: "rw_thread_ok c t p"
    and nonzero: "rt_place p = Enters \<longrightarrow> rc_value c \<noteq> 0"
  shows "rw_thread_ok c' t p' \<and>
    rc_reads c' + contributed False p = rc_reads c + contributed False p' \<and> rc_writes c' + contributed True p = rc_writes c + contributed True p'"
  using step ok nonzero
  by (cases "rt_place p"; cases "rt_writer p"; auto simp: rw_steps rw_thread_ok_def writing_def rw_sum_def contributed_def split: if_splits)

lemma rw_step_value:
  assumes step: "rw_thread_step okay_at t p c = Some (p', c')" and ok: "rw_thread_ok c t p" and "okay_at t \<noteq> 0" and "rc_value c' = 0"
  shows "rc_writer c' = Some t \<and> rt_place p' = Zeroed \<or> rc_value c = 0 \<and> rt_place p \<noteq> Zeroed \<and> (writing p \<longrightarrow> rc_writer c = Some t) \<and>
    (rc_writer c' = rc_writer c \<or> rc_writer c = None \<or> writing p)"
  using assms
  by (cases "rt_place p"; cases "rt_writer p"; auto simp: rw_steps rw_thread_ok_def writing_def split: if_splits)

lemma filter_pos: "t < length ps \<Longrightarrow> P (ps ! t) \<Longrightarrow> 0 < length (filter P ps)"
  by (metis length_greater_0_conv filter_empty_conv nth_mem)

lemma rw_step_ok:
  assumes ok: "rw_ok c ps" and t: "t < length ps" and nonzero: "okay_at t \<noteq> 0"
    and step: "rw_thread_step okay_at t (ps ! t) c = Some (p, c')"
  shows "rw_ok c' (ps[t := p]) \<and> rc_running c' = rc_running c"
proof -
  let ?p = "ps ! t"
  have readers: "rc_readers c = length (filter reading ps)" and threads: "\<And>u. u < length ps \<Longrightarrow> rw_thread_ok c u (ps ! u)"
    and writer: "\<And>u. rc_writer c = Some u \<Longrightarrow> u < length ps \<and> rc_readers c = 0"
    and zero: "rc_value c = 0 \<Longrightarrow> \<exists>u < length ps. rc_writer c = Some u \<and> rt_place (ps ! u) = Zeroed"
    and sums: "rc_reads c = sum_list (map (contributed False) ps)" "rc_writes c = sum_list (map (contributed True) ps)"
    using ok unfolding rw_ok_def by blast+
  have here: "rw_thread_ok c t ?p" by (rule threads [OF t])
  have counted: "reading ?p \<longrightarrow> 0 < rc_readers c" using filter_pos [OF t, of reading] readers by simp
  have enters: "rt_place ?p = Enters \<longrightarrow> rc_value c \<noteq> 0"
  proof
    assume e: "rt_place ?p = Enters"
    show "rc_value c \<noteq> 0"
    proof
      assume "rc_value c = 0"
      from zero [OF this] obtain u where u: "rc_writer c = Some u" "rt_place (ps ! u) = Zeroed" by blast
      with e here writer [OF u(1)] counted show False
        by (cases "rt_writer ?p") (auto simp: rw_thread_ok_def writing_def reading_def)
    qed
  qed
  note frame = rw_step_frame [OF step here counted] and self = rw_step_self [OF step here enters]
  have "rc_readers c' = length (filter reading (ps[t := p]))"
    using frame readers length_filter_update [OF t, of reading p] by (auto split: if_splits)
  moreover have "rw_thread_ok c' u (ps[t := p] ! u)" if u: "u < length ps" for u
  proof (cases "u = t")
    case True
    with self t show ?thesis by simp
  next
    case False
    have a: "rw_thread_ok c u (ps ! u)" by (rule threads [OF u])
    have "rc_writer c' = Some u \<longleftrightarrow> rc_writer c = Some u" using frame False by auto
    moreover have "rw_sum (ps ! u) c' = rw_sum (ps ! u) c" if "writing (ps ! u)"
      using a that frame False by (auto simp: rw_thread_ok_def rw_sum_def)
    ultimately show ?thesis using a False by (auto simp: rw_thread_ok_def writing_def)
  qed
  moreover have "u < length ps \<and> rc_readers c' = 0" if "rc_writer c' = Some u" for u
    using that frame writer [of u] t by (auto split: if_splits)
  moreover have "\<exists>u < length ps. rc_writer c' = Some u \<and> rt_place (ps[t := p] ! u) = Zeroed" if z: "rc_value c' = 0"
  proof (rule disjE [OF rw_step_value [OF step here nonzero z]])
    assume "rc_writer c' = Some t \<and> rt_place p = Zeroed"
    with t show ?thesis by auto
  next
    assume b: "rc_value c = 0 \<and> rt_place ?p \<noteq> Zeroed \<and> (writing ?p \<longrightarrow> rc_writer c = Some t) \<and>
      (rc_writer c' = rc_writer c \<or> rc_writer c = None \<or> writing ?p)"
    from zero [OF conjunct1 [OF b]] obtain u where u: "u < length ps" "rc_writer c = Some u" "rt_place (ps ! u) = Zeroed" by blast
    with b have "u \<noteq> t" "rc_writer c' = rc_writer c" by auto
    with u show ?thesis by auto
  qed
  moreover have "rc_reads c' = sum_list (map (contributed False) (ps[t := p]))" "rc_writes c' = sum_list (map (contributed True) (ps[t := p]))"
    using self sums sum_list_map_update [OF t, of "contributed False" p] sum_list_map_update [OF t, of "contributed True" p] by simp_all
  ultimately show ?thesis using frame by (simp add: rw_ok_def)
qed

text \<open>The steps that are left once the loops have been told to end.\<close>

definition rw_left :: "rw_thread \<Rightarrow> nat" where
  "rw_left p = (case rt_place p of Wants \<Rightarrow> 10 | Enters \<Rightarrow> 9 | Checked \<Rightarrow> 8 | Zeroed \<Rightarrow> 7 | Restored \<Rightarrow> 6 | At_test \<Rightarrow> 5
     | Wants_sum \<Rightarrow> 4 | Enters_sum \<Rightarrow> 3 | Read_sum n \<Rightarrow> 2 | Stored_sum \<Rightarrow> 1 | Over \<Rightarrow> 0)"

definition rw_remaining :: "nat \<Rightarrow> mutexes_rw \<Rightarrow> nat" where
  "rw_remaining k s = sum_list (map rw_left (rw_threads s)) + (k - rw_joined s)"

lemma rw_left_less:
  "rw_thread_step okay_at t p c = Some (p', c') \<Longrightarrow> \<not> rc_running c \<Longrightarrow> rw_left p' < rw_left p"
  by (cases "rt_place p"; cases "rt_writer p"; auto simp: rw_steps rw_left_def split: if_splits)

lemma rw_over_stays: "rt_place p = Over \<Longrightarrow> rw_thread_step okay_at t p c = None"
  by (simp add: rw_steps)

lemma rw_can_step:
  assumes "rw_thread_ok c t p" and "rt_place p \<noteq> Over" and "writing p \<or> reading p \<or> rc_writer c = None \<and> rc_readers c = 0"
  shows "\<exists>p' c'. rw_thread_step okay_at t p c = Some (p', c')"
  using assms by (cases "rt_place p"; cases "rt_writer p"; auto simp: rw_steps rw_thread_ok_def writing_def reading_def)

definition rw_inv :: "nat \<Rightarrow> mutexes_rw \<Rightarrow> bool" where
  "rw_inv k s \<longleftrightarrow> rw_ok (rw_container s) (rw_threads s) \<and> length (rw_threads s) \<le> k \<and> rw_joined s \<le> k \<and>
     (\<not> rc_running (rw_container s) \<longrightarrow> length (rw_threads s) = k) \<and> (0 < rw_joined s \<longrightarrow> \<not> rc_running (rw_container s)) \<and>
     (\<forall>t < rw_joined s. rt_place (rw_threads s ! t) = Over)"

lemma rw_inv_start: "rw_inv k mutexes_rw_start"
  by (simp add: rw_inv_def mutexes_rw_start_def rw_ok_def)

lemma rw_ok_new:
  assumes "rw_ok c ps" and "rt_place p = At_test" and "rt_okay p"
  shows "rw_ok c (ps @ [p])"
proof -
  have new: "\<not> reading p" "\<not> writing p" "contributed w p = 0" for w using assms(2) by (simp_all add: reading_def writing_def contributed_def)
  have "rc_writer c \<noteq> Some (length ps)" using assms(1) by (auto simp: rw_ok_def)
  then have "rw_thread_ok c (length ps) p" using assms(2,3) new by (simp add: rw_thread_ok_def)
  moreover have "\<exists>t < length (ps @ [p]). rc_writer c = Some t \<and> rt_place ((ps @ [p]) ! t) = Zeroed" if z: "rc_value c = 0"
  proof -
    from assms(1) z obtain t where "t < length ps" "rc_writer c = Some t" "rt_place (ps ! t) = Zeroed" by (auto simp: rw_ok_def)
    then show ?thesis by (intro exI [of _ t]) (simp add: nth_append)
  qed
  ultimately show ?thesis using assms(1) new by (auto simp: rw_ok_def nth_append less_Suc_eq)
qed

lemma rw_ok_end: "rw_ok (c\<lparr>rc_running := b\<rparr>) ps = rw_ok c ps"
  by (simp add: rw_ok_def rw_thread_ok_def rw_sum_def)

lemma mutexes_rw_step_ok:
  assumes inv: "rw_inv (readers + writers) s" and nonzero: "\<forall>t. okay_at t \<noteq> 0"
    and step: "mutexes_rw_step okay_at readers writers e s = Some s'"
  shows "rw_inv (readers + writers) s' \<and>
    (\<not> rc_running (rw_container s) \<longrightarrow> \<not> rc_running (rw_container s') \<and> rw_remaining (readers + writers) s' < rw_remaining (readers + writers) s)"
proof (cases e)
  case Make
  with step inv show ?thesis by (auto simp: rw_inv_def Let_def intro!: rw_ok_new split: if_splits)
next
  case End_loops
  with step inv show ?thesis by (auto simp: rw_inv_def rw_ok_end split: if_splits)
next
  case Await
  with step inv show ?thesis by (auto simp: rw_inv_def rw_remaining_def less_Suc_eq split: if_splits)
next
  case (Turn t)
  with step obtain p c where t: "t < length (rw_threads s)"
    and p: "rw_thread_step okay_at t (rw_threads s ! t) (rw_container s) = Some (p, c)"
    and s': "s' = s\<lparr>rw_container := c, rw_threads := (rw_threads s)[t := p]\<rparr>" by (auto split: if_splits)
  from inv have "rw_ok (rw_container s) (rw_threads s)" by (simp add: rw_inv_def)
  from rw_step_ok [OF this t _ p] nonzero have ok: "rw_ok c ((rw_threads s)[t := p])" "rc_running c = rc_running (rw_container s)" by auto
  have "\<not> t < rw_joined s" using inv p by (auto simp: rw_inv_def rw_over_stays)
  moreover have "sum_list (map rw_left ((rw_threads s)[t := p])) + rw_left (rw_threads s ! t) = sum_list (map rw_left (rw_threads s)) + rw_left p"
    by (rule sum_list_map_update [OF t])
  ultimately show ?thesis
    using inv s' ok rw_left_less [OF p] by (auto simp: rw_inv_def rw_remaining_def nth_list_update)
qed

lemma mutexes_rw_run_inv:
  "rw_inv (readers + writers) s \<Longrightarrow> \<forall>t. okay_at t \<noteq> 0 \<Longrightarrow> mutexes_rw_run okay_at readers writers es s = Some s' \<Longrightarrow> rw_inv (readers + writers) s'"
proof (induction es arbitrary: s)
  case (Cons e es)
  from Cons.prems(3) obtain s1 where s1: "mutexes_rw_step okay_at readers writers e s = Some s1"
    "mutexes_rw_run okay_at readers writers es s1 = Some s'" by (auto simp: bind_eq_Some_conv)
  with mutexes_rw_step_ok [OF Cons.prems(1,2) s1(1)] Cons.IH [OF _ Cons.prems(2) s1(2)] show ?case by blast
qed simp

lemma mutexes_rw_progress:
  assumes inv: "rw_inv (readers + writers) s" and going: "\<not> (rw_joined s = readers + writers \<and> \<not> rc_running (rw_container s))"
  shows "\<exists>e s'. mutexes_rw_step okay_at readers writers e s = Some s'"
proof -
  let ?c = "rw_container s" let ?ps = "rw_threads s"
  consider "length ?ps < readers + writers" | "length ?ps = readers + writers" "rc_running ?c"
    | "length ?ps = readers + writers" "\<not> rc_running ?c" "rw_joined s < readers + writers"
    using inv going by (auto simp: rw_inv_def le_less)
  then show ?thesis
  proof cases
    case 1
    then show ?thesis by (intro exI [of _ Make]) (simp add: Let_def)
  next
    case 2
    then show ?thesis by (intro exI [of _ End_loops]) simp
  next
    case 3
    have threads: "\<And>u. u < length ?ps \<Longrightarrow> rw_thread_ok ?c u (?ps ! u)" and writer: "\<And>u. rc_writer ?c = Some u \<Longrightarrow> u < length ?ps"
      and readers: "rc_readers ?c = length (filter reading ?ps)" using inv unfolding rw_inv_def rw_ok_def by blast+
    show ?thesis
    proof (cases "rt_place (?ps ! rw_joined s) = Over")
      case True
      with 3 show ?thesis by (intro exI [of _ Await]) simp
    next
      case False
      have "\<exists>u < length ?ps. rt_place (?ps ! u) \<noteq> Over \<and>
        (writing (?ps ! u) \<or> reading (?ps ! u) \<or> rc_writer ?c = None \<and> rc_readers ?c = 0)"
      proof (cases "rc_writer ?c")
        case (Some u)
        with threads writer have "u < length ?ps" "writing (?ps ! u)" by (auto simp: rw_thread_ok_def)
        then show ?thesis by (intro exI [of _ u]) (auto simp: writing_def)
      next
        case None
        show ?thesis
        proof (cases "rc_readers ?c = 0")
          case True
          with None False 3 show ?thesis by (intro exI [of _ "rw_joined s"]) simp
        next
          case False
          with readers obtain u where "u < length ?ps" "reading (?ps ! u)" by (auto simp: filter_empty_conv in_set_conv_nth)
          then show ?thesis by (intro exI [of _ u]) (auto simp: reading_def)
        qed
      qed
      then obtain u where "u < length ?ps" "rt_place (?ps ! u) \<noteq> Over"
        "writing (?ps ! u) \<or> reading (?ps ! u) \<or> rc_writer ?c = None \<and> rc_readers ?c = 0" by blast
      with rw_can_step [OF threads] show ?thesis by (intro exI [of _ "Turn u"]) fastforce
    qed
  qed
qed

lemma rw_okay:
  assumes inv: "rw_inv k s" and t: "t < length (rw_threads s)"
  shows "rt_okay (rw_threads s ! t)"
  using assms by (simp add: rw_inv_def rw_ok_def rw_thread_ok_def)

lemma rw_answer:
  assumes inv: "rw_inv (readers + writers) s" and e: "rw_joined s = readers + writers" "\<not> rc_running (rw_container s)"
  shows "test_mutexes_rw readers writers s = Some True"
proof -
  have "\<forall>p \<in> set (rw_threads s). rt_okay p" using rw_okay [OF inv] by (auto simp: in_set_conv_nth)
  with e show ?thesis by (auto simp: test_mutexes_rw_def dest: in_set_takeD in_set_dropD)
qed

text \<open>The end can be reached: all threads are made, the loops are told to end, and then every step counts.\<close>

lemma rw_end_after_stop:
  "rw_inv (readers + writers) s \<Longrightarrow> \<not> rc_running (rw_container s) \<Longrightarrow> \<forall>t. okay_at t \<noteq> 0 \<Longrightarrow>
    \<exists>es s'. mutexes_rw_run okay_at readers writers es s = Some s' \<and> rw_joined s' = readers + writers \<and> \<not> rc_running (rw_container s')"
proof (induction "rw_remaining (readers + writers) s" arbitrary: s rule: less_induct)
  case less
  show ?case
  proof (cases "rw_joined s = readers + writers")
    case True
    with less.prems show ?thesis by (intro exI [of _ "[]"] exI [of _ s]) simp
  next
    case False
    with mutexes_rw_progress [OF less.prems(1), of okay_at] obtain e s1 where e: "mutexes_rw_step okay_at readers writers e s = Some s1" by blast
    with mutexes_rw_step_ok [OF less.prems(1,3) e] less.hyps [of s1] less.prems(2,3) obtain es s' where
      "mutexes_rw_run okay_at readers writers es s1 = Some s'" "rw_joined s' = readers + writers" "\<not> rc_running (rw_container s')" by auto
    with e show ?thesis by (intro exI [of _ "e # es"] exI [of _ s']) simp
  qed
qed

lemma rw_make_all:
  "length (rw_threads s) + n = readers + writers \<Longrightarrow> rc_running (rw_container s) \<Longrightarrow>
    \<exists>s'. mutexes_rw_run okay_at readers writers (replicate n Make @ [End_loops]) s = Some s' \<and> \<not> rc_running (rw_container s')"
proof (induction n arbitrary: s)
  case (Suc n)
  let ?s = "s\<lparr>rw_threads := rw_threads s @ [\<lparr>rt_writer = readers \<le> length (rw_threads s), rt_place = At_test, rt_okay = True, rt_count = 0\<rparr>]\<rparr>"
  from Suc.prems Suc.IH [of ?s] show ?case by (simp add: Let_def)
qed simp

lemma rw_run_append:
  "mutexes_rw_run okay_at readers writers (es @ fs) s =
    Option.bind (mutexes_rw_run okay_at readers writers es s) (mutexes_rw_run okay_at readers writers fs)"
  by (induction es arbitrary: s) (auto split: bind_split)

lemma rw_end_reachable:
  assumes nonzero: "\<forall>t. okay_at t \<noteq> 0"
  shows "\<exists>es s. mutexes_rw_run okay_at readers writers es mutexes_rw_start = Some s \<and> rw_joined s = readers + writers \<and>
    \<not> rc_running (rw_container s)"
proof -
  obtain es0 s1 where s1: "mutexes_rw_run okay_at readers writers es0 mutexes_rw_start = Some s1"
    "\<not> rc_running (rw_container s1)"
    using rw_make_all [of mutexes_rw_start "readers + writers" readers writers okay_at]
    by (simp add: mutexes_rw_start_def) blast
  from rw_end_after_stop [OF mutexes_rw_run_inv [OF rw_inv_start nonzero s1(1)] s1(2) nonzero] obtain es s where
    "mutexes_rw_run okay_at readers writers es s1 = Some s" "rw_joined s = readers + writers" "\<not> rc_running (rw_container s)" by blast
  with s1(1) show ?thesis
    by (intro exI [of _ "es0 @ es"] exI [of _ s]) (simp add: rw_run_append)
qed

text \<open>
  C13: however readers and writers are interleaved, nobody who holds the lock shares it with a writer, and no reader and no writer ever finds the zero that a
  writer leaves for a while. The test never gets stuck; once it has told the loops to end, every step brings it nearer to its end, and there
  it answers true, and the sums of the reads and the writes are what the threads have counted.
\<close>

theorem mutexes_rw_holds:
  assumes nonzero: "\<forall>t. okay_at t \<noteq> 0" and run: "mutexes_rw_run okay_at readers writers es mutexes_rw_start = Some s"
  shows "(\<forall>t < length (rw_threads s). rt_okay (rw_threads s ! t)) \<and>
    (\<forall>t < length (rw_threads s). \<forall>u < length (rw_threads s). writing (rw_threads s ! t) \<longrightarrow> t \<noteq> u \<longrightarrow>
       \<not> writing (rw_threads s ! u) \<and> \<not> reading (rw_threads s ! u)) \<and>
    (\<not> rc_running (rw_container s) \<longrightarrow> (\<forall>e s'. mutexes_rw_step okay_at readers writers e s = Some s' \<longrightarrow>
       rw_remaining (readers + writers) s' < rw_remaining (readers + writers) s)) \<and>
    (if rw_joined s = readers + writers \<and> \<not> rc_running (rw_container s)
     then test_mutexes_rw readers writers s = Some True \<and>
       rc_reads (rw_container s) = sum_list (map rt_count (filter (\<lambda>p. \<not> rt_writer p) (rw_threads s))) \<and>
       rc_writes (rw_container s) = sum_list (map rt_count (filter rt_writer (rw_threads s)))
     else \<exists>e s'. mutexes_rw_step okay_at readers writers e s = Some s')"
proof -
  let ?c = "rw_container s" let ?ps = "rw_threads s"
  have inv: "rw_inv (readers + writers) s" by (rule mutexes_rw_run_inv [OF rw_inv_start nonzero run])
  have threads: "\<And>u. u < length ?ps \<Longrightarrow> rw_thread_ok ?c u (?ps ! u)" and writer: "\<And>u. rc_writer ?c = Some u \<Longrightarrow> rc_readers ?c = 0"
    and counts: "rc_readers ?c = length (filter reading ?ps)"
    and sums: "rc_reads ?c = sum_list (map (contributed False) ?ps)" "rc_writes ?c = sum_list (map (contributed True) ?ps)"
    using inv unfolding rw_inv_def rw_ok_def by blast+
  note okay = rw_okay [OF inv]
  have alone: "\<not> writing (?ps ! u) \<and> \<not> reading (?ps ! u)" if "t < length ?ps" "u < length ?ps" "writing (?ps ! t)" "t \<noteq> u" for t u
  proof -
    have w: "rc_writer ?c = Some t" using threads [OF that(1)] that(3) by (simp add: rw_thread_ok_def)
    then have "\<not> writing (?ps ! u)" using threads [OF that(2)] that(4) by (simp add: rw_thread_ok_def)
    moreover have "\<not> reading (?ps ! u)" using writer [OF w] counts filter_pos [OF that(2), of reading] by auto
    ultimately show ?thesis by blast
  qed
  have ended: "test_mutexes_rw readers writers s = Some True \<and>
       rc_reads ?c = sum_list (map rt_count (filter (\<lambda>p. \<not> rt_writer p) ?ps)) \<and>
       rc_writes ?c = sum_list (map rt_count (filter rt_writer ?ps))"
    if e: "rw_joined s = readers + writers" "\<not> rc_running ?c"
  proof -
    have "\<forall>p \<in> set ?ps. rt_place p = Over" using inv e by (auto simp: rw_inv_def in_set_conv_nth)
    then have m: "map (contributed w) ?ps = map (\<lambda>p. if rt_writer p = w then rt_count p else 0) ?ps" for w by (simp add: contributed_def)
    have "rc_reads ?c = sum_list (map rt_count (filter (\<lambda>p. \<not> rt_writer p) ?ps))" "rc_writes ?c = sum_list (map rt_count (filter rt_writer ?ps))"
      by (simp_all only: sums m sum_list_map_filter') simp_all
    with rw_answer [OF inv e] show ?thesis by blast
  qed
  have nearer: "rw_remaining (readers + writers) s' < rw_remaining (readers + writers) s"
    if "\<not> rc_running ?c" "mutexes_rw_step okay_at readers writers e s = Some s'" for e s'
    using mutexes_rw_step_ok [OF inv nonzero that(2)] that(1) by blast
  have "if rw_joined s = readers + writers \<and> \<not> rc_running ?c
     then test_mutexes_rw readers writers s = Some True \<and>
       rc_reads ?c = sum_list (map rt_count (filter (\<lambda>p. \<not> rt_writer p) ?ps)) \<and>
       rc_writes ?c = sum_list (map rt_count (filter rt_writer ?ps))
     else \<exists>e s'. mutexes_rw_step okay_at readers writers e s = Some s'"
    using ended mutexes_rw_progress [OF inv] by presburger
  with okay alone nearer show ?thesis by blast
qed

lemma mutexes_rw_holds_witness:
  "\<exists>s. mutexes_rw_run (\<lambda>t. 4096) 1 1 ([Make, Make] @ replicate 6 (Turn 1) @ [Turn 0, Turn 0, Turn 0, Turn 0, End_loops] @
      replicate 5 (Turn 0) @ replicate 5 (Turn 1) @ [Await, Await]) mutexes_rw_start = Some s \<and>
     test_mutexes_rw 1 1 s = Some True \<and> rc_reads (rw_container s) = 1 \<and> rc_writes (rw_container s) = 1"
proof -
  let ?es = "[Make, Make] @ replicate 6 (Turn 1) @ [Turn 0, Turn 0, Turn 0, Turn 0, End_loops] @
      replicate 5 (Turn 0) @ replicate 5 (Turn 1) @ [Await, Await]"
  have "\<exists>s. mutexes_rw_run (\<lambda>t. 4096) 1 1 ?es mutexes_rw_start = Some s \<and> rc_reads (rw_container s) = 1 \<and> rc_writes (rw_container s) = 1 \<and>
     rw_joined s = 2 \<and> \<not> rc_running (rw_container s)"
    by (simp add: mutexes_rw_start_def rw_steps rw_sum_def numeral_eq_Suc Let_def)
  then obtain s where s: "mutexes_rw_run (\<lambda>t. 4096) 1 1 ?es mutexes_rw_start = Some s" "rc_reads (rw_container s) = 1"
    "rc_writes (rw_container s) = 1" "rw_joined s = 2" "\<not> rc_running (rw_container s)" by blast
  have "test_mutexes_rw 1 1 s = Some True" using mutexes_rw_holds [OF _ s(1)] s(4,5) by simp
  with s(1-3) show ?thesis by (intro exI [of _ s] conjI)
qed

end
