(* ===== verification/UnitTest.thy ===== *)
theory UnitTest
  imports Lifecycle PosixThread Buffer MutexTest
begin

text \<open>
  The unit tests of the program, \<open>src/unit-test.c\<close>, run on the models of what they test.

  A test is the number its function returns, the parts it has announced by \<open>unit_test_part\<close>, and the state it leaves. A string literal is a block with its terminator. The two tests of the mutexes run threads: they are
  in \<open>MutexTest\<close>, and the order in which their threads take their steps is an argument here.
\<close>

section \<open>Parts and checks\<close>

type_synonym 'u test = "(int \<times> string list \<times> 'u) res"

definition unit_test_part :: "string \<Rightarrow> 'u test \<Rightarrow> 'u test" where
  "unit_test_part location test = bindE test (\<lambda>(result, parts, u). Inr (result, location # parts, u))"

text \<open>\<open>if(...) return 1;\<close>, and the end of a test.\<close>

definition check :: "'u \<Rightarrow> bool res \<Rightarrow> 'u test \<Rightarrow> 'u test" where
  "check u condition test = bindE condition (\<lambda>ok. if ok then test else Inr (1, [], u))"

definition passed :: "'u \<Rightarrow> 'u test" where
  "passed u = Inr (0, [], u)"

definition literal :: "string \<Rightarrow> string" where
  "literal s = s @ [NUL]"

lemma part_Inr [simp]: "unit_test_part p (Inr (n, ps, u)) = Inr (n, p # ps, u)"
  by (simp add: unit_test_part_def)

lemma part_Inl [simp]: "unit_test_part p (Inl e) = Inl e"
  by (simp add: unit_test_part_def)

lemma check_Inr [simp]: "check u (Inr ok) test = (if ok then test else Inr (1, [], u))"
  by (simp add: check_def)

lemma check_Inl [simp]: "check u (Inl e) test = Inl e"
  by (simp add: check_def)

lemma strcmp_equal_terminated:
  "NUL \<notin> set s \<Longrightarrow> NUL \<notin> set t \<Longrightarrow> strcmp_equal (s @ NUL # r) (t @ NUL # r') = Inr (s = t)"
proof (induction s arbitrary: t)
  case Nil
  then show ?case by (cases t) auto
next
  case (Cons a s)
  then show ?case by (cases t) auto
qed

section \<open>The data structures\<close>

definition test_buffer :: "(nat \<Rightarrow> char) \<Rightarrow> blocks \<Rightarrow> unit test" where
  "test_buffer junk h =
     bindE (cflare_buffer_new \<lparr>opt_nocopy = True, opt_reverse = False, opt_nullchar = True\<rparr>) (\<lambda>buff.
     let a = blk_fresh h; h = new_block h (literal ''First'');
         b = blk_fresh h; h = new_block h (literal ''Second'');
         c = blk_fresh h; h = new_block h (literal ''Third'') in
     bindE (cflare_buffer_append h buff a (length ''First'')) (\<lambda>(h, buff).
     bindE (cflare_buffer_append h buff b (length ''Second'')) (\<lambda>(h, buff).
     bindE (cflare_buffer_append h buff c (length ''Third'')) (\<lambda>(h, buff).
       unit_test_part ''append''
      (check () (Inr (cflare_buffer_length buff = length ''First'' + length ''Second'' + length ''Third''))
      (bindE (cflare_buffer_build junk h buff) (\<lambda>result.
       unit_test_part ''build''
      (check () (strcmp_equal result (literal ''FirstSecondThird''))
      (bindE (cflare_buffer_delete h buff) (\<lambda>_. passed ()))))))))))"

text \<open>
  The hook writes into the variable \<open>x\<close> of the caller, at the address it was given as its context. When \<open>test_hook\<close> returns the
  variable is gone, and the hook stays.
\<close>

type_synonym memory = "addr \<rightharpoonup> int"

definition test_hook_abc :: "'a \<Rightarrow> memory res \<Rightarrow> ptr \<Rightarrow> memory res \<times> bool" where
  "test_hook_abc args mem context =
     (bindE mem (\<lambda>m. bindE (derefE context Null_deref) (\<lambda>val. bindE (derefE (m val) Dangling) (\<lambda>_.
        Inr (m(val \<mapsto> 7357))))), False)"

definition test_hook ::
  "('p :: {linorder, zero} \<Rightarrow> 'p) \<Rightarrow> 'p hook \<Rightarrow> addr \<Rightarrow> addr \<Rightarrow> 'p hook_state \<Rightarrow> memory \<Rightarrow> ('p hook_state \<times> memory) test" where
  "test_hook narrow junk func x hooks mem =
     bindE (cflare_hook_add narrow junk hooks ''Abc'' ''test'' 0 func (Some x)) (\<lambda>hooks.
     bindE (cflare_hook_call (\<lambda>f. if f = func then test_hook_abc else (\<lambda>_ m _. (m, False)))
              hooks ''Abc'' () (Inr (mem(x \<mapsto> 0)))) (\<lambda>(mem, stopped).
     bindE mem (\<lambda>mem.
       unit_test_part ''context'' (check (hooks, mem(x := None)) (Inr (mem x = Some 7357)) (passed (hooks, mem(x := None)))))))"

text \<open>The elements of the list are blocks of 32 bytes.\<close>

definition strncpy :: "string \<Rightarrow> nat \<Rightarrow> string" where
  "strncpy s n = take n (s @ replicate n NUL)"

definition insert_string :: "string cflare_linkedlist \<Rightarrow> string \<Rightarrow> string cflare_linkedlist res" where
  "insert_string list s =
     bindE (cflare_linkedlist_insert_last list (replicate 32 NUL)) (\<lambda>(list', ptr). ll_write list' ptr (strncpy s 32))"

definition count_or_delete :: "string cflare_linkedlist \<Rightarrow> nat \<Rightarrow> unit test \<Rightarrow> unit test" where
  "count_or_delete list n test =
     (if cflare_linkedlist_count list \<noteq> n then bindE (cflare_linkedlist_delete list) (\<lambda>_. Inr (1, [], ())) else test)"

definition test_linkedlist :: "unit test" where
  "test_linkedlist =
     bindE (insert_string (cflare_linkedlist_new 32) ''Hello, '') (\<lambda>list.
     bindE (insert_string list ''world; '') (\<lambda>list.
     bindE (insert_string list (''how'' @ [CHR 0x27] @ ''re you?'')) (\<lambda>list.
       unit_test_part ''add''
      (count_or_delete list 3
      (unit_test_part ''remove''
      (bindE (cflare_linkedlist_iterator_next list cflare_linkedlist_get_iterator) (\<lambda>(iter, _).
       bindE (cflare_linkedlist_iterator_next list iter) (\<lambda>(iter, _).
       bindE (cflare_linkedlist_remove list (it_value iter)) (\<lambda>(list, _).
         count_or_delete list 2
        (bindE (cflare_linkedlist_delete list) (\<lambda>_. passed ())))))))))))"

text \<open>
  \<open>value\<close> is the memory from the literal on: its five bytes, and what lies behind them. Storing a value copies \<open>value_len\<close> bytes of it,
  and the test takes the length of the key for that of the value.
\<close>

definition set_value ::
  "string cflare_hashtable \<Rightarrow> string \<Rightarrow> string \<Rightarrow> nat \<Rightarrow> string cflare_hashtable res" where
  "set_value tbl key value value_len =
     bindE (assertE (value_len \<le> length value) Out_of_bounds) (\<lambda>_.
     bindE (cflare_hashtable_set tbl (cflare_hash_compute key) (Some (take value_len value))) (\<lambda>(tbl', _). Inr tbl'))"

definition locate :: "string cflare_hashtable \<Rightarrow> string \<Rightarrow> string \<Rightarrow> string \<Rightarrow> string \<Rightarrow> unit test \<Rightarrow> unit test" where
  "locate tbl key value part1 part2 test =
     unit_test_part part1
    (bindE (cflare_hashtable_get tbl (cflare_hash_compute key)) (\<lambda>found. case found of
       None \<Rightarrow> Inr (1, [], ())
     | Some get_value \<Rightarrow> unit_test_part part2 (check () (strcmp_equal get_value value) test)))"

definition test_hashtable :: "string \<Rightarrow> unit test" where
  "test_hashtable behind =
     (let key = ''Content-Length''; value = literal ''1337'' @ behind; value_len = length key in
      bindE (set_value cflare_hashtable_new key value value_len) (\<lambda>tbl.
       unit_test_part ''buckets set''
      (check () (Inr (cflare_hashtable_bucketscount tbl \<noteq> 0))
      (unit_test_part ''set''
      (check () (Inr (cflare_hashtable_count tbl = 1))
      (bindE (set_value tbl key value value_len) (\<lambda>tbl.
       unit_test_part ''double set''
      (check () (Inr (cflare_hashtable_count tbl = 1))
      (locate tbl key value ''locate 1'' ''locate 1: value''
      (unit_test_part ''rebuild''
      (bindE (cflare_hashtable_rebuild tbl 64) (\<lambda>(tbl, _).
       check () (Inr (cflare_hashtable_bucketscount tbl = 64))
      (locate tbl key value ''locate 2'' ''locate 2: value''
      (unit_test_part ''remove''
      (bindE (cflare_hashtable_set tbl (cflare_hash_compute key) None) (\<lambda>(tbl, _).
       check () (Inr (cflare_hashtable_count tbl = 0))
      (bindE (cflare_hashtable_delete tbl) (\<lambda>_. passed ()))))))))))))))))))"

section \<open>Numbers, statuses, headers, threads\<close>

definition tointeger_is :: "string \<Rightarrow> int \<Rightarrow> bool res" where
  "tointeger_is s v = bindE (cflare_tointeger (literal s)) (\<lambda>val. Inr (val = Some v))"

definition tointeger_fails :: "string \<Rightarrow> bool res" where
  "tointeger_fails s = bindE (cflare_tointeger (literal s)) (\<lambda>val. Inr (val = None))"

definition test_util :: "unit test" where
  "test_util =
     unit_test_part ''tointeger: base10''
    (check () (tointeger_is ''1337'' 1337) (check () (tointeger_is ''+123'' 123) (check () (tointeger_is ''-100'' (- 100))
    (unit_test_part ''tointeger: base16''
    (check () (tointeger_is ''0x1337'' 0x1337) (check () (tointeger_is ''+0x123'' 0x123) (check () (tointeger_is ''-0x100'' (- 0x100))
    (unit_test_part ''tointeger: base2''
    (check () (tointeger_is ''0b11'' 3) (check () (tointeger_is ''+0b101'' 5) (check () (tointeger_is ''-0b100'' (- 4))
    (unit_test_part ''tointeger: not octal''
    (check () (tointeger_is ''012'' 12) (check () (tointeger_is ''+034'' 34) (check () (tointeger_is ''-56'' (- 56))
    (unit_test_part ''tointeger: empty fails''
    (check () (tointeger_fails [])
    (unit_test_part ''tointeger: empty fails: base''
    (check () (tointeger_fails ''0x'')
    (unit_test_part ''tointeger: 0''
    (check () (tointeger_is ''0'' 0)
    (unit_test_part ''tointeger: outside base''
    (check () (tointeger_fails ''0xfg'') (check () (tointeger_fails ''99a'') (check () (tointeger_fails ''0b102'')
    (passed ()))))))))))))))))))))))))))"

definition test_httpstatus_code :: "status_cache \<Rightarrow> 32 word \<Rightarrow> string \<Rightarrow> bool res" where
  "test_httpstatus_code sc code status =
     bindE (cflare_httpstatus_tostring sc code) (\<lambda>got.
     bindE (derefE got Null_deref) (\<lambda>got.
     bindE (strcmp_equal (literal got) (literal status)) (\<lambda>same.
       if \<not> same then Inr False
       else bindE (cflare_httpstatus_fromstring sc (literal status)) (\<lambda>code'. Inr (code' = code)))))"

definition test_httpstatus :: "status_cache \<Rightarrow> unit test" where
  "test_httpstatus sc =
     unit_test_part ''200 <-> OK'' (check () (test_httpstatus_code sc 200 ''OK'')
    (unit_test_part ''304 <-> Not Modified'' (check () (test_httpstatus_code sc 304 ''Not Modified'')
    (unit_test_part ''404 <-> Not Found'' (check () (test_httpstatus_code sc 404 ''Not Found'')
    (unit_test_part ''500 <-> Internal Server Error'' (check () (test_httpstatus_code sc 500 ''Internal Server Error'')
    (passed ()))))))))"

definition test_headers :: "headers_state \<Rightarrow> headers_state test" where
  "test_headers st =
     unit_test_part ''Host''
    (bindE (cflare_headers_get st ''Host'') (\<lambda>Host. check st (Inr (hdr_id Host > 0))
    (unit_test_part ''Host == host''
    (bindE (cflare_headers_get st ''host'') (\<lambda>host. check st (cflare_headers_equals Host host)
    (unit_test_part ''Upgrade''
    (bindE (cflare_headers_get st ''Upgrade'') (\<lambda>Upgrade. check st (Inr (hdr_id Upgrade > 0))
    (unit_test_part ''Upgrade == upgrade''
    (bindE (cflare_headers_get st ''upgrade'') (\<lambda>upgrade. check st (cflare_headers_equals Upgrade upgrade)
    (check st (bindE (cflare_headers_equals host upgrade) (\<lambda>same. Inr (\<not> same)))
    (unit_test_part ''ensure''
    (bindE (cflare_headers_ensure st ''X-Nope'') (\<lambda>(st', x_nope). check st' (Inr (hdr_id x_nope > 0))
    (bindE (derefE (hdr_name x_nope) Null_deref) (\<lambda>name. check st' (strcmp_equal (literal name) (literal ''X-Nope''))
    (passed st'))))))))))))))))))"

text \<open>
  The thread sets \<open>inside\<close>, writes into its context and returns a string. Where joining it fails (then
  \<open>cflare_thread_join\<close> gives null), it may or may not have run by then.
\<close>

definition test_threads_thread :: "bool \<times> string option \<times> string option" where
  "test_threads_thread = (True, Some (literal ''Hello, context!''), Some (literal ''Hello, return!''))"

definition test_threads :: "nat option \<Rightarrow> bool \<Rightarrow> bool \<Rightarrow> unit test" where
  "test_threads create join_ok has_run =
     bindE (cflare_thread_new create) (\<lambda>(t, _).
     let (inside, ctx, returned) = (if join_ok \<or> has_run then test_threads_thread else (False, None, None));
         (t, ret, _) = cflare_thread_join (if join_ok then returned else None) t in
       unit_test_part ''entered'' (check () (Inr inside)
      (unit_test_part ''context''
      (check () (case ctx of None \<Rightarrow> Inr False | Some s \<Rightarrow> strcmp_equal s (literal ''Hello, context!''))
      (unit_test_part ''return''
      (check () (case ret of None \<Rightarrow> Inr False | Some s \<Rightarrow> strcmp_equal s (literal ''Hello, return!''))
      (passed ())))))))"

text \<open>A test of the mutexes that has not come to its end after the steps given does not return.\<close>

definition test_mutexes :: "normal_event list \<Rightarrow> rw_event list \<Rightarrow> (nat \<Rightarrow> int) \<Rightarrow> unit test" where
  "test_mutexes normal_order rw_order okay_at =
     unit_test_part ''normal''
    (check () (derefE (Option.bind (mutexes_normal_run 10 5000 normal_order mutexes_normal_start) (test_mutexes_normal 10 5000)) Blocked)
    (unit_test_part ''readwrite''
    (check () (derefE (Option.bind (mutexes_rw_run okay_at 10 10 rw_order mutexes_rw_start) (test_mutexes_rw 10 10)) Blocked)
    (passed ()))))"

section \<open>Running them\<close>

text \<open>What the tests need of the world: the memory of locals and literals, the threads, and
  the order of the steps of those that the tests of the mutexes make.\<close>

record test_world =
  tw_junk :: "nat \<Rightarrow> char"
  tw_blocks :: blocks
  tw_func :: addr
  tw_x :: addr
  tw_behind :: string
  tw_thread :: "nat option"
  tw_join_ok :: bool
  tw_ran :: bool
  tw_normal :: "normal_event list"
  tw_readwrite :: "rw_event list"
  tw_okay_at :: "nat \<Rightarrow> int"

text \<open>The lines that are logged for a test, and whether a test has failed.\<close>

definition part_line :: "string \<Rightarrow> string" where
  "part_line location = TAB # ''checking '' @ location @ ''...''"

definition test_function :: "string \<Rightarrow> 'u test \<Rightarrow> int \<times> string list \<Rightarrow> ((int \<times> string list) \<times> 'u) res" where
  "test_function testname testfunc state =
     bindE testfunc (\<lambda>(result, parts, u). case state of (test_failed, lines) \<Rightarrow>
       Inr ((if result \<noteq> 0 then 1 else test_failed,
         lines @ [''Testing '' @ testname @ ''...''] @ map part_line parts @
           [''Test '' @ testname @ (if result \<noteq> 0 then '' failed'' else '' passed'')]), u))"

definition unit_test ::
  "('p :: {linorder, zero} \<Rightarrow> 'p) \<Rightarrow> 'p hook \<Rightarrow> test_world \<Rightarrow> ('d, 'p) library \<Rightarrow> memory
   \<Rightarrow> (int \<times> string list \<times> ('d, 'p) library \<times> memory) res" where
  "unit_test narrow junk tw lib mem =
     bindE (test_function ''buffer'' (test_buffer (tw_junk tw) (tw_blocks tw)) (0, [])) (\<lambda>(s, _).
     bindE (test_function ''hook'' (test_hook narrow junk (tw_func tw) (tw_x tw) (lib_hooks lib) mem) s) (\<lambda>(s, hooks, mem).
     bindE (test_function ''linkedlist'' test_linkedlist s) (\<lambda>(s, _).
     bindE (test_function ''hashtable'' (test_hashtable (tw_behind tw)) s) (\<lambda>(s, _).
     bindE (test_function ''util'' test_util s) (\<lambda>(s, _).
     bindE (derefE (lib_statuses lib) Null_deref) (\<lambda>sc.
     bindE (test_function ''httpstatus'' (test_httpstatus sc) s) (\<lambda>(s, _).
     bindE (derefE (lib_headers lib) Null_deref) (\<lambda>(hd, known).
     bindE (test_function ''headers'' (test_headers hd) s) (\<lambda>(s, hd).
     bindE (test_function ''threads'' (test_threads (tw_thread tw) (tw_join_ok tw) (tw_ran tw)) s) (\<lambda>(s, _).
     bindE (test_function ''mutexes'' (test_mutexes (tw_normal tw) (tw_readwrite tw) (tw_okay_at tw)) s) (\<lambda>((test_failed, lines), _).
       Inr (test_failed,
         lines @ [if test_failed \<noteq> 0 then ''One or more unit tests failed.'' else ''All unit tests passed.''],
         lib\<lparr>lib_hooks := hooks, lib_headers := Some (hd, known)\<rparr>, mem))))))))))))"

section \<open>What each test answers\<close>

lemma append_literal:
  assumes "buffer_holds h buff ss" and "\<not> needs_copy buff" and "blk h p = Some (literal s)"
  shows "\<exists>buff'. cflare_buffer_append h buff p (length s) = Inr (h, buff') \<and> buffer_holds h buff' (ss @ [s]) \<and>
    \<not> needs_copy buff' \<and> nullchar buff' = nullchar buff"
  using append_nocopy [OF assms(2,1,3), of "length s"] by (simp add: literal_def)

lemma test_buffer_passes: "test_buffer junk h = Inr (0, [''append'', ''build''], ())"
proof -
  let ?opts = "\<lparr>opt_nocopy = True, opt_reverse = False, opt_nullchar = True\<rparr>"
  define h3 where "h3 = new_block (new_block (new_block h (literal ''First'')) (literal ''Second'')) (literal ''Third'')"
  let ?a = "blk_fresh h" let ?b = "Suc (blk_fresh h)" let ?c = "Suc (Suc (blk_fresh h))"
  have blk: "blk h3 ?a = Some (literal ''First'')" "blk h3 ?b = Some (literal ''Second'')" "blk h3 ?c = Some (literal ''Third'')"
    by (simp_all add: h3_def new_block_def)
  have fresh: "blk_fresh (new_block h x) = ?b" "blk_fresh (new_block (new_block h x) y) = ?c" for x y
    by (simp_all add: new_block_def)
  from buffer_new_holds [of ?opts h3] obtain b0 where
    b0: "cflare_buffer_new ?opts = Inr b0" "buffer_holds h3 b0 []" "\<not> needs_copy b0" "nullchar b0" by auto
  from append_literal [OF b0(2,3) blk(1)] obtain b1 where
    b1: "cflare_buffer_append h3 b0 ?a (length ''First'') = Inr (h3, b1)" "buffer_holds h3 b1 ([] @ [''First''])"
      "\<not> needs_copy b1" "nullchar b1" using b0(4) by blast
  from append_literal [OF b1(2,3) blk(2)] obtain b2 where
    b2: "cflare_buffer_append h3 b1 ?b (length ''Second'') = Inr (h3, b2)" "buffer_holds h3 b2 (([] @ [''First'']) @ [''Second''])"
      "\<not> needs_copy b2" "nullchar b2" using b1(4) by blast
  from append_literal [OF b2(2,3) blk(3)] obtain b3 where
    b3: "cflare_buffer_append h3 b2 ?c (length ''Third'') = Inr (h3, b3)"
      "buffer_holds h3 b3 ((([] @ [''First'']) @ [''Second'']) @ [''Third''])"
      "\<not> needs_copy b3" "nullchar b3" using b2(4) by blast
  have "cflare_buffer_length b3 = 16" using b3(2) by (simp add: buffer_holds_def cflare_buffer_length_def)
  moreover have "cflare_buffer_build junk h3 b3 = Inr (literal ''FirstSecondThird'')"
    using build_holds [OF b3(2), of junk] b3(4) by (simp add: literal_def)
  moreover have "cflare_buffer_delete h3 b3 = Inr h3" using b3(3) by (simp add: cflare_buffer_delete_def)
  moreover have "strcmp_equal (literal ''FirstSecondThird'') (literal ''FirstSecondThird'') = Inr True"
    by (simp add: literal_def)
  ultimately show ?thesis
    using b0(1) b1(1) b2(1) b3(1) by (simp add: test_buffer_def Let_def fresh passed_def flip: h3_def)
qed

lemma insert_string_ok:
  assumes "ll_wf l"
  shows "\<exists>l'. insert_string l s = Inr l' \<and> ll_wf l' \<and> ll_contents l' = ll_contents l @ [strncpy s 32]"
  using ll.push_fill [OF assms, of "replicate 32 NUL" "strncpy s 32"] by (auto simp: insert_string_def)

lemma wf_delete: "ll_wf l \<Longrightarrow> \<exists>calls. cflare_linkedlist_delete l = Inr calls"
  by (auto simp: ll_wf_def dest: delete_inv)

lemma iterate_to_second:
  assumes "ll_wf l" and "ll_contents l = [x, y, z]"
  obtains it it' a where "cflare_linkedlist_iterator_next l cflare_linkedlist_get_iterator = Inr (it, Some a)"
    "cflare_linkedlist_iterator_next l it = Inr (it', it_value it')"
    "\<exists>l' calls. cflare_linkedlist_remove l (it_value it') = Inr (l', calls) \<and> ll_wf l' \<and> ll_contents l' = [x, z]"
proof -
  from assms(2) obtain a b c where as: "ll_addrs l = [a, b, c]"
    by (auto simp: ll_contents_def vals_def map_eq_Cons_conv)
  with assms have inv: "ll_inv l [a, b, c]" "vals (ll_nodes l) [a, b, c] = [x, y, z]" by (simp_all add: ll_wf_def ll_contents_def)
  then have chain: "ll_chain l ([] @ a # [b, c])" "ll_chain l ([a] @ b # [c])" by (simp_all add: ll_inv_def)
  from iterator_next_step [OF chain(1) it_rest_start [OF chain(1), simplified]] obtain it where
    it: "cflare_linkedlist_iterator_next l cflare_linkedlist_get_iterator = Inr (it, Some a)" "it_rest l it [b, c]" by auto
  from iterator_next_step [OF chain(2) it(2)] obtain it' where
    it': "cflare_linkedlist_iterator_next l it = Inr (it', Some b)" "it_value it' = Some b" by auto
  have "ll_cursor l b [x] y [z]" using inv by (intro cursorI [of _ "[a]" _ "[c]"]) simp_all
  from ll.cursor_remove [OF this] it'(2) have "\<exists>l' calls. cflare_linkedlist_remove l (it_value it') = Inr (l', calls) \<and> ll_wf l' \<and> ll_contents l' = [x, z]"
    by auto
  with it(1) it' show thesis by (intro that [of it a it']) simp_all
qed

lemma test_linkedlist_passes: "test_linkedlist = Inr (0, [''add'', ''remove''], ())"
proof -
  let ?e = "cflare_linkedlist_new 32 :: string cflare_linkedlist"
  from insert_string_ok [OF wf_new] obtain l1 where
    1: "insert_string ?e ''Hello, '' = Inr l1" "ll_wf l1" "ll_contents l1 = [strncpy ''Hello, '' 32]" by fastforce
  from insert_string_ok [OF 1(2)] obtain l2 where
    2: "insert_string l1 ''world; '' = Inr l2" "ll_wf l2" "ll_contents l2 = [strncpy ''Hello, '' 32, strncpy ''world; '' 32]"
    using 1(3) by fastforce
  let ?h = "''how'' @ [CHR 0x27] @ ''re you?''"
  from insert_string_ok [OF 2(2), of ?h] obtain l3 where
    3: "insert_string l2 ?h = Inr l3" "ll_wf l3"
      "ll_contents l3 = [strncpy ''Hello, '' 32, strncpy ''world; '' 32, strncpy ?h 32]" using 2(3) by auto
  from iterate_to_second [OF 3(2,3)] obtain it it' a l4 calls where
    4: "cflare_linkedlist_iterator_next l3 cflare_linkedlist_get_iterator = Inr (it, Some a)"
      "cflare_linkedlist_iterator_next l3 it = Inr (it', it_value it')"
      "cflare_linkedlist_remove l3 (it_value it') = Inr (l4, calls)" "ll_wf l4"
      "ll_contents l4 = [strncpy ''Hello, '' 32, strncpy ?h 32]" by metis
  have "cflare_linkedlist_count l3 = 3" "cflare_linkedlist_count l4 = 2"
    using wf_count [OF 3(2)] wf_count [OF 4(4)] 3(3) 4(5) by (simp_all add: cflare_linkedlist_count_def)
  with 1(1) 2(1) 3(1) 4(1-3) wf_delete [OF 4(4)] show ?thesis
    by (auto simp: test_linkedlist_def count_or_delete_def passed_def)
qed

lemma set_value_ok:
  assumes "ht_inv t" and "len \<le> length block"
  shows "\<exists>t'. set_value t key block len = Inr t' \<and> ht_inv t' \<and>
    ht_map t' = (ht_map t)(cflare_hash_compute key \<mapsto> take len block) \<and> 0 < length (ht_buckets t')"
  using set_some_ok [OF assms(1), of "cflare_hash_compute key" "take len block"] assms(2) by (auto simp: set_value_def)

lemma locate_ok:
  assumes "ht_inv t" and "ht_map t (cflare_hash_compute key) = Some (s @ NUL # r)" and "NUL \<notin> set s"
  shows "locate t key (s @ NUL # r') p1 p2 test = unit_test_part p1 (unit_test_part p2 test)"
  using get_ok [OF assms(1)] assms(2) strcmp_equal_terminated [OF assms(3,3), of r r'] by (simp add: locate_def)

lemma table_delete_inv: "ht_inv t \<Longrightarrow> \<exists>calls. cflare_hashtable_delete t = Inr calls"
  using delete_buckets_ok [of "ht_buckets t" t]
  by (auto simp: cflare_hashtable_delete_def ht_inv_def buckets_ok_def list_ok_def in_set_conv_nth)

lemma single_count: "ht_inv t \<Longrightarrow> ht_map t = [k \<mapsto> v] \<Longrightarrow> cflare_hashtable_count t = 1"
  by (simp add: cflare_hashtable_count_def count_ok)

lemma new_table_map [simp]: "ht_inv cflare_hashtable_new" "ht_map cflare_hashtable_new = Map.empty"
  by (auto simp: ht_inv_def buckets_ok_def cflare_hashtable_new_def ht_map_def entries_map_def)

lemma test_hashtable_passes:
  assumes "9 \<le> length behind"
  shows "test_hashtable behind = Inr (0, [''buckets set'', ''set'', ''double set'', ''locate 1'', ''locate 1: value'', ''rebuild'',
    ''locate 2'', ''locate 2: value'', ''remove''], ())"
proof -
  let ?k = "''Content-Length''" let ?v = "literal ''1337'' @ behind" let ?h = "cflare_hash_compute ?k"
  let ?m = "[?h \<mapsto> take 14 ?v]"
  have v: "?v = ''1337'' @ NUL # behind" "take 14 ?v = ''1337'' @ NUL # take 9 behind" by (simp_all add: literal_def)
  have len: "14 \<le> length ?v" using assms by (simp add: literal_def)
  from set_value_ok [OF new_table_map(1) len, of ?k] obtain t1 where
    t1: "set_value cflare_hashtable_new ?k ?v 14 = Inr t1" "ht_inv t1" "ht_map t1 = ?m" "0 < length (ht_buckets t1)"
    by (auto simp only: new_table_map)
  from set_value_ok [OF t1(2) len, of ?k] obtain t2 where
    t2: "set_value t1 ?k ?v 14 = Inr t2" "ht_inv t2" "ht_map t2 = ?m" by (auto simp only: t1(3) fun_upd_upd)
  from rebuild_ok [OF t2(2), of 64] t2(3) obtain t3 where
    t3: "cflare_hashtable_rebuild t2 64 = Inr (t3, [])" "ht_inv t3" "ht_map t3 = ?m" "length (ht_buckets t3) = 64" by auto
  from set_none_ok [OF t3(2), of ?h] t3(3,4) obtain t4 calls where
    t4: "cflare_hashtable_set t3 ?h None = Inr (t4, calls)" "ht_inv t4" "ht_map t4 = Map.empty" by auto
  have counts: "cflare_hashtable_count t1 = 1" "cflare_hashtable_count t2 = 1" "cflare_hashtable_count t4 = 0"
    using single_count [OF t1(2,3)] single_count [OF t2(2,3)] count_ok [OF t4(2)] t4(3)
    by (simp_all add: cflare_hashtable_count_def)
  have locates: "locate t2 ?k ?v p1 p2 test = unit_test_part p1 (unit_test_part p2 test)"
    "locate t3 ?k ?v p1 p2 test = unit_test_part p1 (unit_test_part p2 test)" for p1 p2 and test :: "unit test"
    using locate_ok [OF t2(2), of ?k "''1337''" "take 9 behind" behind] locate_ok [OF t3(2), of ?k "''1337''" "take 9 behind" behind]
      t2(3) t3(3) v by simp_all
  have buckets: "cflare_hashtable_bucketscount t1 \<noteq> 0" "cflare_hashtable_bucketscount t3 = 64"
    using t1(4) t3(4) by (simp_all add: cflare_hashtable_bucketscount_def)
  have 14: "length ?k = 14" by simp
  show ?thesis unfolding test_hashtable_def Let_def 14
    using t1(1) t2(1) t3(1) t4(1) counts buckets table_delete_inv [OF t4(2)] by (auto simp: locates passed_def)
qed

lemma test_hashtable_overreads: "length behind < 9 \<Longrightarrow> test_hashtable behind = Inl Out_of_bounds"
  by (simp add: test_hashtable_def Let_def set_value_def literal_def)

lemmas tointeger_run = tointeger_is_def tointeger_fails_def literal_def cflare_tointeger_def cstr_def strip_sign_def
  strip_base_def char_to_number_def add_digit_def double_limit_def

lemma test_util_passes:
  "test_util = Inr (0, [''tointeger: base10'', ''tointeger: base16'', ''tointeger: base2'', ''tointeger: not octal'',
     ''tointeger: empty fails'', ''tointeger: empty fails: base'', ''tointeger: 0'', ''tointeger: outside base''], ())"
proof -
  have base10: "tointeger_is ''1337'' 1337 = Inr True" "tointeger_is ''+123'' 123 = Inr True" "tointeger_is ''-100'' (- 100) = Inr True"
    by (simp_all add: tointeger_run)
  have base16: "tointeger_is ''0x1337'' 0x1337 = Inr True" "tointeger_is ''+0x123'' 0x123 = Inr True"
    "tointeger_is ''-0x100'' (- 0x100) = Inr True"
    by (simp_all add: tointeger_run)
  have base2: "tointeger_is ''0b11'' 3 = Inr True" "tointeger_is ''+0b101'' 5 = Inr True" "tointeger_is ''-0b100'' (- 4) = Inr True"
    by (simp_all add: tointeger_run)
  have octal: "tointeger_is ''012'' 12 = Inr True" "tointeger_is ''+034'' 34 = Inr True" "tointeger_is ''-56'' (- 56) = Inr True"
    "tointeger_is ''0'' 0 = Inr True"
    by (simp_all add: tointeger_run)
  have none: "tointeger_fails [] = Inr True" "tointeger_fails ''0x'' = Inr True" "tointeger_fails ''0xfg'' = Inr True"
    "tointeger_fails ''99a'' = Inr True" "tointeger_fails ''0b102'' = Inr True"
    by (simp_all add: tointeger_run)
  show ?thesis unfolding test_util_def passed_def base10 base16 base2 octal none by simp
qed

text \<open>The statuses and the headers that the tests ask for have to be among those that were loaded.\<close>

definition knows_status :: "status_cache \<Rightarrow> 32 word \<Rightarrow> string \<Rightarrow> bool" where
  "knows_status sc code status \<longleftrightarrow> reason_of sc code = Some status \<and> code_of sc (letters status) = Some code"

lemma test_httpstatus_code_passes:
  "sc_inv sc \<Longrightarrow> knows_status sc code status \<Longrightarrow> NUL \<notin> set status \<Longrightarrow> test_httpstatus_code sc code status = Inr True"
  by (simp add: test_httpstatus_code_def knows_status_def tostring_reason fromstring_code strcmp_equal_terminated literal_def)

definition tested_statuses :: "(32 word \<times> string) list" where
  "tested_statuses = [(200, ''OK''), (304, ''Not Modified''), (404, ''Not Found''), (500, ''Internal Server Error'')]"

lemma test_httpstatus_passes:
  assumes "sc_inv sc" and "\<forall>(code, status) \<in> set tested_statuses. knows_status sc code status"
  shows "test_httpstatus sc = Inr (0, [''200 <-> OK'', ''304 <-> Not Modified'', ''404 <-> Not Found'', ''500 <-> Internal Server Error''], ())"
  using assms(2) by (simp add: tested_statuses_def test_httpstatus_def test_httpstatus_code_passes [OF assms(1)] passed_def)

lemma test_headers_passes:
  assumes inv: "hd_inv st" and known: "header_map st ''host'' = Some h" "header_map st ''upgrade'' = Some u"
    and nope: "header_map st ''x-nope'' = None" and gid: "gid st < 2 ^ 31"
  shows "\<exists>st'. test_headers st = Inr (0, [''Host'', ''Host == host'', ''Upgrade'', ''Upgrade == upgrade'', ''ensure''], st') \<and> hd_inv st'"
proof -
  have low: "lower ''Host'' = ''host''" "lower ''host'' = ''host''" "lower ''Upgrade'' = ''upgrade''"
    "lower ''upgrade'' = ''upgrade''" "lower ''X-Nope'' = ''x-nope''"
    by code_simp+
  have get: "cflare_headers_get st ''Host'' = Inr (as_header (Some h))" "cflare_headers_get st ''host'' = Inr (as_header (Some h))"
    "cflare_headers_get st ''Upgrade'' = Inr (as_header (Some u))" "cflare_headers_get st ''upgrade'' = Inr (as_header (Some u))"
    using get_as_header [OF inv, of "''Host''"] get_as_header [OF inv, of "''host''"]
      get_as_header [OF inv, of "''Upgrade''"] get_as_header [OF inv, of "''upgrade''"] known by (simp_all add: low)
  have equals: "cflare_headers_equals (as_header (Some h)) (as_header (Some h)) = Inr True"
    "cflare_headers_equals (as_header (Some u)) (as_header (Some u)) = Inr True"
    "cflare_headers_equals (as_header (Some h)) (as_header (Some u)) = Inr False"
    using equals_as_header [OF inv known(1) known(1)] equals_as_header [OF inv known(2) known(2)]
      equals_as_header [OF inv known(1) known(2)] by simp_all
  have ids: "0 < hdr_id (as_header (Some h))" "0 < hdr_id (as_header (Some u))"
    using header_map_valid(1) [OF inv known(1)] header_map_valid(1) [OF inv known(2)] by (simp_all add: as_header_def)
  from ensure_ok [OF inv, of "''X-Nope''"] gid obtain st' n where
    n: "cflare_headers_ensure st ''X-Nope'' = Inr (st', as_header (Some n))" "hd_inv st'" "header_map st' ''x-nope'' = Some n"
      "lh_name n = ''X-Nope''"
    using nope by (auto simp: low)
  have "0 < hdr_id (as_header (Some n))" using header_map_valid(1) [OF n(2,3)] by (simp add: as_header_def)
  moreover have "strcmp_equal (literal ''X-Nope'') (literal ''X-Nope'') = Inr True" by (simp add: literal_def)
  ultimately show ?thesis
    using get equals ids n(1,2,4) by (simp add: test_headers_def passed_def as_header_def)
qed

lemma test_threads_passes: "test_threads (Some n) True has_run = Inr (0, [''entered'', ''context'', ''return''], ())"
  by (simp add: test_threads_def cflare_thread_new_def cflare_thread_join_def test_threads_thread_def literal_def passed_def)

lemma test_hook_passes:
  assumes "hook_inv st" and "hooks_of st ''Abc'' = []"
  shows "\<exists>st' new. test_hook narrow junk func x st mem = Inr (0, [''context''], (st', mem(x := None))) \<and> hook_inv st' \<and>
    hooks_of st' ''Abc'' = [new] \<and> hk_func new = func \<and> hk_context new = Some x"
proof -
  from add_first_hook [OF assms, of narrow junk "''test''" 0 func "Some x"] obtain st' where
    st': "cflare_hook_add narrow junk st ''Abc'' ''test'' 0 func (Some x) = Inr st'" "hook_inv st'"
      "hooks_of st' ''Abc'' = [\<lparr>hk_id = ''test'', hk_priority = narrow 0, hk_context = Some x, hk_func = func\<rparr>]" by blast
  from st'(2) have "hs_loaded st'" by (simp add: hook_inv_def)
  with st' show ?thesis
    by (simp add: test_hook_def test_hook_abc_def passed_def hook_call_ok [OF disjI1 [OF st'(2)]])
qed

lemma test_hook_dangles:
  assumes "hook_inv st" and "hooks_of st ''Abc'' = [h]" and "hk_func h = func" and "hk_context h = Some x" and "mem x = None"
  shows "cflare_hook_call (\<lambda>f. if f = func then test_hook_abc else (\<lambda>_ m _. (m, False))) st ''Abc'' () (Inr mem) = Inr (Inl Dangling, False)"
proof -
  from assms(1) have "hs_loaded st" by (simp add: hook_inv_def)
  with assms show ?thesis by (simp add: test_hook_abc_def hook_call_ok [OF disjI1 [OF assms(1)]])
qed

section \<open>Properties\<close>

text \<open>A library the tests can pass on: nothing in their way, and what they ask for is loaded.\<close>

definition ready_for_tests :: "('d, 'p) library \<Rightarrow> bool" where
  "ready_for_tests lib \<longleftrightarrow> library_inv lib \<and> hooks_of (lib_hooks lib) ''Abc'' = [] \<and>
     (\<exists>sc. lib_statuses lib = Some sc \<and> (\<forall>(code, status) \<in> set tested_statuses. knows_status sc code status)) \<and>
     (\<exists>hd known. lib_headers lib = Some (hd, known) \<and> header_map hd ''host'' \<noteq> None \<and> header_map hd ''upgrade'' \<noteq> None \<and>
        header_map hd ''x-nope'' = None \<and> gid hd < 2 ^ 31)"

lemma test_function_passed:
  "test_function name (Inr (0, ps, u)) (failed, lines) =
    Inr ((failed, lines @ [''Testing '' @ name @ ''...''] @ map part_line ps @ [''Test '' @ name @ '' passed'']), u)"
  by (simp add: test_function_def)

text \<open>Orders of steps in which both tests of the mutexes come to their ends.\<close>

definition mutex_tests_end :: "test_world \<Rightarrow> bool" where
  "mutex_tests_end tw \<longleftrightarrow> (\<forall>t. tw_okay_at tw t \<noteq> 0) \<and>
     (\<exists>s. mutexes_normal_run 10 5000 (tw_normal tw) mutexes_normal_start = Some s \<and> mn_joined s = 10) \<and>
     (\<exists>s. mutexes_rw_run (tw_okay_at tw) 10 10 (tw_readwrite tw) mutexes_rw_start = Some s \<and> rw_joined s = 10 + 10 \<and>
       \<not> rc_running (rw_container s))"

lemma test_mutexes_passes:
  assumes "mutex_tests_end tw"
  shows "test_mutexes (tw_normal tw) (tw_readwrite tw) (tw_okay_at tw) = Inr (0, [''normal'', ''readwrite''], ())"
proof -
  from assms obtain s r where nonzero: "\<forall>t. tw_okay_at tw t \<noteq> 0"
    and s: "mutexes_normal_run 10 5000 (tw_normal tw) mutexes_normal_start = Some s" "mn_joined s = 10"
    and r: "mutexes_rw_run (tw_okay_at tw) 10 10 (tw_readwrite tw) mutexes_rw_start = Some r" "rw_joined r = 10 + 10"
      "\<not> rc_running (rw_container r)" unfolding mutex_tests_end_def by blast
  from normal_run_ok [OF normal_inv_start s(1)] s(2) have "test_mutexes_normal 10 5000 s = Some True" by (intro normal_answer) blast+
  moreover have "test_mutexes_rw 10 10 r = Some True"
    using mutexes_rw_run_inv [OF rw_inv_start nonzero r(1)] r(2,3) by (rule rw_answer)
  ultimately show ?thesis by (simp add: test_mutexes_def s(1) r(1) passed_def del: mutexes_normal_run.simps mutexes_rw_run.simps)
qed

text \<open>
  C11: on a loaded library that knows the statuses and headers they ask for, with threads that can be made and joined and in
  any order of the steps in which the tests of the mutexes come to their ends, all the unit tests pass, and say so; they leave the library well formed. But the test of the hash table
  stores as many bytes as its key has where the value has five: it reads nine bytes beyond the literal, and with fewer than nine readable behind it the
  tests do not come to an end. And the hook of the test stays, with a context that points to a variable of a function that has returned: calling the
  event once more is a use of a dangling pointer.
\<close>

theorem unit_test_outcome:
  assumes ready: "ready_for_tests lib" and thread: "tw_thread tw = Some n" "tw_join_ok tw"
    and mutexes: "mutex_tests_end tw"
  shows "if length (tw_behind tw) < 9 then unit_test narrow junk tw lib mem = Inl Out_of_bounds
    else \<exists>lines lib' mem'. unit_test narrow junk tw lib mem = Inr (0, lines, lib', mem') \<and> library_inv lib' \<and>
      last lines = ''All unit tests passed.'' \<and>
      (\<forall>name \<in> {''buffer'', ''hook'', ''linkedlist'', ''hashtable'', ''util'', ''httpstatus'', ''headers'', ''threads'', ''mutexes''}.
         ''Test '' @ name @ '' passed'' \<in> set lines) \<and>
      cflare_hook_call (\<lambda>f. if f = tw_func tw then test_hook_abc else (\<lambda>_ m _. (m, False))) (lib_hooks lib') ''Abc'' () (Inr mem') =
        Inr (Inl Dangling, False)"
proof -
  from ready obtain sc hd known h u where
    l: "library_inv lib" "hooks_of (lib_hooks lib) ''Abc'' = []" "lib_statuses lib = Some sc" "lib_headers lib = Some (hd, known)"
      "\<forall>(code, status) \<in> set tested_statuses. knows_status sc code status"
      "header_map hd ''host'' = Some h" "header_map hd ''upgrade'' = Some u" "header_map hd ''x-nope'' = None" "gid hd < 2 ^ 31"
    unfolding ready_for_tests_def by blast
  then have inv: "hook_inv (lib_hooks lib)" "sc_inv sc" "hd_inv hd" by (auto simp: library_inv_def)
  from test_hook_passes [OF inv(1) l(2), of narrow junk "tw_func tw" "tw_x tw" mem] obtain hooks new where
    hook: "test_hook narrow junk (tw_func tw) (tw_x tw) (lib_hooks lib) mem = Inr (0, [''context''], (hooks, mem(tw_x tw := None)))"
      "hook_inv hooks" "hooks_of hooks ''Abc'' = [new]" "hk_func new = tw_func tw" "hk_context new = Some (tw_x tw)" by blast
  from test_headers_passes [OF inv(3) l(6-9)] obtain hd' where
    headers: "test_headers hd = Inr (0, [''Host'', ''Host == host'', ''Upgrade'', ''Upgrade == upgrade'', ''ensure''], hd')" "hd_inv hd'"
    by blast
  let ?lib = "lib\<lparr>lib_hooks := hooks, lib_headers := Some (hd', known)\<rparr>"
  have lib: "library_inv ?lib" using l(1) hook(2) headers(2) by (auto simp: library_inv_def)
  note run = unit_test_def test_buffer_passes test_function_passed hook(1) test_linkedlist_passes
  show ?thesis
  proof (cases "length (tw_behind tw) < 9")
    case True
    then show ?thesis by (simp add: run test_hashtable_overreads [OF True] test_function_def)
  next
    case False
    then have nine: "9 \<le> length (tw_behind tw)" by simp
    have "\<exists>lines. unit_test narrow junk tw lib mem = Inr (0, lines, ?lib, mem(tw_x tw := None)) \<and> 
      last lines = ''All unit tests passed.'' \<and>
      (\<forall>name \<in> {''buffer'', ''hook'', ''linkedlist'', ''hashtable'', ''util'', ''httpstatus'', ''headers'', ''threads'', ''mutexes''}.
         ''Test '' @ name @ '' passed'' \<in> set lines)"
      using test_hashtable_passes [OF nine] test_httpstatus_passes [OF inv(2) l(5)]
      by (simp add: run test_util_passes headers(1) l(3,4) thread test_threads_passes test_mutexes_passes [OF mutexes] part_line_def) 
    with False lib test_hook_dangles [OF hook(2-5), of "mem(tw_x tw := None)"] show ?thesis by auto
  qed
qed

text \<open>Such a library: four statuses and two headers.\<close>

lemma statuses_known: "\<exists>sc. sc_inv sc \<and> (\<forall>(code, status) \<in> set tested_statuses. knows_status sc code status)"
proof -
  have low: "letters ''OK'' = ''ok''" "letters ''Not Modified'' = ''notmodified''" "letters ''Not Found'' = ''notfound''"
    "letters ''Internal Server Error'' = ''internalservererror''" by code_simp+
  have "sc_inv empty_cache" by (simp add: sc_inv_def empty_cache_def)
  from add_status_ok [OF this, of "''OK''" 200 "[]"] obtain s1 where 1: "sc_inv s1"
    "reason_of s1 = (reason_of empty_cache)(200 \<mapsto> ''OK'')" "code_of s1 = (code_of empty_cache)(letters ''OK'' \<mapsto> 200)" by auto
  from add_status_ok [OF 1(1), of "''Not Modified''" 304 "[]"] obtain s2 where 2: "sc_inv s2"
    "reason_of s2 = (reason_of s1)(304 \<mapsto> ''Not Modified'')" "code_of s2 = (code_of s1)(letters ''Not Modified'' \<mapsto> 304)" by auto
  from add_status_ok [OF 2(1), of "''Not Found''" 404 "[]"] obtain s3 where 3: "sc_inv s3"
    "reason_of s3 = (reason_of s2)(404 \<mapsto> ''Not Found'')" "code_of s3 = (code_of s2)(letters ''Not Found'' \<mapsto> 404)" by auto
  from add_status_ok [OF 3(1), of "''Internal Server Error''" 500 "[]"] obtain s4 where 4: "sc_inv s4"
    "reason_of s4 = (reason_of s3)(500 \<mapsto> ''Internal Server Error'')"
    "code_of s4 = (code_of s3)(letters ''Internal Server Error'' \<mapsto> 500)" by auto
  show ?thesis
    by (intro exI [of _ s4]) (simp add: tested_statuses_def knows_status_def 1 2 3 4 low)
qed

lemma headers_known:
  "\<exists>hd. hd_inv hd \<and> header_map hd ''host'' \<noteq> None \<and> header_map hd ''upgrade'' \<noteq> None \<and> header_map hd ''x-nope'' = None \<and> gid hd < 2 ^ 31"
proof -
  have low: "lower ''Host'' = ''host''" "lower ''Upgrade'' = ''upgrade''" by code_simp+
  have none: "header_map no_headers n = None" for n
    by (simp add: header_map_def no_headers_def cflare_hashtable_ondelete_def cflare_hashtable_new_def ht_map_def entries_map_def)
  have g: "gid no_headers = 1" by (simp add: no_headers_def)
  from create_header_ok [OF no_headers_inv, of "''Host''"] g obtain a where a: "hd_inv a" "gid a = Suc (Suc 0)"
    "\<exists>h. header_map a = (header_map no_headers)(''host'' \<mapsto> h)" by (auto simp: low)
  from create_header_ok [OF a(1), of "''Upgrade''"] a(2) obtain b where "hd_inv b" "gid b = Suc (Suc (Suc 0))"
    "\<exists>h. header_map b = (header_map a)(''upgrade'' \<mapsto> h)" by (auto simp: low)
  with a(3) none show ?thesis by (intro exI [of _ b]) auto
qed

lemma tests_can_pass: "\<exists>lib :: (int, int) library. ready_for_tests lib"
proof -
  obtain sc where sc: "sc_inv sc" "\<forall>(code, status) \<in> set tested_statuses. knows_status sc code status"
    using statuses_known by blast
  obtain hd where hd: "hd_inv hd" "header_map hd ''host'' \<noteq> None" "header_map hd ''upgrade'' \<noteq> None"
    "header_map hd ''x-nope'' = None" "gid hd < 2 ^ 31" using headers_known by blast
  let ?lib = "\<lparr>lib_handles = \<lparr>refs = [], curid = 0, loaded = True\<rparr>, lib_hooks = no_hooks,
     lib_options = Some \<lparr>opt_hashtable = cflare_hashtable_new, env_hashtable = cflare_hashtable_new, opt_args = [], opt_self = None\<rparr>,
     lib_statuses = Some sc, lib_headers = Some (hd, [])\<rparr> :: (int, int) library"
  have "ready_for_tests ?lib"
    using sc hd no_hooks_inv by (simp add: ready_for_tests_def library_inv_def options_inv_def)
  then show ?thesis by blast
qed

definition some_world :: "string \<Rightarrow> normal_event list \<Rightarrow> rw_event list \<Rightarrow> test_world" where
  "some_world behind normal_order rw_order = \<lparr>tw_junk = (\<lambda>_. CHR ''?''), tw_blocks = \<lparr>blk = Map.empty, blk_fresh = 0\<rparr>, tw_func = 7,
     tw_x = 1, tw_behind = behind, tw_thread = Some 0, tw_join_ok = True, tw_ran = True, tw_normal = normal_order, tw_readwrite = rw_order,
     tw_okay_at = (\<lambda>t. 4096)\<rparr>"

lemma mutex_tests_can_end: "\<exists>normal_order rw_order. \<forall>behind. mutex_tests_end (some_world behind normal_order rw_order)"
  using normal_end_reachable [OF normal_inv_start, of 10 5000] rw_end_reachable [of "\<lambda>t. 4096" 10 10]
  by (simp add: mutex_tests_end_def some_world_def)

lemma unit_test_outcome_witness:
  "\<exists>lib :: (int, int) library. ready_for_tests lib \<and> (\<exists>normal_order rw_order.
     unit_test (\<lambda>p. p) blank_hook (some_world [] normal_order rw_order) lib Map.empty = Inl Out_of_bounds \<and>
     (\<exists>lines lib' mem'. unit_test (\<lambda>p. p) blank_hook (some_world ''Hello, context!'' normal_order rw_order) lib Map.empty =
          Inr (0, lines, lib', mem') \<and> last lines = ''All unit tests passed.''))"
proof -
  obtain lib :: "(int, int) library" where lib: "ready_for_tests lib" using tests_can_pass by blast
  obtain ns rs where ends: "\<And>behind. mutex_tests_end (some_world behind ns rs)" using mutex_tests_can_end by blast
  from unit_test_outcome [OF lib _ _ ends, of "[]" 0 "\<lambda>p. p" blank_hook Map.empty]
    unit_test_outcome [OF lib _ _ ends, of "''Hello, context!''" 0 "\<lambda>p. p" blank_hook Map.empty] lib
  show ?thesis by (intro exI [of _ lib] conjI exI [of _ ns] exI [of _ rs]) (auto simp: some_world_def)
qed

end
