(* ===== verification/Clock.thy ===== *)
theory Clock
  imports Float64
begin

text \<open>
  The clocks: \<open>cflare_time\<close> of \<open>src/cflare-posix/util.c\<close>, seconds since its first call out of two readings of a
  monotonic clock, and of \<open>src/cflare-windows/util.c\<close>, out of a counter and its frequency.

  Their results are doubles, so this theory also has what is missing in \<open>Float64\<close>: conversion of integers, quotients, sums and the order.
  A quotient is computed with 120 more bits and one bit for what is left, and then rounded to 53 bits: this is the correctly rounded quotient, since the
  numbers here have at most 64 bits. The system calls are arguments: what the clock reads, and \<open>None\<close> where a counter cannot be read.
\<close>

section \<open>More about doubles\<close>

definition float_of_int :: "int \<Rightarrow> float64" where
  "float_of_int i = Finite (i < 0) (round53 (nat \<bar>i\<bar>)) 0"

definition quotient53 :: "nat \<Rightarrow> nat \<Rightarrow> nat" where
  "quotient53 m k = (let x = m * 2 ^ 120 in round53 (2 * (x div k) + (if x mod k = 0 then 0 else 1)))"

definition float_div :: "float64 \<Rightarrow> float64 \<Rightarrow> float64" where
  "float_div x y = (case (x, y) of
       (Finite s m e, Finite s' k e') \<Rightarrow>
         if k = 0 then (if m = 0 then Not_a_number else Infinite (s \<noteq> s'))
         else Finite (s \<noteq> s') (quotient53 m k) (e - e' - 121)
     | (Finite s m e, Infinite s') \<Rightarrow> Finite (s \<noteq> s') 0 0
     | (Infinite s, Finite s' k e') \<Rightarrow> Infinite (s \<noteq> s')
     | _ \<Rightarrow> Not_a_number)"

text \<open>The value of a finite double in units of \<open>2 ^ d\<close>, for a \<open>d\<close> not above its exponent.\<close>

definition float_units :: "bool \<Rightarrow> nat \<Rightarrow> int \<Rightarrow> int \<Rightarrow> int" where
  "float_units s m e d = (if s then - 1 else 1) * int m * 2 ^ nat (e - d)"

definition float_add :: "float64 \<Rightarrow> float64 \<Rightarrow> float64" where
  "float_add x y = (case (x, y) of
       (Finite s m e, Finite s' k e') \<Rightarrow>
         let d = min e e'; i = float_units s m e d + float_units s' k e' d in Finite (i < 0) (round53 (nat \<bar>i\<bar>)) d
     | (Finite _ _ _, _) \<Rightarrow> y
     | (_, Finite _ _ _) \<Rightarrow> x
     | (Infinite s, Infinite s') \<Rightarrow> if s = s' then x else Not_a_number
     | _ \<Rightarrow> Not_a_number)"

definition float_le :: "float64 \<Rightarrow> float64 \<Rightarrow> bool" where
  "float_le x y = (case (x, y) of
       (Finite s m e, Finite s' k e') \<Rightarrow> let d = min e e' in float_units s m e d \<le> float_units s' k e' d
     | (Infinite s, Infinite s') \<Rightarrow> s \<or> \<not> s'
     | (Infinite s, Finite _ _ _) \<Rightarrow> s
     | (Finite _ _ _, Infinite s) \<Rightarrow> \<not> s
     | _ \<Rightarrow> False)"

lemma float_le_same [simp]: "float_le (Finite False m e) (Finite False k e) \<longleftrightarrow> m \<le> k"
  by (simp add: float_le_def float_units_def)

lemma quotient53_mono:
  assumes "m \<le> n"
  shows "quotient53 m k \<le> quotient53 n k"
proof -
  let ?x = "m * 2 ^ 120" let ?y = "n * 2 ^ 120"
  let ?q = "\<lambda>x. 2 * (x div k) + (if x mod k = 0 then 0 else 1)"
  have le: "?x \<le> ?y" using assms by (rule mult_le_mono1)
  then have "?x div k \<le> ?y div k" by (rule div_le_mono)
  then have "?q ?x \<le> ?q ?y"
  proof (cases "?x div k = ?y div k")
    case True
    with le have "?x mod k \<le> ?y mod k" by (metis add_le_cancel_left mult_div_mod_eq)
    with True show ?thesis by simp
  next
    case False
    with \<open>?x div k \<le> ?y div k\<close> show ?thesis by simp
  qed
  then show ?thesis unfolding quotient53_def Let_def by (rule round53_mono)
qed

text \<open>A quotient without remainder of at most 53 bits is exact.\<close>

lemma quotient53_exact:
  assumes "n < 2 ^ 53" and "0 < k"
  shows "quotient53 (n * 2 ^ j * k) k = n * 2 ^ (j + 121)"
proof -
  have x: "n * 2 ^ j * k * 2 ^ 120 = n * 2 ^ (j + 120) * k" by (simp only: power_add ac_simps)
  have "quotient53 (n * 2 ^ j * k) k = round53 (2 * (n * 2 ^ (j + 120)))"
    unfolding quotient53_def Let_def x using assms(2) by (simp only: nonzero_mult_div_cancel_right mod_mult_self2_is_0 if_True add_0_right neq0_conv simp_thms)
  also have "2 * (n * 2 ^ (j + 120)) = n * 2 ^ (j + 121)" by (simp add: power_add)
  finally show ?thesis using round53_shift [OF assms(1)] by simp
qed

section \<open>The clock of POSIX\<close>

record timespec =
  tv_sec :: int
  tv_nsec :: int

definition sub_timespec :: "timespec \<Rightarrow> timespec \<Rightarrow> timespec" where
  "sub_timespec a b =
     (let r = \<lparr>tv_sec = tv_sec a - tv_sec b, tv_nsec = tv_nsec a - tv_nsec b\<rparr> in
      if tv_nsec r < 0 then r\<lparr>tv_sec := tv_sec r - 1, tv_nsec := tv_nsec r + 1000 * 1000 * 1000\<rparr> else r)"

definition thousand :: float64 where
  "thousand = Finite False 1000 0"

text \<open>
  \<open>clock1\<close> is the first reading where there was none before, \<open>clock2\<close> the second. The start that is kept is returned as well.
\<close>

definition cflare_time :: "timespec option \<Rightarrow> timespec \<Rightarrow> timespec \<Rightarrow> float64 \<times> timespec option" where
  "cflare_time start clock1 clock2 =
     (let start' = (case start of None \<Rightarrow> clock1 | Some s \<Rightarrow> s);
          ts = sub_timespec clock2 start'
      in (float_add (float_of_int (tv_sec ts))
            (float_div (float_div (float_div (float_of_int (tv_nsec ts)) thousand) thousand) thousand), Some start'))"

section \<open>The clock of Windows\<close>

text \<open>The frequency and the start; \<open>None\<close> as long as \<open>time_first\<close> is set.\<close>

record win_clock =
  wc_freq :: int
  wc_start :: int

definition cflare_time_windows :: "win_clock option \<Rightarrow> int option \<Rightarrow> int option \<Rightarrow> (float64 \<times> win_clock option) res" where
  "cflare_time_windows clock counter frequency =
     bindE (derefE counter (Fatal ''QueryPerformanceCounter'')) (\<lambda>count.
     bindE (case clock of
         None \<Rightarrow> bindE (derefE frequency (Fatal ''QueryPerformanceFrequency'')) (\<lambda>freq. Inr \<lparr>wc_freq = freq, wc_start = count\<rparr>)
       | Some c \<Rightarrow> Inr c) (\<lambda>c.
       Inr (float_div (float_of_int (count - wc_start c)) (float_of_int (wc_freq c)), Some c)))"

section \<open>Time does not go back\<close>

definition nanoseconds :: "timespec \<Rightarrow> int" where
  "nanoseconds t = tv_sec t * 10 ^ 9 + tv_nsec t"

definition timespec_ok :: "timespec \<Rightarrow> bool" where
  "timespec_ok t \<longleftrightarrow> 0 \<le> tv_nsec t \<and> tv_nsec t < 10 ^ 9"

lemma sub_timespec_exact:
  assumes "timespec_ok a" and "timespec_ok b"
  shows "nanoseconds (sub_timespec a b) = nanoseconds a - nanoseconds b \<and> timespec_ok (sub_timespec a b)"
  using assms by (auto simp: sub_timespec_def nanoseconds_def timespec_ok_def Let_def algebra_simps)

lemma timespec_order:
  assumes "timespec_ok a" and "timespec_ok b" and "nanoseconds a \<le> nanoseconds b"
  shows "tv_sec a < tv_sec b \<or> tv_sec a = tv_sec b \<and> tv_nsec a \<le> tv_nsec b"
  using assms by (auto simp: nanoseconds_def timespec_ok_def)

text \<open>The fraction of a second, in units of \<open>2 ^ - 363\<close>.\<close>

definition fraction53 :: "nat \<Rightarrow> nat" where
  "fraction53 n = quotient53 (quotient53 (quotient53 (round53 n) 1000) 1000) 1000"

lemma fraction53_mono: "m \<le> n \<Longrightarrow> fraction53 m \<le> fraction53 n"
  unfolding fraction53_def by (intro quotient53_mono round53_mono)

lemma fraction53_second: "fraction53 (10 ^ 9) = 2 ^ 363"
proof -
  have "quotient53 (round53 (10 ^ 9)) 1000 = 10 ^ 6 * 2 ^ 121" using quotient53_exact [of "10 ^ 6" 1000 0] by simp
  moreover have "quotient53 (10 ^ 6 * 2 ^ 121) 1000 = 10 ^ 3 * 2 ^ 242" using quotient53_exact [of "10 ^ 3" 1000 121] by simp
  moreover have "quotient53 (10 ^ 3 * 2 ^ 242) 1000 = 2 ^ 363" using quotient53_exact [of 1 1000 242] by simp
  ultimately show ?thesis by (simp only: fraction53_def)
qed

lemma fraction53_below: "n \<le> 10 ^ 9 \<Longrightarrow> fraction53 n \<le> 2 ^ 363"
  using fraction53_mono [of n "10 ^ 9"] by (simp only: fraction53_second)

lemma cflare_time_value:
  assumes "tv_sec (sub_timespec b s) = int sec" and "tv_nsec (sub_timespec b s) = int ns"
  shows "cflare_time (Some s) c b = (Finite False (round53 (round53 sec * 2 ^ 363 + fraction53 ns)) (- 363), Some s)"
  by (simp add: cflare_time_def Let_def assms float_of_int_def float_div_def thousand_def float_add_def float_units_def fraction53_def
      nat_add_distrib nat_mult_distrib nat_power_eq)

text \<open>An elapsed time of whole seconds and nanoseconds.\<close>

lemma elapsed:
  assumes "timespec_ok s" and "timespec_ok b" and "nanoseconds s \<le> nanoseconds b"
  obtains sec ns where "tv_sec (sub_timespec b s) = int sec" "tv_nsec (sub_timespec b s) = int ns" "ns < 10 ^ 9"
    "nanoseconds b - nanoseconds s = int sec * 10 ^ 9 + int ns"
proof -
  let ?d = "sub_timespec b s"
  from sub_timespec_exact [OF assms(2,1)] have d: "nanoseconds ?d = nanoseconds b - nanoseconds s" "timespec_ok ?d" by auto
  with assms(3) have "0 \<le> tv_sec ?d" "0 \<le> tv_nsec ?d" "tv_nsec ?d < 10 ^ 9" by (auto simp: nanoseconds_def timespec_ok_def)
  with d(1) show thesis by (intro that [of "nat (tv_sec ?d)" "nat (tv_nsec ?d)"]) (simp_all add: nanoseconds_def nat_less_iff)
qed

definition seconds53 :: "nat \<Rightarrow> nat \<Rightarrow> nat" where
  "seconds53 sec ns = round53 (round53 sec * 2 ^ 363 + fraction53 ns)"

lemma seconds53_mono:
  assumes "sec < sec' \<or> sec = sec' \<and> ns \<le> ns'" and "ns < 10 ^ 9" and "sec' < 2 ^ 53"
  shows "seconds53 sec ns \<le> seconds53 sec' ns'"
proof (cases "sec = sec'")
  case True
  with assms show ?thesis unfolding seconds53_def by (intro round53_mono add_mono fraction53_mono) auto
next
  case False
  with assms(1,3) have "sec < 2 ^ 53" "sec + 1 \<le> sec'" by simp_all
  then have r: "round53 sec = sec" "round53 sec' = sec'" using assms(3) by (simp_all only: round53_exact)
  have "round53 sec * 2 ^ 363 + fraction53 ns \<le> sec * 2 ^ 363 + 2 ^ 363"
    unfolding r using fraction53_below [of ns] assms(2) by (intro add_left_mono) simp
  also have "\<dots> = (sec + 1) * 2 ^ 363" by simp
  also have "\<dots> \<le> round53 sec' * 2 ^ 363 + fraction53 ns'"
    unfolding r by (rule trans_le_add1, rule mult_le_mono1, rule \<open>sec + 1 \<le> sec'\<close>)
  finally show ?thesis unfolding seconds53_def by (rule round53_mono)
qed

lemma seconds53_between:
  assumes "ns < 10 ^ 9" and "sec + 1 < 2 ^ 53"
  shows "sec \<le> seconds53 sec ns div 2 ^ 363" and "seconds53 sec ns div 2 ^ 363 \<le> sec + 1"
proof -
  let ?x = "sec * 2 ^ 363 + fraction53 ns"
  have r: "round53 sec = sec" using assms(2) by (simp only: round53_exact add_lessD1)
  have x: "?x \<le> (sec + 1) * 2 ^ 363" using fraction53_below [of ns] assms(1) by (simp only: distrib_right mult_1) simp
  also have "\<dots> < 2 ^ 53 * 2 ^ 363" using assms(2) by (rule mult_less_mono1) simp
  finally have small: "?x < 2 ^ 53 * 2 ^ 363" .
  have "sec = sec * 2 ^ 363 div 2 ^ 363" by simp
  also have "\<dots> \<le> ?x div 2 ^ 363" by (rule div_le_mono) simp
  also have "\<dots> \<le> round53 ?x div 2 ^ 363" by (rule round53_div_between(1) [OF small])
  finally show "sec \<le> seconds53 sec ns div 2 ^ 363" by (simp only: seconds53_def r)
  show "seconds53 sec ns div 2 ^ 363 \<le> sec + 1"
    unfolding seconds53_def r by (rule round53_div_between(2) [OF small assms(2) x])
qed

lemma cflare_time_elapsed:
  assumes "timespec_ok s" and "timespec_ok b" and "nanoseconds s \<le> nanoseconds b"
  obtains sec ns where "\<And>c. cflare_time (Some s) c b = (Finite False (seconds53 sec ns) (- 363), Some s)" "ns < 10 ^ 9"
    "nanoseconds b - nanoseconds s = int sec * 10 ^ 9 + int ns"
proof -
  from elapsed [OF assms] obtain sec ns where
    "tv_sec (sub_timespec b s) = int sec" "tv_nsec (sub_timespec b s) = int ns" "ns < 10 ^ 9"
    "nanoseconds b - nanoseconds s = int sec * 10 ^ 9 + int ns" .
  with cflare_time_value [OF this(1,2)] show thesis by (intro that) (simp_all add: seconds53_def)
qed

lemma windows_time_value:
  assumes "0 < f" and "start \<le> x"
  shows "cflare_time_windows (Some \<lparr>wc_freq = f, wc_start = start\<rparr>) (Some x) fr =
    Inr (Finite False (quotient53 (round53 (nat (x - start))) (round53 (nat f))) (- 121), Some \<lparr>wc_freq = f, wc_start = start\<rparr>)"
proof -
  have "round53 1 \<le> round53 (nat f)" using assms(1) by (intro round53_mono) simp
  then have "round53 (nat f) \<noteq> 0" by simp
  with assms show ?thesis by (simp add: cflare_time_windows_def float_of_int_def float_div_def)
qed

lemma quotient53_zero [simp]: "quotient53 0 k = 0"
  by (simp add: quotient53_def)

lemma start_is_zero: "float_zero (fst (cflare_time None s s))"
proof -
  have "cflare_time (Some s) s s = (Finite False (round53 (round53 0 * 2 ^ 363 + fraction53 0)) (- 363), Some s)"
    by (rule cflare_time_value) (simp_all add: sub_timespec_def)
  moreover have "fraction53 0 = 0" by (simp add: fraction53_def)
  moreover have "cflare_time None s s = cflare_time (Some s) s s" by (simp add: cflare_time_def)
  ultimately show ?thesis by (simp add: float_zero_def)
qed

section \<open>Properties\<close>

text \<open>
  C14: on both systems time does not go back, however the quotients and the sum are rounded: the first call gives zero and keeps its reading, and of two
  later readings of the clock, the later gives a number that is not smaller. On POSIX the number, cut to whole
  seconds, is the seconds that have passed or one more.
\<close>

theorem time_monotone:
  assumes ok: "timespec_ok s" "timespec_ok a" "timespec_ok b"
    and order: "nanoseconds s \<le> nanoseconds a" "nanoseconds a \<le> nanoseconds b" and small: "nanoseconds b - nanoseconds s < (2 ^ 53 - 1) * 10 ^ 9"
    and counters: "0 < f" "start \<le> x" "x \<le> y"
  shows "cflare_time None s a = cflare_time (Some s) c a \<and> float_zero (fst (cflare_time None s s)) \<and>
    float_le (fst (cflare_time (Some s) c a)) (fst (cflare_time (Some s) c' b)) \<and>
    (\<exists>t \<in> {(nanoseconds b - nanoseconds s) div 10 ^ 9, (nanoseconds b - nanoseconds s) div 10 ^ 9 + 1}.
       float_trunc (fst (cflare_time (Some s) c' b)) = Some t) \<and>
    (\<exists>u v w. cflare_time_windows None (Some start) (Some f) = Inr (w, Some \<lparr>wc_freq = f, wc_start = start\<rparr>) \<and> float_zero w \<and>
       cflare_time_windows (Some \<lparr>wc_freq = f, wc_start = start\<rparr>) (Some x) fr = Inr (u, Some \<lparr>wc_freq = f, wc_start = start\<rparr>) \<and>
       cflare_time_windows (Some \<lparr>wc_freq = f, wc_start = start\<rparr>) (Some y) fr = Inr (v, Some \<lparr>wc_freq = f, wc_start = start\<rparr>) \<and>
       float_le u v)"
proof -
  from cflare_time_elapsed [OF ok(1,2) order(1)] obtain sa na where
    a: "\<And>c. cflare_time (Some s) c a = (Finite False (seconds53 sa na) (- 363), Some s)" "na < 10 ^ 9"
      "nanoseconds a - nanoseconds s = int sa * 10 ^ 9 + int na" by blast
  from cflare_time_elapsed [OF ok(1,3) order_trans [OF order]] obtain sb nb where
    b: "\<And>c. cflare_time (Some s) c b = (Finite False (seconds53 sb nb) (- 363), Some s)" "nb < 10 ^ 9"
      "nanoseconds b - nanoseconds s = int sb * 10 ^ 9 + int nb" by blast
  have ns: "nb < 1000000000" "na < 1000000000" using a(2) b(2) by simp_all
  have elapsed: "int sa * 1000000000 + int na \<le> int sb * 1000000000 + int nb" "int sb * 1000000000 + int nb < 9007199254740991 * 1000000000"
    using a(3) b(3) order(2) small by simp_all
  from elapsed(2) have "int sb < 9007199254740991" by linarith
  then have sb: "sb + 1 < 2 ^ 53" by simp
  have "sa \<le> sb" using elapsed(1) ns by linarith
  then have le: "sa < sb \<or> sa = sb \<and> na \<le> nb" using elapsed(1) by (cases "sa = sb") simp_all
  note start_is_zero [of s]
  moreover have "float_le (fst (cflare_time (Some s) c a)) (fst (cflare_time (Some s) c' b))"
    unfolding a(1) b(1) using seconds53_mono [OF le a(2) add_lessD1 [OF sb]] by simp
  moreover have "(nanoseconds b - nanoseconds s) div 10 ^ 9 = int sb" unfolding b(3) using ns(1) by simp
  moreover have "float_trunc (fst (cflare_time (Some s) c' b)) = Some (int (seconds53 sb nb div 2 ^ 363))"
    unfolding b(1) by (simp add: float_trunc_def zdiv_int)
  moreover have "seconds53 sb nb div 2 ^ 363 = sb \<or> seconds53 sb nb div 2 ^ 363 = sb + 1"
    using seconds53_between [OF b(2) sb] by linarith
  moreover have "cflare_time None s a = cflare_time (Some s) c a" by (simp add: cflare_time_def)
  moreover have "float_le (Finite False (quotient53 (round53 (nat (x - start))) k) (- 121)) (Finite False (quotient53 (round53 (nat (y - start))) k) (- 121))" for k
    unfolding float_le_same using counters(3) by (intro quotient53_mono round53_mono) simp
  moreover have "\<exists>w. cflare_time_windows None (Some start) (Some f) = Inr (w, Some \<lparr>wc_freq = f, wc_start = start\<rparr>) \<and> float_zero w"
    using windows_time_value [OF counters(1) order_refl, of start fr]
    by (simp add: cflare_time_windows_def float_zero_def quotient53_def)
  ultimately show ?thesis
    using windows_time_value [OF counters(1,2), of fr] windows_time_value [OF counters(1) order_trans [OF counters(2,3)], of fr] by auto
qed

lemma time_monotone_witness:
  "\<exists>t. float_trunc (fst (cflare_time (Some \<lparr>tv_sec = 5, tv_nsec = 999999999\<rparr>) \<lparr>tv_sec = 0, tv_nsec = 0\<rparr> \<lparr>tv_sec = 7, tv_nsec = 1\<rparr>)) = Some t \<and> (t = 1 \<or> t = 2)"
  using time_monotone [of "\<lparr>tv_sec = 5, tv_nsec = 999999999\<rparr>" "\<lparr>tv_sec = 6, tv_nsec = 0\<rparr>" "\<lparr>tv_sec = 7, tv_nsec = 1\<rparr>" 10 3 4 8
      "\<lparr>tv_sec = 0, tv_nsec = 0\<rparr>" "\<lparr>tv_sec = 0, tv_nsec = 0\<rparr>" None]
  by (auto simp: timespec_ok_def nanoseconds_def)

end
