(* ===== verification/HashtableDebug.thy ===== *)
theory HashtableDebug
  imports Hashtable Clock
begin

text \<open>
  The statistics that \<open>cflare_hashtable_printdebug\<close> of \<open>src/cflare/hashtable.c\<close> prints: how evenly the elements are spread over
  the buckets.

  What is printed is a record of the numbers and of the glyphs, each glyph by its height from 0 to 8. The layout, which a constant
  switches off, is left out, and so is the sum \<open>avg_per_buck\<close>, which nothing reads. \<open>round\<close> rounds half a unit away from zero;
  converting what is not a number to an \<open>int\<close> is undefined.
\<close>

section \<open>Glyphs\<close>

definition float_round :: "float64 \<Rightarrow> int option" where
  "float_round x = (case x of
       Finite s m e \<Rightarrow> Some ((if s then - 1 else 1) *
         (if 0 \<le> e then int m * 2 ^ nat e else int ((2 * m + 2 ^ nat (- e)) div 2 ^ Suc (nat (- e)))))
     | _ \<Rightarrow> None)"

definition float_to_int :: "int option \<Rightarrow> int res" where
  "float_to_int x = (case x of
       None \<Rightarrow> Inl Int_overflow
     | Some i \<Rightarrow> if - (2 ^ 31) \<le> i \<and> i < 2 ^ 31 then Inr i else Inl Int_overflow)"

datatype debug_mark = Block nat | Ninety_ninth

definition blockchar :: "float64 \<Rightarrow> debug_mark res" where
  "blockchar perc = bindE (float_to_int (float_round (float_times perc 8))) (\<lambda>count.
     Inr (Block (if 0 \<le> count \<and> count \<le> 7 then nat count else 8)))"

section \<open>The walk over the buckets\<close>

definition hits_len :: nat where "hits_len = 9"

text \<open>The collisions, the number of buckets for each number of elements, and the largest of those numbers.\<close>

definition bucket_count :: "'v cflare_hashtable_bucket \<Rightarrow> nat" where
  "bucket_count b = (case b of None \<Rightarrow> 0 | Some l \<Rightarrow> cflare_linkedlist_count l)"

definition debug_bucket :: "nat \<times> nat list \<times> nat \<Rightarrow> 'v cflare_hashtable_bucket \<Rightarrow> nat \<times> nat list \<times> nat" where
  "debug_bucket state b = (case state of (cols, hits, hits_max) \<Rightarrow>
     let count = bucket_count b;
         cols' = (if count > 1 then cols + (count - 1) else cols);
         hits_at = (if count < hits_len then count else hits_len - 1);
         hits' = hits[hits_at := hits ! hits_at + 1]
     in (cols', hits', if hits' ! hits_at > hits_max then hits' ! hits_at else hits_max))"

fun distro :: "nat list \<Rightarrow> nat \<Rightarrow> debug_mark list res" where
  "distro [] hits_max = Inr []"
| "distro (h # hits) hits_max =
     bindE (blockchar (float_div (float_of_int (int h)) (float_of_int (int hits_max)))) (\<lambda>b.
     bindE (distro hits hits_max) (\<lambda>bs. Inr (b # bs)))"

text \<open>The double next to 0.99.\<close>

definition ninety_nine :: float64 where
  "ninety_nine = Finite False 4458563631096791 (- 52)"

fun percentiles :: "nat list \<Rightarrow> float64 \<Rightarrow> float64 \<Rightarrow> bool \<Rightarrow> debug_mark list res" where
  "percentiles [] cnt whole done_99 = Inr []"
| "percentiles (h # hits) cnt whole done_99 =
     (let cnt' = float_add cnt (float_of_int (int h)) in
      if \<not> done_99 \<and> float_le ninety_nine (float_div cnt' whole)
      then bindE (percentiles hits cnt' whole True) (\<lambda>bs. Inr (Ninety_ninth # bs))
      else bindE (blockchar (float_div cnt' whole)) (\<lambda>b.
           bindE (percentiles hits cnt' whole done_99) (\<lambda>bs. Inr (b # bs))))"

record debug_report =
  dr_count :: nat
  dr_buckets :: nat
  dr_collisions :: nat
  dr_perfect :: nat
  dr_efficiency :: float64
  dr_distro :: "debug_mark list"
  dr_percentiles :: "debug_mark list"

definition cflare_hashtable_printdebug :: "'v cflare_hashtable \<Rightarrow> debug_report res" where
  "cflare_hashtable_printdebug tbl =
     (let perf_cols = (if ht_count tbl > length (ht_buckets tbl) then ht_count tbl - length (ht_buckets tbl) else 0);
          (cols, hits, hits_max) = foldl debug_bucket (0, replicate hits_len 0, 0) (ht_buckets tbl);
          eff = float_div (float_of_int (int (ht_count tbl + perf_cols))) (float_of_int (int (ht_count tbl + cols)))
      in bindE (distro hits hits_max) (\<lambda>ds.
         bindE (percentiles hits (Finite False 0 0) (float_of_int (int (length (ht_buckets tbl)))) False) (\<lambda>ps.
           Inr \<lparr>dr_count = ht_count tbl, dr_buckets = length (ht_buckets tbl), dr_collisions = cols, dr_perfect = perf_cols,
                dr_efficiency = eff, dr_distro = ds, dr_percentiles = ps\<rparr>)))"

section \<open>Proportions\<close>

text \<open>The share of a part in a whole is at most one, and one where they are the same.\<close>

lemma share_of_part:
  assumes "h \<le> n" and "0 < n" and "n < 2 ^ 53"
  shows "float_div (float_of_int (int h)) (float_of_int (int n)) = Finite False (quotient53 h n) (- 121)"
    and "quotient53 h n \<le> 2 ^ 121" and "h = n \<Longrightarrow> quotient53 h n = 2 ^ 121"
proof -
  have "h < 2 ^ 53" using assms by (rule_tac le_less_trans)
  then have r: "round53 h = h" "round53 n = n" using assms(3) by (simp_all only: round53_exact)
  show "float_div (float_of_int (int h)) (float_of_int (int n)) = Finite False (quotient53 h n) (- 121)"
    using assms(2) by (simp add: float_of_int_def float_div_def r)
  have one: "quotient53 n n = 2 ^ 121" using quotient53_exact [of 1 n 0] assms(2) by simp
  then show "h = n \<Longrightarrow> quotient53 h n = 2 ^ 121" by simp
  show "quotient53 h n \<le> 2 ^ 121" using quotient53_mono [OF assms(1), of n] one by simp
qed

lemma blockchar_share:
  assumes "q \<le> 2 ^ 121"
  shows "\<exists>k \<le> 8. blockchar (Finite False q (- 121)) = Inr (Block k) \<and> (q = 2 ^ 121 \<longrightarrow> k = 8)"
proof -
  have r: "round53 (2 ^ 124) = 2 ^ 124" using round53_shift [of 1 124] by simp
  have "round53 (q * 8) \<le> round53 (2 ^ 124)" using assms by (intro round53_mono) simp
  then have le: "(2 * round53 (q * 8) + 2 ^ 121) div 2 ^ 122 \<le> (2 * 2 ^ 124 + 2 ^ 121) div 2 ^ 122"
    unfolding r by (intro div_le_mono add_mono mult_le_mono2) simp_all
  let ?k = "(2 * round53 (q * 8) + 2 ^ 121) div 2 ^ 122"
  have k: "?k \<le> 8" using le by simp
  have step: "blockchar (Finite False q (- 121)) = Inr (Block (if ?k \<le> 7 then ?k else 8))"
    using k by (simp add: blockchar_def float_times_def float_round_def float_to_int_def)
  have "?k = 8" if "q = 2 ^ 121" 
  proof -
    have "q * 8 = 2 ^ 124" using that by simp
    then have "?k = (2 * 2 ^ 124 + 2 ^ 121) div 2 ^ 122" by (simp only: r)
    then show ?thesis by simp
  qed
  with step k show ?thesis by (intro exI [of _ ?k]) auto
qed

section \<open>What the walk counts\<close>

definition walk_ok :: "'v cflare_hashtable_bucket list \<Rightarrow> nat \<times> nat list \<times> nat \<Rightarrow> bool" where
  "walk_ok bs state \<longleftrightarrow> (case state of (cols, hits, hits_max) \<Rightarrow>
     cols = sum_list (map (\<lambda>b. bucket_count b - 1) bs) \<and> length hits = hits_len \<and> sum_list hits = length bs \<and>
     (\<forall>h \<in> set hits. h \<le> hits_max) \<and> hits_max \<in> set hits \<and> (bs \<noteq> [] \<longrightarrow> 0 < hits_max))"

lemma walk_step:
  assumes "walk_ok bs state"
  shows "walk_ok (bs @ [b]) (debug_bucket state b)"
proof -
  obtain cols hits m where s: "state = (cols, hits, m)" by (cases state) auto
  let ?i = "if bucket_count b < hits_len then bucket_count b else hits_len - 1"
  let ?hits = "hits[?i := hits ! ?i + 1]"
  from assms s have ok: "length hits = hits_len" "sum_list hits = length bs" "\<forall>h \<in> set hits. h \<le> m"
    "m \<in> set hits" by (auto simp: walk_ok_def)
  have i: "?i < length hits" by (simp add: ok(1) hits_len_def)
  have "sum_list ?hits = length bs + 1" using sum_list_map_update [OF i, of "\<lambda>x. x" "hits ! ?i + 1"] ok(2) by simp
  moreover have max: "\<forall>h \<in> set ?hits. h \<le> max m (hits ! ?i + 1)" using ok(3) set_update_subset_insert [of hits ?i "hits ! ?i + 1"] by fastforce
  moreover have here: "hits ! ?i + 1 \<in> set ?hits" using i by (rule set_update_memI)
  moreover have "max m (hits ! ?i + 1) \<in> set ?hits"
  proof (cases "m < hits ! ?i + 1")
    case True
    with here show ?thesis by (simp add: max_def)
  next
    case False
    then have "m \<noteq> hits ! ?i" by auto
    from ok(4) obtain j where j: "j < length hits" "hits ! j = m" by (auto simp: in_set_conv_nth)
    with \<open>m \<noteq> hits ! ?i\<close> have "?i \<noteq> j" by blast
    then have "?hits ! j = m" "j < length ?hits" by (simp_all only: nth_list_update_neq [OF \<open>?i \<noteq> j\<close>] length_list_update j)
    then have "m \<in> set ?hits" by (metis nth_mem)
    with False show ?thesis by (simp add: max_def)
  qed
  ultimately show ?thesis using assms s i by (auto simp: walk_ok_def debug_bucket_def Let_def max_def split: if_splits)
qed

lemma walk_all: "walk_ok bs (foldl debug_bucket (0, replicate hits_len 0, 0) bs)"
proof (induction bs rule: rev_induct)
  case Nil
  then show ?case by (simp add: walk_ok_def hits_len_def)
qed (simp add: walk_step)

lemma bucket_count_contents: "buckets_ok bs \<Longrightarrow> b \<in> set bs \<Longrightarrow> bucket_count b = length (bucket_contents b)"
  by (cases b) (auto simp: bucket_count_def cflare_linkedlist_count_def in_set_conv_nth list_ok_def dest!: buckets_ok_nth wf_count)

lemma bucket_counts_sum: "buckets_ok bs \<Longrightarrow> sum_list (map bucket_count bs) = length (entries bs)"
  by (simp add: entries_def length_concat comp_def bucket_count_contents cong: map_cong)

text \<open>Every element beyond the first of its bucket is a collision.\<close>

lemma collisions_sum: "sum_list (map (\<lambda>n. n - 1) ns) + length (filter (\<lambda>n. n \<noteq> 0) ns) = sum_list (ns :: nat list)"
  by (induction ns) auto

section \<open>What is printed\<close>

lemma distro_ok:
  assumes "\<forall>h \<in> set hits. h \<le> n" and "0 < n" and "n < 2 ^ 53"
  shows "\<exists>ks. distro hits n = Inr (map Block ks) \<and> length ks = length hits \<and> (\<forall>k \<in> set ks. k \<le> 8) \<and> (n \<in> set hits \<longrightarrow> 8 \<in> set ks)"
  using assms(1)
proof (induction hits)
  case (Cons h hits)
  then obtain ks where ks: "distro hits n = Inr (map Block ks)" "length ks = length hits" "\<forall>k \<in> set ks. k \<le> 8" "n \<in> set hits \<longrightarrow> 8 \<in> set ks"
    by auto
  from Cons.prems have "h \<le> n" by simp
  note share = share_of_part [OF this assms(2,3)]
  from blockchar_share [OF share(2)] obtain k where
    "k \<le> 8" "blockchar (Finite False (quotient53 h n) (- 121)) = Inr (Block k)" "quotient53 h n = 2 ^ 121 \<longrightarrow> k = 8" by blast
  with ks share(1,3) show ?case by (intro exI [of _ "k # ks"]) auto
qed simp

lemma one_is_more: "float_le ninety_nine (Finite False (2 ^ 121) (- 121))"
  by (simp add: ninety_nine_def float_le_def float_units_def)

lemma float_sum:
  assumes "a + h < 2 ^ 53"
  shows "float_add (Finite False a 0) (float_of_int (int h)) = Finite False (a + h) 0"
proof -
  have "h < 2 ^ 53" using assms by (rule le_less_trans [rotated]) simp
  then have h: "round53 h = h" by (rule round53_exact)
  have "nat (int a + int h) = a + h" by simp
  then show ?thesis by (simp add: float_add_def float_of_int_def float_units_def h round53_exact [OF assms])
qed

lemma percentiles_ok:
  assumes "a + sum_list hits \<le> n" and "0 < n" and "n < 2 ^ 53"
  shows "\<exists>bs. percentiles hits (Finite False a 0) (Finite False n 0) before = Inr bs \<and> length bs = length hits \<and>
    (before \<longrightarrow> Ninety_ninth \<notin> set bs) \<and>
    (\<not> before \<longrightarrow> length (filter (\<lambda>b. b = Ninety_ninth) bs) \<le> 1 \<and>
       (hits \<noteq> [] \<longrightarrow> a + sum_list hits = n \<longrightarrow> Ninety_ninth \<in> set bs))"
  using assms(1)
proof (induction hits arbitrary: a before)
  case (Cons h hits)
  have part: "a + h \<le> n" "a + h + sum_list hits \<le> n" using Cons.prems by simp_all
  have n: "round53 n = n" by (rule round53_exact [OF assms(3)])
  have whole: "Finite False n 0 = float_of_int (int n)" by (simp add: float_of_int_def n)
  have sum: "float_add (Finite False a 0) (float_of_int (int h)) = Finite False (a + h) 0"
    by (rule float_sum) (rule le_less_trans [OF part(1) assms(3)])
  have "a + h < 2 ^ 53" by (rule le_less_trans [OF part(1) assms(3)])
  then have here: "Finite False (a + h) 0 = float_of_int (int (a + h))" by (simp add: float_of_int_def round53_exact del: of_nat_add)
  note share = share_of_part [OF part(1) assms(2,3), folded here whole]
  from blockchar_share [OF share(2)] obtain k where k: "blockchar (Finite False (quotient53 (a + h) n) (- 121)) = Inr (Block k)" by blast
  let ?now = "\<not> before \<and> float_le ninety_nine (Finite False (quotient53 (a + h) n) (- 121))"
  from Cons.IH [OF part(2), of "before \<or> ?now"] obtain bs where
    bs: "percentiles hits (Finite False (a + h) 0) (Finite False n 0) (before \<or> ?now) = Inr bs" "length bs = length hits"
      "before \<or> ?now \<longrightarrow> Ninety_ninth \<notin> set bs"
      "\<not> (before \<or> ?now) \<longrightarrow> length (filter (\<lambda>b. b = Ninety_ninth) bs) \<le> 1 \<and>
        (hits \<noteq> [] \<longrightarrow> a + h + sum_list hits = n \<longrightarrow> Ninety_ninth \<in> set bs)" by blast
  have full: ?now if "\<not> before" "hits = []" "a + h + sum_list hits = n"
    using that share(3) one_is_more by simp
  show ?case
  proof (cases ?now)
    case True
    then have "percentiles (h # hits) (Finite False a 0) (Finite False n 0) before = Inr (Ninety_ninth # bs)"
      using bs(1) by (simp add: sum share(1))
    with True bs(2,3) show ?thesis by (intro exI [of _ "Ninety_ninth # bs"]) (auto simp: filter_empty_conv)
  next
    case False
    then have "percentiles (h # hits) (Finite False a 0) (Finite False n 0) before = Inr (Block k # bs)"
      using bs(1) k by (auto simp: sum share(1))
    with False bs(2-4) full show ?thesis by (intro exI [of _ "Block k # bs"]) auto
  qed
qed simp

section \<open>Properties\<close>

lemma distro_empty: "distro (replicate hits_len 0) 0 = Inl Int_overflow"
proof -
  have "blockchar (float_div (float_of_int 0) (float_of_int 0)) = Inl Int_overflow"
    by (simp add: blockchar_def float_of_int_def float_div_def float_times_def float_round_def float_to_int_def)
  moreover have "replicate hits_len (0 :: nat) = 0 # replicate 8 0" by (simp add: hits_len_def numeral_eq_Suc)
  ultimately show ?thesis by (simp only: distro.simps) simp
qed

text \<open>
  C15: on a table that has been written to, the statistics are right: each bucket with elements makes all but one of its elements collisions, so the
  collisions are at least the fewest possible (\<open>perfect\<close>) and the efficiency is at most one; nine columns are drawn of which the highest is full, and the mark of
  the 99th percentile is set exactly once. On a table that has never been written to the columns are quotients of zeros, and
  converting one of them to an integer is undefined.
\<close>

theorem hashtable_debug_report:
  assumes inv: "ht_inv t" and size: "length (ht_buckets t) < 2 ^ 53" "ht_count t < 2 ^ 52"
  shows "if ht_buckets t = [] then cflare_hashtable_printdebug t = Inl Int_overflow
    else \<exists>r ks. cflare_hashtable_printdebug t = Inr r \<and> dr_count r = card (dom (ht_map t)) \<and>
      dr_collisions r + length (filter (\<lambda>b. bucket_count b \<noteq> 0) (ht_buckets t)) = ht_count t \<and> dr_perfect r \<le> dr_collisions r \<and>
      (0 < ht_count t \<longrightarrow> float_le (dr_efficiency r) (Finite False 1 0)) \<and>
      dr_distro r = map Block ks \<and> length ks = 9 \<and> (\<forall>k \<in> set ks. k \<le> 8) \<and> 8 \<in> set ks \<and>
      length (dr_percentiles r) = 9 \<and> length (filter (\<lambda>b. b = Ninety_ninth) (dr_percentiles r)) = 1"
proof (cases "ht_buckets t = []")
  case True
  then show ?thesis by (simp add: cflare_hashtable_printdebug_def distro_empty)
next
  case False
  let ?bs = "ht_buckets t"
  have bs: "buckets_ok ?bs" "ht_count t = sum_list (map bucket_count ?bs)" using inv bucket_counts_sum [of ?bs] by (auto simp: ht_inv_def)
  obtain cols hits m where w: "foldl debug_bucket (0, replicate hits_len 0, 0) ?bs = (cols, hits, m)" by (metis prod_cases3)
  with walk_all [of ?bs] False have walk: "cols = sum_list (map (\<lambda>b. bucket_count b - 1) ?bs)" "length hits = 9" "sum_list hits = length ?bs"
    "\<forall>h \<in> set hits. h \<le> m" "m \<in> set hits" "0 < m" by (auto simp: walk_ok_def hits_len_def)
  have "m \<le> sum_list hits" using walk(5) by (rule member_le_sum_list) simp
  then have m: "m < 2 ^ 53" using size(1) unfolding walk(3) by (rule le_less_trans)
  from distro_ok [OF walk(4,6) m] walk(2,5) obtain ks where
    ks: "distro hits m = Inr (map Block ks)" "length ks = 9" "\<forall>k \<in> set ks. k \<le> 8" "8 \<in> set ks" by auto
  have n: "0 < length ?bs" "float_of_int (int (length ?bs)) = Finite False (length ?bs) 0" "hits \<noteq> []"
    using False walk(2) round53_exact [OF size(1)] by (auto simp: float_of_int_def)
  from percentiles_ok [of 0 hits "length ?bs" False, OF _ n(1) size(1)] walk(2,3) n(3) obtain ps where
    ps: "percentiles hits (Finite False 0 0) (Finite False (length ?bs) 0) False = Inr ps" "length ps = 9"
      "length (filter (\<lambda>b. b = Ninety_ninth) ps) \<le> 1" "Ninety_ninth \<in> set ps" by auto
  from ps(4) have "0 < length (filter (\<lambda>b. b = Ninety_ninth) ps)" by (auto simp: filter_empty_conv)
  with ps(3) have once: "length (filter (\<lambda>b. b = Ninety_ninth) ps) = 1" by linarith
  let ?full = "length (filter (\<lambda>b. bucket_count b \<noteq> 0) ?bs)"
  let ?perf = "if ht_count t > length ?bs then ht_count t - length ?bs else 0"
  let ?eff = "float_div (float_of_int (int (ht_count t + ?perf))) (float_of_int (int (ht_count t + cols)))"
  have coll: "cols + ?full = ht_count t"
    using collisions_sum [of "map bucket_count ?bs"] by (simp add: walk(1) bs(2) comp_def filter_map)
  moreover have "?full \<le> length ?bs" by (rule length_filter_le)
  ultimately have "ht_count t - length ?bs \<le> cols" by linarith
  then have perf: "?perf \<le> cols" by simp
  have eff: "float_le ?eff (Finite False 1 0)" if "0 < ht_count t"
  proof -
    have "ht_count t + ?perf \<le> ht_count t + cols" "0 < ht_count t + cols" using perf that by simp_all
    moreover have "ht_count t + cols < 2 ^ 53" using coll size(2) by simp
    ultimately show ?thesis using share_of_part [of "ht_count t + ?perf" "ht_count t + cols"] by (simp add: float_le_def float_units_def)
  qed
  have "cflare_hashtable_printdebug t = Inr \<lparr>dr_count = ht_count t, dr_buckets = length ?bs, dr_collisions = cols, dr_perfect = ?perf,
      dr_efficiency = ?eff, dr_distro = map Block ks, dr_percentiles = ps\<rparr>"
    by (simp add: cflare_hashtable_printdebug_def w ks(1) n(2) ps(1) del: of_nat_add)
  with coll perf eff ks(2-4) ps(2) once count_ok [OF inv] False show ?thesis by simp blast
qed

lemma hashtable_debug_report_witness:
  "cflare_hashtable_printdebug (cflare_hashtable_new :: string cflare_hashtable) = Inl Int_overflow \<and>
   (\<exists>t calls r. cflare_hashtable_set cflare_hashtable_new (cflare_hash_compute ''a'') (Some ''b'') = Inr (t, calls) \<and>
     cflare_hashtable_printdebug t = Inr r \<and> dr_count r = 1 \<and> dr_collisions r \<le> 1)"
proof -
  have new: "ht_inv (cflare_hashtable_new :: string cflare_hashtable)" "ht_map (cflare_hashtable_new :: string cflare_hashtable) = Map.empty"
    "ht_buckets (cflare_hashtable_new :: string cflare_hashtable) = []" "ht_count (cflare_hashtable_new :: string cflare_hashtable) = 0"
    by (auto simp: ht_inv_def buckets_ok_def cflare_hashtable_new_def ht_map_def entries_map_def)
  from set_some_ok [OF new(1), of "cflare_hash_compute ''a''" "''b''"] new(2-4) obtain t calls where
    t: "cflare_hashtable_set cflare_hashtable_new (cflare_hash_compute ''a'') (Some ''b'') = Inr (t, calls)" "ht_inv t"
      "ht_map t = [cflare_hash_compute ''a'' \<mapsto> ''b'']" "length (ht_buckets t) = 32"
    by (auto simp: buckets_for_def)
  then have "ht_buckets t \<noteq> []" "ht_count t = 1" by (auto simp: count_ok)
  with hashtable_debug_report [OF t(2)] t hashtable_debug_report [OF new(1)] new(3,4) show ?thesis
    by (intro conjI exI [of _ t] exI [of _ calls]) auto
qed

end
