(* ===== verification/Messages.thy ===== *)
theory Messages
  imports Library
begin

text \<open>
  The formatted messages: the macros of \<open>src/cflare/util.h\<close> around the logging functions, \<open>vasprintf\<close>, \<open>asprintf\<close> and
  \<open>cflare_format\<close> of \<open>src/cflare-windows/util.c\<close> and \<open>src/cflare-posix/util.c\<close>, and the functions of
  \<open>src/cflare-windows/\<close> that are not implemented.

  What a format and its arguments make of themselves is an argument, \<open>None\<close> where the formatting of the C library reports an error. A variable that
  has not been written is \<open>None\<close> too, and using it as a pointer is undefined.
\<close>

section \<open>Formatting\<close>

text \<open>The value returned, and what \<open>*strp\<close> points to.\<close>

definition vasprintf :: "bool \<Rightarrow> string option \<Rightarrow> (int \<times> string option) res" where
  "vasprintf malloc_ok formatted =
     (let count = (case formatted of None \<Rightarrow> - 1 | Some s \<Rightarrow> int (length s)) in
      if count = 0 then Inr (0, Some [NUL])
      else if count < 0 then Inr (count, None)
      else if \<not> malloc_ok then Inl (Fatal ''vasprintf: Out of memory!'')
      else Inr (count, map_option (\<lambda>s. s @ [NUL]) formatted))"

definition asprintf :: "bool \<Rightarrow> string option \<Rightarrow> (int \<times> string option) res" where
  "asprintf malloc_ok formatted = bindE (vasprintf malloc_ok formatted) (\<lambda>(count, strp). Inr (count, strp))"

definition cflare_format :: "bool \<Rightarrow> string option \<Rightarrow> string option res" where
  "cflare_format malloc_ok formatted = bindE (vasprintf malloc_ok formatted) (\<lambda>(_, ret). Inr ret)"

section \<open>The macros\<close>

text \<open>What \<open>asprintf\<close> returns is not looked at; the string is printed and freed.\<close>

type_synonym 's printer = "string \<Rightarrow> ('s \<times> stream \<times> string) res"

definition message_macro :: "bool \<Rightarrow> 's printer \<Rightarrow> string option \<Rightarrow> ('s \<times> stream \<times> string) res" where
  "message_macro malloc_ok print formatted =
     bindE (asprintf malloc_ok formatted) (\<lambda>(_, fmt_string).
     bindE (derefE fmt_string Dangling) (\<lambda>block.
     bindE (cstr block) print))"

definition cflare_debug ::
  "bool \<Rightarrow> ('f, 's) hook_runner \<Rightarrow> 'f cflare_hookstack_elm \<Rightarrow> 'p hook_state \<Rightarrow> 's \<Rightarrow> string option \<Rightarrow> ('s \<times> stream \<times> string) res" where
  "cflare_debug malloc_ok run junk st world = message_macro malloc_ok (cflare_debug_c run junk st world)"

definition cflare_info ::
  "bool \<Rightarrow> ('f, 's) hook_runner \<Rightarrow> 'f cflare_hookstack_elm \<Rightarrow> 'p hook_state \<Rightarrow> 's \<Rightarrow> string option \<Rightarrow> ('s \<times> stream \<times> string) res" where
  "cflare_info malloc_ok run junk st world = message_macro malloc_ok (cflare_info_c run junk st world)"

definition cflare_log ::
  "bool \<Rightarrow> ('f, 's) hook_runner \<Rightarrow> 'f cflare_hookstack_elm \<Rightarrow> 'p hook_state \<Rightarrow> 's \<Rightarrow> string option \<Rightarrow> ('s \<times> stream \<times> string) res" where
  "cflare_log malloc_ok run junk st world = message_macro malloc_ok (cflare_log_c run junk st world)"

definition cflare_warn ::
  "bool \<Rightarrow> ('f, 's) hook_runner \<Rightarrow> 'f cflare_hookstack_elm \<Rightarrow> 'p hook_state \<Rightarrow> 's \<Rightarrow> string option \<Rightarrow> ('s \<times> stream \<times> string) res" where
  "cflare_warn malloc_ok run junk st world = message_macro malloc_ok (cflare_warn_c run junk st world)"

definition cflare_fatal ::
  "bool \<Rightarrow> ('f, 's) hook_runner \<Rightarrow> 'f cflare_hookstack_elm \<Rightarrow> 'p hook_state \<Rightarrow> 's \<Rightarrow> string option \<Rightarrow> unit res" where
  "cflare_fatal malloc_ok run junk st world formatted =
     bindE (asprintf malloc_ok formatted) (\<lambda>(_, fmt_string).
     bindE (derefE fmt_string Dangling) (\<lambda>block.
     bindE (cstr block) (cflare_fatal_c run junk st world)))"

text \<open>The message of a function that is not implemented: its file, line and name.\<close>

definition notimp_message :: "string \<Rightarrow> nat \<Rightarrow> string \<Rightarrow> string" where
  "notimp_message file_name line func = file_name @ '':'' @ decimal line @ '': '' @ func @ ''(): not implemented''"

definition cflare_notimp ::
  "bool \<Rightarrow> ('f, 's) hook_runner \<Rightarrow> 'f cflare_hookstack_elm \<Rightarrow> 'p hook_state \<Rightarrow> 's \<Rightarrow> string \<Rightarrow> nat \<Rightarrow> string \<Rightarrow> unit res" where
  "cflare_notimp malloc_ok run junk st world file_name line func =
     cflare_fatal malloc_ok run junk st world (Some (notimp_message file_name line func))"

section \<open>What Windows lacks\<close>

text \<open>The functions of a file whose body is \<open>cflare_notimp()\<close>, each with the line of that call.\<close>

definition windows_socket :: "(string \<times> nat) list" where
  "windows_socket =
     [(''cflare_socket_listen'', 15), (''cflare_listener_delete'', 21), (''cflare_listener_accept'', 26), (''cflare_listener_port'', 31),
      (''cflare_listener_address'', 36), (''cflare_listener_close'', 41), (''cflare_socket_connect'', 47), (''cflare_socket_delete'', 52),
      (''cflare_socket_ip'', 57), (''cflare_socket_port'', 62), (''cflare_socket_connected'', 68), (''cflare_socket_read'', 74),
      (''cflare_socket_write'', 81), (''cflare_socket_read_line'', 87), (''cflare_socket_write_line'', 94), (''cflare_socket_flush'', 100),
      (''cflare_socket_close'', 105), (''cflare_socket_timeout'', 110), (''cflare_listener_timeout'', 115)]"

definition windows_thread :: "(string \<times> nat) list" where
  "windows_thread =
     [(''cflare_thread_new'', 8), (''cflare_thread_delete'', 13), (''cflare_thread_join'', 18), (''cflare_thread_detach'', 24),
      (''cflare_thread_id'', 29), (''cflare_thread_sleep'', 35)]"

definition windows_filesystem :: "(string \<times> nat) list" where
  "windows_filesystem = [(''cflare_filesystem_list'', 6)]"

text \<open>A call of a function by its name; \<open>None\<close> where the file does not define it, which the linker reports.\<close>

definition call_windows ::
  "bool \<Rightarrow> ('f, 's) hook_runner \<Rightarrow> 'f cflare_hookstack_elm \<Rightarrow> 'p hook_state \<Rightarrow> 's \<Rightarrow> string \<Rightarrow> (string \<times> nat) list \<Rightarrow> string
   \<Rightarrow> unit res option" where
  "call_windows malloc_ok run junk st world file_name funcs func =
     map_option (\<lambda>line. cflare_notimp malloc_ok run junk st world file_name line func) (map_of funcs func)"

section \<open>Properties\<close>

lemma asprintf_text: "asprintf malloc_ok (Some s) = (if s = [] \<or> malloc_ok then Inr (int (length s), Some (s @ [NUL]))
    else Inl (Fatal ''vasprintf: Out of memory!''))"
  by (simp add: asprintf_def vasprintf_def Let_def)

lemma message_text:
  "NUL \<notin> set s \<Longrightarrow> s = [] \<or> malloc_ok \<Longrightarrow> message_macro malloc_ok print (Some s) = print s"
  by (simp add: message_macro_def asprintf_text cstr_terminated)

lemma fatal_text:
  "NUL \<notin> set s \<Longrightarrow> s = [] \<or> malloc_ok \<Longrightarrow> cflare_fatal malloc_ok run junk st world (Some s) = cflare_fatal_c run junk st world s"
  by (simp add: cflare_fatal_def asprintf_text cstr_terminated)

lemma fatal_aborts:
  assumes "hook_inv st \<or> \<not> hs_loaded st"
  shows "cflare_fatal_c run junk st world s = Inl (Fatal s)"
proof -
  from call_log_hook_ok [OF assms, of s "''fatal''" run junk world] obtain w where
    "call_log_hook run junk st world ''fatal'' s = Inr w" by blast
  then show ?thesis by (simp add: cflare_fatal_c_def log_with_def split: prod.split)
qed

lemma decimal_printable: "NUL \<notin> set (decimal n)"
  using decimal_digits [of n] by (auto simp: is_digit_def)

text \<open>
  a message that can be formatted reaches the logging functions as it is; \<open>cflare_fatal\<close> aborts with it. If memory runs out, the
  replacement of \<open>vasprintf\<close> aborts instead. But if it cannot be formatted, the macros go on with a pointer that was never written, and
  \<open>cflare_format\<close> returns it. Every function that Windows lacks aborts with the place in the code and its name.
\<close>

theorem formatted_messages:
  assumes st: "hook_inv st \<or> \<not> hs_loaded st" and s: "NUL \<notin> set s" and name: "NUL \<notin> set file_name"
  shows "cflare_log True run junk st world (Some s) = cflare_log_c run junk st world s \<and>
    cflare_debug True run junk st world (Some s) = cflare_debug_c run junk st world s \<and>
    cflare_info True run junk st world (Some s) = cflare_info_c run junk st world s \<and>
    cflare_warn True run junk st world (Some s) = cflare_warn_c run junk st world s \<and>
    cflare_fatal True run junk st world (Some s) = Inl (Fatal s) \<and>
    cflare_format True (Some s) = Inr (Some (s @ [NUL])) \<and>
    (s \<noteq> [] \<longrightarrow> cflare_log False run junk st world (Some s) = Inl (Fatal ''vasprintf: Out of memory!'')) \<and>
    cflare_log malloc_ok run junk st world None = Inl Dangling \<and> cflare_fatal malloc_ok run junk st world None = Inl Dangling \<and>
    cflare_format malloc_ok None = Inr None \<and>
    (\<forall>funcs \<in> {windows_socket, windows_thread, windows_filesystem}. \<forall>(func, line) \<in> set funcs.
       call_windows True run junk st world file_name funcs func = Some (Inl (Fatal (notimp_message file_name line func))))"
proof -
  have stub: "call_windows True run junk st world file_name funcs func = Some (Inl (Fatal (notimp_message file_name line func)))"
    if "(func, line) \<in> set funcs" "distinct (map fst funcs)" "\<forall>(f, l) \<in> set funcs. NUL \<notin> set f" for funcs func line
  proof -
    have "map_of funcs func = Some line" using that(1,2) by simp
    moreover have "NUL \<notin> set (notimp_message file_name line func)"
      using that(1,3) name decimal_printable by (auto simp: notimp_message_def)
    ultimately show ?thesis by (simp add: call_windows_def cflare_notimp_def fatal_text fatal_aborts [OF st])
  qed
  have names: "distinct (map fst windows_socket)" "distinct (map fst windows_thread)" "distinct (map fst windows_filesystem)"
    "\<forall>(f, l) \<in> set windows_socket. NUL \<notin> set f" "\<forall>(f, l) \<in> set windows_thread. NUL \<notin> set f" "\<forall>(f, l) \<in> set windows_filesystem. NUL \<notin> set f"
    by (simp_all add: windows_socket_def windows_thread_def windows_filesystem_def)
  have "\<forall>funcs \<in> {windows_socket, windows_thread, windows_filesystem}. \<forall>(func, line) \<in> set funcs.
       call_windows True run junk st world file_name funcs func = Some (Inl (Fatal (notimp_message file_name line func)))"
    using names by (auto intro!: stub)
  moreover have "cflare_log True run junk st world (Some s) = cflare_log_c run junk st world s"
    "cflare_debug True run junk st world (Some s) = cflare_debug_c run junk st world s"
    "cflare_info True run junk st world (Some s) = cflare_info_c run junk st world s"
    "cflare_warn True run junk st world (Some s) = cflare_warn_c run junk st world s"
    using s by (simp_all add: cflare_log_def cflare_debug_def cflare_info_def cflare_warn_def message_text)
  moreover have "cflare_fatal True run junk st world (Some s) = Inl (Fatal s)"
    using s by (simp add: fatal_text fatal_aborts [OF st])
  moreover have "cflare_format True (Some s) = Inr (Some (s @ [NUL]))" "cflare_format malloc_ok None = Inr None"
    by (simp_all add: cflare_format_def vasprintf_def Let_def)
  moreover have "s \<noteq> [] \<longrightarrow> cflare_log False run junk st world (Some s) = Inl (Fatal ''vasprintf: Out of memory!'')"
    by (simp add: cflare_log_def message_macro_def asprintf_text)
  moreover have "cflare_log malloc_ok run junk st world None = Inl Dangling" "cflare_fatal malloc_ok run junk st world None = Inl Dangling"
    by (simp_all add: cflare_log_def message_macro_def cflare_fatal_def asprintf_def vasprintf_def)
  ultimately show ?thesis by blast
qed

lemma formatted_messages_witness:
  "\<forall>junk :: int cflare_hookstack_elm. 
     call_windows True (\<lambda>f args w ctx. (w, False)) junk no_hooks (0 :: nat) ''thread.c'' windows_thread ''cflare_thread_new'' =
       Some (Inl (Fatal (''thread.c:8: cflare_thread_new(): not implemented'')))"
proof
  fix junk :: "int cflare_hookstack_elm"
  have message: "notimp_message ''thread.c'' 8 ''cflare_thread_new'' = ''thread.c:8: cflare_thread_new(): not implemented''" by code_simp
  have "(''cflare_thread_new'', 8) \<in> set windows_thread" by (simp add: windows_thread_def)
  then have "call_windows True (\<lambda>f args w ctx. (w, False)) junk no_hooks (0 :: nat) ''thread.c'' windows_thread ''cflare_thread_new'' =
    Some (Inl (Fatal (notimp_message ''thread.c'' 8 ''cflare_thread_new'')))"
    using formatted_messages [OF disjI1 [OF no_hooks_inv(1)], of "''x''" "''thread.c''" "\<lambda>f args w ctx. (w, False)" junk 0 True] by fastforce
  then show "call_windows True (\<lambda>f args w ctx. (w, False)) junk no_hooks (0 :: nat) ''thread.c'' windows_thread ''cflare_thread_new'' =
       Some (Inl (Fatal (''thread.c:8: cflare_thread_new(): not implemented'')))"
    by (simp only: message)
qed

end
