(* ===== verification/Spec2Isabelle.thy ===== *)
theory Spec2Isabelle
  imports Url Buffer RequestBounds RequestRefuse Filesystem RwLock PosixThread Handover Program
    UnitTest HashtableDebug Messages
begin

text \<open>
  CFlare: a verification development.

  CFlare is an HTTP server in C. The executable, \<open>src/main.c\<close>, accepts connections in one coroutine and
  hands each to a worker; the worker reads a request from the socket, parses it in place in a buffer of 4096
  bytes, and calls the hooks of the event \<open>Request\<close>, whose functions write the response. The library
  under \<open>src/cflare/\<close> has the data structures this rests on; \<open>src/cflare-posix/\<close> and
  \<open>src/cflare-windows/\<close> hold what depends on the operating system. Paths here are below the
  directory \<open>src\<close> of the repository.

  \<^bold>\<open>Conventions.\<close> A C function is a HOL function of the same name into \<open>fault + 'a\<close>, in
  \<open>Cflare_Prelude\<close>: \<open>Inl\<close> is a failed \<open>assert\<close>, an abort of \<open>cflare_fatal\<close>, an undefined
  behaviour that the code can run into (a null or dangling pointer, an access out of bounds, an overflow of
  a signed integer), or a call that never returns. A struct is a record. Memory is modelled where the code
  shares it: the nodes of a list, the lists of the hook system, borrowed parts of a buffer, loaded headers, the
  block of a coroutine are in stores of their own, and using what was freed is a fault. A \<open>size_t\<close> is a natural
  number where the code cannot make it wrap and a word, or the wrap-around is written out, where it can.
  Deleters and callbacks are recorded as the list of their calls. Allocation does not fail, except where the
  code grows a table with a test of the result.

  \<^bold>\<open>The data structures\<close>, each over the ones before it.
    \<^item> \<open>LinkedList\<close>: \<open>cflare/linkedlist.c\<close>. Every operation on a store of nodes; \<open>ll_wf\<close> is the shape of a
      doubly linked list and \<open>ll_contents\<close> its abstraction. Every operation keeps the one and refines the
      operation on HOL lists; iterators, removal below one, and what inserting before null does.
    \<^item> \<open>Hash\<close>, \<open>Hashtable\<close>: \<open>cflare/hash.c\<close>, \<open>cflare/hashtable.c\<close>. FNV-1a on 32-bit words; the buckets are
      linked lists. The table refines a partial map; it grows and shrinks by four, and no binding is lost.
      What its clients rely on is a locale there, interpreted on the table.
    \<^item> \<open>Hook\<close>: \<open>cflare/hook.c\<close>, the ordered hooks of an event and the stacks of arguments and results.
    \<^item> \<open>Handle\<close>: \<open>cflare/handle.c\<close>, 255 slots with reference counts, as a partial map from live handles.
    \<^item> \<open>Buffer\<close>, \<open>Util\<close>, \<open>Url\<close>: \<open>cflare/buffer.c\<close>, \<open>cflare/util.c\<close>, \<open>cflare/url.c\<close>. Building concatenates;
      numbers are parsed through doubles of 53 bits; decoding in place agrees with a decoding function.
    \<^item> \<open>HttpStatus\<close>, \<open>Headers\<close>, \<open>Options\<close>, \<open>Hosts\<close>: \<open>cflare/httpstatus.c\<close>, \<open>cflare/headers.c\<close>,
      \<open>cflare/options.c\<close>, \<open>cflare/hosts.c\<close>, the tables that are loaded at the start.
\<close>

text \<open>
  \<^bold>\<open>The connections.\<close>
    \<^item> \<open>Socket\<close>, \<open>Listener\<close>: \<open>cflare-posix/socket.c\<close>. A socket is what the network will answer and the bytes
      that were put back in front of it; \<open>Listener\<close> has listening, accepting and connecting over the answers of
      \<open>getaddrinfo\<close>, \<open>socket\<close>, \<open>bind\<close> and the rest, with the descriptors opened and closed as events.
    \<^item> \<open>Response\<close>, \<open>ResponseText\<close>: the half of \<open>cflare/request.c\<close> that answers, and the text it sends.
    \<^item> \<open>Request\<close>: the half of \<open>cflare/request.c\<close> that reads and parses. \<open>RequestRead\<close>, \<open>RequestParse\<close>,
      \<open>RequestProps\<close>, \<open>RequestBounds\<close> and \<open>RequestRefuse\<close> prove what becomes of a head: it is read whatever the
      fragments; a well-formed head means what it says; what follows it is put back; no bytes at all make the parser
      leave its buffer (but for the look at the version, which may run past what was read); which requests are refused.
    \<^item> \<open>Worker\<close>, \<open>Server\<close>: the coroutines of \<open>main.c\<close>. The requests of one connection and the connections of one worker, with one
      request object for all; the acceptor and the handler of signals.
    \<^item> \<open>Handover\<close>: the acceptor and any number of workers together, a step from one wait to the next, in any order. Where woken
      workers run promptly each connection is taken by exactly one; without that, two can take the same.

  \<^bold>\<open>The surroundings.\<close>
    \<^item> \<open>Filesystem\<close>: \<open>cflare-posix/filesystem.c\<close>, over the entries that \<open>readdir\<close> returns.
    \<^item> \<open>LockTable\<close>, \<open>RwLock\<close>: \<open>cflare-windows/mutex.c\<close>. The table of locks is a pool of identities (a locale,
      interpreted on the table). The read-write lock is cut into the steps between two calls of the system; an
      inductive relation interleaves the steps of any number of threads, and the exclusion of writers is an
      invariant of what is reachable.
    \<^item> \<open>PosixThread\<close>, \<open>Coroutine\<close>: \<open>cflare-posix/mutex.c\<close>, \<open>cflare-posix/thread.c\<close>, \<open>cflare/coroutine.c\<close>, as
      the calls they make of the libraries below them.
    \<^item> \<open>Library\<close>, \<open>Lifecycle\<close>, \<open>Messages\<close>: the logging of \<open>cflare/util.c\<close> through hooks and the macros of \<open>cflare/util.h\<close>
      around it, loading and unloading in \<open>cflare/cflare.c\<close>, and what Windows does not implement. A loaded library is well formed in every component, whatever its files hold;
      a well-formed one is unloaded without a fault and can be loaded again.
    \<^item> \<open>Float64\<close>: the doubles of the time-outs in \<open>cflare-posix/socket.c\<close>, \<open>cflare-posix/thread.c\<close> and
      \<open>cflare/coroutine.c\<close>. Rounding to 53 bits keeps the order, so the milliseconds of a wait are next to the exact ones.
    \<^item> \<open>Clock\<close>, \<open>HashtableDebug\<close>: \<open>cflare_time\<close> of both systems, which does not go back, and the statistics of a hash table, over
      quotients and sums of doubles.
    \<^item> \<open>Program\<close>: \<open>main\<close> of \<open>main.c\<close>, composed of the models above.
    \<^item> \<open>UnitTest\<close>, \<open>MutexTest\<close>: \<open>unit-test.c\<close>. Each test is run on the model of what it tests: what they answer, and that one of
      them reads out of bounds. The threads of the tests of the mutexes are interleaved: no addition is lost, no half-done write is seen.

  \<^bold>\<open>Parameters.\<close> What is not in the repository is an argument: the sockets and the directories of the
  operating system, the answers of pthread and lthread, the slim locks of Windows and \<open>GetCurrentThread()\<close>, the
  functions of hooks, the addresses that \<open>malloc\<close> gives in a freed or stored pointer, the contents of uninitialised
  memory. A hypothesis about one of them states its documentation, and a witness instantiates it.

  \<^bold>\<open>Fuel.\<close> Most loops are structural or have a measure. Fuel stands where the loop of the code has no bound
  of its own: the loop over the requests of a connection needs one unit for each request (\<open>Worker\<close>), the walk
  over a list of hooks one more than their number (\<open>Hook\<close>), the search for an unused lock the length of the
  table (\<open>LockTable\<close>), the descent into directories one for each level (\<open>Filesystem\<close>). The theorems state
  that this is enough. Loops that wait for an answer (a join, a condition, a receive) run over the list of
  the answers; running out of answers is \<open>Blocked\<close>.
\<close>

text \<open>
  \<^bold>\<open>Not modelled.\<close>
    \<^item> The debug output and the demonstrations kept in comments in \<open>main.c\<close>, and the alternatives that \<open>hash.c\<close> keeps in comments.
    \<^item> How \<open>printf\<close> formats: what a format makes of its arguments is an argument (\<open>Messages\<close>), and the statistics of a table are a
      record of numbers.
    \<^item> The locks in the hash table and the handles: an operation is one step there. And the table of locks moving
      in memory, by \<open>realloc\<close>, while another thread waits in a lock of it.
\<close>

end
